(* ===== verification/Prelude.thy ===== *)
theory Prelude
  imports Main "HOL-Library.Word"
begin

text \<open>
  Shared vocabulary of the development: how a C function that may stop the kernel is
  modelled (\<open>fault\<close>, \<open>res\<close>, \<open>bnd\<close>), the bit macros of
  \<^verbatim>\<open>include/minix/const.h\<close>, loops over an index range, and the generic
  lemmas on lists, sums and words that the component theories use.

  A function of the kernel either returns or stops: it calls \<open>panic()\<close>, it
  dereferences a NULL pointer, it indexes an array outside its bounds, it uses an object
  through a pointer of the wrong type, it divides by zero, or a loop of it never ends. These are
  the values \<open>Inl f\<close> of the result type; error codes such as \<open>E_BAD_PROC\<close> are ordinary
  return values.
\<close>

unbundle bit_operations_syntax

subsection \<open>Results\<close>

datatype fault =
    Panic string      \<comment> \<open>\<open>panic()\<close> was called with this message\<close>
  | NullDeref         \<comment> \<open>a NULL pointer was dereferenced\<close>
  | OutOfBounds       \<comment> \<open>an array was indexed outside its bounds\<close>
  | BadCast           \<comment> \<open>a \<open>void *\<close> was used as a pointer to another kind of object\<close>
  | DivZero           \<comment> \<open>a division by zero\<close>
  | Diverge           \<comment> \<open>the fuel of a loop ran out\<close>

type_synonym 'a res = "fault + 'a"

type_synonym u32 = "32 word"
type_synonym u8 = "8 word"

named_theorems res_simps \<open>evaluation of results\<close>

fun bnd :: "'a res \<Rightarrow> ('a \<Rightarrow> 'b res) \<Rightarrow> 'b res" where
  "bnd (Inl e) f = Inl e"
| "bnd (Inr x) f = f x"

definition deref :: "'a option \<Rightarrow> 'a res" where
  "deref p = (case p of None \<Rightarrow> Inl NullDeref | Some x \<Rightarrow> Inr x)"

definition chk :: "bool \<Rightarrow> fault \<Rightarrow> 'a res \<Rightarrow> 'a res" where
  "chk b e m = (if b then m else Inl e)"

lemma deref_simps [simp]: "deref None = Inl NullDeref" "deref (Some x) = Inr x"
  by (simp_all add: deref_def)

lemma deref_eq_Inr [simp]: "deref p = Inr x \<longleftrightarrow> p = Some x"
  by (simp add: deref_def split: option.split)

lemma chk_True [simp]: "b \<Longrightarrow> chk b e m = m"
  by (simp add: chk_def)

lemma chk_False [simp]: "\<not> b \<Longrightarrow> chk b e m = Inl e"
  by (simp add: chk_def)

lemma chk_eq_Inr [simp]: "chk b e m = Inr x \<longleftrightarrow> b \<and> m = Inr x"
  by (simp add: chk_def)

lemma bnd_eq_Inr: "bnd m f = Inr y \<longleftrightarrow> (\<exists>x. m = Inr x \<and> f x = Inr y)"
  by (cases m) auto

lemma bnd_eq_Inl: "bnd m f = Inl e \<longleftrightarrow> m = Inl e \<or> (\<exists>x. m = Inr x \<and> f x = Inl e)"
  by (cases m) auto

lemma bnd_assoc: "bnd (bnd m f) g = bnd m (\<lambda>x. bnd (f x) g)"
  by (cases m) auto

lemma bnd_Inr_right [simp]: "bnd m Inr = m"
  by (cases m) auto

lemma bnd_InrE:
  assumes "bnd m f = Inr y"
  obtains x where "m = Inr x" and "f x = Inr y"
  using assms by (auto simp: bnd_eq_Inr)

lemma bnd_cong: "m = m' \<Longrightarrow> (\<And>x. m' = Inr x \<Longrightarrow> f x = g x) \<Longrightarrow> bnd m f = bnd m' g"
  by (cases m') auto

lemmas [res_simps] = bnd_eq_Inr bnd_eq_Inl

text \<open>The loop \<open>for (x in xs) s = f(x, s)\<close>, stopping at the first fault.\<close>

fun foldM :: "('x \<Rightarrow> 's \<Rightarrow> 's res) \<Rightarrow> 'x list \<Rightarrow> 's \<Rightarrow> 's res" where
  "foldM f [] s = Inr s"
| "foldM f (x # xs) s = bnd (f x s) (foldM f xs)"

lemma bnd_foldM_Nil: "bnd m (foldM f []) = m"
  by (cases m) auto

lemma foldM_append: "foldM f (xs @ ys) s = bnd (foldM f xs s) (foldM f ys)"
proof (induction xs arbitrary: s)
  case (Cons x xs)
  then show ?case by (cases "f x s") auto
qed simp

lemma foldM_inv:
  assumes "foldM f xs s = Inr t" and "P s"
    and "\<And>x s s'. x \<in> set xs \<Longrightarrow> P s \<Longrightarrow> f x s = Inr s' \<Longrightarrow> P s'"
  shows "P t"
  using assms by (induction xs arbitrary: s) (auto simp: bnd_eq_Inr)

lemma foldM_upt:
  assumes "P s 0" and "\<And>i s. P s i \<Longrightarrow> i < n \<Longrightarrow> \<exists>s'. f i s = Inr s' \<and> P s' (Suc i)"
  shows "\<exists>s'. foldM f [0..<n] s = Inr s' \<and> P s' n"
  using assms(2)
proof (induction n)
  case (Suc n)
  then obtain s1 where "foldM f [0..<n] s = Inr s1" "P s1 n" by (metis less_SucI)
  moreover from Suc.prems[OF this(2)] obtain s2 where "f n s1 = Inr s2" "P s2 (Suc n)" by blast
  ultimately show ?case by (auto simp: foldM_append)
qed (use assms(1) in simp)

lemma find_append: "List.find P (xs @ ys) = (case List.find P xs of None \<Rightarrow> List.find P ys | Some x \<Rightarrow> Some x)"
  by (induction xs) auto

subsection \<open>The bit macros\<close>

definition TEST_BIT :: "'a::len word \<Rightarrow> 'a word \<Rightarrow> bool" where
  "TEST_BIT a b \<longleftrightarrow> a AND b \<noteq> 0"

definition SET_BIT :: "'a::len word \<Rightarrow> 'a word \<Rightarrow> 'a word" where
  "SET_BIT a b = a OR b"

definition CLR_BIT :: "'a::len word \<Rightarrow> 'a word \<Rightarrow> 'a word" where
  "CLR_BIT a b = a AND NOT b"

lemmas bit_macro_defs = TEST_BIT_def SET_BIT_def CLR_BIT_def

text \<open>The simplifier writes \<open>1 << n\<close> as \<open>2 ^ n\<close>.\<close>

lemma TEST_BIT_pow: "n < LENGTH('a) \<Longrightarrow> TEST_BIT (w :: 'a::len word) (2 ^ n) \<longleftrightarrow> bit w n"
proof -
  assume n: "n < LENGTH('a)"
  have "w AND 2 ^ n = (if bit w n then 2 ^ n else 0)"
    by (rule bit_word_eqI) (auto simp: bit_simps bit_exp_iff)
  with n show ?thesis by (simp add: TEST_BIT_def)
qed

lemma bit_SET_BIT_pow:
  "n < LENGTH('a) \<Longrightarrow> bit (SET_BIT (w :: 'a::len word) (2 ^ n)) m \<longleftrightarrow> m = n \<or> bit w m"
  by (auto simp: SET_BIT_def bit_simps bit_exp_iff)

lemma bit_CLR_BIT_pow:
  "bit (CLR_BIT (w :: 'a::len word) (2 ^ n)) m \<longleftrightarrow> m \<noteq> n \<and> bit w m"
  by (auto simp: CLR_BIT_def bit_simps bit_exp_iff dest: bit_imp_le_length)

lemma TEST_SET_same: "b \<noteq> 0 \<Longrightarrow> TEST_BIT (SET_BIT a b) b"
  by (simp add: bit_macro_defs word_bw_comms(1) word_ao_absorbs)

lemma TEST_CLR_same [simp]: "\<not> TEST_BIT (CLR_BIT a b) b"
  by (simp add: bit_macro_defs and.assoc)

lemma TEST_SET_other: "b AND c = 0 \<Longrightarrow> TEST_BIT (SET_BIT w b) c = TEST_BIT w c"
  by (simp add: bit_macro_defs bit.conj_disj_distrib2)

lemma TEST_CLR_other: "b AND c = 0 \<Longrightarrow> TEST_BIT (CLR_BIT w b) c = TEST_BIT w c" for w :: "'a::len word"
proof -
  assume "b AND c = 0"
  then have "\<not> (bit b n \<and> bit c n)" for n
    by (metis bit_0_eq bit_and_iff bot_apply bot_bool_def)
  then have "NOT b AND c = c" by (intro bit_word_eqI) (auto simp: bit_simps)
  then show ?thesis by (simp add: bit_macro_defs and.assoc)
qed

subsection \<open>Heads and last elements as pointers\<close>

definition opt_hd :: "'a list \<Rightarrow> 'a option" where
  "opt_hd xs = (case xs of [] \<Rightarrow> None | x # _ \<Rightarrow> Some x)"

definition opt_last :: "'a list \<Rightarrow> 'a option" where
  "opt_last xs = (if xs = [] then None else Some (last xs))"

lemma opt_hd_simps [simp]: "opt_hd [] = None" "opt_hd (x # xs) = Some x"
  by (simp_all add: opt_hd_def)

lemma opt_last_simps [simp]: "opt_last [] = None" "opt_last (xs @ [x]) = Some x" "opt_last [x] = Some x"
  by (simp_all add: opt_last_def)

lemma opt_last_Cons: "opt_last (x # xs) = Some (if xs = [] then x else last xs)"
  by (simp add: opt_last_def)

lemma opt_hd_None [simp]: "opt_hd xs = None \<longleftrightarrow> xs = []"
  by (cases xs) auto

lemma opt_last_None [simp]: "opt_last xs = None \<longleftrightarrow> xs = []"
  by (simp add: opt_last_def)

lemma opt_hd_Some: "opt_hd xs = Some x \<longleftrightarrow> (\<exists>ys. xs = x # ys)"
  by (cases xs) auto

lemma opt_last_Some: "opt_last xs = Some x \<longleftrightarrow> (\<exists>ys. xs = ys @ [x])"
  by (cases xs rule: rev_cases) (auto simp: opt_last_def)

lemma opt_hd_append: "opt_hd (xs @ ys) = (if xs = [] then opt_hd ys else opt_hd xs)"
  by (cases xs) auto

lemma opt_last_append: "opt_last (xs @ ys) = (if ys = [] then opt_last xs else opt_last ys)"
  by (simp add: opt_last_def)

subsection \<open>Signed integers\<close>

text \<open>A C \<open>int\<close> or \<open>long\<close> of the compiler is a 32 bit integer that wraps around. Its value is kept as an \<open>int\<close>.\<close>

definition int32 :: "int \<Rightarrow> int" where
  "int32 x = sint (word_of_int x :: u32)"

lemma int32_id: "- (2 ^ 31) \<le> x \<Longrightarrow> x < 2 ^ 31 \<Longrightarrow> int32 x = x"
  unfolding int32_def by transfer (simp add: signed_take_bit_int_eq_self)

lemma int32_max: "int32 (2 ^ 31) = - (2 ^ 31)"
  by (simp add: int32_def)

end
