(* ===== verification/Lists.thy ===== *)
theory Lists
  imports Prelude
begin

text \<open>
  The intrusive lists of \<^verbatim>\<open>src/src/kernel/mrtlib.c\<close>: doubly linked lists
  (\<open>link_t\<close>, \<open>list_t\<close>) and the sixteen-level priority lists
  (\<open>plist_t\<close>) on which every queue of the real-time kernel is built.

  A \<open>link_t\<close> is a member of the object it links; \<open>lref\<close> is the address of such a
  member and \<open>heap\<close> gives the contents of every link. A list operation takes the heap
  and the list header it works on and returns both, or a fault. The lemmas relate a header
  to the list of link addresses it stands for (\<open>dll\<close>, \<open>pl_rep\<close>) and show that each
  operation is the corresponding operation on lists and leaves every other link alone.
\<close>

subsection \<open>Objects, links and headers\<close>

text \<open>Addresses of the \<open>link_t\<close> members of the kernel's tables.\<close>

datatype lref =
    LProc int   \<comment> \<open>\<open>proc[].link\<close>, by process number\<close>
  | LVT nat     \<comment> \<open>\<open>MRT_st.vtimer[].link\<close>\<close>
  | LMqe nat    \<comment> \<open>\<open>MRT_sm.mqe[].link\<close>\<close>
  | LMsgQ nat   \<comment> \<open>\<open>MRT_sm.msgQ[].link\<close>\<close>
  | LIrqd nat   \<comment> \<open>\<open>MRT_si.irqtab[].link\<close>\<close>
  | LSemA nat   \<comment> \<open>\<open>MRT_ss.sem[].alloclk\<close>\<close>
  | LSemL nat   \<comment> \<open>\<open>MRT_ss.sem[].locklk\<close>\<close>

text \<open>What the \<open>void *this\<close> member of a link can point to.\<close>

datatype obj =
    OProc int
  | OVT nat
  | OMqe nat
  | OMsgQ nat
  | OIrqd nat
  | OSem nat
  | OIpcvtField int   \<comment> \<open>the address of the member \<open>ipcvt\<close> of a process\<close>

record link_t =
  lk_next :: "lref option"
  lk_prev :: "lref option"
  lk_object :: int
  lk_this :: "obj option"

record list_t =
  ls_inQ :: int
  ls_maxinQ :: int
  ls_first :: "lref option"
  ls_last :: "lref option"

record plist_t =
  pl_bitmap :: u32
  pl_inQ :: int
  pl_maxinQ :: int
  pl_list :: "nat \<Rightarrow> list_t"

type_synonym heap = "lref \<Rightarrow> link_t"

definition MRT_NR_PRTY :: nat where "MRT_NR_PRTY = 16"
definition MRT_OBJVT :: int where "MRT_OBJVT = 1"
definition MRT_OBJPROC :: int where "MRT_OBJPROC = 2"
definition MRT_OBJMQ :: int where "MRT_OBJMQ = 3"
definition MRT_OBJMQE :: int where "MRT_OBJMQE = 4"
definition MRT_OBJIRQD :: int where "MRT_OBJIRQD = 5"
definition MRT_OBJSEM :: int where "MRT_OBJSEM = 6"

abbreviation upd_link :: "lref \<Rightarrow> (link_t \<Rightarrow> link_t) \<Rightarrow> heap \<Rightarrow> heap" where
  "upd_link k f h \<equiv> h(k := f (h k))"

subsection \<open>Operations\<close>

definition MRT_list_rst :: "list_t \<Rightarrow> list_t" where
  "MRT_list_rst l = l\<lparr>ls_inQ := 0, ls_maxinQ := 0, ls_first := None, ls_last := None\<rparr>"

definition MRT_plist_rst :: "plist_t \<Rightarrow> plist_t" where
  "MRT_plist_rst pl =
     pl\<lparr>pl_list := (\<lambda>i. if i < MRT_NR_PRTY then MRT_list_rst (pl_list pl i) else pl_list pl i),
        pl_bitmap := 0, pl_inQ := 0, pl_maxinQ := 0\<rparr>"

definition MRT_link_rst :: "lref \<Rightarrow> obj \<Rightarrow> int \<Rightarrow> heap \<Rightarrow> heap" where
  "MRT_link_rst k this0 object0 h =
     h(k := (h k)\<lparr>lk_next := None, lk_prev := None, lk_this := Some this0,
                  lk_object := object0\<rparr>)"

definition list_count_up :: "list_t \<Rightarrow> list_t" where
  "list_count_up l =
     (let n = ls_inQ l + 1 in l\<lparr>ls_inQ := n, ls_maxinQ := max n (ls_maxinQ l)\<rparr>)"

definition MRT_list_app :: "heap \<Rightarrow> list_t \<Rightarrow> lref \<Rightarrow> (heap \<times> list_t) res" where
  "MRT_list_app h l k =
     bnd (if ls_first l = None
          then Inr (upd_link k (lk_prev_update (\<lambda>_. None)) h, l\<lparr>ls_first := Some k\<rparr>)
          else bnd (deref (ls_last l)) (\<lambda>z.
            Inr (upd_link z (lk_next_update (\<lambda>_. Some k))
                   (upd_link k (lk_prev_update (\<lambda>_. ls_last l)) h), l)))
       (\<lambda>(h, l).
          Inr (upd_link k (lk_next_update (\<lambda>_. None)) h,
               list_count_up (l\<lparr>ls_last := Some k\<rparr>)))"

definition MRT_list_ins :: "heap \<Rightarrow> list_t \<Rightarrow> lref \<Rightarrow> (heap \<times> list_t) res" where
  "MRT_list_ins h l k =
     (let h = upd_link k (lk_next_update (\<lambda>_. ls_first l)) h;
          h = upd_link k (lk_prev_update (\<lambda>_. None)) h;
          (h, l) = (case ls_first l of
                      None \<Rightarrow> (h, l\<lparr>ls_last := Some k\<rparr>)
                    | Some f \<Rightarrow> (upd_link f (lk_prev_update (\<lambda>_. Some k)) h, l))
      in Inr (h, list_count_up (l\<lparr>ls_first := Some k\<rparr>)))"

definition MRT_list_rmv :: "heap \<Rightarrow> list_t \<Rightarrow> lref \<Rightarrow> (heap \<times> list_t) res" where
  "MRT_list_rmv h l k =
     (let (h, l) = (case lk_prev (h k) of
                      None \<Rightarrow> (h, l\<lparr>ls_first := lk_next (h k)\<rparr>)
                    | Some p \<Rightarrow> (upd_link p (lk_next_update (\<lambda>_. lk_next (h k))) h, l));
          (h, l) = (case lk_next (h k) of
                      None \<Rightarrow> (h, l\<lparr>ls_last := lk_prev (h k)\<rparr>)
                    | Some n \<Rightarrow> (upd_link n (lk_prev_update (\<lambda>_. lk_prev (h k))) h, l));
          h = upd_link k (lk_next_update (\<lambda>_. None)) h;
          h = upd_link k (lk_prev_update (\<lambda>_. None)) h
      in Inr (h, l\<lparr>ls_inQ := ls_inQ l - 1\<rparr>))"

text \<open>
  The priority lists. The array \<open>list[MRT_NR_PRTY]\<close> is indexed by the caller's priority
  without a check, so an index past the array is a fault here.
\<close>

definition plist_count_up :: "plist_t \<Rightarrow> plist_t" where
  "plist_count_up pl =
     (let n = pl_inQ pl + 1 in pl\<lparr>pl_inQ := n, pl_maxinQ := max n (pl_maxinQ pl)\<rparr>)"

abbreviation set_plist :: "nat \<Rightarrow> list_t \<Rightarrow> plist_t \<Rightarrow> plist_t" where
  "set_plist p l pl \<equiv> pl\<lparr>pl_list := (pl_list pl)(p := l)\<rparr>"

definition MRT_plist_app :: "heap \<Rightarrow> plist_t \<Rightarrow> lref \<Rightarrow> nat \<Rightarrow> (heap \<times> plist_t) res" where
  "MRT_plist_app h pl k pty =
     chk (pty < MRT_NR_PRTY) OutOfBounds
       (bnd (MRT_list_app h (pl_list pl pty) k) (\<lambda>(h, l).
          let pl = plist_count_up (set_plist pty l pl)
          in Inr (h, pl\<lparr>pl_bitmap := SET_BIT (pl_bitmap pl) (push_bit pty 1)\<rparr>)))"

definition MRT_plist_ins :: "heap \<Rightarrow> plist_t \<Rightarrow> lref \<Rightarrow> nat \<Rightarrow> (heap \<times> plist_t) res" where
  "MRT_plist_ins h pl k pty =
     chk (pty < MRT_NR_PRTY) OutOfBounds
       (bnd (MRT_list_ins h (pl_list pl pty) k) (\<lambda>(h, l).
          let pl = plist_count_up (set_plist pty l pl)
          in Inr (h, pl\<lparr>pl_bitmap := SET_BIT (pl_bitmap pl) (push_bit pty 1)\<rparr>)))"

definition MRT_plist_rmv :: "heap \<Rightarrow> plist_t \<Rightarrow> lref \<Rightarrow> nat \<Rightarrow> (heap \<times> plist_t) res" where
  "MRT_plist_rmv h pl k pty =
     chk (pty < MRT_NR_PRTY) OutOfBounds
       (bnd (MRT_list_rmv h (pl_list pl pty) k) (\<lambda>(h, l).
          let pl = set_plist pty l pl;
              pl = (if ls_inQ l = 0
                    then pl\<lparr>pl_bitmap := CLR_BIT (pl_bitmap pl) (push_bit pty 1)\<rparr> else pl)
          in Inr (h, pl\<lparr>pl_inQ := pl_inQ pl - 1\<rparr>)))"

fun plist_scan :: "plist_t \<Rightarrow> nat list \<Rightarrow> lref option" where
  "plist_scan pl [] = None"
| "plist_scan pl (p # ps) =
     (if TEST_BIT (pl_bitmap pl) (push_bit p 1) then ls_first (pl_list pl p)
      else plist_scan pl ps)"

definition MRT_plist_get :: "plist_t \<Rightarrow> lref option" where
  "MRT_plist_get pl = (if pl_inQ pl = 0 then None else plist_scan pl [0..<MRT_NR_PRTY])"

subsection \<open>The list a header stands for\<close>

fun dseg :: "heap \<Rightarrow> lref option \<Rightarrow> lref list \<Rightarrow> lref option \<Rightarrow> bool" where
  "dseg h p [] n \<longleftrightarrow> True"
| "dseg h p (x # xs) n \<longleftrightarrow>
     lk_prev (h x) = p \<and> lk_next (h x) = (if xs = [] then n else opt_hd xs)
     \<and> dseg h (Some x) xs n"

definition dll :: "heap \<Rightarrow> list_t \<Rightarrow> lref list \<Rightarrow> bool" where
  "dll h l xs \<longleftrightarrow>
     ls_first l = opt_hd xs \<and> ls_last l = opt_last xs \<and> ls_inQ l = int (length xs)
     \<and> distinct xs \<and> dseg h None xs None"

text \<open>Two heaps that differ, in the pointers of links, on the set \<open>A\<close> only.\<close>

definition heap_frame :: "lref set \<Rightarrow> heap \<Rightarrow> heap \<Rightarrow> bool" where
  "heap_frame A h h' \<longleftrightarrow>
     (\<forall>j. j \<notin> A \<longrightarrow> h' j = h j)
     \<and> (\<forall>j. lk_this (h' j) = lk_this (h j) \<and> lk_object (h' j) = lk_object (h j))"

lemma heap_frameI:
  "(\<And>j. j \<notin> A \<Longrightarrow> h' j = h j) \<Longrightarrow> (\<And>j. lk_this (h' j) = lk_this (h j)) \<Longrightarrow>
   (\<And>j. lk_object (h' j) = lk_object (h j)) \<Longrightarrow> heap_frame A h h'"
  by (simp add: heap_frame_def)

lemma heap_frame_refl [simp]: "heap_frame A h h"
  by (simp add: heap_frame_def)

lemma heap_frame_trans: "heap_frame A h h' \<Longrightarrow> heap_frame B h' h'' \<Longrightarrow> heap_frame (A \<union> B) h h''"
  by (auto simp: heap_frame_def)

lemma heap_frame_mono: "heap_frame A h h' \<Longrightarrow> A \<subseteq> B \<Longrightarrow> heap_frame B h h'"
  by (auto simp: heap_frame_def)

lemma heap_frame_this: "heap_frame A h h' \<Longrightarrow> lk_this (h' j) = lk_this (h j)"
  by (simp add: heap_frame_def)

lemma dseg_cong:
  "(\<And>x. x \<in> set xs \<Longrightarrow> lk_prev (h' x) = lk_prev (h x) \<and> lk_next (h' x) = lk_next (h x)) \<Longrightarrow>
   dseg h' p xs n = dseg h p xs n"
  by (induction xs arbitrary: p) auto

lemma dseg_upd_other [simp]: "k \<notin> set xs \<Longrightarrow> dseg (h(k := v)) p xs n = dseg h p xs n"
  by (rule dseg_cong) auto

lemma dseg_append:
  "dseg h p (xs @ ys) n \<longleftrightarrow>
     dseg h p xs (if ys = [] then n else opt_hd ys)
     \<and> dseg h (if xs = [] then p else opt_last xs) ys n"
  by (induction xs arbitrary: p) (auto simp: opt_hd_append opt_last_def)

lemma dll_frame: "dll h l xs \<Longrightarrow> heap_frame A h h' \<Longrightarrow> set xs \<inter> A = {} \<Longrightarrow> dll h' l xs"
  unfolding dll_def heap_frame_def by (auto simp: disjoint_iff cong: dseg_cong)

lemma dll_empty_first: "dll h l xs \<Longrightarrow> ls_first l = None \<longleftrightarrow> xs = []"
  by (auto simp: dll_def)

lemma dll_first: "dll h l (x # xs) \<Longrightarrow> ls_first l = Some x"
  by (simp add: dll_def)

lemma dll_inQ: "dll h l xs \<Longrightarrow> ls_inQ l = int (length xs)"
  by (simp add: dll_def)

lemma dll_distinct: "dll h l xs \<Longrightarrow> distinct xs"
  by (simp add: dll_def)

lemma dll_unique: "dll h l xs \<Longrightarrow> dll h l ys \<Longrightarrow> xs = ys"
proof -
  have "length xs = length ys \<Longrightarrow> opt_hd xs = opt_hd ys \<Longrightarrow> dseg h p xs None \<Longrightarrow>
    dseg h p ys None \<Longrightarrow> xs = ys" for p
  proof (induction xs ys arbitrary: p rule: list_induct2')
    case (4 x xs y ys)
    then show ?case by (auto split: if_splits)
  qed auto
  then show "dll h l xs \<Longrightarrow> dll h l ys \<Longrightarrow> xs = ys"
    by (force simp: dll_def)
qed

lemma dll_rst: "dll h (MRT_list_rst l) []"
  by (simp add: dll_def MRT_list_rst_def)

subsection \<open>Each list operation is its operation on lists\<close>

lemma MRT_list_app_ok:
  assumes "dll h l xs" and "k \<notin> set xs"
  shows "\<exists>h' l'. MRT_list_app h l k = Inr (h', l') \<and> dll h' l' (xs @ [k])
     \<and> heap_frame (insert k (set xs)) h h' \<and> ls_maxinQ l' = max (int (length xs) + 1) (ls_maxinQ l)"
proof (cases xs rule: rev_cases)
  case Nil
  with assms show ?thesis
    by (auto simp: MRT_list_app_def dll_def list_count_up_def Let_def heap_frame_def)
next
  case (snoc ys z)
  with assms show ?thesis
    by (auto simp: MRT_list_app_def dll_def list_count_up_def Let_def heap_frame_def
        dseg_append opt_hd_append opt_last_def)
qed

lemma MRT_list_ins_ok:
  assumes "dll h l xs" and "k \<notin> set xs"
  shows "\<exists>h' l'. MRT_list_ins h l k = Inr (h', l') \<and> dll h' l' (k # xs)
     \<and> heap_frame (insert k (set xs)) h h' \<and> ls_maxinQ l' = max (int (length xs) + 1) (ls_maxinQ l)"
proof (cases xs)
  case Nil
  with assms show ?thesis
    by (auto simp: MRT_list_ins_def dll_def list_count_up_def Let_def heap_frame_def)
next
  case (Cons z ys)
  with assms show ?thesis
    by (auto simp: MRT_list_ins_def dll_def list_count_up_def Let_def heap_frame_def opt_last_def)
qed

lemma MRT_list_rmv_split:
  assumes "dll h l (xs @ k # ys)"
  shows "\<exists>h' l'. MRT_list_rmv h l k = Inr (h', l') \<and> dll h' l' (xs @ ys)
     \<and> heap_frame (set (xs @ k # ys)) h h' \<and> ls_maxinQ l' = ls_maxinQ l
     \<and> lk_next (h' k) = None \<and> lk_prev (h' k) = None"
proof -
  consider "xs = []" "ys = []" | y ys' where "xs = []" "ys = y # ys'"
    | x xs' where "xs = xs' @ [x]" "ys = []" | x xs' y ys' where "xs = xs' @ [x]" "ys = y # ys'"
    by (cases xs rule: rev_cases; cases ys) auto
  then show ?thesis
    using assms
    by cases (auto simp: MRT_list_rmv_def dll_def Let_def heap_frame_def
        dseg_append opt_hd_append opt_last_def)
qed

lemma MRT_list_rmv_ok:
  assumes "dll h l xs" and "k \<in> set xs"
  shows "\<exists>h' l'. MRT_list_rmv h l k = Inr (h', l') \<and> dll h' l' (remove1 k xs)
     \<and> heap_frame (set xs) h h' \<and> ls_maxinQ l' = ls_maxinQ l
     \<and> lk_next (h' k) = None \<and> lk_prev (h' k) = None"
proof -
  obtain as bs where xs: "xs = as @ k # bs" "k \<notin> set as"
    using split_list_first[OF assms(2)] by blast
  then have "remove1 k xs = as @ bs" by (simp add: remove1_append)
  with MRT_list_rmv_split[of h l as k bs] assms(1) xs show ?thesis by simp
qed

subsection \<open>The queues a priority list stands for\<close>

definition members :: "(nat \<Rightarrow> 'k list) \<Rightarrow> 'k set" where
  "members qs = (\<Union>p. set (qs p))"

definition pl_total :: "(nat \<Rightarrow> 'k list) \<Rightarrow> nat" where
  "pl_total qs = (\<Sum>p<MRT_NR_PRTY. length (qs p))"

definition pl_rep :: "heap \<Rightarrow> plist_t \<Rightarrow> (nat \<Rightarrow> lref list) \<Rightarrow> bool" where
  "pl_rep h pl qs \<longleftrightarrow>
     (\<forall>p<MRT_NR_PRTY. dll h (pl_list pl p) (qs p))
     \<and> (\<forall>p\<ge>MRT_NR_PRTY. qs p = [])
     \<and> (\<forall>p q. p \<noteq> q \<longrightarrow> set (qs p) \<inter> set (qs q) = {})
     \<and> (\<forall>p. bit (pl_bitmap pl) p \<longleftrightarrow> qs p \<noteq> [])
     \<and> pl_inQ pl = int (pl_total qs)"

lemma members_iff: "k \<in> members qs \<longleftrightarrow> (\<exists>p. k \<in> set (qs p))"
  by (simp add: members_def)

lemma members_upd: "members (qs(p := xs)) = set xs \<union> (\<Union>q\<in>-{p}. set (qs q))"
  by (auto simp: members_def split: if_splits)

lemma pl_total_upd:
  "p < MRT_NR_PRTY \<Longrightarrow> pl_total (qs(p := xs)) + length (qs p) = pl_total qs + length xs"
proof -
  assume p: "p < MRT_NR_PRTY"
  have "(\<Sum>q\<in>{..<MRT_NR_PRTY} - {p}. length ((qs(p := xs)) q)) =
        (\<Sum>q\<in>{..<MRT_NR_PRTY} - {p}. length (qs q))"
    by (rule sum.cong) auto
  then show ?thesis
    using p by (simp add: pl_total_def sum.remove[of "{..<MRT_NR_PRTY}" p])
qed

lemma pl_total_0: "pl_total qs = 0 \<longleftrightarrow> (\<forall>p<MRT_NR_PRTY. qs p = [])"
  by (auto simp: pl_total_def)

lemma pl_rep_dll: "pl_rep h pl qs \<Longrightarrow> p < MRT_NR_PRTY \<Longrightarrow> dll h (pl_list pl p) (qs p)"
  by (simp add: pl_rep_def)

lemma pl_rep_disj: "pl_rep h pl qs \<Longrightarrow> set (qs p) \<inter> (\<Union>q\<in>- {p}. set (qs q)) = {}"
  unfolding pl_rep_def by blast

lemma pl_rep_frame:
  "pl_rep h pl qs \<Longrightarrow> heap_frame A h h' \<Longrightarrow> members qs \<inter> A = {} \<Longrightarrow> pl_rep h' pl qs"
proof -
  assume rep: "pl_rep h pl qs" and fr: "heap_frame A h h'" and disj: "members qs \<inter> A = {}"
  have "dll h' (pl_list pl p) (qs p)" if "p < MRT_NR_PRTY" for p
    by (rule dll_frame[OF pl_rep_dll[OF rep that] fr]) (use disj in \<open>auto simp: members_def\<close>)
  with rep show ?thesis by (simp add: pl_rep_def)
qed

lemma pl_rep_rst: "pl_rep h (MRT_plist_rst pl) (\<lambda>_. [])"
  by (simp add: pl_rep_def MRT_plist_rst_def dll_rst pl_total_def)

lemma pl_rep_set:
  assumes rep: "pl_rep h pl qs" and p: "p < MRT_NR_PRTY"
    and fr: "heap_frame A h h'" and A: "A \<inter> (\<Union>q\<in>-{p}. set (qs q)) = {}"
    and l: "dll h' (pl_list pl' p) xs" and xs: "set xs \<inter> (\<Union>q\<in>-{p}. set (qs q)) = {}"
    and rest: "\<And>q. q \<noteq> p \<Longrightarrow> pl_list pl' q = pl_list pl q"
    and bm: "\<And>q. bit (pl_bitmap pl') q \<longleftrightarrow> (qs(p := xs)) q \<noteq> []"
    and n: "pl_inQ pl' = pl_inQ pl + int (length xs) - int (length (qs p))"
  shows "pl_rep h' pl' (qs(p := xs))"
proof -
  have "dll h' (pl_list pl' q) ((qs(p := xs)) q)" if "q < MRT_NR_PRTY" for q
  proof (cases "q = p")
    case False
    with that rep have "dll h (pl_list pl' q) (qs q)" by (simp add: rest pl_rep_def)
    moreover have "set (qs q) \<inter> A = {}" using A False by blast
    ultimately show ?thesis using False dll_frame[OF _ fr] by simp
  qed (simp add: l)
  moreover have "set ((qs(p := xs)) i) \<inter> set ((qs(p := xs)) j) = {}" if "i \<noteq> j" for i j
    using that xs rep by (cases "i = p"; cases "j = p") (auto simp: pl_rep_def)
  moreover have "pl_inQ pl' = int (pl_total (qs(p := xs)))"
    using pl_total_upd[OF p, of qs xs] n rep by (simp add: pl_rep_def)
  ultimately show ?thesis
    using rep p bm by (auto simp: pl_rep_def)
qed

lemma MRT_plist_app_ok:
  assumes rep: "pl_rep h pl qs" and p: "p < MRT_NR_PRTY" and k: "k \<notin> members qs"
  shows "\<exists>h' pl'. MRT_plist_app h pl k p = Inr (h', pl') \<and> pl_rep h' pl' (qs(p := qs p @ [k]))
    \<and> heap_frame (insert k (set (qs p))) h h'"
proof -
  have "k \<notin> set (qs p)" using k by (auto simp: members_def)
  from MRT_list_app_ok[OF pl_rep_dll[OF rep p] this] obtain h' l'
    where app: "MRT_list_app h (pl_list pl p) k = Inr (h', l')" and l: "dll h' l' (qs p @ [k])"
      and fr: "heap_frame (insert k (set (qs p))) h h'"
    by auto
  define pl' where "pl' = (plist_count_up (set_plist p l' pl))
      \<lparr>pl_bitmap := SET_BIT (pl_bitmap pl) (push_bit p 1)\<rparr>"
  have "MRT_plist_app h pl k p = Inr (h', pl')"
    using p by (simp add: MRT_plist_app_def app pl'_def plist_count_up_def Let_def)
  moreover have "pl_rep h' pl' (qs(p := qs p @ [k]))"
  proof (rule pl_rep_set[OF rep p fr])
    show "insert k (set (qs p)) \<inter> (\<Union>q\<in>- {p}. set (qs q)) = {}"
      and "set (qs p @ [k]) \<inter> (\<Union>q\<in>- {p}. set (qs q)) = {}"
      using pl_rep_disj[OF rep, of p] k by (auto simp: members_def)
    show "bit (pl_bitmap pl') q \<longleftrightarrow> (qs(p := qs p @ [k])) q \<noteq> []" for q
      using rep p by (auto simp: pl'_def bit_SET_BIT_pow MRT_NR_PRTY_def pl_rep_def)
  qed (simp_all add: pl'_def plist_count_up_def Let_def l)
  ultimately show ?thesis using fr by blast
qed

lemma MRT_plist_ins_ok:
  assumes rep: "pl_rep h pl qs" and p: "p < MRT_NR_PRTY" and k: "k \<notin> members qs"
  shows "\<exists>h' pl'. MRT_plist_ins h pl k p = Inr (h', pl') \<and> pl_rep h' pl' (qs(p := k # qs p))
    \<and> heap_frame (insert k (set (qs p))) h h'"
proof -
  have "k \<notin> set (qs p)" using k by (auto simp: members_def)
  from MRT_list_ins_ok[OF pl_rep_dll[OF rep p] this] obtain h' l'
    where app: "MRT_list_ins h (pl_list pl p) k = Inr (h', l')" and l: "dll h' l' (k # qs p)"
      and fr: "heap_frame (insert k (set (qs p))) h h'"
    by auto
  define pl' where "pl' = (plist_count_up (set_plist p l' pl))
      \<lparr>pl_bitmap := SET_BIT (pl_bitmap pl) (push_bit p 1)\<rparr>"
  have "MRT_plist_ins h pl k p = Inr (h', pl')"
    using p by (simp add: MRT_plist_ins_def app pl'_def plist_count_up_def Let_def)
  moreover have "pl_rep h' pl' (qs(p := k # qs p))"
  proof (rule pl_rep_set[OF rep p fr])
    show "insert k (set (qs p)) \<inter> (\<Union>q\<in>- {p}. set (qs q)) = {}"
      and "set (k # qs p) \<inter> (\<Union>q\<in>- {p}. set (qs q)) = {}"
      using pl_rep_disj[OF rep, of p] k by (auto simp: members_def)
    show "bit (pl_bitmap pl') q \<longleftrightarrow> (qs(p := k # qs p)) q \<noteq> []" for q
      using rep p by (auto simp: pl'_def bit_SET_BIT_pow MRT_NR_PRTY_def pl_rep_def)
  qed (simp_all add: pl'_def plist_count_up_def Let_def l)
  ultimately show ?thesis using fr by blast
qed

lemma MRT_plist_rmv_ok:
  assumes rep: "pl_rep h pl qs" and k: "k \<in> set (qs p)"
  shows "\<exists>h' pl'. MRT_plist_rmv h pl k p = Inr (h', pl') \<and> pl_rep h' pl' (qs(p := remove1 k (qs p)))
    \<and> heap_frame (set (qs p)) h h' \<and> lk_next (h' k) = None \<and> lk_prev (h' k) = None"
proof -
  have p: "p < MRT_NR_PRTY"
  proof (rule ccontr)
    assume "\<not> p < MRT_NR_PRTY"
    with rep have "qs p = []" by (simp add: pl_rep_def)
    with k show False by simp
  qed
  from MRT_list_rmv_ok[OF pl_rep_dll[OF rep p] k] obtain h' l'
    where app: "MRT_list_rmv h (pl_list pl p) k = Inr (h', l')" and l: "dll h' l' (remove1 k (qs p))"
      and fr: "heap_frame (set (qs p)) h h'" and nl: "lk_next (h' k) = None \<and> lk_prev (h' k) = None"
    by auto
  define pl' where "pl' = (set_plist p l' pl)
      \<lparr>pl_bitmap := (if ls_inQ l' = 0 then CLR_BIT (pl_bitmap pl) (push_bit p 1) else pl_bitmap pl),
       pl_inQ := pl_inQ pl - 1\<rparr>"
  have empty: "ls_inQ l' = 0 \<longleftrightarrow> remove1 k (qs p) = []"
    using dll_inQ[OF l] by auto
  have "MRT_plist_rmv h pl k p = Inr (h', pl')"
    using p by (simp add: MRT_plist_rmv_def app pl'_def Let_def)
  moreover have "pl_rep h' pl' (qs(p := remove1 k (qs p)))"
  proof (rule pl_rep_set[OF rep p fr])
    show "set (qs p) \<inter> (\<Union>q\<in>- {p}. set (qs q)) = {}"
      by (rule pl_rep_disj[OF rep])
    then show "set (remove1 k (qs p)) \<inter> (\<Union>q\<in>- {p}. set (qs q)) = {}"
      using set_remove1_subset[of k "qs p"] by blast
    show "bit (pl_bitmap pl') q \<longleftrightarrow> (qs(p := remove1 k (qs p))) q \<noteq> []" for q
      using rep k empty by (auto simp: pl'_def bit_CLR_BIT_pow pl_rep_def)
    have "length (qs p) > 0" using k by (cases "qs p") auto
    then show "pl_inQ pl' = pl_inQ pl + int (length (remove1 k (qs p))) - int (length (qs p))"
      using k by (simp add: pl'_def length_remove1 of_nat_diff Suc_leI)
  qed (simp_all add: pl'_def l)
  ultimately show ?thesis using fr nl by blast
qed

definition first_of :: "nat \<Rightarrow> (nat \<Rightarrow> 'k list) \<Rightarrow> 'k option" where
  "first_of n qs = opt_hd (concat (map qs [0..<n]))"

lemma first_of_Suc: "first_of (Suc n) qs = (if \<forall>r<n. qs r = [] then opt_hd (qs n) else first_of n qs)"
proof -
  have "concat (map qs [0..<n]) = [] \<longleftrightarrow> (\<forall>r<n. qs r = [])" by auto
  then show ?thesis by (auto simp: first_of_def opt_hd_append)
qed

lemma first_of_Some:
  "first_of n qs = Some k \<longleftrightarrow> (\<exists>p ys. p < n \<and> qs p = k # ys \<and> (\<forall>r<p. qs r = []))"
proof (induction n)
  case (Suc n)
  show ?case
    by (auto simp: first_of_Suc Suc.IH opt_hd_Some less_Suc_eq)
qed (simp add: first_of_def)

lemma first_of_cong: "(\<And>r. r < n \<Longrightarrow> opt_hd (qs r) = opt_hd (qs' r)) \<Longrightarrow> first_of n qs = first_of n qs'"
proof (induction n)
  case (Suc n)
  then have "(\<forall>r<n. qs r = []) = (\<forall>r<n. qs' r = [])"
    by (metis less_SucI opt_hd_None)
  with Suc show ?case by (auto simp: first_of_Suc)
qed (simp add: first_of_def)

lemma first_of_hit: "p < n \<Longrightarrow> qs p = k # ys \<Longrightarrow> (\<And>r. r < p \<Longrightarrow> qs r = []) \<Longrightarrow> first_of n qs = Some k"
  by (auto simp: first_of_Some)

lemma first_of_early:
  assumes "r < p" and "qs r \<noteq> []" and "p \<le> n"
  shows "first_of n qs = first_of p qs"
  using assms(3)
proof (induction n rule: dec_induct)
  case (step m)
  with assms(1) have "r < m" by simp
  with assms(2) have "\<not> (\<forall>r<m. qs r = [])" by blast
  with step.IH show ?case by (simp only: first_of_Suc if_False)
qed simp

lemma first_of_upd:
  assumes "r < p" and "qs r \<noteq> []" and "p < n"
  shows "first_of n (qs(p := xs)) = first_of n qs"
proof -
  have "first_of n (qs(p := xs)) = first_of p (qs(p := xs))"
    using assms by (intro first_of_early[of r]) auto
  also have "\<dots> = first_of p qs" by (rule first_of_cong) simp
  also have "\<dots> = first_of n qs" using assms by (intro first_of_early[symmetric, of r]) auto
  finally show ?thesis .
qed

lemma first_of_app:
  assumes "p < n"
  shows "first_of n (qs(p := qs p @ [k])) = (if \<forall>r\<le>p. qs r = [] then Some k else first_of n qs)"
proof -
  consider "\<forall>r\<le>p. qs r = []" | "qs p \<noteq> []" | r where "r < p" "qs r \<noteq> []"
    using nat_less_le by blast
  then show ?thesis
  proof cases
    case 1
    then show ?thesis using assms by (auto intro!: first_of_hit[of p])
  next
    case 2
    then have "first_of n (qs(p := qs p @ [k])) = first_of n qs"
      by (intro first_of_cong) (simp add: opt_hd_append)
    with 2 show ?thesis by auto
  next
    case 3
    then show ?thesis using first_of_upd[of r p qs n "qs p @ [k]"] assms less_imp_le by auto
  qed
qed

lemma first_of_ins:
  assumes "p < n"
  shows "first_of n (qs(p := k # xs)) = (if \<forall>r<p. qs r = [] then Some k else first_of n qs)"
proof (cases "\<forall>r<p. qs r = []")
  case True
  then show ?thesis using assms by (auto intro!: first_of_hit[of p])
next
  case False
  then show ?thesis using first_of_upd[of _ p qs n "k # xs"] assms by auto
qed

lemma plist_scan_rep:
  "pl_rep h pl qs \<Longrightarrow> set ps \<subseteq> {..<MRT_NR_PRTY} \<Longrightarrow> plist_scan pl ps = opt_hd (concat (map qs ps))"
proof (induction ps)
  case (Cons p ps)
  then have p: "p < MRT_NR_PRTY" by simp
  with Cons.prems(1) have "TEST_BIT (pl_bitmap pl) (push_bit p 1) \<longleftrightarrow> qs p \<noteq> []"
    by (simp add: TEST_BIT_pow MRT_NR_PRTY_def pl_rep_def)
  moreover have "ls_first (pl_list pl p) = opt_hd (qs p)"
    using pl_rep_dll[OF Cons.prems(1) p] by (simp add: dll_def)
  ultimately show ?case using Cons by (simp add: opt_hd_append)
qed simp

lemma MRT_plist_get_rep:
  assumes rep: "pl_rep h pl qs"
  shows "MRT_plist_get pl = first_of MRT_NR_PRTY qs"
proof (cases "pl_total qs = 0")
  case True
  then have "concat (map qs [0..<MRT_NR_PRTY]) = []" by (auto simp: pl_total_0)
  then have "first_of MRT_NR_PRTY qs = None" unfolding first_of_def by (simp only: opt_hd_simps)
  moreover have "pl_inQ pl = 0" using True rep by (simp add: pl_rep_def)
  ultimately show ?thesis by (simp add: MRT_plist_get_def)
next
  case False
  then have "pl_inQ pl \<noteq> 0" using rep by (simp add: pl_rep_def)
  moreover have "plist_scan pl [0..<MRT_NR_PRTY] = first_of MRT_NR_PRTY qs"
    unfolding first_of_def by (rule plist_scan_rep[OF rep]) auto
  ultimately show ?thesis by (simp add: MRT_plist_get_def)
qed

lemma dll_ins_middle:
  assumes d: "dll h l (as @ kp # kn # bs)" and k: "k \<notin> set (as @ kp # kn # bs)"
    and h': "h' = upd_link kn (lk_prev_update (\<lambda>_. Some k))
              (upd_link kp (lk_next_update (\<lambda>_. Some k))
                (upd_link k (\<lambda>x. x\<lparr>lk_next := Some kn, lk_prev := Some kp\<rparr>) h))"
  shows "dll h' (list_count_up l) (as @ kp # k # kn # bs)"
    and "heap_frame {k, kp, kn} h h'"
proof -
  have di: "distinct (as @ kp # kn # bs)" using d by (simp add: dll_def)
  have fr: "dseg h' p xs n = dseg h p xs n" if "set xs \<inter> {k, kp, kn} = {}" for p xs n
    using that by (induction xs arbitrary: p) (auto simp: h')
  show "heap_frame {k, kp, kn} h h'" by (auto simp: heap_frame_def h')
  show "dll h' (list_count_up l) (as @ kp # k # kn # bs)"
    using d k di fr[of as] fr[of bs]
    by (auto simp: dll_def dseg_append list_count_up_def Let_def opt_hd_append opt_last_def h')
qed


lemma dll_rst_other:
  "dll h l xs \<Longrightarrow> k \<notin> set xs \<Longrightarrow> dll (MRT_link_rst k o0 t0 h) l xs"
proof -
  assume d: "dll h l xs" and k: "k \<notin> set xs"
  have "dseg (MRT_link_rst k o0 t0 h) p xs n = dseg h p xs n" for p n
    using k by (induction xs arbitrary: p) (auto simp: MRT_link_rst_def)
  with d show ?thesis by (simp add: dll_def)
qed

lemma dll_cong: "(\<And>k. k \<in> set xs \<Longrightarrow> h' k = h k) \<Longrightarrow> dll h l xs \<Longrightarrow> dll h' l xs"
  using dseg_cong[of xs h' h] by (simp add: dll_def)

lemma pl_rep_cong:
  assumes eq: "\<And>k. k \<in> members qs \<Longrightarrow> h' k = h k" and rep: "pl_rep h pl qs"
  shows "pl_rep h' pl qs"
proof -
  have "dll h' (pl_list pl p) (qs p)" if "p < MRT_NR_PRTY" for p
    using that rep eq by (intro dll_cong[of "qs p" h' h]) (auto simp: pl_rep_def members_def)
  with rep show ?thesis by (simp add: pl_rep_def)
qed

subsection \<open>Sequences of operations\<close>

text \<open>
  A history of a priority list: the operations its clients call, their effect on the queues the
  list stands for, and when a client may call them.
\<close>

datatype 'k qop = QApp 'k nat | QIns 'k nat | QRmv 'k nat

fun q_step :: "'k qop \<Rightarrow> (nat \<Rightarrow> 'k list) \<Rightarrow> nat \<Rightarrow> 'k list" where
  "q_step (QApp k p) qs = qs(p := qs p @ [k])"
| "q_step (QIns k p) qs = qs(p := k # qs p)"
| "q_step (QRmv k p) qs = qs(p := remove1 k (qs p))"

fun q_pre :: "nat \<Rightarrow> 'k qop \<Rightarrow> (nat \<Rightarrow> 'k list) \<Rightarrow> bool" where
  "q_pre n (QApp k p) qs \<longleftrightarrow> p < n \<and> (\<forall>r<n. k \<notin> set (qs r))"
| "q_pre n (QIns k p) qs \<longleftrightarrow> p < n \<and> (\<forall>r<n. k \<notin> set (qs r))"
| "q_pre n (QRmv k p) qs \<longleftrightarrow> p < n \<and> k \<in> set (qs p)"

fun q_allowed :: "nat \<Rightarrow> 'k qop list \<Rightarrow> (nat \<Rightarrow> 'k list) \<Rightarrow> bool" where
  "q_allowed n [] qs \<longleftrightarrow> True"
| "q_allowed n (x # xs) qs \<longleftrightarrow> q_pre n x qs \<and> q_allowed n xs (q_step x qs)"

definition q_run :: "('h \<Rightarrow> 'q \<Rightarrow> 'k \<Rightarrow> nat \<Rightarrow> ('h \<times> 'q) res) \<Rightarrow> ('h \<Rightarrow> 'q \<Rightarrow> 'k \<Rightarrow> nat \<Rightarrow> ('h \<times> 'q) res)
    \<Rightarrow> ('h \<Rightarrow> 'q \<Rightarrow> 'k \<Rightarrow> nat \<Rightarrow> ('h \<times> 'q) res) \<Rightarrow> 'k qop list \<Rightarrow> 'h \<times> 'q \<Rightarrow> ('h \<times> 'q) res" where
  "q_run app ins rmv =
     foldM (\<lambda>x (h, q). case x of QApp k p \<Rightarrow> app h q k p | QIns k p \<Rightarrow> ins h q k p | QRmv k p \<Rightarrow> rmv h q k p)"

definition plist_run :: "lref qop list \<Rightarrow> heap \<times> plist_t \<Rightarrow> (heap \<times> plist_t) res" where
  "plist_run = q_run MRT_plist_app MRT_plist_ins MRT_plist_rmv"

subsection \<open>The interface of the priority lists\<close>

text \<open>
  What a client of a priority list relies on: appending and inserting put the element at the
  tail or the head of its level, removing takes it out, \<open>get\<close> returns the head of the first
  level that is not empty, and none of them faults when the element is, or is not, a member
  as it should be.
\<close>

locale prio_list =
  fixes rep :: "'h \<Rightarrow> 'q \<Rightarrow> (nat \<Rightarrow> 'k list) \<Rightarrow> bool"
    and app :: "'h \<Rightarrow> 'q \<Rightarrow> 'k \<Rightarrow> nat \<Rightarrow> ('h \<times> 'q) res"
    and ins :: "'h \<Rightarrow> 'q \<Rightarrow> 'k \<Rightarrow> nat \<Rightarrow> ('h \<times> 'q) res"
    and rmv :: "'h \<Rightarrow> 'q \<Rightarrow> 'k \<Rightarrow> nat \<Rightarrow> ('h \<times> 'q) res"
    and get :: "'q \<Rightarrow> 'k option"
    and levels :: nat
  assumes app_law: "rep h q qs \<Longrightarrow> p < levels \<Longrightarrow> k \<notin> members qs \<Longrightarrow>
      \<exists>h' q'. app h q k p = Inr (h', q') \<and> rep h' q' (qs(p := qs p @ [k]))"
    and ins_law: "rep h q qs \<Longrightarrow> p < levels \<Longrightarrow> k \<notin> members qs \<Longrightarrow>
      \<exists>h' q'. ins h q k p = Inr (h', q') \<and> rep h' q' (qs(p := k # qs p))"
    and rmv_law: "rep h q qs \<Longrightarrow> k \<in> set (qs p) \<Longrightarrow>
      \<exists>h' q'. rmv h q k p = Inr (h', q') \<and> rep h' q' (qs(p := remove1 k (qs p)))"
    and get_law: "rep h q qs \<Longrightarrow> get q = first_of levels qs"
    and range_law: "rep h q qs \<Longrightarrow> qs p \<noteq> [] \<Longrightarrow> p < levels"
begin

lemma app_unique:
  assumes "rep h q qs" and "p < levels" and "k \<notin> members qs" and "app h q k p = Inr (h', q')"
  shows "rep h' q' (qs(p := qs p @ [k]))"
  using app_law[OF assms(1-3)] assms(4) by auto

lemma ins_unique:
  assumes "rep h q qs" and "p < levels" and "k \<notin> members qs" and "ins h q k p = Inr (h', q')"
  shows "rep h' q' (qs(p := k # qs p))"
  using ins_law[OF assms(1-3)] assms(4) by auto

lemma rmv_unique:
  assumes "rep h q qs" and "k \<in> set (qs p)" and "rmv h q k p = Inr (h', q')"
  shows "rep h' q' (qs(p := remove1 k (qs p)))"
  using rmv_law[OF assms(1,2)] assms(3) by auto

lemma get_None: "rep h q qs \<Longrightarrow> get q = None \<longleftrightarrow> members qs = {}"
proof -
  assume rep: "rep h q qs"
  have "members qs = {} \<longleftrightarrow> (\<forall>p. qs p = [])" by (simp add: members_def)
  then have "(\<forall>p<levels. qs p = []) \<longleftrightarrow> members qs = {}"
    using range_law[OF rep] by blast
  then show ?thesis by (auto simp: get_law[OF rep] first_of_def)
qed

lemma get_highest:
  "rep h q qs \<Longrightarrow> get q = Some k \<longleftrightarrow> (\<exists>p ys. p < levels \<and> qs p = k # ys \<and> (\<forall>r<p. qs r = []))"
  by (simp add: get_law first_of_Some)

lemma get_app:
  assumes "rep h q qs" and "p < levels" and "k \<notin> members qs" and "app h q k p = Inr (h', q')"
  shows "get q' = (if \<forall>r\<le>p. qs r = [] then Some k else get q)"
  using get_law[OF assms(1)] get_law[OF app_unique[OF assms]] assms(2)
  by (auto simp: first_of_app)

lemma get_ins:
  assumes "rep h q qs" and "p < levels" and "k \<notin> members qs" and "ins h q k p = Inr (h', q')"
  shows "get q' = (if \<forall>r<p. qs r = [] then Some k else get q)"
  using get_law[OF assms(1)] get_law[OF ins_unique[OF assms]] assms(2)
  by (auto simp: first_of_ins)

lemma rmv_app:
  assumes "rep h q qs" and "p < levels" and "k \<notin> members qs" and "app h q k p = Inr (h', q')"
  shows "\<exists>h'' q''. rmv h' q' k p = Inr (h'', q'') \<and> rep h'' q'' qs"
proof -
  have k: "k \<notin> set (qs p)" using assms(3) by (auto simp: members_def)
  from rmv_law[OF app_unique[OF assms], of k p] obtain h'' q''
    where "rmv h' q' k p = Inr (h'', q'')"
      and "rep h'' q'' ((qs(p := qs p @ [k]))(p := remove1 k (qs p @ [k])))"
    by auto
  with k show ?thesis by (auto simp: remove1_append)
qed

lemma members_below:
  assumes "rep h q qs" and "\<forall>r<levels. k \<notin> set (qs r)"
  shows "k \<notin> members qs"
proof
  assume "k \<in> members qs"
  then obtain p where p: "k \<in> set (qs p)" by (auto simp: members_iff)
  then have "p < levels" using range_law[OF assms(1), of p] by (cases "qs p") auto
  with p assms(2) show False by blast
qed

lemma step_sim:
  assumes "rep h q qs" and "q_pre levels x qs"
  shows "\<exists>h' q'. q_run app ins rmv [x] (h, q) = Inr (h', q') \<and> rep h' q' (q_step x qs)"
proof (cases x)
  case (QApp k p)
  with assms app_law[OF assms(1) _ members_below[OF assms(1)], of p k] show ?thesis by (auto simp: q_run_def)
next
  case (QIns k p)
  with assms ins_law[OF assms(1) _ members_below[OF assms(1)], of p k] show ?thesis by (auto simp: q_run_def)
next
  case (QRmv k p)
  with assms rmv_law[OF assms(1), of k p] show ?thesis by (auto simp: q_run_def)
qed

lemma run_sim:
  assumes "rep h q qs" and "q_allowed levels xs qs"
  shows "\<exists>h' q'. q_run app ins rmv xs (h, q) = Inr (h', q') \<and> rep h' q' (fold q_step xs qs)"
  using assms
proof (induction xs arbitrary: h q qs)
  case Nil
  then show ?case by (auto simp: q_run_def)
next
  case (Cons x xs)
  from Cons.prems step_sim[of h q qs x] obtain h1 q1
    where 1: "q_run app ins rmv [x] (h, q) = Inr (h1, q1)" "rep h1 q1 (q_step x qs)" by auto
  have "q_run app ins rmv (x # xs) (h, q) = bnd (q_run app ins rmv [x] (h, q)) (q_run app ins rmv xs)"
    by (simp add: q_run_def bnd_foldM_Nil)
  with 1 Cons.IH[of h1 q1 "q_step x qs"] Cons.prems(2) show ?case by auto
qed

end

interpretation pl: prio_list pl_rep MRT_plist_app MRT_plist_ins MRT_plist_rmv MRT_plist_get MRT_NR_PRTY
proof unfold_locales
  show "pl_rep h q qs \<Longrightarrow> p < MRT_NR_PRTY \<Longrightarrow> k \<notin> members qs \<Longrightarrow>
      \<exists>h' q'. MRT_plist_app h q k p = Inr (h', q') \<and> pl_rep h' q' (qs(p := qs p @ [k]))" for h q qs p k
    by (metis MRT_plist_app_ok)
  show "pl_rep h q qs \<Longrightarrow> p < MRT_NR_PRTY \<Longrightarrow> k \<notin> members qs \<Longrightarrow>
      \<exists>h' q'. MRT_plist_ins h q k p = Inr (h', q') \<and> pl_rep h' q' (qs(p := k # qs p))" for h q qs p k
    by (metis MRT_plist_ins_ok)
  show "pl_rep h q qs \<Longrightarrow> k \<in> set (qs p) \<Longrightarrow>
      \<exists>h' q'. MRT_plist_rmv h q k p = Inr (h', q') \<and> pl_rep h' q' (qs(p := remove1 k (qs p)))" for h q qs p k
    by (metis MRT_plist_rmv_ok)
  show "pl_rep h q qs \<Longrightarrow> MRT_plist_get q = first_of MRT_NR_PRTY qs" for h q qs
    by (rule MRT_plist_get_rep)
  show "pl_rep h q qs \<Longrightarrow> qs p \<noteq> [] \<Longrightarrow> p < MRT_NR_PRTY" for h q qs p
    by (metis linorder_not_less pl_rep_def)
qed

subsection \<open>Correctness of the lists\<close>

text \<open>A heap and headers to evaluate on: two processes and no list yet.\<close>

definition heap0 :: heap where
  "heap0 k = \<lparr>lk_next = None, lk_prev = None, lk_object = 0,
     lk_this = Some (case k of LProc p \<Rightarrow> OProc p | LVT i \<Rightarrow> OVT i | LMqe i \<Rightarrow> OMqe i | LMsgQ i \<Rightarrow> OMsgQ i
       | LIrqd i \<Rightarrow> OIrqd i | LSemA i \<Rightarrow> OSem i | LSemL i \<Rightarrow> OSem i)\<rparr>"

definition list0 :: list_t where
  "list0 = \<lparr>ls_inQ = 0, ls_maxinQ = 0, ls_first = None, ls_last = None\<rparr>"

definition plist0 :: plist_t where
  "plist0 = \<lparr>pl_bitmap = 0, pl_inQ = 0, pl_maxinQ = 0, pl_list = (\<lambda>_. list0)\<rparr>"

lemma plist0_rep: "pl_rep heap0 plist0 (\<lambda>_. [])"
proof -
  have "MRT_plist_rst plist0 = plist0" by (simp add: MRT_plist_rst_def MRT_list_rst_def plist0_def list0_def fun_eq_iff)
  then show ?thesis using pl_rep_rst[of heap0 plist0] by simp
qed

text \<open>
  C16. Priority lists refine queues: from a list header that has just been reset, every history of
  appends, inserts and removals that respects the membership conditions runs without a fault, and
  the doubly linked lists, counters and the bitmap it leaves stand for the queues obtained by the
  same operations on functional lists: an append goes to the end of the queue of its level, an insert to its
  front. \<open>MRT_plist_get\<close> then returns the front element of the most urgent level that is not empty.
\<close>

theorem plist_history_refines:
  assumes "q_allowed MRT_NR_PRTY xs (\<lambda>_. [])"
  shows "\<exists>h' pl'. plist_run xs (h, MRT_plist_rst pl) = Inr (h', pl')
     \<and> pl_rep h' pl' (fold q_step xs (\<lambda>_. []))
     \<and> MRT_plist_get pl' = first_of MRT_NR_PRTY (fold q_step xs (\<lambda>_. []))"
  using pl.run_sim[OF pl_rep_rst assms, of h pl] MRT_plist_get_rep unfolding plist_run_def by blast

theorem plist_history_refines_witness:
  "\<exists>h' pl'. plist_run [QApp (LProc 1) 3, QApp (LProc 2) 3, QIns (LVT 4) 9, QRmv (LProc 1) 3]
       (heap0, MRT_plist_rst plist0) = Inr (h', pl')
     \<and> MRT_plist_get pl' = Some (LProc 2)"
  using plist_history_refines[of "[QApp (LProc 1) 3, QApp (LProc 2) 3, QIns (LVT 4) 9, QRmv (LProc 1) 3]" heap0 plist0]
    first_of_hit[of 3 16 "(\<lambda>_. [])(9 := [LVT 4], 3 := [LProc 2])" "LProc 2" "[]"]
  by (auto simp: MRT_NR_PRTY_def)

text \<open>
  Removing a link from any place of a doubly linked list leaves the list of the other links in
  their order, detaches the link, counts down, and writes to no link outside the list.
\<close>

lemma list_rmv_refines:
  assumes "dll h l xs" and "k \<in> set xs"
  shows "\<exists>h' l'. MRT_list_rmv h l k = Inr (h', l') \<and> dll h' l' (remove1 k xs)
     \<and> lk_next (h' k) = None \<and> lk_prev (h' k) = None
     \<and> (\<forall>j. j \<notin> set xs \<longrightarrow> h' j = h j)"
  using MRT_list_rmv_ok[OF assms] unfolding heap_frame_def by blast

end
