(* ===== verification/Kstate.thy ===== *)
theory Kstate
  imports Lists
begin

text \<open>
  The state of the kernel: the tables declared in \<^verbatim>\<open>src/src/kernel/type.h\<close>,
  \<^verbatim>\<open>proc.h\<close> and \<^verbatim>\<open>glo.h\<close>, one \<open>record\<close> per C structure, and the
  operations by which the kernel reaches user memory and the hardware.

  Pointers into a table are indices of that table: a \<open>struct proc *\<close> is the process number
  (\<open>p_nr\<close>, negative for tasks), a \<open>MRT_vtimer_t *\<close> the number of the timer, and so on; NULL is
  \<open>None\<close>. The \<open>link_t\<close> members of all tables live in the heap \<open>links\<close>. The operations of the
  kernel run with interrupts disabled, so each is one atomic step of this state; the code that
  saves and restores the CPU flags has no counterpart here.
\<close>

subsection \<open>Constants of the configuration and the headers\<close>

abbreviation (input) NR_TASKS :: int where "NR_TASKS \<equiv> 11"
abbreviation (input) NR_PROCS :: int where "NR_PROCS \<equiv> 32"
abbreviation (input) LOW_USER :: int where "LOW_USER \<equiv> 2"
abbreviation (input) NR_VTIMERS :: nat where "NR_VTIMERS \<equiv> 16"
abbreviation (input) NR_MESSAGES :: nat where "NR_MESSAGES \<equiv> 32"
abbreviation (input) NR_MSGQ :: nat where "NR_MSGQ \<equiv> 16"
abbreviation (input) NR_SEM :: nat where "NR_SEM \<equiv> 16"
abbreviation (input) NR_IRQ_VECTORS :: nat where "NR_IRQ_VECTORS \<equiv> 16"
abbreviation (input) NR_IRQ_SOFT :: nat where "NR_IRQ_SOFT \<equiv> 16"

abbreviation (input) HARDWARE :: int where "HARDWARE \<equiv> - 1"
abbreviation (input) IDLE :: int where "IDLE \<equiv> - 7"
abbreviation (input) MRTTASK :: int where "MRTTASK \<equiv> - 9"
abbreviation (input) MM_PROC_NR :: int where "MM_PROC_NR \<equiv> 0"
abbreviation (input) FS_PROC_NR :: int where "FS_PROC_NR \<equiv> 1"
abbreviation (input) ANY :: int where "ANY \<equiv> 132"
abbreviation (input) MRT_ANYPROC :: int where "MRT_ANYPROC \<equiv> - 111"

abbreviation (input) MRT_PRIHIGHEST :: u8 where "MRT_PRIHIGHEST \<equiv> 0"
abbreviation (input) MRT_PRILOWEST :: u8 where "MRT_PRILOWEST \<equiv> 15"
abbreviation (input) MRT_NOWAIT :: u32 where "MRT_NOWAIT \<equiv> 0"
abbreviation (input) MRT_FOREVER :: u32 where "MRT_FOREVER \<equiv> - 1"
abbreviation (input) MRT_MAXPER :: u32 where "MRT_MAXPER \<equiv> 10000"

text \<open>Flags of \<open>MRT_sv.flags\<close>.\<close>

abbreviation (input) MRT_RTMODE :: u32 where "MRT_RTMODE \<equiv> 0x1"
abbreviation (input) MRT_MINIXCLI :: u32 where "MRT_MINIXCLI \<equiv> 0x2"
abbreviation (input) MRT_NEWINT :: u32 where "MRT_NEWINT \<equiv> 0x4"
abbreviation (input) MRT_FLUSHLCK :: u32 where "MRT_FLUSHLCK \<equiv> 0x8"
abbreviation (input) MRT_NEEDSCHED :: u32 where "MRT_NEEDSCHED \<equiv> 0x20"
abbreviation (input) MRT_RTSCHED :: u32 where "MRT_RTSCHED \<equiv> 0x40"
abbreviation (input) MRT_LATENCY :: u32 where "MRT_LATENCY \<equiv> 0x200"
abbreviation (input) MRT_BPIP :: u32 where "MRT_BPIP \<equiv> 0x400"
abbreviation (input) MRT_ONESHOT :: u32 where "MRT_ONESHOT \<equiv> 0x800"
abbreviation (input) MRT_PRTYMASK :: u32 where "MRT_PRTYMASK \<equiv> 0x1000"

text \<open>Flags of \<open>p_flags\<close> and of \<open>rt.flags\<close>.\<close>

abbreviation (input) P_SLOT_FREE :: u32 where "P_SLOT_FREE \<equiv> 0x1"
abbreviation (input) SENDING :: u32 where "SENDING \<equiv> 0x4"
abbreviation (input) RECEIVING :: u32 where "RECEIVING \<equiv> 0x8"
abbreviation (input) PENDING :: u32 where "PENDING \<equiv> 0x10"
abbreviation (input) SIG_PENDING :: u32 where "SIG_PENDING \<equiv> 0x20"
abbreviation (input) P_STOP :: u32 where "P_STOP \<equiv> 0x40"
abbreviation (input) MRT_P_REALTIME :: u32 where "MRT_P_REALTIME \<equiv> 0x4000"
abbreviation (input) MRT_P_PERIODIC :: u32 where "MRT_P_PERIODIC \<equiv> 0x8000"
abbreviation (input) MRT_MBX_SND :: u32 where "MRT_MBX_SND \<equiv> 0x1"
abbreviation (input) MRT_MBX_RCV :: u32 where "MRT_MBX_RCV \<equiv> 0x2"
abbreviation (input) MRT_P_SLEEP :: u32 where "MRT_P_SLEEP \<equiv> 0x4"
abbreviation (input) MRT_SEM_DOWN :: u32 where "MRT_SEM_DOWN \<equiv> 0x8"
abbreviation (input) MRT_LOCK_WAIT :: u32 where "MRT_LOCK_WAIT \<equiv> 0x10"
abbreviation (input) MRT_P_STATUS :: u32 where "MRT_P_STATUS \<equiv> 0xFF"

text \<open>States of a virtual timer, policies of queues and semaphores, message types.\<close>

abbreviation (input) VT_ALLOC :: u32 where "VT_ALLOC \<equiv> 0"
abbreviation (input) VT_FREEQ :: u32 where "VT_FREEQ \<equiv> 1"
abbreviation (input) VT_ACTIVEQ :: u32 where "VT_ACTIVEQ \<equiv> 2"
abbreviation (input) VT_EXPIREDQ :: u32 where "VT_EXPIREDQ \<equiv> 4"
abbreviation (input) MQ_PRTYORDER :: u32 where "MQ_PRTYORDER \<equiv> 1"
abbreviation (input) MQ_PRTYINHERIT :: u32 where "MQ_PRTYINHERIT \<equiv> 2"
abbreviation (input) SEM_PRTYORDER :: u32 where "SEM_PRTYORDER \<equiv> 1"
abbreviation (input) SEM_PRTYINHERIT :: u32 where "SEM_PRTYINHERIT \<equiv> 2"
abbreviation (input) SEM_MUTEX :: u32 where "SEM_MUTEX \<equiv> 4"
abbreviation (input) MT_MBFREE :: u32 where "MT_MBFREE \<equiv> 0"
abbreviation (input) MT_UPRQST :: u32 where "MT_UPRQST \<equiv> 1"
abbreviation (input) MT_REQUEST :: u32 where "MT_REQUEST \<equiv> 2"
abbreviation (input) MT_AREQUEST :: u32 where "MT_AREQUEST \<equiv> 3"
abbreviation (input) MT_REPLY :: u32 where "MT_REPLY \<equiv> 4"
abbreviation (input) MT_SIGNAL :: u32 where "MT_SIGNAL \<equiv> 5"
abbreviation (input) MT_RQRCV :: u32 where "MT_RQRCV \<equiv> 6"
abbreviation (input) MT_KRNIRQ :: u32 where "MT_KRNIRQ \<equiv> 0x10"
abbreviation (input) MT_KRNTOUT :: u32 where "MT_KRNTOUT \<equiv> 0x11"
abbreviation (input) MT_KRNDLINE :: u32 where "MT_KRNDLINE \<equiv> 0x12"
abbreviation (input) MT_KRNWDOG :: u32 where "MT_KRNWDOG \<equiv> 0x13"
abbreviation (input) MT_KRNPROC :: u32 where "MT_KRNPROC \<equiv> 0x14"

text \<open>Return codes of \<^verbatim>\<open>include/errno.h\<close>.\<close>

abbreviation (input) OK :: int where "OK \<equiv> 0"
abbreviation (input) EINVAL :: int where "EINVAL \<equiv> - 22"
abbreviation (input) EFAULT :: int where "EFAULT \<equiv> - 14"
abbreviation (input) ELOCKED :: int where "ELOCKED \<equiv> - 101"
abbreviation (input) E_BAD_DEST :: int where "E_BAD_DEST \<equiv> - 1001"
abbreviation (input) E_BAD_SRC :: int where "E_BAD_SRC \<equiv> - 1002"
abbreviation (input) E_TRY_AGAIN :: int where "E_TRY_AGAIN \<equiv> - 1003"
abbreviation (input) E_NO_PERM :: int where "E_NO_PERM \<equiv> - 1008"
abbreviation (input) E_BAD_FCN :: int where "E_BAD_FCN \<equiv> - 1009"
abbreviation (input) E_BAD_PROC :: int where "E_BAD_PROC \<equiv> - 1011"
abbreviation (input) E_MRT_BADPTYPE :: int where "E_MRT_BADPTYPE \<equiv> - 2007"
abbreviation (input) E_MRT_UNREADY :: int where "E_MRT_UNREADY \<equiv> - 2011"
abbreviation (input) E_MRT_NOVTIMER :: int where "E_MRT_NOVTIMER \<equiv> - 2012"
abbreviation (input) E_MRT_NOSOFTIRQ :: int where "E_MRT_NOSOFTIRQ \<equiv> - 2013"
abbreviation (input) E_MRT_NORTMODE :: int where "E_MRT_NORTMODE \<equiv> - 2014"
abbreviation (input) E_MRT_UNSLEEP :: int where "E_MRT_UNSLEEP \<equiv> - 2015"
abbreviation (input) E_MRT_EXITING :: int where "E_MRT_EXITING \<equiv> - 2016"
abbreviation (input) E_MRT_NOMQENT :: int where "E_MRT_NOMQENT \<equiv> - 2017"
abbreviation (input) E_MRT_NOMSGQ :: int where "E_MRT_NOMSGQ \<equiv> - 2019"
abbreviation (input) E_MRT_TIMEOUT :: int where "E_MRT_TIMEOUT \<equiv> - 2021"
abbreviation (input) E_MRT_MQFULL :: int where "E_MRT_MQFULL \<equiv> - 2024"
abbreviation (input) E_MRT_BADSEM :: int where "E_MRT_BADSEM \<equiv> - 2026"

subsection \<open>Virtual timers\<close>

record vtimer_t =
  vt_period :: u32
  vt_limit :: u32
  vt_action :: int
  vt_param :: int
  vt_priority :: u8
  vt_index :: int
  vt_owner :: int
  vt_flags :: u32
  vt_nextexp :: u32
  vt_timestamp :: u32
  vt_expired :: u32

record actQ_t =
  aq_earliest :: u32   \<comment> \<open>a \<open>long\<close> that the code compares with unsigned counters only\<close>
  aq_maxper :: u32
  aq_list :: list_t

record systmr_t =
  expQ :: plist_t
  actQ :: actQ_t
  freeQ :: list_t
  vtimer :: "nat \<Rightarrow> vtimer_t"
  T2curr :: u32
  T2prev :: u32
  latch :: u32

subsection \<open>Interrupt descriptors\<close>

text \<open>The interrupt handlers that can stand in a descriptor.\<close>

datatype handler =
    H_spurious_irq
  | H_clock_handler
  | H_MRT_clock_handler
  | H_MRT_idle_handler
  | H_driver nat      \<comment> \<open>a handler of a device driver\<close>

record irqd_t =
  iq_count :: u32
  iq_maxshower :: u32
  iq_mdl :: u32
  iq_timestamp :: u32
  iq_maxlat :: u32
  iq_reenter :: int
  iq_irq :: int
  iq_harmonic :: u32
  iq_pvt :: "nat option"
  iq_flags :: u32
  iq_latency :: u32
  iq_shower :: u32
  iq_before :: u32
  iq_nrthandler :: handler
  iq_rthandler :: handler
  iq_period :: u32
  iq_task :: int
  iq_watchdog :: int
  iq_priority :: u8
  iq_irqtype :: u8
  iq_name :: string

record sysirq_t =
  irqQ :: plist_t
  mnxQ :: list_t
  hard_use :: u32
  soft_use :: u32
  irqtab :: "nat \<Rightarrow> irqd_t"
  irqmask :: "nat \<Rightarrow> u32"

subsection \<open>Messages\<close>

text \<open>
  The body of a message is the union of \<open>mess_1\<close> to \<open>mess_7\<close>: 28 bytes, here its seven
  32-bit words.
\<close>

type_synonym mess_u = "nat \<Rightarrow> u32"

record mrtpid_t =
  pid_pid :: int
  pid_p_nr :: int

record mrt_mhdr_t =
  mh_src :: mrtpid_t
  mh_dst :: mrtpid_t
  mh_mtype :: u32
  mh_mid :: u32
  mh_seqno :: u32
  mh_tstamp :: u32
  mh_priority :: u8
  mh_deadline :: u32
  mh_laxity :: u32

record mqe_t =
  me_hdr :: mrt_mhdr_t
  me_m_u :: mess_u
  me_index :: int
  me_pvt :: "nat option"

record msgQ_t =
  mq_index :: int
  mq_size :: int
  mq_flags :: u32
  mq_owner :: int
  mq_delivered :: int
  mq_enqueued :: int
  mq_plist :: plist_t

record sysmsg_t =
  mqeL :: list_t
  mqe :: "nat \<Rightarrow> mqe_t"
  msgQL :: list_t
  msgQ :: "nat \<Rightarrow> msgQ_t"

text \<open>The parameters of the IPC calls, as the caller passes them.\<close>

record mrt_ipc_t =
  ipc_p_nr :: int
  ipc_pid :: int
  ipc_msg :: u32
  ipc_msg2 :: u32
  ipc_hdr :: u32
  ipc_timeout :: u32
  ipc_priority :: int

record mrt_down_t =
  dw_index :: int
  dw_timeout :: u32

text \<open>
  The structures that user programs exchange with the real-time system task, as declared in
  \<^verbatim>\<open>include/unistd.h\<close>. A name is the array of 16 characters up to its first NUL.
\<close>

record mrt_sysstat_t =
  us_scheds :: u32
  us_messages :: u32
  us_interrupts :: u32
  us_ticks :: u32
  us_highticks :: u32
  us_idlemax :: u32
  us_idlelast :: u32

record mrt_sysval_t =
  uv_flags :: u32
  uv_virtual_PIC :: u32
  uv_PIT_latency :: u32
  uv_PIT_latch :: u32
  uv_tickrate :: u32
  uv_harmonic :: u32
  uv_refresh :: u32

record mrt_irqattr_t =
  ia_period :: u32
  ia_task :: int
  ia_watchdog :: int
  ia_priority :: u8
  ia_irqtype :: u8
  ia_name :: string

record mrt_irqstat_t =
  is_count :: u32
  is_maxshower :: u32
  is_mdl :: u32
  is_timestamp :: u32
  is_maxlat :: u32
  is_reenter :: int

record mrt_irqint_t =
  ii_irq :: int
  ii_harmonic :: u32
  ii_vtimer :: int
  ii_flags :: u32

record mrt_pattr_t =
  pa_flags :: u32
  pa_baseprty :: u8
  pa_period :: u32
  pa_limit :: u32
  pa_deadline :: u32
  pa_watchdog :: int
  pa_mq_size :: u32
  pa_mq_flags :: u32

record mrt_pstat_t =
  ps_scheds :: u32
  ps_mdl :: u32
  ps_timestamp :: u32
  ps_maxlat :: u32
  ps_minlax :: u32
  ps_msgsent :: u32
  ps_msgrcvd :: u32

record mrt_pint_t =
  pi_vt :: int
  pi_priority :: u8
  pi_mqID :: int
  pi_p_nr :: int

record mrt_semattr_t =
  sa_value :: int
  sa_flags :: u32
  sa_priority :: u8
  sa_name :: string

record mrt_semstat_t =
  sst_ups :: int
  sst_downs :: int
  sst_maxinQ :: int

record mrt_semint_t =
  sin_index :: int
  sin_owner :: int
  sin_inQ :: int

record mrt_msgqstat_t =
  qs_delivered :: int
  qs_enqueued :: int
  qs_maxinQ :: int

text \<open>A message of MINIX.\<close>

record message =
  m_source :: int
  m_type :: int
  m_u :: mess_u

subsection \<open>Semaphores\<close>

record sem_t =
  sm_index :: int
  sm_value :: int
  sm_priority :: u8
  sm_flags :: u32
  sm_owner :: int
  sm_ups :: int
  sm_downs :: int
  sm_carrier :: "int option"
  sm_name :: string
  sm_plist :: plist_t

record syssem_t =
  sfreeL :: list_t
  sem :: "nat \<Rightarrow> sem_t"

subsection \<open>Processes\<close>

record rtattrib_t =
  rt_flags :: u32
  rt_priority :: u8
  rt_baseprty :: u8
  rt_period :: u32
  rt_limit :: u32
  rt_deadline :: u32
  rt_watchdog :: int

record rtstats_t =
  st_scheds :: u32
  st_mdl :: u32
  st_timestamp :: u32
  st_maxlat :: u32
  st_minlax :: u32
  st_msgsent :: u32
  st_msgrcvd :: u32

record mqattrib_t =
  mqa_size :: u32
  mqa_flags :: u32

record mem_map =
  mem_vir :: u32
  mem_phys :: u32
  mem_len :: u32

record proc_t =
  p_retreg :: int           \<comment> \<open>\<open>p_reg.retreg\<close>, the return value of a blocked call\<close>
  p_stguard :: u32          \<comment> \<open>the guard word at the end of a task's stack\<close>
  p_int_blocked :: bool
  p_int_held :: bool
  p_nextheld :: "int option"
  p_flags :: u32
  p_map :: "nat \<Rightarrow> mem_map"
  p_pid :: int
  p_callerq :: "int option"
  p_sendlink :: "int option"
  p_messbuf :: u32
  p_getfrom :: int
  p_sendto :: int
  p_nextready :: "int option"
  p_pending :: u32
  p_pendcount :: u32
  rt :: rtattrib_t
  st :: rtstats_t
  mq :: mqattrib_t
  pmq :: "nat option"
  pvt :: "nat option"
  ipcvt :: "nat option"
  pfrom :: "int option"
  pto :: "int option"
  psem :: "nat option"
  pmsg :: u32
  pmhdr :: u32
  slockL :: list_t
  sallocL :: list_t

subsection \<open>System-wide values\<close>

record sysstat_t =
  ct_scheds :: u32
  ct_messages :: u32
  ct_interrupts :: u32
  ct_ticks :: u32
  ct_highticks :: u32
  ct_idlemax :: u32
  ct_idlelast :: u32
  ct_oneshots :: u32

record sysval_t =
  sv_flags :: u32
  virtual_PIC :: u32
  real_PIC :: u32
  PIT_latency :: u32
  PIT_latch :: u32
  tickrate :: u32
  harmonic :: u32
  refresh :: u32
  tick2Hz :: u32
  MINIX_soft :: int
  IDLE_soft :: int
  prtylvl :: u8
  idlecount :: u32
  counter :: sysstat_t

text \<open>
  Physical memory outside the kernel, by type: the kernel only ever copies whole structures
  between it and its own variables, so there is one store for each structure.
\<close>

record umem_t =
  um_message :: "u32 \<Rightarrow> message"
  um_msg :: "u32 \<Rightarrow> mess_u"
  um_hdr :: "u32 \<Rightarrow> mrt_mhdr_t"
  um_ipc :: "u32 \<Rightarrow> mrt_ipc_t"
  um_long :: "u32 \<Rightarrow> u32"
  um_int :: "u32 \<Rightarrow> int"
  um_pid :: "u32 \<Rightarrow> mrtpid_t"
  um_down :: "u32 \<Rightarrow> mrt_down_t"
  um_sysstat :: "u32 \<Rightarrow> mrt_sysstat_t"
  um_sysval :: "u32 \<Rightarrow> mrt_sysval_t"
  um_irqattr :: "u32 \<Rightarrow> mrt_irqattr_t"
  um_irqstat :: "u32 \<Rightarrow> mrt_irqstat_t"
  um_irqint :: "u32 \<Rightarrow> mrt_irqint_t"
  um_pattr :: "u32 \<Rightarrow> mrt_pattr_t"
  um_pstat :: "u32 \<Rightarrow> mrt_pstat_t"
  um_pint :: "u32 \<Rightarrow> mrt_pint_t"
  um_semattr :: "u32 \<Rightarrow> mrt_semattr_t"
  um_semstat :: "u32 \<Rightarrow> mrt_semstat_t"
  um_semint :: "u32 \<Rightarrow> mrt_semint_t"
  um_msgqstat :: "u32 \<Rightarrow> mrt_msgqstat_t"
  um_name :: "u32 \<Rightarrow> string"

text \<open>
  The hardware: the commands sent to it, in order, the most recent last, and the bytes that
  the ports will deliver.
\<close>

datatype hw_ev =
    OutByte nat u32
  | SetPIC u32        \<comment> \<open>\<open>MRT_set_PIC(mask)\<close>\<close>
  | EnablePIC u32     \<comment> \<open>\<open>MRT_enable_PIC(irq)\<close>\<close>
  | EnableIrq u32     \<comment> \<open>\<open>MRT_enable_irq(irq)\<close>\<close>
  | DisableIrq u32    \<comment> \<open>\<open>MRT_disable_irq(irq)\<close>\<close>

record hw_t =
  hw_log :: "hw_ev list"
  hw_in :: "nat \<Rightarrow> u8"
  hw_pos :: nat

record kstate =
  links :: heap
  procs :: "int \<Rightarrow> proc_t"
  proc_ptr :: int
  bill_ptr :: int
  rdy_head :: "nat \<Rightarrow> int option"
  rdy_tail :: "nat \<Rightarrow> int option"
  held_head :: "int option"
  held_tail :: "int option"
  k_reenter :: u8
  switching :: bool
  sig_procs :: int
  sv :: sysval_t
  si :: sysirq_t
  rdyQ :: plist_t
  tm :: systmr_t
  sm :: sysmsg_t
  ss :: syssem_t
  um :: umem_t
  hw :: hw_t
  m_addr :: u32           \<comment> \<open>the address of the variable \<open>m\<close> of \<^verbatim>\<open>system.c\<close>\<close>
  stk_hdr :: mrt_mhdr_t   \<comment> \<open>what the stack holds where a function declares a local header\<close>
  stk_long :: u32        \<comment> \<open>what the stack holds where a function declares a local counter\<close>
  stk_rp :: "int option"  \<comment> \<open>what the stack holds where \<open>MRT_disinherit\<close> declares \<open>rp\<close>\<close>

subsection \<open>Access to the tables\<close>

abbreviation upd_proc :: "int \<Rightarrow> (proc_t \<Rightarrow> proc_t) \<Rightarrow> kstate \<Rightarrow> kstate" where
  "upd_proc p f \<equiv> procs_update (\<lambda>m. m(p := f (m p)))"

abbreviation upd_rtflags :: "int \<Rightarrow> (u32 \<Rightarrow> u32) \<Rightarrow> kstate \<Rightarrow> kstate" where
  "upd_rtflags p f \<equiv> upd_proc p (rt_update (rt_flags_update f))"

abbreviation set_rtprio :: "int \<Rightarrow> u8 \<Rightarrow> kstate \<Rightarrow> kstate" where
  "set_rtprio p x \<equiv> upd_proc p (rt_update (rt_priority_update (\<lambda>_. x)))"

abbreviation set_retreg :: "int \<Rightarrow> int \<Rightarrow> kstate \<Rightarrow> kstate" where
  "set_retreg p x \<equiv> upd_proc p (p_retreg_update (\<lambda>_. x))"

abbreviation upd_vt :: "nat \<Rightarrow> (vtimer_t \<Rightarrow> vtimer_t) \<Rightarrow> kstate \<Rightarrow> kstate" where
  "upd_vt v f \<equiv> tm_update (vtimer_update (\<lambda>m. m(v := f (m v))))"

abbreviation upd_mqe :: "nat \<Rightarrow> (mqe_t \<Rightarrow> mqe_t) \<Rightarrow> kstate \<Rightarrow> kstate" where
  "upd_mqe e f \<equiv> sm_update (mqe_update (\<lambda>m. m(e := f (m e))))"

abbreviation upd_msgQ :: "nat \<Rightarrow> (msgQ_t \<Rightarrow> msgQ_t) \<Rightarrow> kstate \<Rightarrow> kstate" where
  "upd_msgQ q f \<equiv> sm_update (msgQ_update (\<lambda>m. m(q := f (m q))))"

abbreviation upd_sem :: "nat \<Rightarrow> (sem_t \<Rightarrow> sem_t) \<Rightarrow> kstate \<Rightarrow> kstate" where
  "upd_sem i f \<equiv> ss_update (sem_update (\<lambda>m. m(i := f (m i))))"

abbreviation upd_irqd :: "nat \<Rightarrow> (irqd_t \<Rightarrow> irqd_t) \<Rightarrow> kstate \<Rightarrow> kstate" where
  "upd_irqd d f \<equiv> si_update (irqtab_update (\<lambda>m. m(d := f (m d))))"

abbreviation upd_svflags :: "(u32 \<Rightarrow> u32) \<Rightarrow> kstate \<Rightarrow> kstate" where
  "upd_svflags f \<equiv> sv_update (sv_flags_update f)"

abbreviation svflag :: "kstate \<Rightarrow> u32 \<Rightarrow> bool" where
  "svflag s b \<equiv> TEST_BIT (sv_flags (sv s)) b"

abbreviation set_svflag :: "u32 \<Rightarrow> kstate \<Rightarrow> kstate" where
  "set_svflag b \<equiv> upd_svflags (\<lambda>w. SET_BIT w b)"

abbreviation clr_svflag :: "u32 \<Rightarrow> kstate \<Rightarrow> kstate" where
  "clr_svflag b \<equiv> upd_svflags (\<lambda>w. CLR_BIT w b)"

abbreviation upd_counter :: "(sysstat_t \<Rightarrow> sysstat_t) \<Rightarrow> kstate \<Rightarrow> kstate" where
  "upd_counter f \<equiv> sv_update (counter_update f)"

abbreviation ticks :: "kstate \<Rightarrow> u32" where
  "ticks s \<equiv> ct_ticks (counter (sv s))"

abbreviation prio :: "kstate \<Rightarrow> int \<Rightarrow> nat" where
  "prio s p \<equiv> unat (rt_priority (rt (procs s p)))"

text \<open>The macros that take an index: the tables have no element outside their bounds.\<close>

definition isokprocn :: "int \<Rightarrow> bool" where
  "isokprocn n \<longleftrightarrow> 0 \<le> n + NR_TASKS \<and> n + NR_TASKS < NR_PROCS + NR_TASKS"

definition proc_addr :: "int \<Rightarrow> int res" where
  "proc_addr n = (if isokprocn n then Inr n else Inl OutOfBounds)"

definition tab_addr :: "nat \<Rightarrow> int \<Rightarrow> nat res" where
  "tab_addr n i = (if 0 \<le> i \<and> nat i < n then Inr (nat i) else Inl OutOfBounds)"

definition sem_addr :: "int \<Rightarrow> nat res" where "sem_addr = tab_addr NR_SEM"
definition mqe_addr :: "int \<Rightarrow> nat res" where "mqe_addr = tab_addr NR_MESSAGES"
definition irqd_addr :: "int \<Rightarrow> nat res" where "irqd_addr = tab_addr (NR_IRQ_VECTORS + NR_IRQ_SOFT)"

definition isuserp :: "int \<Rightarrow> bool" where "isuserp p \<longleftrightarrow> LOW_USER \<le> p"
definition istaskp :: "int \<Rightarrow> bool" where "istaskp p \<longleftrightarrow> p < 0 \<and> p \<noteq> IDLE"
definition isrxhardware :: "int \<Rightarrow> bool" where "isrxhardware n \<longleftrightarrow> n = ANY \<or> n = HARDWARE"
definition isoksrc_dest :: "int \<Rightarrow> bool" where "isoksrc_dest n \<longleftrightarrow> isokprocn n \<or> n = ANY"
definition issysmrt :: "int \<Rightarrow> bool" where
  "issysmrt n \<longleftrightarrow> n = FS_PROC_NR \<or> n = MM_PROC_NR \<or> n = MRTTASK"

definition MRT_is_realtime :: "proc_t \<Rightarrow> bool" where
  "MRT_is_realtime p \<longleftrightarrow> TEST_BIT (p_flags p) MRT_P_REALTIME"
definition MRT_is_periodic :: "proc_t \<Rightarrow> bool" where
  "MRT_is_periodic p \<longleftrightarrow> TEST_BIT (rt_flags (rt p)) MRT_P_PERIODIC"
definition MRT_is_rtready :: "proc_t \<Rightarrow> bool" where
  "MRT_is_rtready p \<longleftrightarrow> rt_flags (rt p) AND MRT_P_STATUS = 0"
definition MRT_is_process :: "proc_t \<Rightarrow> bool" where
  "MRT_is_process p \<longleftrightarrow> \<not> TEST_BIT (p_flags p) P_SLOT_FREE"

lemmas proc_macros = MRT_is_realtime_def MRT_is_periodic_def MRT_is_rtready_def MRT_is_process_def

text \<open>A \<open>void *\<close> used as a pointer to an object.\<close>

definition as_proc :: "obj option \<Rightarrow> int res" where
  "as_proc v = (case v of None \<Rightarrow> Inl NullDeref | Some (OProc p) \<Rightarrow> Inr p | _ \<Rightarrow> Inl BadCast)"
definition as_vt :: "obj option \<Rightarrow> nat res" where
  "as_vt v = (case v of None \<Rightarrow> Inl NullDeref | Some (OVT i) \<Rightarrow> Inr i | _ \<Rightarrow> Inl BadCast)"
definition as_mqe :: "obj option \<Rightarrow> nat res" where
  "as_mqe v = (case v of None \<Rightarrow> Inl NullDeref | Some (OMqe i) \<Rightarrow> Inr i | _ \<Rightarrow> Inl BadCast)"
definition as_msgQ :: "obj option \<Rightarrow> nat res" where
  "as_msgQ v = (case v of None \<Rightarrow> Inl NullDeref | Some (OMsgQ i) \<Rightarrow> Inr i | _ \<Rightarrow> Inl BadCast)"
definition as_irqd :: "obj option \<Rightarrow> nat res" where
  "as_irqd v = (case v of None \<Rightarrow> Inl NullDeref | Some (OIrqd i) \<Rightarrow> Inr i | _ \<Rightarrow> Inl BadCast)"
definition as_sem :: "obj option \<Rightarrow> nat res" where
  "as_sem v = (case v of None \<Rightarrow> Inl NullDeref | Some (OSem i) \<Rightarrow> Inr i | _ \<Rightarrow> Inl BadCast)"

lemma as_simps [simp]:
  "as_proc (Some (OProc p)) = Inr p" "as_vt (Some (OVT i)) = Inr i" "as_mqe (Some (OMqe i)) = Inr i"
  "as_msgQ (Some (OMsgQ i)) = Inr i" "as_irqd (Some (OIrqd i)) = Inr i" "as_sem (Some (OSem i)) = Inr i"
  by (simp_all add: as_proc_def as_vt_def as_mqe_def as_msgQ_def as_irqd_def as_sem_def)

lemma proc_addr_ok [simp]: "isokprocn n \<Longrightarrow> proc_addr n = Inr n"
  by (simp add: proc_addr_def)

lemma proc_addr_Inr [simp]: "proc_addr n = Inr m \<longleftrightarrow> isokprocn n \<and> m = n"
  by (auto simp: proc_addr_def)

text \<open>
  The link members of the tables: where a link lies determines the object it belongs to. The
  initialisation code establishes this for every link.
\<close>

definition wf_links :: "heap \<Rightarrow> bool" where
  "wf_links h \<longleftrightarrow>
     (\<forall>p. lk_this (h (LProc p)) = Some (OProc p)) \<and> (\<forall>i. lk_this (h (LVT i)) = Some (OVT i))
     \<and> (\<forall>i. lk_this (h (LMqe i)) = Some (OMqe i)) \<and> (\<forall>i. lk_this (h (LMsgQ i)) = Some (OMsgQ i))
     \<and> (\<forall>i. lk_this (h (LIrqd i)) = Some (OIrqd i))
     \<and> (\<forall>i. lk_this (h (LSemA i)) = Some (OSem i)) \<and> (\<forall>i. lk_this (h (LSemL i)) = Some (OSem i))"

lemma wf_links_frame: "heap_frame A h h' \<Longrightarrow> wf_links h' = wf_links h"
  by (simp add: wf_links_def heap_frame_def)

subsection \<open>User memory\<close>

definition umap :: "proc_t \<Rightarrow> nat \<Rightarrow> u32 \<Rightarrow> u32 \<Rightarrow> u32" where
  "umap p seg vir_addr bytes =
     (if bytes = 0 then 0
      else
        let vc = drop_bit 8 (vir_addr + bytes - 1);
            seg = (if seg \<noteq> 0 then (if vc < mem_vir (p_map p 1) + mem_len (p_map p 1) then 1 else 2)
                   else seg)
        in if drop_bit 8 vir_addr \<ge> mem_vir (p_map p seg) + mem_len (p_map p seg) then 0
           else push_bit 8 (mem_phys (p_map p seg)) + (vir_addr - push_bit 8 (mem_vir (p_map p seg))))"

definition numap :: "kstate \<Rightarrow> int \<Rightarrow> u32 \<Rightarrow> u32 \<Rightarrow> u32" where
  "numap s n vir_addr bytes = umap (procs s n) 1 vir_addr bytes"

abbreviation (input) sizeof_mhdr :: u32 where "sizeof_mhdr \<equiv> 44"
abbreviation (input) sizeof_msg :: u32 where "sizeof_msg \<equiv> 28"
abbreviation (input) sizeof_ipc :: u32 where "sizeof_ipc \<equiv> 28"
abbreviation (input) sizeof_long :: u32 where "sizeof_long \<equiv> 4"
abbreviation (input) sizeof_int :: u32 where "sizeof_int \<equiv> 4"
abbreviation (input) sizeof_mrtpid :: u32 where "sizeof_mrtpid \<equiv> 8"
abbreviation (input) sizeof_down :: u32 where "sizeof_down \<equiv> 8"
abbreviation (input) sizeof_sysstat :: u32 where "sizeof_sysstat \<equiv> 28"
abbreviation (input) sizeof_sysval :: u32 where "sizeof_sysval \<equiv> 28"
abbreviation (input) sizeof_irqattr :: u32 where "sizeof_irqattr \<equiv> 32"
abbreviation (input) sizeof_irqstat :: u32 where "sizeof_irqstat \<equiv> 24"
abbreviation (input) sizeof_irqint :: u32 where "sizeof_irqint \<equiv> 16"
abbreviation (input) sizeof_pattr :: u32 where "sizeof_pattr \<equiv> 32"
abbreviation (input) sizeof_pstat :: u32 where "sizeof_pstat \<equiv> 28"
abbreviation (input) sizeof_pint :: u32 where "sizeof_pint \<equiv> 16"
abbreviation (input) sizeof_semattr :: u32 where "sizeof_semattr \<equiv> 28"
abbreviation (input) sizeof_semstat :: u32 where "sizeof_semstat \<equiv> 12"
abbreviation (input) sizeof_semint :: u32 where "sizeof_semint \<equiv> 12"
abbreviation (input) sizeof_msgqstat :: u32 where "sizeof_msgqstat \<equiv> 12"
abbreviation (input) MAXPNAME :: nat where "MAXPNAME \<equiv> 16"

text \<open>
  The copy macros of \<^verbatim>\<open>kernel.h\<close>. They return \<open>EINVAL\<close> from the function they stand in when
  the address does not map, which is \<open>None\<close> here. \<open>USR2USR\<close> tests the source address twice and
  the destination address not at all, so the copy may go to physical address 0.
\<close>

definition KRN2USR_hdr :: "kstate \<Rightarrow> int \<Rightarrow> u32 \<Rightarrow> mrt_mhdr_t \<Rightarrow> kstate option" where
  "KRN2USR_hdr s p dst x =
     (let a = numap s p dst sizeof_mhdr
      in if a = 0 then None else Some (um_update (um_hdr_update (\<lambda>m. m(a := x))) s))"

definition KRN2USR_msg :: "kstate \<Rightarrow> int \<Rightarrow> u32 \<Rightarrow> mess_u \<Rightarrow> kstate option" where
  "KRN2USR_msg s p dst x =
     (let a = numap s p dst sizeof_msg
      in if a = 0 then None else Some (um_update (um_msg_update (\<lambda>m. m(a := x))) s))"

definition KRN2USR :: "(((u32 \<Rightarrow> 'a) \<Rightarrow> u32 \<Rightarrow> 'a) \<Rightarrow> umem_t \<Rightarrow> umem_t) \<Rightarrow> u32 \<Rightarrow> kstate \<Rightarrow> int \<Rightarrow> u32 \<Rightarrow> 'a \<Rightarrow> kstate option" where
  "KRN2USR store len s p dst x =
     (let a = numap s p dst len in if a = 0 then None else Some (um_update (store (\<lambda>m. m(a := x))) s))"

definition USR2KRN :: "(umem_t \<Rightarrow> u32 \<Rightarrow> 'a) \<Rightarrow> u32 \<Rightarrow> kstate \<Rightarrow> int \<Rightarrow> u32 \<Rightarrow> 'a option" where
  "USR2KRN store len s p src =
     (let a = numap s p src len in if a = 0 then None else Some (store (um s) a))"

definition USR2USR_msg :: "kstate \<Rightarrow> int \<Rightarrow> int \<Rightarrow> u32 \<Rightarrow> u32 \<Rightarrow> kstate option" where
  "USR2USR_msg s pdst psrc dst src =
     (let a = numap s pdst dst sizeof_msg; a1 = numap s psrc src sizeof_msg
      in if a1 = 0 \<or> a1 = 0 then None
         else Some (um_update (um_msg_update (\<lambda>m. m(a := m a1))) s))"

subsection \<open>The ports\<close>

definition hw_emit :: "hw_ev \<Rightarrow> kstate \<Rightarrow> kstate" where
  "hw_emit e = hw_update (hw_log_update (\<lambda>l. l @ [e]))"

definition out_byte :: "nat \<Rightarrow> u32 \<Rightarrow> kstate \<Rightarrow> kstate" where
  "out_byte port v = hw_emit (OutByte port (v AND 0xFF))"

definition in_byte :: "kstate \<Rightarrow> u32 \<times> kstate" where
  "in_byte s = (ucast (hw_in (hw s) (hw_pos (hw s))), hw_update (hw_pos_update Suc) s)"

abbreviation (input) PORT_B :: nat where "PORT_B \<equiv> 0x61"
abbreviation (input) TIMER0 :: nat where "TIMER0 \<equiv> 0x40"
abbreviation (input) TIMER2 :: nat where "TIMER2 \<equiv> 0x42"
abbreviation (input) TIMER_MODE :: nat where "TIMER_MODE \<equiv> 0x43"

subsection \<open>The kernel before initialisation\<close>

text \<open>
  The tables as the loader leaves them, with every variable zero, except that each link already
  knows the object it belongs to.
\<close>

definition proc0 :: proc_t where
  "proc0 = \<lparr>p_retreg = 0, p_stguard = 0, p_int_blocked = False, p_int_held = False, p_nextheld = None, p_flags = 0,
     p_map = (\<lambda>_. \<lparr>mem_vir = 0, mem_phys = 0, mem_len = 0\<rparr>), p_pid = 0, p_callerq = None, p_sendlink = None,
     p_messbuf = 0, p_getfrom = 0, p_sendto = 0, p_nextready = None, p_pending = 0, p_pendcount = 0,
     rt = \<lparr>rt_flags = 0, rt_priority = 0, rt_baseprty = 0, rt_period = 0, rt_limit = 0, rt_deadline = 0, rt_watchdog = 0\<rparr>,
     st = \<lparr>st_scheds = 0, st_mdl = 0, st_timestamp = 0, st_maxlat = 0, st_minlax = 0, st_msgsent = 0, st_msgrcvd = 0\<rparr>,
     mq = \<lparr>mqa_size = 0, mqa_flags = 0\<rparr>, pmq = None, pvt = None, ipcvt = None, pfrom = None, pto = None, psem = None,
     pmsg = 0, pmhdr = 0, slockL = list0, sallocL = list0\<rparr>"

definition mhdr0 :: mrt_mhdr_t where
  "mhdr0 = \<lparr>mh_src = \<lparr>pid_pid = 0, pid_p_nr = 0\<rparr>, mh_dst = \<lparr>pid_pid = 0, pid_p_nr = 0\<rparr>, mh_mtype = 0, mh_mid = 0,
     mh_seqno = 0, mh_tstamp = 0, mh_priority = 0, mh_deadline = 0, mh_laxity = 0\<rparr>"

definition vt0 :: vtimer_t where
  "vt0 = \<lparr>vt_period = 0, vt_limit = 0, vt_action = 0, vt_param = 0, vt_priority = 0, vt_index = 0, vt_owner = 0,
     vt_flags = 0, vt_nextexp = 0, vt_timestamp = 0, vt_expired = 0\<rparr>"

definition irqd0 :: irqd_t where
  "irqd0 = \<lparr>iq_count = 0, iq_maxshower = 0, iq_mdl = 0, iq_timestamp = 0, iq_maxlat = 0, iq_reenter = 0, iq_irq = 0,
     iq_harmonic = 0, iq_pvt = None, iq_flags = 0, iq_latency = 0, iq_shower = 0, iq_before = 0,
     iq_nrthandler = H_spurious_irq, iq_rthandler = H_spurious_irq, iq_period = 0, iq_task = 0, iq_watchdog = 0,
     iq_priority = 0, iq_irqtype = 0, iq_name = []\<rparr>"

definition sem0 :: sem_t where
  "sem0 = \<lparr>sm_index = 0, sm_value = 0, sm_priority = 0, sm_flags = 0, sm_owner = 0, sm_ups = 0, sm_downs = 0,
     sm_carrier = None, sm_name = [], sm_plist = plist0\<rparr>"

definition mqe0 :: mqe_t where
  "mqe0 = \<lparr>me_hdr = mhdr0, me_m_u = (\<lambda>_. 0), me_index = 0, me_pvt = None\<rparr>"

definition msgQ0 :: msgQ_t where
  "msgQ0 = \<lparr>mq_index = 0, mq_size = 0, mq_flags = 0, mq_owner = 0, mq_delivered = 0, mq_enqueued = 0, mq_plist = plist0\<rparr>"

definition umem0 :: umem_t where
  "umem0 = \<lparr>um_message = (\<lambda>_. \<lparr>m_source = 0, m_type = 0, m_u = (\<lambda>_. 0)\<rparr>), um_msg = (\<lambda>_ _. 0), um_hdr = (\<lambda>_. mhdr0),
     um_ipc = (\<lambda>_. \<lparr>ipc_p_nr = 0, ipc_pid = 0, ipc_msg = 0, ipc_msg2 = 0, ipc_hdr = 0, ipc_timeout = 0, ipc_priority = 0\<rparr>),
     um_long = (\<lambda>_. 0), um_int = (\<lambda>_. 0), um_pid = (\<lambda>_. \<lparr>pid_pid = 0, pid_p_nr = 0\<rparr>),
     um_down = (\<lambda>_. \<lparr>dw_index = 0, dw_timeout = 0\<rparr>),
     um_sysstat = (\<lambda>_. \<lparr>us_scheds = 0, us_messages = 0, us_interrupts = 0, us_ticks = 0, us_highticks = 0, us_idlemax = 0, us_idlelast = 0\<rparr>),
     um_sysval = (\<lambda>_. \<lparr>uv_flags = 0, uv_virtual_PIC = 0, uv_PIT_latency = 0, uv_PIT_latch = 0, uv_tickrate = 0, uv_harmonic = 0, uv_refresh = 0\<rparr>),
     um_irqattr = (\<lambda>_. \<lparr>ia_period = 0, ia_task = 0, ia_watchdog = 0, ia_priority = 0, ia_irqtype = 0, ia_name = []\<rparr>),
     um_irqstat = (\<lambda>_. \<lparr>is_count = 0, is_maxshower = 0, is_mdl = 0, is_timestamp = 0, is_maxlat = 0, is_reenter = 0\<rparr>),
     um_irqint = (\<lambda>_. \<lparr>ii_irq = 0, ii_harmonic = 0, ii_vtimer = 0, ii_flags = 0\<rparr>),
     um_pattr = (\<lambda>_. \<lparr>pa_flags = 0, pa_baseprty = 0, pa_period = 0, pa_limit = 0, pa_deadline = 0, pa_watchdog = 0, pa_mq_size = 0, pa_mq_flags = 0\<rparr>),
     um_pstat = (\<lambda>_. \<lparr>ps_scheds = 0, ps_mdl = 0, ps_timestamp = 0, ps_maxlat = 0, ps_minlax = 0, ps_msgsent = 0, ps_msgrcvd = 0\<rparr>),
     um_pint = (\<lambda>_. \<lparr>pi_vt = 0, pi_priority = 0, pi_mqID = 0, pi_p_nr = 0\<rparr>),
     um_semattr = (\<lambda>_. \<lparr>sa_value = 0, sa_flags = 0, sa_priority = 0, sa_name = []\<rparr>),
     um_semstat = (\<lambda>_. \<lparr>sst_ups = 0, sst_downs = 0, sst_maxinQ = 0\<rparr>),
     um_semint = (\<lambda>_. \<lparr>sin_index = 0, sin_owner = 0, sin_inQ = 0\<rparr>),
     um_msgqstat = (\<lambda>_. \<lparr>qs_delivered = 0, qs_enqueued = 0, qs_maxinQ = 0\<rparr>),
     um_name = (\<lambda>_. [])\<rparr>"

definition sysval0 :: sysval_t where
  "sysval0 = \<lparr>sv_flags = 0, virtual_PIC = 0, real_PIC = 0, PIT_latency = 0, PIT_latch = 0, tickrate = 0, harmonic = 0,
     refresh = 0, tick2Hz = 0, MINIX_soft = 0, IDLE_soft = 0, prtylvl = 0, idlecount = 0,
     counter = \<lparr>ct_scheds = 0, ct_messages = 0, ct_interrupts = 0, ct_ticks = 0, ct_highticks = 0, ct_idlemax = 0,
       ct_idlelast = 0, ct_oneshots = 0\<rparr>\<rparr>"

definition kstate0 :: kstate where
  "kstate0 = \<lparr>links = heap0, procs = (\<lambda>_. proc0), proc_ptr = 0, bill_ptr = 0, rdy_head = (\<lambda>_. None), rdy_tail = (\<lambda>_. None),
     held_head = None, held_tail = None, k_reenter = 0, switching = False, sig_procs = 0, sv = sysval0,
     si = \<lparr>irqQ = plist0, mnxQ = list0, hard_use = 0, soft_use = 0, irqtab = (\<lambda>_. irqd0), irqmask = (\<lambda>_. 0)\<rparr>,
     rdyQ = plist0,
     tm = \<lparr>expQ = plist0, actQ = \<lparr>aq_earliest = 0, aq_maxper = 0, aq_list = list0\<rparr>, freeQ = list0, vtimer = (\<lambda>_. vt0),
       T2curr = 0, T2prev = 0, latch = 0\<rparr>,
     sm = \<lparr>mqeL = list0, mqe = (\<lambda>_. mqe0), msgQL = list0, msgQ = (\<lambda>_. msgQ0)\<rparr>,
     ss = \<lparr>sfreeL = list0, sem = (\<lambda>_. sem0)\<rparr>, um = umem0, hw = \<lparr>hw_log = [], hw_in = (\<lambda>_. 0), hw_pos = 0\<rparr>,
     m_addr = 0, stk_hdr = mhdr0, stk_long = 0, stk_rp = None\<rparr>"

lemmas zero_defs = kstate0_def proc0_def mhdr0_def vt0_def irqd0_def sem0_def mqe0_def msgQ0_def umem0_def sysval0_def
  plist0_def list0_def

lemma wf_links_heap0 [simp]: "wf_links heap0"
  by (simp add: wf_links_def heap0_def)

lemma wf_links0 [simp]: "wf_links (links kstate0)"
  by (simp add: kstate0_def)

subsection \<open>The bounds of a mapped buffer\<close>

text \<open>
  The first byte of a segment, the byte after its last one, and the condition that a segment fits
  the address space.
\<close>

definition seg_first :: "mem_map \<Rightarrow> nat" where
  "seg_first m = 256 * unat (mem_vir m)"

definition seg_last :: "mem_map \<Rightarrow> nat" where
  "seg_last m = 256 * (unat (mem_vir m) + unat (mem_len m))"

definition seg_ok :: "mem_map \<Rightarrow> bool" where
  "seg_ok m \<longleftrightarrow> unat (mem_vir m) + unat (mem_len m) < 2 ^ 24 \<and> unat (mem_phys m) + unat (mem_len m) < 2 ^ 24"

lemma unat_clicks: "unat (drop_bit 8 (w :: u32)) = unat w div 256"
  by (simp add: unat_drop_bit_eq drop_bit_eq_div unat_div)

lemma click_before_end:
  assumes "seg_ok m"
  shows "drop_bit 8 (w :: u32) < mem_vir m + mem_len m \<longleftrightarrow> unat w < seg_last m"
proof -
  have "unat (mem_vir m + mem_len m) = unat (mem_vir m) + unat (mem_len m)"
    using assms by (subst unat_plus_simple[THEN iffD1]) (auto simp: seg_ok_def no_olen_add_nat)
  then show ?thesis
    by (simp add: word_less_nat_alt unat_clicks seg_last_def) linarith
qed

lemma click_not_beyond:
  "seg_ok m \<Longrightarrow> mem_vir m + mem_len m \<le> drop_bit 8 (w :: u32) \<longleftrightarrow> seg_last m \<le> unat w"
  using click_before_end[of m w] by (meson not_le)

lemma seg_map_linear:
  assumes "seg_ok m" "seg_first m \<le> unat w" "unat w < seg_last m"
  shows "unat (push_bit 8 (mem_phys m) + ((w :: u32) - push_bit 8 (mem_vir m)))
           = 256 * unat (mem_phys m) + (unat w - seg_first m)"
proof -
  have b: "unat (mem_vir m) < 2 ^ 24" "unat (mem_phys m) < 2 ^ 24"
    using assms(1) by (auto simp: seg_ok_def)
  have v: "unat (push_bit 8 (mem_vir m)) = seg_first m"
    using b by (simp add: push_bit_eq_mult unat_word_ariths seg_first_def)
  have p: "unat (push_bit 8 (mem_phys m)) = 256 * unat (mem_phys m)"
    using b by (simp add: push_bit_eq_mult unat_word_ariths)
  have d: "unat (w - push_bit 8 (mem_vir m)) = unat w - seg_first m"
    using assms(2) v by (simp add: unat_sub word_le_nat_alt)
  have "256 * unat (mem_phys m) + (unat w - seg_first m) < 2 ^ 32"
    using assms by (auto simp: seg_ok_def seg_first_def seg_last_def)
  then show ?thesis
    by (simp add: unat_word_ariths p d)
qed

lemma unat_last_byte:
  assumes "(b :: u32) \<noteq> 0" "unat (a :: u32) + unat b \<le> 2 ^ 32"
  shows "unat (a + b - 1) = unat a + unat b - 1"
proof -
  have "1 \<le> unat b" using assms(1) by (simp add: Suc_le_eq unat_gt_0)
  moreover have "a + b - 1 = word_of_nat (unat a + unat b - 1)"
    using calculation by (simp add: of_nat_diff)
  moreover have "unat a + unat b - 1 < 2 ^ 32"
    using assms(2) calculation(1) by linarith
  ultimately show ?thesis by (simp only: unat_of_nat) simp
qed

text \<open>A process with separate data and stack segments.\<close>

definition proc_mapped :: proc_t where
  "proc_mapped = proc0\<lparr>p_map := (\<lambda>_. \<lparr>mem_vir = 0, mem_phys = 0, mem_len = 0\<rparr>)
     (1 := \<lparr>mem_vir = 0, mem_phys = 0x400, mem_len = 0x10\<rparr>, 2 := \<lparr>mem_vir = 0x20, mem_phys = 0x420, mem_len = 4\<rparr>)\<rparr>"

subsection \<open>Properties of the address mapping\<close>

text \<open>
  C32. A buffer that lies inside the data segment of a process is mapped linearly: its physical
  address is the base of the segment plus the offset, and the whole buffer lies inside the
  physical memory of the segment.
\<close>

theorem umap_data_bounds:
  assumes "seg_ok (p_map p 1)" "seg \<noteq> 0" "bytes \<noteq> 0"
    and "seg_first (p_map p 1) \<le> unat vir_addr" "unat vir_addr + unat bytes \<le> seg_last (p_map p 1)"
  shows "unat (umap p seg vir_addr bytes) = 256 * unat (mem_phys (p_map p 1)) + (unat vir_addr - seg_first (p_map p 1))
    \<and> unat (umap p seg vir_addr bytes) + unat bytes \<le> 256 * (unat (mem_phys (p_map p 1)) + unat (mem_len (p_map p 1)))"
proof -
  have "0 < unat bytes" using assms(3) by (simp add: unat_gt_0)
  then have lt: "unat vir_addr < seg_last (p_map p 1)" using assms(5) by linarith
  have "seg_last (p_map p 1) \<le> 2 ^ 32" using assms(1) by (simp add: seg_ok_def seg_last_def)
  then have "unat (vir_addr + bytes - 1) = unat vir_addr + unat bytes - 1"
    using assms(3,5) by (intro unat_last_byte) auto
  then have D: "drop_bit 8 (vir_addr + bytes - 1) < mem_vir (p_map p 1) + mem_len (p_map p 1)"
    using assms(1,5) \<open>0 < unat bytes\<close> by (simp add: click_before_end)
  have "umap p seg vir_addr bytes = push_bit 8 (mem_phys (p_map p 1)) + (vir_addr - push_bit 8 (mem_vir (p_map p 1)))"
    using D assms(2,3) lt click_not_beyond[OF assms(1)] by (simp add: umap_def Let_def)
  moreover note seg_map_linear[OF assms(1,4) lt]
  ultimately show ?thesis
    using assms(4,5) by (simp add: seg_first_def seg_last_def)
qed

theorem umap_data_bounds_witness:
  "unat (umap proc_mapped 1 0x100 44) + unat (44 :: u32) \<le> 256 * (0x400 + 0x10)"
  using umap_data_bounds[of proc_mapped 1 44 "0x100"]
  by (simp add: proc_mapped_def seg_ok_def seg_first_def seg_last_def)

text \<open>
  For the stack segment only the first byte is compared with the end of the segment: a
  buffer that starts inside and ends beyond it is accepted, and the kernel reads or writes
  physical memory beyond that of the process.
\<close>

lemma umap_stack_overrun:
  assumes "seg_ok (p_map p 1)" "seg_ok (p_map p 2)" "seg \<noteq> 0" "bytes \<noteq> 0"
    and "seg_last (p_map p 1) \<le> unat vir_addr" "seg_first (p_map p 2) \<le> unat vir_addr"
    and "unat vir_addr < seg_last (p_map p 2)" "unat vir_addr + unat bytes \<le> 2 ^ 32"
    and "mem_phys (p_map p 2) \<noteq> 0"
    and "seg_last (p_map p 2) < unat vir_addr + unat bytes"
  shows "umap p seg vir_addr bytes \<noteq> 0
    \<and> 256 * (unat (mem_phys (p_map p 2)) + unat (mem_len (p_map p 2))) < unat (umap p seg vir_addr bytes) + unat bytes"
proof -
  have n: "0 < unat bytes" using assms(4) by (simp add: unat_gt_0)
  have "unat (vir_addr + bytes - 1) = unat vir_addr + unat bytes - 1"
    using assms(4,8) by (rule unat_last_byte)
  then have "\<not> drop_bit 8 (vir_addr + bytes - 1) < mem_vir (p_map p 1) + mem_len (p_map p 1)"
    using assms(1,5) n by (simp add: click_before_end)
  then have "umap p seg vir_addr bytes = push_bit 8 (mem_phys (p_map p 2)) + (vir_addr - push_bit 8 (mem_vir (p_map p 2)))"
    using assms(3,4,7) click_not_beyond[OF assms(2)] by (simp add: umap_def Let_def)
  then have u: "unat (umap p seg vir_addr bytes) = 256 * unat (mem_phys (p_map p 2)) + (unat vir_addr - seg_first (p_map p 2))"
    using seg_map_linear[OF assms(2,6,7)] by simp
  moreover have "0 < unat (mem_phys (p_map p 2))" using assms(9) by (simp add: unat_gt_0)
  ultimately have "umap p seg vir_addr bytes \<noteq> 0" by (auto simp: unat_eq_0[symmetric])
  then show ?thesis
    using u assms(6,10) by (simp add: seg_first_def seg_last_def)
qed

end
