(* ===== verification/Sched.thy ===== *)
theory Sched
  imports Kstate
begin

text \<open>
  The schedulers: the real-time ready queue and \<open>MRT_pick_proc\<close> of
  \<^verbatim>\<open>src/src/kernel/mrtproc.c\<close>, and the three MINIX ready queues with \<open>pick_proc\<close>,
  \<open>ready\<close>, \<open>unready\<close> and \<open>sched\<close> of \<^verbatim>\<open>src/src/kernel/proc.c\<close>.

  The lemmas show which process each of them selects, and that the MINIX queue operations are
  operations on the list of queued processes.
\<close>

subsection \<open>The real-time ready queue\<close>

definition with_rdyQ :: "(heap \<Rightarrow> plist_t \<Rightarrow> (heap \<times> plist_t) res) \<Rightarrow> kstate \<Rightarrow> kstate res" where
  "with_rdyQ f s = bnd (f (links s) (rdyQ s)) (\<lambda>(h, q). Inr (s\<lparr>links := h, rdyQ := q\<rparr>))"

definition MRT_rdyQ_init :: "kstate \<Rightarrow> kstate" where
  "MRT_rdyQ_init s = s\<lparr>rdyQ := MRT_plist_rst (rdyQ s)\<rparr>"

definition MRT_rdyQ_app :: "int \<Rightarrow> kstate \<Rightarrow> kstate res" where
  "MRT_rdyQ_app p s =
     (if st_scheds (st (procs s p)) > rt_limit (rt (procs s p)) \<and> rt_limit (rt (procs s p)) > 0
      then Inr (upd_proc (proc_ptr s) (p_flags_update (\<lambda>w. SET_BIT w P_STOP)) s)
      else with_rdyQ (\<lambda>h q. MRT_plist_app h q (LProc p) (prio s p)) s)"

definition MRT_rdyQ_ins :: "int \<Rightarrow> kstate \<Rightarrow> kstate res" where
  "MRT_rdyQ_ins p s = with_rdyQ (\<lambda>h q. MRT_plist_ins h q (LProc p) (prio s p)) s"

definition MRT_rdyQ_rmv :: "int \<Rightarrow> kstate \<Rightarrow> kstate res" where
  "MRT_rdyQ_rmv p s = with_rdyQ (\<lambda>h q. MRT_plist_rmv h q (LProc p) (prio s p)) s"

abbreviation MRT_ready :: "int \<Rightarrow> kstate \<Rightarrow> kstate res" where "MRT_ready \<equiv> MRT_rdyQ_app"
abbreviation MRT_unready :: "int \<Rightarrow> kstate \<Rightarrow> kstate res" where "MRT_unready \<equiv> MRT_rdyQ_rmv"

definition MRT_set_PIC :: "u32 \<Rightarrow> kstate \<Rightarrow> kstate" where
  "MRT_set_PIC m = hw_emit (SetPIC m)"

definition MRT_prtylvl_set :: "u8 \<Rightarrow> kstate \<Rightarrow> kstate res" where
  "MRT_prtylvl_set priority s =
     (let s = sv_update (prtylvl_update (\<lambda>_. priority)) s
      in if svflag s MRT_PRTYMASK
         then chk (unat priority < MRT_NR_PRTY) OutOfBounds
                (Inr (MRT_set_PIC (NOT (irqmask (si s) (unat priority)) OR real_PIC (sv s)) s))
         else Inr s)"

definition MRT_pick_proc :: "kstate \<Rightarrow> (int \<times> kstate) res" where
  "MRT_pick_proc s =
     (let s = clr_svflag MRT_NEEDSCHED s
      in case MRT_plist_get (rdyQ s) of
           Some k \<Rightarrow>
             bnd (as_proc (lk_this (links s k))) (\<lambda>p.
             let s = s\<lparr>proc_ptr := p\<rparr>;
                 s = upd_counter (ct_scheds_update (\<lambda>n. n + 1)) s;
                 s = upd_proc p (st_update (st_timestamp_update (\<lambda>_. ticks s))) s;
                 s = upd_proc p (st_update (st_scheds_update (\<lambda>n. n + 1))) s;
                 s = (if isuserp p then s\<lparr>bill_ptr := p\<rparr> else s)
             in bnd (MRT_prtylvl_set (rt_priority (rt (procs s p))) s) (\<lambda>s. Inr (OK, s)))
         | None \<Rightarrow> bnd (MRT_prtylvl_set MRT_PRILOWEST s) (\<lambda>s. Inr (1, s)))"

subsection \<open>The MINIX ready queues\<close>

abbreviation (input) TASK_Q :: nat where "TASK_Q \<equiv> 0"
abbreviation (input) SERVER_Q :: nat where "SERVER_Q \<equiv> 1"
abbreviation (input) USER_Q :: nat where "USER_Q \<equiv> 2"

abbreviation set_rdy_head :: "nat \<Rightarrow> int option \<Rightarrow> kstate \<Rightarrow> kstate" where
  "set_rdy_head q v \<equiv> rdy_head_update (\<lambda>m. m(q := v))"
abbreviation set_rdy_tail :: "nat \<Rightarrow> int option \<Rightarrow> kstate \<Rightarrow> kstate" where
  "set_rdy_tail q v \<equiv> rdy_tail_update (\<lambda>m. m(q := v))"
abbreviation set_nextready :: "int \<Rightarrow> int option \<Rightarrow> kstate \<Rightarrow> kstate" where
  "set_nextready p v \<equiv> upd_proc p (p_nextready_update (\<lambda>_. v))"

text \<open>The part of \<open>pick_proc\<close> after the real-time scheduler found nobody.\<close>

definition pick_minix :: "kstate \<Rightarrow> kstate" where
  "pick_minix s =
     (case rdy_head s TASK_Q of
        Some rp \<Rightarrow> s\<lparr>proc_ptr := rp\<rparr>
      | None \<Rightarrow>
          (case rdy_head s SERVER_Q of
             Some rp \<Rightarrow> s\<lparr>proc_ptr := rp\<rparr>
           | None \<Rightarrow>
               (case rdy_head s USER_Q of
                  Some rp \<Rightarrow> s\<lparr>proc_ptr := rp, bill_ptr := rp\<rparr>
                | None \<Rightarrow> s\<lparr>proc_ptr := IDLE, bill_ptr := IDLE\<rparr>)))"

definition pick_proc :: "kstate \<Rightarrow> kstate res" where
  "pick_proc s =
     bnd (if svflag s MRT_RTMODE then MRT_pick_proc s else Inr (1, s)) (\<lambda>(r, s).
       if r = OK then Inr (set_svflag MRT_RTSCHED s)
       else Inr (pick_minix (clr_svflag MRT_RTSCHED s)))"

definition ready_tail :: "nat \<Rightarrow> int \<Rightarrow> (kstate \<Rightarrow> kstate) \<Rightarrow> kstate \<Rightarrow> kstate res" where
  "ready_tail q rp fresh s =
     bnd (if rdy_head s q \<noteq> None
          then bnd (deref (rdy_tail s q)) (\<lambda>t. Inr (set_nextready t (Some rp) s))
          else Inr (fresh (set_rdy_head q (Some rp) s)))
       (\<lambda>s. Inr (set_nextready rp None (set_rdy_tail q (Some rp) s)))"

definition ready :: "int \<Rightarrow> kstate \<Rightarrow> kstate res" where
  "ready rp s =
     (if istaskp rp then ready_tail TASK_Q rp (\<lambda>s. s\<lparr>proc_ptr := rp\<rparr>) s
      else if \<not> isuserp rp then ready_tail SERVER_Q rp (\<lambda>s. s) s
      else
        let s = (if rdy_head s USER_Q = None then set_rdy_tail USER_Q (Some rp) s else s);
            s = set_nextready rp (rdy_head s USER_Q) s
        in Inr (set_rdy_head USER_Q (Some rp) s))"

text \<open>
  The search of \<open>unready\<close> for the predecessor of \<open>rp\<close>. The queue has at most
  \<open>NR_TASKS + NR_PROCS\<close> members, so this many steps are enough when it is not circular.
\<close>

abbreviation (input) proc_fuel :: nat where "proc_fuel \<equiv> 44"

definition unready_unlink :: "nat \<Rightarrow> int \<Rightarrow> int \<Rightarrow> kstate \<Rightarrow> kstate" where
  "unready_unlink q rp xp s =
     (let s = set_nextready xp (p_nextready (procs s rp)) s
      in if rdy_tail s q = Some rp then set_rdy_tail q (Some xp) s else s)"

fun unready_search :: "nat \<Rightarrow> nat \<Rightarrow> int \<Rightarrow> int \<Rightarrow> kstate \<Rightarrow> kstate res" where
  "unready_search 0 q rp xp s = Inl Diverge"
| "unready_search (Suc n) q rp xp s =
     (if p_nextready (procs s xp) = Some rp then Inr (unready_unlink q rp xp s)
      else case p_nextready (procs s xp) of
             None \<Rightarrow> Inr s
           | Some xp \<Rightarrow> unready_search n q rp xp s)"

definition unready_from :: "nat \<Rightarrow> (kstate \<Rightarrow> bool) \<Rightarrow> int \<Rightarrow> kstate \<Rightarrow> kstate res" where
  "unready_from q pick rp s =
     (case rdy_head s q of
        None \<Rightarrow> Inr s
      | Some xp \<Rightarrow>
          if xp = rp
          then
            let s = set_rdy_head q (p_nextready (procs s xp)) s
            in if pick s then pick_proc s else Inr s
          else unready_search proc_fuel q rp xp s)"

abbreviation (input) STACK_GUARD :: u32 where "STACK_GUARD \<equiv> 0xDEADBEEF"

definition unready :: "int \<Rightarrow> kstate \<Rightarrow> kstate res" where
  "unready rp s =
     (if istaskp rp
      then if p_stguard (procs s rp) \<noteq> STACK_GUARD then Inl (Panic ''stack overrun by task'')
           else unready_from TASK_Q (\<lambda>s. rp = proc_ptr s) rp s
      else if \<not> isuserp rp then unready_from SERVER_Q (\<lambda>_. True) rp s
      else unready_from USER_Q (\<lambda>_. True) rp s)"

definition sched :: "kstate \<Rightarrow> kstate res" where
  "sched s =
     (case rdy_head s USER_Q of
        None \<Rightarrow> Inr s
      | Some h \<Rightarrow>
          bnd (deref (rdy_tail s USER_Q)) (\<lambda>t.
          let s = set_nextready t (Some h) s;
              s = set_rdy_tail USER_Q (Some h) s;
              s = set_rdy_head USER_Q (p_nextready (procs s h)) s;
              s = set_nextready h None s
          in pick_proc s))"

text \<open>The gateways that keep \<open>interrupt\<close> away while a queue is changed.\<close>

definition locked :: "(kstate \<Rightarrow> kstate res) \<Rightarrow> kstate \<Rightarrow> kstate res" where
  "locked f s = bnd (f (s\<lparr>switching := True\<rparr>)) (\<lambda>s. Inr (s\<lparr>switching := False\<rparr>))"

definition lock_pick_proc :: "kstate \<Rightarrow> kstate res" where "lock_pick_proc = locked pick_proc"
definition lock_ready :: "int \<Rightarrow> kstate \<Rightarrow> kstate res" where "lock_ready rp = locked (ready rp)"
definition lock_unready :: "int \<Rightarrow> kstate \<Rightarrow> kstate res" where "lock_unready rp = locked (unready rp)"
definition lock_sched :: "kstate \<Rightarrow> kstate res" where "lock_sched = locked sched"

subsection \<open>What the real-time scheduler selects\<close>

text \<open>
  The invariant of the ready queue: it stands for the lists \<open>qs\<close>, its members are processes of
  the table, and each of them is on the list of its own priority.
\<close>

definition rdyQ_inv :: "kstate \<Rightarrow> (nat \<Rightarrow> lref list) \<Rightarrow> bool" where
  "rdyQ_inv s qs \<longleftrightarrow> pl_rep (links s) (rdyQ s) qs
     \<and> (\<forall>l. \<forall>k\<in>set (qs l). \<exists>p. k = LProc p \<and> isokprocn p \<and> prio s p = l)"

lemma rdyQ_inv_member:
  "rdyQ_inv s qs \<Longrightarrow> k \<in> set (qs l) \<Longrightarrow> \<exists>p. k = LProc p \<and> isokprocn p \<and> prio s p = l"
  by (simp add: rdyQ_inv_def)

lemma rdyQ_inv_rep: "rdyQ_inv s qs \<Longrightarrow> pl_rep (links s) (rdyQ s) qs"
  by (simp add: rdyQ_inv_def)

lemma MRT_prtylvl_set_ok:
  "unat x < MRT_NR_PRTY \<Longrightarrow> \<exists>l. MRT_prtylvl_set x s =
     Inr (hw_update (hw_log_update l) (sv_update (prtylvl_update (\<lambda>_. x)) s))"
proof -
  assume x: "unat x < MRT_NR_PRTY"
  show ?thesis
  proof (cases "svflag s MRT_PRTYMASK")
    case True
    with x show ?thesis
      by (auto simp: MRT_prtylvl_set_def MRT_set_PIC_def hw_emit_def)
  next
    case False
    then have "MRT_prtylvl_set x s = Inr (hw_update (hw_log_update (\<lambda>l. l)) (sv_update (prtylvl_update (\<lambda>_. x)) s))"
      by (simp add: MRT_prtylvl_set_def)
    then show ?thesis by blast
  qed
qed

lemma MRT_pick_proc_Some:
  assumes inv: "rdyQ_inv s qs" and wf: "wf_links (links s)"
    and get: "first_of MRT_NR_PRTY qs = Some k"
  shows "\<exists>p s'. k = LProc p \<and> MRT_pick_proc s = Inr (OK, s') \<and> proc_ptr s' = p
    \<and> prtylvl (sv s') = rt_priority (rt (procs s p)) \<and> rdyQ s' = rdyQ s \<and> links s' = links s
    \<and> bill_ptr s' = (if isuserp p then p else bill_ptr s)
    \<and> st_scheds (st (procs s' p)) = st_scheds (st (procs s p)) + 1
    \<and> st_timestamp (st (procs s' p)) = ticks s
    \<and> sv_flags (sv s') = CLR_BIT (sv_flags (sv s)) MRT_NEEDSCHED"
proof -
  from get obtain l ys where l: "l < MRT_NR_PRTY" and ql: "qs l = k # ys"
    by (auto simp: first_of_Some)
  with rdyQ_inv_member[OF inv, of k l] obtain p
    where p: "k = LProc p" "prio s p = l" by auto
  have this0: "lk_this (links s (LProc p)) = Some (OProc p)" using wf by (simp add: wf_links_def)
  have get': "MRT_plist_get (rdyQ s) = Some (LProc p)"
    using get p(1) pl.get_law[OF rdyQ_inv_rep[OF inv]] by simp
  obtain lg where lg: "MRT_prtylvl_set (rt_priority (rt (procs s p))) s0 =
      Inr (hw_update (hw_log_update (lg s0)) (sv_update (prtylvl_update (\<lambda>_. rt_priority (rt (procs s p)))) s0))" for s0
    using MRT_prtylvl_set_ok[of "rt_priority (rt (procs s p))"] l p(2) by metis
  show ?thesis
    by (cases "isuserp p") (simp_all add: MRT_pick_proc_def get' this0 Let_def p(1) lg)
qed

lemma MRT_pick_proc_None:
  assumes inv: "rdyQ_inv s qs" and get: "first_of MRT_NR_PRTY qs = None"
  shows "\<exists>s'. MRT_pick_proc s = Inr (1, s') \<and> proc_ptr s' = proc_ptr s \<and> bill_ptr s' = bill_ptr s
    \<and> prtylvl (sv s') = MRT_PRILOWEST \<and> rdy_head s' = rdy_head s \<and> procs s' = procs s"
proof -
  have get': "MRT_plist_get (rdyQ s) = None"
    using get pl.get_law[OF rdyQ_inv_rep[OF inv]] by simp
  obtain lg where lg: "MRT_prtylvl_set MRT_PRILOWEST s0 =
      Inr (hw_update (hw_log_update (lg s0)) (sv_update (prtylvl_update (\<lambda>_. MRT_PRILOWEST)) s0))" for s0
    using MRT_prtylvl_set_ok[of MRT_PRILOWEST] by (simp add: MRT_NR_PRTY_def) metis
  show ?thesis by (simp add: MRT_pick_proc_def get' Let_def lg)
qed

lemma first_of_highest:
  assumes inv: "rdyQ_inv s qs" and get: "first_of MRT_NR_PRTY qs = Some (LProc p)"
    and m: "LProc m \<in> members qs"
  shows "prio s p \<le> prio s m"
proof -
  from get obtain l ys where "qs l = LProc p # ys" and low: "\<forall>r<l. qs r = []"
    by (auto simp: first_of_Some)
  moreover from this have "prio s p = l" using rdyQ_inv_member[OF inv, of "LProc p" l] by auto
  moreover obtain l' where "LProc m \<in> set (qs l')" using m by (auto simp: members_def)
  moreover from this have "prio s m = l'" using rdyQ_inv_member[OF inv, of "LProc m" l'] by auto
  ultimately show ?thesis by (metis empty_iff leI list.set(1))
qed

subsection \<open>The MINIX queues as lists of processes\<close>

fun rq_chain :: "(int \<Rightarrow> proc_t) \<Rightarrow> int list \<Rightarrow> bool" where
  "rq_chain m [] \<longleftrightarrow> True"
| "rq_chain m (x # xs) \<longleftrightarrow> p_nextready (m x) = opt_hd xs \<and> rq_chain m xs"

definition rq_rep :: "kstate \<Rightarrow> nat \<Rightarrow> int list \<Rightarrow> bool" where
  "rq_rep s q xs \<longleftrightarrow> rdy_head s q = opt_hd xs \<and> (xs \<noteq> [] \<longrightarrow> rdy_tail s q = opt_last xs)
     \<and> distinct xs \<and> rq_chain (procs s) xs"

lemma rq_chain_other [simp]:
  "p \<notin> set xs \<Longrightarrow> rq_chain (m(p := x)) xs = rq_chain m xs"
  by (induction xs) auto

lemma rq_chain_snoc:
  "rq_chain m (ys @ [z]) \<Longrightarrow> distinct (ys @ [z, x]) \<Longrightarrow> p_nextready zz = Some x \<Longrightarrow>
   p_nextready xx = None \<Longrightarrow> rq_chain (m(z := zz, x := xx)) (ys @ [z, x])"
proof (induction ys)
  case (Cons a ys)
  then show ?case by (cases ys) auto
qed auto

lemma rq_chain_cong:
  "(\<And>x. x \<in> set xs \<Longrightarrow> p_nextready (m x) = p_nextready (m' x)) \<Longrightarrow> rq_chain m xs = rq_chain m' xs"
  by (induction xs) auto

lemma rq_rep_cong:
  "rdy_head s' q = rdy_head s q \<Longrightarrow> rdy_tail s' q = rdy_tail s q \<Longrightarrow>
   (\<And>x. x \<in> set xs \<Longrightarrow> p_nextready (procs s' x) = p_nextready (procs s x)) \<Longrightarrow>
   rq_rep s q xs \<Longrightarrow> rq_rep s' q xs"
  unfolding rq_rep_def using rq_chain_cong[of xs "procs s'" "procs s"] by simp

text \<open>The queue a process belongs to, and the invariant of the three queues.\<close>

definition qclass :: "int \<Rightarrow> nat" where
  "qclass x = (if istaskp x then TASK_Q else if \<not> isuserp x then SERVER_Q else USER_Q)"

definition minix_inv :: "kstate \<Rightarrow> (nat \<Rightarrow> int list) \<Rightarrow> bool" where
  "minix_inv s f \<longleftrightarrow> (\<forall>q. rq_rep s q (f q) \<and> (\<forall>x\<in>set (f q). qclass x = q))"

lemma minix_inv_upd:
  assumes inv: "minix_inv s f" and rep: "rq_rep s' q xs" and cls: "\<forall>x\<in>set xs. qclass x = q"
    and head: "\<And>r. r \<noteq> q \<Longrightarrow> rdy_head s' r = rdy_head s r"
    and tail: "\<And>r. r \<noteq> q \<Longrightarrow> rdy_tail s' r = rdy_tail s r"
    and other: "\<And>x. qclass x \<noteq> q \<Longrightarrow> p_nextready (procs s' x) = p_nextready (procs s x)"
  shows "minix_inv s' (f(q := xs))"
proof -
  have "rq_rep s' r (f r)" if "r \<noteq> q" for r
  proof (rule rq_rep_cong)
    show "p_nextready (procs s' x) = p_nextready (procs s x)" if "x \<in> set (f r)" for x
      using inv that \<open>r \<noteq> q\<close> by (intro other) (auto simp: minix_inv_def)
  qed (use inv that head tail in \<open>auto simp: minix_inv_def\<close>)
  with inv rep cls show ?thesis by (simp add: minix_inv_def)
qed

lemma qclass_queue:
  "istaskp x \<Longrightarrow> qclass x = TASK_Q" "\<not> istaskp x \<Longrightarrow> \<not> isuserp x \<Longrightarrow> qclass x = SERVER_Q"
  "isuserp x \<Longrightarrow> qclass x = USER_Q"
  by (auto simp: qclass_def istaskp_def isuserp_def)

lemma ready_tail_inv:
  assumes inv: "minix_inv s f" and q: "qclass x = q" and x: "x \<notin> set (f q)"
    and fresh: "\<And>s. procs (fresh s) = procs s \<and> rdy_head (fresh s) = rdy_head s \<and> rdy_tail (fresh s) = rdy_tail s"
  shows "\<exists>s'. ready_tail q x fresh s = Inr s' \<and> minix_inv s' (f(q := f q @ [x]))"
proof (cases "f q" rule: rev_cases)
  case Nil
  with inv have hd: "rdy_head s q = None" by (metis minix_inv_def opt_hd_simps(1) rq_rep_def)
  let ?s' = "set_nextready x None (set_rdy_tail q (Some x) (fresh (set_rdy_head q (Some x) s)))"
  have "minix_inv ?s' (f(q := [x]))"
    by (rule minix_inv_upd[OF inv]) (auto simp: rq_rep_def q fresh)
  with hd Nil show ?thesis by (simp add: ready_tail_def)
next
  case (snoc ys z)
  from inv have rep: "rq_rep s q (f q)" and cls: "\<forall>y\<in>set (f q). qclass y = q"
    by (simp_all add: minix_inv_def)
  have hd: "rdy_head s q \<noteq> None" "rdy_tail s q = Some z"
    using rep snoc by (simp_all add: rq_rep_def)
  let ?s' = "set_nextready x None (set_rdy_tail q (Some x) (set_nextready z (Some x) s))"
  have "x \<noteq> z" "distinct (ys @ [z, x])" using rep x snoc by (auto simp: rq_rep_def)
  then have "rq_rep ?s' q (f q @ [x])"
    using rep snoc by (auto simp: rq_rep_def opt_hd_append opt_last_def intro!: rq_chain_snoc)
  then have "minix_inv ?s' (f(q := f q @ [x]))"
    by (rule minix_inv_upd[OF inv]) (use cls q snoc in auto)
  with hd snoc show ?thesis by (simp add: ready_tail_def)
qed

lemma ready_inv:
  assumes inv: "minix_inv s f" and x: "x \<notin> set (f (qclass x))"
  shows "\<exists>s'. ready x s = Inr s' \<and>
    minix_inv s' (f(qclass x := if isuserp x then x # f (qclass x) else f (qclass x) @ [x]))"
proof (cases "isuserp x")
  case False
  then show ?thesis
    using ready_tail_inv[OF inv refl x, of "\<lambda>s. s\<lparr>proc_ptr := x\<rparr>"] ready_tail_inv[OF inv refl x, of "\<lambda>s. s"]
    by (cases "istaskp x") (auto simp: ready_def qclass_queue)
next
  case True
  then have nt: "\<not> istaskp x" and q: "qclass x = USER_Q" by (simp_all add: istaskp_def isuserp_def qclass_def)
  let ?h = "rdy_head s USER_Q"
  let ?s1 = "if ?h = None then set_rdy_tail USER_Q (Some x) s else s"
  let ?s' = "set_rdy_head USER_Q (Some x) (set_nextready x ?h ?s1)"
  from inv have rep: "rq_rep s USER_Q (f USER_Q)" and cls: "\<forall>y\<in>set (f USER_Q). qclass y = USER_Q"
    by (simp_all add: minix_inv_def)
  have "rq_rep ?s' USER_Q (x # f USER_Q)"
    using rep x q by (auto simp: rq_rep_def opt_last_def)
  then have "minix_inv ?s' (f(USER_Q := x # f USER_Q))"
    by (rule minix_inv_upd[OF inv]) (use cls q in auto)
  moreover have "ready x s = Inr ?s'" using True nt by (auto simp: ready_def Let_def)
  ultimately show ?thesis using True q by auto
qed

lemma MRT_prtylvl_set_frame:
  "MRT_prtylvl_set x s = Inr s' \<Longrightarrow>
     rdy_head s' = rdy_head s \<and> rdy_tail s' = rdy_tail s \<and> procs s' = procs s \<and> links s' = links s
     \<and> rdyQ s' = rdyQ s \<and> proc_ptr s' = proc_ptr s"
  by (auto simp: MRT_prtylvl_set_def Let_def MRT_set_PIC_def hw_emit_def split: if_splits)

lemma MRT_pick_proc_frame:
  "MRT_pick_proc s = Inr (r, s') \<Longrightarrow>
     rdy_head s' = rdy_head s \<and> rdy_tail s' = rdy_tail s
     \<and> p_nextready (procs s' p) = p_nextready (procs s p)"
  by (auto simp: MRT_pick_proc_def Let_def bnd_eq_Inr dest!: MRT_prtylvl_set_frame
      split: option.splits if_splits)

lemma pick_proc_frame:
  "pick_proc s = Inr s' \<Longrightarrow>
     rdy_head s' = rdy_head s \<and> rdy_tail s' = rdy_tail s
     \<and> p_nextready (procs s' p) = p_nextready (procs s p)"
  by (auto simp: pick_proc_def pick_minix_def bnd_eq_Inr dest!: MRT_pick_proc_frame[where p = p]
      split: option.splits if_splits)

lemma pick_proc_inv: "minix_inv s f \<Longrightarrow> pick_proc s = Inr s' \<Longrightarrow> minix_inv s' f"
  using pick_proc_frame[of s s'] by (auto simp: minix_inv_def intro: rq_rep_cong[of s' _ s])

lemma unready_search_ok:
  assumes "rq_chain (procs s) (xp # ys)" and "distinct (xp # ys)" and "x \<in> set ys"
    and "length ys < n"
  shows "\<exists>us u vs. xp # ys = us @ u # x # vs \<and> unready_search n q x xp s = Inr (unready_unlink q x u s)"
  using assms
proof (induction n arbitrary: xp ys)
  case (Suc n)
  then obtain y zs where ys: "ys = y # zs" by (cases ys) auto
  show ?case
  proof (cases "y = x")
    case True
    then show ?thesis using Suc.prems ys
      by (intro exI[of _ "[]"]) auto
  next
    case False
    then obtain us u vs where "y # zs = us @ u # x # vs"
      and "unready_search n q x y s = Inr (unready_unlink q x u s)"
      using Suc.IH[of y zs] Suc.prems ys by auto
    moreover have "unready_search (Suc n) q x xp s = unready_search n q x y s"
      using Suc.prems ys False by simp
    ultimately show ?thesis by (metis append_Cons ys)
  qed
qed simp

lemma unready_search_absent:
  "rq_chain (procs s) (xp # ys) \<Longrightarrow> x \<notin> set ys \<Longrightarrow> length ys < n \<Longrightarrow>
   unready_search n q x xp s = Inr s"
proof (induction n arbitrary: xp ys)
  case (Suc n)
  then show ?case by (cases ys) auto
qed simp

lemma rq_chain_split:
  "rq_chain m (us @ u # x # vs) \<Longrightarrow> distinct (us @ u # x # vs) \<Longrightarrow> p_nextready w = opt_hd vs \<Longrightarrow>
   rq_chain (m(u := w)) (us @ u # vs)"
proof (induction us)
  case (Cons a us)
  then show ?case by (cases us) auto
qed auto

lemma unready_from_inv:
  assumes inv: "minix_inv s f" and q: "qclass x = q" and r: "unready_from q pick x s = Inr s'"
    and len: "length (f q) < proc_fuel"
  shows "minix_inv s' (f(q := remove1 x (f q)))"
proof -
  from inv have rep: "rq_rep s q (f q)" and cls: "\<forall>y\<in>set (f q). qclass y = q"
    by (simp_all add: minix_inv_def)
  show ?thesis
  proof (cases "f q")
    case Nil
    then show ?thesis using r rep inv by (simp add: unready_from_def rq_rep_def fun_upd_idem)
  next
    case (Cons xp ys)
    have ch: "rq_chain (procs s) (xp # ys)" and di: "distinct (xp # ys)" and hd: "rdy_head s q = Some xp"
      using rep Cons by (simp_all add: rq_rep_def)
    show ?thesis
    proof (cases "xp = x")
      case True
      let ?s1 = "set_rdy_head q (p_nextready (procs s x)) s"
      have "rq_rep ?s1 q ys" using rep Cons True by (auto simp: rq_rep_def opt_last_def)
      then have "minix_inv ?s1 (f(q := ys))"
        by (rule minix_inv_upd[OF inv]) (use cls Cons in auto)
      then show ?thesis using r hd True Cons pick_proc_inv
        by (auto simp: unready_from_def Let_def split: if_splits)
    next
      case xp: False
      then have run: "unready_search proc_fuel q x xp s = Inr s'" using r hd by (simp add: unready_from_def)
      show ?thesis
      proof (cases "x \<in> set ys")
        case False
        then have "s' = s" using run unready_search_absent[OF ch, of x proc_fuel q] len Cons by simp
        then show ?thesis using inv Cons xp False by (simp add: remove1_idem fun_upd_idem)
      next
        case True
        from unready_search_ok[OF ch di True, of proc_fuel q] len Cons obtain us u vs
          where sp: "xp # ys = us @ u # x # vs" and s': "s' = unready_unlink q x u s"
          using run by auto
        have "p_nextready (procs s x) = opt_hd vs"
          using ch by (simp add: sp) (induction us, auto)
        moreover have rm: "remove1 x (f q) = us @ u # vs"
          using di Cons by (auto simp: sp remove1_append)
        ultimately have "rq_rep s' q (us @ u # vs)"
          using rep Cons sp di rq_chain_split[of "procs s" us u x vs]
          by (auto simp: rq_rep_def s' unready_unlink_def Let_def opt_last_def opt_hd_append)
        then have "minix_inv s' (f(q := us @ u # vs))"
          by (rule minix_inv_upd[OF inv]) (use cls Cons sp in \<open>auto simp: s' unready_unlink_def Let_def\<close>)
        with rm show ?thesis by simp
      qed
    qed
  qed
qed

lemma unready_inv:
  assumes "minix_inv s f" and "unready x s = Inr s'" and "length (f (qclass x)) < proc_fuel"
  shows "minix_inv s' (f(qclass x := remove1 x (f (qclass x))))"
  using assms unready_from_inv[OF assms(1) refl, of x _ s'] 
  by (auto simp: unready_def qclass_queue split: if_splits)

lemma pick_proc_total:
  assumes "rdyQ_inv s qs" and "wf_links (links s)"
  shows "\<exists>s'. pick_proc s = Inr s'"
proof (cases "first_of MRT_NR_PRTY qs")
  case None
  from MRT_pick_proc_None[OF assms(1) this] show ?thesis by (auto simp: pick_proc_def)
next
  case (Some k)
  from MRT_pick_proc_Some[OF assms this] show ?thesis by (auto simp: pick_proc_def)
qed

lemma pick_proc_minix:
  assumes "rdyQ_inv s qs" and "\<not> svflag s MRT_RTMODE \<or> members qs = {}"
  shows "\<exists>s1. pick_proc s = Inr (pick_minix (clr_svflag MRT_RTSCHED s1)) \<and> rdy_head s1 = rdy_head s
     \<and> bill_ptr s1 = bill_ptr s \<and> (svflag s MRT_RTMODE \<longrightarrow> prtylvl (sv s1) = MRT_PRILOWEST)"
proof (cases "svflag s MRT_RTMODE")
  case True
  then have "MRT_plist_get (rdyQ s) = None" using pl.get_None[OF rdyQ_inv_rep[OF assms(1)]] assms(2) by simp
  then have "first_of MRT_NR_PRTY qs = None" using pl.get_law[OF rdyQ_inv_rep[OF assms(1)]] by simp
  from MRT_pick_proc_None[OF assms(1) this] True show ?thesis by (auto simp: pick_proc_def)
next
  case False
  then show ?thesis by (auto simp: pick_proc_def)
qed

subsection \<open>The interface of the MINIX queues\<close>

text \<open>
  What the message passing code relies on when it blocks and unblocks a process: \<open>ready\<close> puts a
  process on the queue of its class and \<open>unready\<close> takes it off, and neither of them faults.
\<close>

locale run_queues =
  fixes rep :: "'s \<Rightarrow> (nat \<Rightarrow> int list) \<Rightarrow> bool" and cls :: "int \<Rightarrow> nat" and front :: "int \<Rightarrow> bool"
    and valid :: "int \<Rightarrow> bool" and rdy :: "int \<Rightarrow> 's \<Rightarrow> 's res" and unrdy :: "int \<Rightarrow> 's \<Rightarrow> 's res"
  assumes rdy_law: "rep s f \<Longrightarrow> valid x \<Longrightarrow> x \<notin> set (f (cls x)) \<Longrightarrow>
      \<exists>s'. rdy x s = Inr s' \<and> rep s' (f(cls x := if front x then x # f (cls x) else f (cls x) @ [x]))"
    and unrdy_law: "rep s f \<Longrightarrow> unrdy x s = Inr s' \<Longrightarrow> rep s' (f(cls x := remove1 x (f (cls x))))"
begin

lemma unrdy_rdy:
  assumes "rep s f" and "valid x" and "x \<notin> set (f (cls x))" and "rdy x s = Inr s1" and "unrdy x s1 = Inr s2"
  shows "rep s2 f"
proof -
  from rdy_law[OF assms(1-3)] assms(4) have "rep s1 (f(cls x := if front x then x # f (cls x) else f (cls x) @ [x]))" by auto
  from unrdy_law[OF this assms(5)] assms(3) show ?thesis by (auto simp: remove1_append fun_upd_idem split: if_splits)
qed

lemma rdy_member:
  assumes "rep s f" and "valid x" and "x \<notin> set (f (cls x))" and "rdy x s = Inr s'"
  shows "\<exists>g. rep s' g \<and> x \<in> set (g (cls x)) \<and> (\<forall>q. q \<noteq> cls x \<longrightarrow> g q = f q)"
  using rdy_law[OF assms(1-3)] assms(4) by (fastforce split: if_splits)

end

definition minix_ok :: "kstate \<Rightarrow> (nat \<Rightarrow> int list) \<Rightarrow> bool" where
  "minix_ok s f \<longleftrightarrow> minix_inv s f \<and> (\<forall>q. \<forall>x\<in>set (f q). isokprocn x)"


lemma minix_ok_length:
  assumes "minix_ok s f"
  shows "length (f q) < proc_fuel"
proof -
  have "distinct (f q)" using assms by (simp add: minix_ok_def minix_inv_def rq_rep_def)
  moreover have "set (f q) \<subseteq> {- 11..31}" using assms by (fastforce simp: minix_ok_def isokprocn_def)
  ultimately have "length (f q) \<le> card {- 11..31 :: int}"
    by (metis card_mono distinct_card finite_atLeastAtMost_int)
  then show ?thesis by simp
qed

interpretation rq: run_queues minix_ok qclass isuserp isokprocn ready unready
proof unfold_locales
  show "\<exists>s'. ready x s = Inr s' \<and> minix_ok s' (f(qclass x := if isuserp x then x # f (qclass x) else f (qclass x) @ [x]))"
    if "minix_ok s f" and "isokprocn x" and "x \<notin> set (f (qclass x))" for s f x
    using ready_inv[of s f x] that by (auto simp: minix_ok_def)
  show "minix_ok s' (f(qclass x := remove1 x (f (qclass x))))" if "minix_ok s f" and "unready x s = Inr s'" for s f x s'
    using unready_inv[of s f x s'] that minix_ok_length[OF that(1)] by (auto simp: minix_ok_def dest: notin_set_remove1)
qed

lemma unready_from_total:
  assumes "minix_ok s f" and "rdyQ_inv s qs" and "wf_links (links s)"
  shows "\<exists>s'. unready_from q pick x s = Inr s'"
proof (cases "f q")
  case Nil
  then show ?thesis using assms(1) by (simp add: unready_from_def minix_ok_def minix_inv_def rq_rep_def)
next
  case (Cons xp ys)
  have rep: "rq_rep s q (xp # ys)" using assms(1) by (simp add: minix_ok_def minix_inv_def flip: Cons)
  then have hd: "rdy_head s q = Some xp" and ch: "rq_chain (procs s) (xp # ys)" "distinct (xp # ys)"
    by (simp_all add: rq_rep_def)
  have len: "length ys < proc_fuel" using minix_ok_length[OF assms(1), of q] Cons by simp
  show ?thesis
  proof (cases "xp = x")
    case True
    have "rdyQ_inv (set_rdy_head q (p_nextready (procs s x)) s) qs" using assms(2) by (simp add: rdyQ_inv_def)
    from pick_proc_total[OF this] assms(3) hd True show ?thesis by (auto simp: unready_from_def Let_def)
  next
    case False
    then show ?thesis
      using hd unready_search_absent[OF ch(1), of x proc_fuel q] unready_search_ok[OF ch, of x proc_fuel q] len
      by (cases "x \<in> set ys") (auto simp: unready_from_def)
  qed
qed

lemma ready_frame:
  assumes "ready x s = Inr s'"
  shows "links s' = links s" and "rdyQ s' = rdyQ s" and "sv s' = sv s"
    and "rt (procs s' p) = rt (procs s p)" and "p_stguard (procs s' p) = p_stguard (procs s p)"
  using assms by (auto simp: ready_def ready_tail_def bnd_eq_Inr Let_def split: if_splits)

lemma unready_total:
  assumes "minix_ok s f" and "rdyQ_inv s qs" and "wf_links (links s)"
    and "istaskp x \<longrightarrow> p_stguard (procs s x) = STACK_GUARD"
  shows "\<exists>s'. unready x s = Inr s'"
  using assms(4) unready_from_total[OF assms(1-3)] by (simp add: unready_def)

lemma sched_step:
  assumes inv: "minix_inv s f" and q: "f USER_Q = x # xs"
  shows "\<exists>s2. sched s = pick_proc s2 \<and> minix_inv s2 (f(USER_Q := xs @ [x]))
     \<and> links s2 = links s \<and> rdyQ s2 = rdyQ s \<and> sv s2 = sv s \<and> (\<forall>p. rt (procs s2 p) = rt (procs s p))"
proof -
  from inv have rep: "rq_rep s USER_Q (x # xs)" and cls: "\<forall>y\<in>set (x # xs). qclass y = USER_Q"
    using q by (simp_all add: minix_inv_def flip: q)
  define z where "z = last (x # xs)"
  have hd: "rdy_head s USER_Q = Some x" "rdy_tail s USER_Q = Some z"
    using rep by (simp_all add: rq_rep_def opt_last_def z_def)
  define s1 where "s1 = set_rdy_tail USER_Q (Some x) (set_nextready z (Some x) s)"
  define s2 where "s2 = set_nextready x None (set_rdy_head USER_Q (p_nextready (procs s1 x)) s1)"
  have "rq_rep s2 USER_Q (xs @ [x])"
  proof (cases xs rule: rev_cases)
    case Nil
    then show ?thesis using rep by (auto simp: s1_def s2_def z_def rq_rep_def)
  next
    case (snoc ys w)
    have "rq_chain (procs s) (ys @ [w])" "distinct (ys @ [w, x])"
      using rep snoc by (auto simp: rq_rep_def)
    then show ?thesis using rep snoc
      by (auto simp: s1_def s2_def z_def rq_rep_def opt_last_def opt_hd_append
          intro!: rq_chain_snoc)
  qed
  then have "minix_inv s2 (f(USER_Q := xs @ [x]))"
    by (rule minix_inv_upd[OF inv]) (use cls in \<open>auto simp: s1_def s2_def z_def split: if_splits\<close>)
  moreover have "sched s = pick_proc s2"
    using hd by (simp add: sched_def s1_def s2_def Let_def)
  moreover have "links s2 = links s" "rdyQ s2 = rdyQ s" "sv s2 = sv s" "\<forall>p. rt (procs s2 p) = rt (procs s p)"
    by (auto simp: s1_def s2_def)
  ultimately show ?thesis by blast
qed

subsection \<open>Example states\<close>

text \<open>A real-time process 5 of priority 3 alone on the ready queue, and the user processes 6 and 7 behind it.\<close>

lemma rdyQ_inv0: "rdyQ_inv kstate0 (\<lambda>_. [])"
  using plist0_rep by (simp add: rdyQ_inv_def kstate0_def)

lemma rdyQ_example:
  "\<exists>s. rdyQ_inv s ((\<lambda>_. [])(3 := [LProc 5])) \<and> wf_links (links s) \<and> svflag s MRT_RTMODE \<and> prio s 5 = 3"
proof -
  from MRT_plist_app_ok[OF plist0_rep, of 3 "LProc 5"] obtain h q where
    hq: "pl_rep h q ((\<lambda>_. [])(3 := [LProc 5]))" "heap_frame (insert (LProc 5) (members (\<lambda>_. []))) heap0 h"
    by (auto simp: MRT_NR_PRTY_def members_def)
  let ?s = "set_rtprio 5 3 (set_svflag MRT_RTMODE (kstate0\<lparr>links := h, rdyQ := q\<rparr>))"
  have "rdyQ_inv ?s ((\<lambda>_. [])(3 := [LProc 5]))" using hq(1) by (auto simp: rdyQ_inv_def isokprocn_def)
  moreover have "wf_links (links ?s)" using wf_links_frame[OF hq(2)] by simp
  moreover have "svflag ?s MRT_RTMODE" by (simp add: TEST_SET_same)
  moreover have "prio ?s 5 = 3" by simp
  ultimately show ?thesis by blast
qed

definition users67 :: kstate where
  "users67 = set_nextready 6 (Some 7) (set_rdy_head USER_Q (Some 6) (set_rdy_tail USER_Q (Some 7) kstate0))"

lemma users67_ok: "minix_ok users67 ((\<lambda>_. [])(USER_Q := [6, 7]))"
  by (auto simp: minix_ok_def minix_inv_def rq_rep_def users67_def qclass_def istaskp_def isuserp_def isokprocn_def
      opt_last_def zero_defs)

lemma users67_rdyQ: "rdyQ_inv users67 (\<lambda>_. [])" "wf_links (links users67)"
  using plist0_rep by (simp_all add: rdyQ_inv_def users67_def kstate0_def)

subsection \<open>Correctness of the schedulers\<close>

text \<open>
  C2. In real-time mode \<open>pick_proc\<close> gives the processor to a real-time process whenever one is
  ready: to the process at the head of the most urgent level, so no ready process has a higher
  priority, and it sets the priority level of the system to the priority of that process.
\<close>

theorem pick_proc_highest:
  assumes "rdyQ_inv s qs" and "wf_links (links s)" and "svflag s MRT_RTMODE" and "members qs \<noteq> {}"
  shows "\<exists>p l ys s'. pick_proc s = Inr s' \<and> proc_ptr s' = p \<and> qs l = LProc p # ys \<and> prio s p = l
     \<and> (\<forall>m. LProc m \<in> members qs \<longrightarrow> prio s p \<le> prio s m)
     \<and> prtylvl (sv s') = rt_priority (rt (procs s p)) \<and> svflag s' MRT_RTSCHED \<and> \<not> svflag s' MRT_NEEDSCHED
     \<and> rdyQ s' = rdyQ s"
proof -
  have "MRT_plist_get (rdyQ s) \<noteq> None"
    using pl.get_None[OF rdyQ_inv_rep[OF assms(1)]] assms(4) by simp
  then obtain k where k: "first_of MRT_NR_PRTY qs = Some k"
    using pl.get_law[OF rdyQ_inv_rep[OF assms(1)]] by auto
  from MRT_pick_proc_Some[OF assms(1,2) k] obtain p s1 where s1: "k = LProc p" "MRT_pick_proc s = Inr (OK, s1)"
    "proc_ptr s1 = p" "prtylvl (sv s1) = rt_priority (rt (procs s p))" "rdyQ s1 = rdyQ s"
    "sv_flags (sv s1) = CLR_BIT (sv_flags (sv s)) MRT_NEEDSCHED" by auto
  from k s1(1) obtain l ys where l: "qs l = LProc p # ys" by (auto simp: first_of_Some)
  then have "prio s p = l" using rdyQ_inv_member[OF assms(1), of "LProc p" l] by auto
  moreover have "pick_proc s = Inr (set_svflag MRT_RTSCHED s1)" using assms(3) s1(2) by (simp add: pick_proc_def)
  moreover have "\<forall>m. LProc m \<in> members qs \<longrightarrow> prio s p \<le> prio s m"
    using first_of_highest[OF assms(1)] k s1(1) by blast
  moreover have "svflag (set_svflag MRT_RTSCHED s1) MRT_RTSCHED" "\<not> svflag (set_svflag MRT_RTSCHED s1) MRT_NEEDSCHED"
    using s1(6) by (simp_all add: TEST_SET_same TEST_SET_other)
  ultimately show ?thesis using l s1(3-5) by force
qed

theorem pick_proc_highest_witness: "\<exists>s s'. svflag s MRT_RTMODE \<and> pick_proc s = Inr s' \<and> proc_ptr s' = 5"
proof -
  obtain s where s: "rdyQ_inv s ((\<lambda>_. [])(3 := [LProc 5]))" "wf_links (links s)" "svflag s MRT_RTMODE"
    using rdyQ_example by blast
  from pick_proc_highest[OF s] s(3) show ?thesis by (auto simp: members_def split: if_splits)
qed

text \<open>
  When no real-time process is ready, or the kernel is not in real-time mode, \<open>pick_proc\<close> serves
  the MINIX queues in the order tasks, servers, users: it selects the head of the first one that is
  not empty, and \<open>IDLE\<close> if all are. Only a user process or \<open>IDLE\<close> is billed for the time.
\<close>

lemma pick_proc_order:
  assumes "rdyQ_inv s qs" and "\<not> svflag s MRT_RTMODE \<or> members qs = {}" and "minix_inv s f"
  shows "\<exists>s'. pick_proc s = Inr s'
     \<and> proc_ptr s' = (case f TASK_Q @ f SERVER_Q @ f USER_Q of p # _ \<Rightarrow> p | [] \<Rightarrow> IDLE)
     \<and> bill_ptr s' = (if f TASK_Q @ f SERVER_Q \<noteq> [] then bill_ptr s else proc_ptr s')
     \<and> \<not> svflag s' MRT_RTSCHED"
proof -
  from pick_proc_minix[OF assms(1,2)] obtain s1 where s1: "pick_proc s = Inr (pick_minix (clr_svflag MRT_RTSCHED s1))"
    "rdy_head s1 = rdy_head s" "bill_ptr s1 = bill_ptr s" by auto
  have "rdy_head s q = opt_hd (f q)" for q using assms(3) by (simp add: minix_inv_def rq_rep_def)
  with s1 show ?thesis
    by (cases "f TASK_Q"; cases "f SERVER_Q"; cases "f USER_Q") (auto simp: pick_minix_def)
qed

text \<open>
  \<open>unready\<close> returns and takes exactly the given process off the queue of its class, keeping the
  order of the others and the other queues, whether the process is the head, the tail or inside the
  queue, and does nothing to the queues when the process is not queued.
\<close>

lemma unready_removes:
  assumes "minix_ok s f" and "rdyQ_inv s qs" and "wf_links (links s)"
    and "istaskp x \<longrightarrow> p_stguard (procs s x) = STACK_GUARD"
  shows "\<exists>s'. unready x s = Inr s' \<and> minix_ok s' (f(qclass x := remove1 x (f (qclass x))))"
  using unready_total[OF assms] rq.unrdy_law[OF assms(1)] by blast

text \<open>
  C24. \<open>ready\<close> returns and queues the process in the queue of its class: a task or a server at the
  end, a user process at the front. \<open>unready\<close> of the same process then returns and restores all three queues.
\<close>

theorem ready_unready_roundtrip:
  assumes "minix_ok s f" and "isokprocn x" and "x \<notin> set (f (qclass x))"
    and "rdyQ_inv s qs" and "wf_links (links s)" and "istaskp x \<longrightarrow> p_stguard (procs s x) = STACK_GUARD"
  shows "\<exists>s1 s2. ready x s = Inr s1
     \<and> minix_ok s1 (f(qclass x := if isuserp x then x # f (qclass x) else f (qclass x) @ [x]))
     \<and> unready x s1 = Inr s2 \<and> minix_ok s2 f"
proof -
  from rq.rdy_law[OF assms(1-3)] rq.unrdy_rdy[OF assms(1-3)] obtain s1 where
    s1: "ready x s = Inr s1" "minix_ok s1 (f(qclass x := if isuserp x then x # f (qclass x) else f (qclass x) @ [x]))"
      "\<forall>s2. unready x s1 = Inr s2 \<longrightarrow> minix_ok s2 f" by blast
  note fr = ready_frame[OF s1(1)]
  have "rdyQ_inv s1 qs" using assms(4) fr by (simp add: rdyQ_inv_def)
  from unready_total[OF s1(2) this] assms(5,6) fr have "\<exists>s2. unready x s1 = Inr s2" by simp
  then show ?thesis using s1 by blast
qed

theorem ready_unready_roundtrip_witness:
  "\<exists>s1 s2. ready 9 users67 = Inr s1 \<and> minix_ok s1 ((\<lambda>_. [])(USER_Q := [9, 6, 7]))
     \<and> unready 9 s1 = Inr s2 \<and> minix_ok s2 ((\<lambda>_. [])(USER_Q := [6, 7]))"
  using ready_unready_roundtrip[OF users67_ok _ _ users67_rdyQ, of 9] by (auto simp: qclass_def istaskp_def isuserp_def isokprocn_def)

text \<open>
  \<open>sched\<close> is round robin on the user processes: it returns, the process at the front of the user
  queue goes to its end, all other queues stay as they are, and if neither a real-time process nor a
  task nor a server is ready, the next user process runs.
\<close>

lemma sched_rotates:
  assumes "minix_ok s f" and "rdyQ_inv s qs" and "wf_links (links s)" and "f USER_Q = x # xs"
  shows "\<exists>s'. sched s = Inr s' \<and> minix_ok s' (f(USER_Q := xs @ [x]))
     \<and> ((\<not> svflag s MRT_RTMODE \<or> members qs = {}) \<and> f TASK_Q = [] \<and> f SERVER_Q = []
          \<longrightarrow> proc_ptr s' = hd (xs @ [x]))"
proof -
  from assms(1) have inv: "minix_inv s f" by (simp add: minix_ok_def)
  from sched_step[OF inv assms(4)] obtain s2 where
    s2: "sched s = pick_proc s2" "minix_inv s2 (f(USER_Q := xs @ [x]))" "links s2 = links s" "rdyQ s2 = rdyQ s"
      "sv s2 = sv s" "\<forall>p. rt (procs s2 p) = rt (procs s p)" by blast
  have rq: "rdyQ_inv s2 qs" using assms(2) s2(3,4,6) by (simp add: rdyQ_inv_def)
  from pick_proc_total[OF rq] assms(3) s2(3) obtain s' where s': "pick_proc s2 = Inr s'" by auto
  have "minix_ok s' (f(USER_Q := xs @ [x]))"
    using pick_proc_inv[OF s2(2) s'] assms(1,4) unfolding minix_ok_def by (metis fun_upd_apply rotate1.simps(2) set_rotate1)
  moreover have "proc_ptr s' = hd (xs @ [x])"
    if "\<not> svflag s MRT_RTMODE \<or> members qs = {}" "f TASK_Q = []" "f SERVER_Q = []"
  proof -
    from pick_proc_minix[OF rq] that(1) s2(5) s' obtain s1 where
      "s' = pick_minix (clr_svflag MRT_RTSCHED s1)" "rdy_head s1 = rdy_head s2" by auto
    moreover have "rdy_head s2 q = opt_hd ((f(USER_Q := xs @ [x])) q)" for q
      using s2(2) by (simp add: minix_inv_def rq_rep_def)
    ultimately show ?thesis using that(2,3) by (cases xs) (simp_all add: pick_minix_def)
  qed
  ultimately show ?thesis using s2(1) s' by (intro exI[of _ s']) auto
qed

end
