(* ===== verification/Vtimer.thy ===== *)
theory Vtimer
  imports Kstate
begin

text \<open>
  The virtual timers of \<^verbatim>\<open>src/src/kernel/mrtvt.c\<close>: the pool of free timers, the queue
  of active timers, whose elements hold the difference between the expiration of the next
  timer and their own, and the clock handler that moves the timers that expire to the queue of
  expired timers. The actions the expired timers execute are in theory \<open>Vtact\<close>.

  The lemmas show that the active queue is a list of timers sorted by expiration time, that
  inserting and removing a timer leave the expiration of the others alone, and that the clock
  handler takes exactly the timers that expire.
\<close>

subsection \<open>The interrupt controller and the interval timer\<close>

definition MRT_set_irq :: "u32 \<Rightarrow> kstate \<Rightarrow> kstate" where
  "MRT_set_irq irq s =
     hw_emit (EnableIrq irq) (sv_update (real_PIC_update (\<lambda>w. CLR_BIT w (push_bit (unat irq) 1))) s)"

definition MRT_reset_irq :: "u32 \<Rightarrow> kstate \<Rightarrow> kstate" where
  "MRT_reset_irq irq s =
     hw_emit (DisableIrq irq) (sv_update (real_PIC_update (\<lambda>w. SET_BIT w (push_bit (unat irq) 1))) s)"

abbreviation (input) CLOCK_IRQ :: u32 where "CLOCK_IRQ \<equiv> 0"
abbreviation (input) HZ :: u32 where "HZ \<equiv> 50"
abbreviation (input) TIMER_FREQ :: u32 where "TIMER_FREQ \<equiv> 1193182"

definition MRT_timer_set :: "u32 \<Rightarrow> kstate \<Rightarrow> kstate res" where
  "MRT_timer_set h s =
     (let s = MRT_reset_irq CLOCK_IRQ s;
          s = sv_update (harmonic_update (\<lambda>_. h)) s;
          s = sv_update (tickrate_update (\<lambda>_. harmonic (sv s) * HZ)) s
      in chk (tickrate (sv s) \<noteq> 0) DivZero
     (let s = sv_update (PIT_latch_update (\<lambda>_. TIMER_FREQ div tickrate (sv s))) s;
          s = out_byte TIMER_MODE 0x36 s;
          s = out_byte TIMER0 (PIT_latch (sv s)) s;
          s = out_byte TIMER0 (drop_bit 8 (PIT_latch (sv s))) s
      in Inr (MRT_set_irq CLOCK_IRQ s)))"

definition MRT_timer2_set :: "u32 \<Rightarrow> kstate \<Rightarrow> kstate" where
  "MRT_timer2_set l s =
     out_byte TIMER2 (drop_bit 8 l) (out_byte TIMER2 l (out_byte TIMER_MODE 0xB6 (out_byte PORT_B 0x01 s)))"

definition MRT_read_timer2 :: "kstate \<Rightarrow> u32 \<times> kstate" where
  "MRT_read_timer2 s =
     (let s = out_byte TIMER_MODE 0x80 s;
          (lo, s) = in_byte s;
          (hi, s) = in_byte s
      in (lo OR push_bit 8 hi, s))"

definition MRT_timer_oneshot :: "u32 \<Rightarrow> kstate \<Rightarrow> kstate" where
  "MRT_timer_oneshot period s =
     (let (c, s) = MRT_read_timer2 s;
          s = tm_update (T2curr_update (\<lambda>_. c)) s;
          s = tm_update (latch_update (\<lambda>_. tick2Hz (sv s) * period)) s;
          err = (if ct_oneshots (counter (sv s)) = 0 then 0
                 else let realhz = 0xFFFF - T2curr (tm s); err = realhz - latch (tm s)
                      in if latch (tm s) < err then 0 else err);
          l = drop_bit 1 (latch (tm s) - err);
          s = MRT_timer2_set 0xFFFF s;
          s = out_byte TIMER_MODE 0x30 s;
          s = out_byte TIMER0 (l AND 0xFF) s;
          s = out_byte TIMER0 (drop_bit 8 l AND 0xFF) s;
          s = upd_counter (ct_oneshots_update (\<lambda>n. n + 1)) s
      in MRT_set_irq CLOCK_IRQ s)"

subsection \<open>The queues of timers\<close>

abbreviation VT :: "kstate \<Rightarrow> nat \<Rightarrow> vtimer_t" where
  "VT s v \<equiv> vtimer (tm s) v"

definition with_freeQ :: "(heap \<Rightarrow> list_t \<Rightarrow> (heap \<times> list_t) res) \<Rightarrow> kstate \<Rightarrow> kstate res" where
  "with_freeQ f s =
     bnd (f (links s) (freeQ (tm s))) (\<lambda>(h, l). Inr (tm_update (freeQ_update (\<lambda>_. l)) (s\<lparr>links := h\<rparr>)))"

definition with_actQ :: "(heap \<Rightarrow> list_t \<Rightarrow> (heap \<times> list_t) res) \<Rightarrow> kstate \<Rightarrow> kstate res" where
  "with_actQ f s =
     bnd (f (links s) (aq_list (actQ (tm s)))) (\<lambda>(h, l).
       Inr (tm_update (actQ_update (aq_list_update (\<lambda>_. l))) (s\<lparr>links := h\<rparr>)))"

definition with_expQ :: "(heap \<Rightarrow> plist_t \<Rightarrow> (heap \<times> plist_t) res) \<Rightarrow> kstate \<Rightarrow> kstate res" where
  "with_expQ f s =
     bnd (f (links s) (expQ (tm s))) (\<lambda>(h, q). Inr (tm_update (expQ_update (\<lambda>_. q)) (s\<lparr>links := h\<rparr>)))"

abbreviation set_earliest :: "(u32 \<Rightarrow> u32) \<Rightarrow> kstate \<Rightarrow> kstate" where
  "set_earliest f \<equiv> tm_update (actQ_update (aq_earliest_update f))"
abbreviation set_maxper :: "(u32 \<Rightarrow> u32) \<Rightarrow> kstate \<Rightarrow> kstate" where
  "set_maxper f \<equiv> tm_update (actQ_update (aq_maxper_update f))"

definition MRT_timerQ_init :: "kstate \<Rightarrow> kstate" where
  "MRT_timerQ_init s =
     (let s = set_earliest (\<lambda>_. 0) s;
          s = set_maxper (\<lambda>_. 0) s;
          s = tm_update (actQ_update (aq_list_update MRT_list_rst)) s;
          s = tm_update (freeQ_update MRT_list_rst) s
      in tm_update (expQ_update MRT_plist_rst) s)"

definition MRT_vtimer_rst :: "nat \<Rightarrow> kstate \<Rightarrow> kstate" where
  "MRT_vtimer_rst v s =
     (let s = upd_vt v (\<lambda>t. t\<lparr>vt_period := 0, vt_limit := 0, vt_action := 0, vt_param := 0,
                             vt_owner := HARDWARE, vt_priority := MRT_PRILOWEST, vt_timestamp := 0,
                             vt_nextexp := 0, vt_flags := VT_ALLOC\<rparr>) s
      in s\<lparr>links := MRT_link_rst (LVT v) (OVT v) MRT_OBJVT (links s)\<rparr>)"

definition MRT_vtimer_init :: "kstate \<Rightarrow> kstate res" where
  "MRT_vtimer_init s =
     foldM (\<lambda>i s.
       let s = upd_vt i (vt_index_update (\<lambda>_. int i)) s;
           s = MRT_vtimer_rst i s
       in with_freeQ (\<lambda>h l. MRT_list_app h l (LVT i)) s) [0..<NR_VTIMERS] s"

definition MRT_vtimer_alloc :: "vtimer_t \<Rightarrow> kstate \<Rightarrow> (nat option \<times> kstate) res" where
  "MRT_vtimer_alloc vt s =
     (if ls_inQ (freeQ (tm s)) = 0 then Inr (None, s)
      else if vt_period vt = 0 \<or> vt_period vt > MRT_MAXPER then Inr (None, s)
      else if vt_action vt < 0 \<or> vt_action vt > 13 then Inr (None, s)
      else
        bnd (deref (ls_first (freeQ (tm s)))) (\<lambda>k.
        bnd (with_freeQ (\<lambda>h l. MRT_list_rmv h l k) s) (\<lambda>s.
        bnd (as_vt (lk_this (links s k))) (\<lambda>v.
        Inr (Some v,
             upd_vt v (\<lambda>t. t\<lparr>vt_owner := vt_owner vt, vt_priority := vt_priority vt,
                             vt_period := vt_period vt, vt_limit := vt_limit vt,
                             vt_action := vt_action vt, vt_param := vt_param vt,
                             vt_flags := VT_ALLOC\<rparr>) s)))))"

text \<open>The search for the first timer that expires after \<open>period\<close>.\<close>

fun vtimer_ins_search :: "nat \<Rightarrow> u32 \<Rightarrow> u32 \<Rightarrow> lref \<Rightarrow> kstate \<Rightarrow> (u32 \<times> lref) res" where
  "vtimer_ins_search 0 period ticksum k s = Inl Diverge"
| "vtimer_ins_search (Suc n) period ticksum k s =
     (case lk_next (links s k) of
        Some k' \<Rightarrow>
          if ticksum \<le> period
          then bnd (as_vt (lk_this (links s k))) (\<lambda>w.
               vtimer_ins_search n period (ticksum + vt_nextexp (VT s w)) k' s)
          else Inr (ticksum, k)
      | None \<Rightarrow> Inr (ticksum, k))"

abbreviation (input) vt_fuel :: nat where "vt_fuel \<equiv> 17"

definition vtimer_ins_middle :: "nat \<Rightarrow> kstate \<Rightarrow> kstate res" where
  "vtimer_ins_middle v s =
     bnd (deref (ls_first (aq_list (actQ (tm s))))) (\<lambda>k0.
     bnd (vtimer_ins_search vt_fuel (vt_period (VT s v)) (aq_earliest (actQ (tm s))) k0 s) (\<lambda>(ticksum, kn).
     let s = upd_vt v (vt_nextexp_update (\<lambda>_. ticksum - vt_period (VT s v))) s
     in bnd (deref (lk_prev (links s kn))) (\<lambda>kp.
        bnd (as_vt (lk_this (links s kp))) (\<lambda>w.
        let s = upd_vt w (vt_nextexp_update (\<lambda>x. x - vt_nextexp (VT s v))) s;
            h = upd_link (LVT v) (\<lambda>l. l\<lparr>lk_next := Some kn, lk_prev := Some kp\<rparr>) (links s);
            h = upd_link kp (lk_next_update (\<lambda>_. Some (LVT v))) h;
            h = upd_link kn (lk_prev_update (\<lambda>_. Some (LVT v))) h
        in Inr (tm_update (actQ_update (aq_list_update list_count_up)) (s\<lparr>links := h\<rparr>))))))"

definition MRT_vtimer_ins :: "nat \<Rightarrow> kstate \<Rightarrow> kstate res" where
  "MRT_vtimer_ins v s =
     (let s = upd_vt v (vt_flags_update (\<lambda>_. VT_ACTIVEQ)) s;
          q = actQ (tm s);
          per = vt_period (VT s v)
      in if ls_first (aq_list q) = None
         then
           let s = set_earliest (\<lambda>_. per) s;
               s = set_maxper (\<lambda>_. 0) s;
               s = upd_vt v (vt_nextexp_update (\<lambda>_. 0)) s
           in with_actQ (\<lambda>h l. MRT_list_ins h l (LVT v)) s
         else if aq_earliest q > per
         then
           let s = upd_vt v (vt_nextexp_update (\<lambda>_. aq_earliest q - per)) s;
               s = set_maxper (\<lambda>x. x + vt_nextexp (VT s v)) s;
               s = set_earliest (\<lambda>_. per) s
           in with_actQ (\<lambda>h l. MRT_list_ins h l (LVT v)) s
         else if aq_maxper q + aq_earliest q \<le> per
         then
           bnd (deref (ls_last (aq_list q))) (\<lambda>kp.
           bnd (as_vt (lk_this (links s kp))) (\<lambda>w.
           let s = upd_vt w (vt_nextexp_update (\<lambda>_. per - (aq_maxper q + aq_earliest q))) s;
               s = set_maxper (\<lambda>_. per - aq_earliest q) s;
               s = upd_vt v (vt_nextexp_update (\<lambda>_. 0)) s
           in with_actQ (\<lambda>h l. MRT_list_app h l (LVT v)) s))
         else vtimer_ins_middle v s)"

definition MRT_vtimer_rmv :: "nat \<Rightarrow> kstate \<Rightarrow> kstate res" where
  "MRT_vtimer_rmv v s =
     (let q = actQ (tm s); fst0 = (ls_first (aq_list q) = Some (LVT v)); lst0 = (ls_last (aq_list q) = Some (LVT v));
          prev = bnd (deref (lk_prev (links s (LVT v)))) (\<lambda>kp. as_vt (lk_this (links s kp)))
      in bnd (if fst0 \<and> lst0 then Inr (set_maxper (\<lambda>_. 0) (set_earliest (\<lambda>_. 0) s))
              else if fst0
              then Inr (set_maxper (\<lambda>x. x - vt_nextexp (VT s v))
                          (set_earliest (\<lambda>x. x + vt_nextexp (VT s v)) s))
              else if lst0
              then bnd prev (\<lambda>w. Inr (set_maxper (\<lambda>x. x - vt_nextexp (VT s w)) s))
              else bnd prev (\<lambda>w. Inr (upd_vt w (vt_nextexp_update (\<lambda>x. x + vt_nextexp (VT s v))) s)))
         (\<lambda>s. bnd (with_actQ (\<lambda>h l. MRT_list_rmv h l (LVT v)) s) (\<lambda>s.
              let s = upd_vt v (vt_flags_update (\<lambda>_. VT_ALLOC)) s
              in Inr (s\<lparr>links := MRT_link_rst (LVT v) (OVT v) MRT_OBJVT (links s)\<rparr>))))"

definition MRT_vtimer_stop :: "nat \<Rightarrow> kstate \<Rightarrow> kstate res" where
  "MRT_vtimer_stop v s =
     bnd (if vt_flags (VT s v) = VT_FREEQ then Inl (Panic ''MRT_vtimer_stop: VT is free'')
          else if vt_flags (VT s v) = VT_ACTIVEQ then MRT_vtimer_rmv v s
          else if vt_flags (VT s v) = VT_EXPIREDQ
          then with_expQ (\<lambda>h q. MRT_plist_rmv h q (LVT v) (unat (vt_priority (VT s v)))) s
          else Inr s)
       (\<lambda>s. let s = upd_vt v (\<lambda>t. t\<lparr>vt_nextexp := 0, vt_flags := VT_ALLOC\<rparr>) s
            in Inr (s\<lparr>links := MRT_link_rst (LVT v) (OVT v) MRT_OBJVT (links s)\<rparr>))"

definition MRT_vtimer_free :: "nat \<Rightarrow> kstate \<Rightarrow> kstate res" where
  "MRT_vtimer_free v s =
     bnd (MRT_vtimer_stop v s) (\<lambda>s.
     let s = MRT_vtimer_rst v s;
         s = upd_vt v (vt_flags_update (\<lambda>_. VT_FREEQ)) s
     in with_freeQ (\<lambda>h l. MRT_list_app h l (LVT v)) s)"

text \<open>The macros \<open>VTALLOC\<close> and \<open>VTSET\<close> of \<^verbatim>\<open>kernel.h\<close>.\<close>

definition VTALLOC :: "u32 \<Rightarrow> u32 \<Rightarrow> int \<Rightarrow> int \<Rightarrow> int \<Rightarrow> u8 \<Rightarrow> kstate \<Rightarrow> (nat option \<times> kstate) res" where
  "VTALLOC per lim act par own pty s =
     MRT_vtimer_alloc \<lparr>vt_period = per, vt_limit = lim, vt_action = act, vt_param = par,
       vt_priority = pty, vt_index = 0, vt_owner = own, vt_flags = 0, vt_nextexp = 0,
       vt_timestamp = 0, vt_expired = 0\<rparr> s"

definition VTSET :: "nat option \<Rightarrow> u32 \<Rightarrow> u32 \<Rightarrow> int \<Rightarrow> int \<Rightarrow> u8 \<Rightarrow> kstate \<Rightarrow> kstate res" where
  "VTSET vp per lim act par pty s =
     bnd (deref vp) (\<lambda>v.
     MRT_vtimer_ins v (upd_vt v (\<lambda>t. t\<lparr>vt_period := per, vt_limit := lim, vt_action := act,
                                      vt_param := par, vt_priority := pty\<rparr>) s))"

subsection \<open>The clock handler\<close>

text \<open>
  The loop of \<open>MRT_clock_handler\<close>: it returns the link at the head of the active queue when
  it stops and the smallest period seen.
\<close>

fun clock_expire :: "nat \<Rightarrow> u32 \<Rightarrow> kstate \<Rightarrow> (lref option \<times> u32 \<times> kstate) res" where
  "clock_expire 0 minexp s = Inl Diverge"
| "clock_expire (Suc n) minexp s =
     (case ls_first (aq_list (actQ (tm s))) of
        None \<Rightarrow> Inr (None, minexp, s)
      | Some k \<Rightarrow>
          if aq_earliest (actQ (tm s)) \<noteq> 0 then Inr (Some k, minexp, s)
          else
            bnd (as_vt (lk_this (links s k))) (\<lambda>v.
            let minexp = (if svflag s MRT_ONESHOT
                             \<and> (vt_expired (VT s v) + 1 < vt_limit (VT s v) \<or> vt_limit (VT s v) = 0)
                          then min minexp (vt_period (VT s v)) else minexp)
            in bnd (MRT_vtimer_rmv v s) (\<lambda>s.
               bnd (with_expQ (\<lambda>h q. MRT_plist_app h q k (unat (vt_priority (VT s v)))) s) (\<lambda>s.
               clock_expire n minexp s))))"

definition MRT_clock_handler :: "kstate \<Rightarrow> kstate res" where
  "MRT_clock_handler s =
     bnd (clock_expire vt_fuel MRT_MAXPER s) (\<lambda>(k, minexp, s).
       if svflag s MRT_ONESHOT
       then
         bnd (case k of None \<Rightarrow> Inr minexp
              | Some k \<Rightarrow> bnd (as_vt (lk_this (links s k))) (\<lambda>v. Inr (min minexp (vt_period (VT s v)))))
           (\<lambda>minexp. Inr (MRT_timer_oneshot minexp s))
       else Inr s)"

subsection \<open>The active queue as a list of expirations\<close>

fun dq :: "(nat \<Rightarrow> vtimer_t) \<Rightarrow> (nat \<times> nat) list \<Rightarrow> bool" where
  "dq m [] \<longleftrightarrow> True"
| "dq m [x] \<longleftrightarrow> True"
| "dq m (x # y # r) \<longleftrightarrow> snd x \<le> snd y \<and> unat (vt_nextexp (m (fst x))) = snd y - snd x \<and> dq m (y # r)"

abbreviation vlinks :: "(nat \<times> nat) list \<Rightarrow> lref list" where
  "vlinks xs \<equiv> map (\<lambda>x. LVT (fst x)) xs"

definition act_rep :: "kstate \<Rightarrow> (nat \<times> nat) list \<Rightarrow> bool" where
  "act_rep s xs \<longleftrightarrow> dll (links s) (aq_list (actQ (tm s))) (vlinks xs) \<and> dq (vtimer (tm s)) xs
     \<and> (xs \<noteq> [] \<longrightarrow> unat (aq_earliest (actQ (tm s))) = snd (hd xs)
          \<and> unat (aq_maxper (actQ (tm s))) = snd (last xs) - snd (hd xs))
     \<and> (\<forall>x\<in>set xs. snd x < 2 ^ 32)"

lemma act_repI:
  "dll (links s) (aq_list (actQ (tm s))) (vlinks xs) \<Longrightarrow> dq (vtimer (tm s)) xs \<Longrightarrow>
   (xs \<noteq> [] \<Longrightarrow> unat (aq_earliest (actQ (tm s))) = snd (hd xs)) \<Longrightarrow>
   (xs \<noteq> [] \<Longrightarrow> unat (aq_maxper (actQ (tm s))) = snd (last xs) - snd (hd xs)) \<Longrightarrow>
   (\<And>x. x \<in> set xs \<Longrightarrow> snd x < 2 ^ 32) \<Longrightarrow> act_rep s xs"
  by (simp add: act_rep_def)

lemma act_repD:
  assumes "act_rep s xs"
  shows "dll (links s) (aq_list (actQ (tm s))) (vlinks xs)" "dq (vtimer (tm s)) xs"
    "xs \<noteq> [] \<Longrightarrow> unat (aq_earliest (actQ (tm s))) = snd (hd xs)"
    "xs \<noteq> [] \<Longrightarrow> unat (aq_maxper (actQ (tm s))) = snd (last xs) - snd (hd xs)"
    "x \<in> set xs \<Longrightarrow> snd x < 2 ^ 32"
  using assms by (auto simp: act_rep_def)

lemma dq_append: "dq m (xs @ y # ys) \<longleftrightarrow> dq m (xs @ [y]) \<and> dq m (y # ys)"
proof (induction xs)
  case (Cons x xs)
  then show ?case by (cases xs) auto
qed simp

lemma dq_cong:
  "(\<And>x. x \<in> set (butlast xs) \<Longrightarrow> vt_nextexp (m (fst x)) = vt_nextexp (m' (fst x))) \<Longrightarrow> dq m xs = dq m' xs"
  by (induction m xs rule: dq.induct) auto

lemma dq_other: "v \<notin> fst ` set xs \<Longrightarrow> dq (m(v := t)) xs = dq m xs"
  by (rule dq_cong) (auto dest: in_set_butlastD)

lemma dq_sorted: "dq m xs \<Longrightarrow> sorted (map snd xs)"
proof (induction m xs rule: dq.induct)
  case (3 m x y r)
  then show ?case by (metis dq.simps(3) list.simps(9) sorted2)
qed simp_all

lemma dq_Cons: "dq m (x # xs) \<longleftrightarrow>
    (xs \<noteq> [] \<longrightarrow> snd x \<le> snd (hd xs) \<and> unat (vt_nextexp (m (fst x))) = snd (hd xs) - snd x) \<and> dq m xs"
  by (cases xs) auto

lemma dq_snoc: "dq m (xs @ [x]) \<longleftrightarrow>
    dq m xs \<and> (xs \<noteq> [] \<longrightarrow> snd (last xs) \<le> snd x \<and> unat (vt_nextexp (m (fst (last xs)))) = snd x - snd (last xs))"
proof (cases xs rule: rev_cases)
  case (snoc ys y)
  then show ?thesis using dq_append[of m ys y "[x]"] by simp
qed simp

lemma act_rep_distinct: "act_rep s xs \<Longrightarrow> distinct (map fst xs)"
proof -
  assume "act_rep s xs"
  then have "distinct (vlinks xs)" by (simp add: act_rep_def dll_def)
  then show ?thesis by (simp add: distinct_map inj_on_def)
qed

lemma act_rep_hd_le_last: "act_rep s xs \<Longrightarrow> x \<in> set xs \<Longrightarrow> snd (hd xs) \<le> snd x \<and> snd x \<le> snd (last xs)"
proof -
  assume rep: "act_rep s xs" and x: "x \<in> set xs"
  have so: "sorted (map snd xs)" using rep dq_sorted by (auto simp: act_rep_def)
  have "snd (hd xs) \<le> snd x" using so x by (cases xs) auto
  moreover have "snd x \<le> snd (last xs)"
    using so x by (cases xs rule: rev_cases) (auto simp: sorted_append)
  ultimately show ?thesis ..
qed

text \<open>Where a timer with the remaining time \<open>p\<close> goes: after those that do not expire later.\<close>

definition exp_ins :: "nat \<Rightarrow> nat \<Rightarrow> (nat \<times> nat) list \<Rightarrow> (nat \<times> nat) list" where
  "exp_ins v p xs = takeWhile (\<lambda>x. snd x \<le> p) xs @ (v, p) # dropWhile (\<lambda>x. snd x \<le> p) xs"

lemma vtimer_ins_search_ok:
  assumes "dseg (links s) pr (vlinks ((w, e) # xs)) None" and "dq (vtimer (tm s)) ((w, e) # xs)"
    and "wf_links (links s)" and "unat t = e" and "\<forall>x\<in>set xs. snd x < 2 ^ 32"
    and "dropWhile (\<lambda>x. snd x \<le> unat per) ((w, e) # xs) = (v', e') # vs" and "length xs < n"
  shows "\<exists>t'. unat t' = e' \<and> vtimer_ins_search n per t (LVT w) s = Inr (t', LVT v')"
  using assms
proof (induction xs arbitrary: w e t n pr)
  case Nil
  then obtain m where "n = Suc m" by (cases n) auto
  with Nil show ?case by (auto split: if_splits)
next
  case (Cons y xs)
  obtain w1 e1 where y: "y = (w1, e1)" by fastforce
  obtain m where n: "n = Suc m" using Cons.prems(7) by (cases n) auto
  have nx: "lk_next (links s (LVT w)) = Some (LVT w1)" using Cons.prems(1) y by simp
  show ?case
  proof (cases "unat per < e")
    case True
    then have "\<not> t \<le> per" using Cons.prems(4) by (simp add: word_le_nat_alt)
    with True nx n Cons.prems(4,6) show ?thesis by simp
  next
    case False
    then have le: "t \<le> per" using Cons.prems(4) by (simp add: word_le_nat_alt)
    have e1: "e \<le> e1" "unat (vt_nextexp (VT s w)) = e1 - e" "e1 < 2 ^ 32" using Cons.prems(2,5) y by auto
    have t1: "unat (t + vt_nextexp (VT s w)) = e1"
      using e1 Cons.prems(4) by (simp add: unat_add_lem[THEN iffD1])
    have "\<exists>t'. unat t' = e' \<and> vtimer_ins_search m per (t + vt_nextexp (VT s w)) (LVT w1) s = Inr (t', LVT v')"
    proof (rule Cons.IH[of "Some (LVT w)"])
      show "dropWhile (\<lambda>x. snd x \<le> unat per) ((w1, e1) # xs) = (v', e') # vs"
        using Cons.prems(6) False y by simp
    qed (use Cons.prems y n t1 in simp_all)
    moreover have "lk_this (links s (LVT w)) = Some (OVT w)" using Cons.prems(3) by (simp add: wf_links_def)
    ultimately show ?thesis using nx le n by simp
  qed
qed



lemma exp_ins_simps:
  "exp_ins v p [] = [(v, p)]"
  "p < snd x \<Longrightarrow> exp_ins v p (x # xs) = (v, p) # x # xs"
  by (simp_all add: exp_ins_def)

lemma exp_ins_last: "\<forall>x\<in>set xs. snd x \<le> p \<Longrightarrow> exp_ins v p xs = xs @ [(v, p)]"
  by (induction xs) (simp_all add: exp_ins_def)

abbreviation per0 :: "kstate \<Rightarrow> nat \<Rightarrow> u32" where "per0 s v \<equiv> vt_period (VT s v)"

lemma vtimer_ins_first:
  assumes rep: "act_rep s xs" and v: "v \<notin> fst ` set xs"
    and c: "xs = [] \<or> unat (per0 s v) < snd (hd xs)"
  shows "\<exists>s'. MRT_vtimer_ins v s = Inr s' \<and> act_rep s' ((v, unat (per0 s v)) # xs)
    \<and> heap_frame (insert (LVT v) (set (vlinks xs))) (links s) (links s')"
proof -
  have k: "LVT v \<notin> set (vlinks xs)" using v by auto
  have d: "dll (links s) (aq_list (actQ (tm s))) (vlinks xs)" using rep by (simp add: act_rep_def)
  from MRT_list_ins_ok[OF d k] obtain h' l' where
    ins: "MRT_list_ins (links s) (aq_list (actQ (tm s))) (LVT v) = Inr (h', l')"
    and d': "dll h' l' (LVT v # vlinks xs)" and fr: "heap_frame (insert (LVT v) (set (vlinks xs))) (links s) h'"
    by blast
  have b: "\<forall>x\<in>set xs. snd x < 2 ^ 32" "unat (per0 s v) < 2 ^ 32" using rep unsigned_less[of "per0 s v"] by (auto simp: act_rep_def)
  show ?thesis
  proof (cases xs)
    case Nil
    then have "ls_first (aq_list (actQ (tm s))) = None" using d by (simp add: dll_def)
    then show ?thesis using Nil ins d' fr b
      by (simp add: MRT_vtimer_ins_def with_actQ_def Let_def act_rep_def)
  next
    case (Cons x ys)
    let ?e = "aq_earliest (actQ (tm s))" and ?p = "per0 s v"
    have e: "unat ?e = snd x" "unat (aq_maxper (actQ (tm s))) = snd (last xs) - snd x"
      using rep Cons by (auto simp: act_rep_def)
    have lt: "?p < ?e" using c Cons e by (simp add: word_less_nat_alt)
    then have ne: "unat (?e - ?p) = snd x - unat ?p" using e(1) by (simp add: unat_sub less_imp_le)
    have px: "unat ?p \<le> snd x" using lt e(1) by (simp add: word_less_nat_alt)
    have last: "snd x \<le> snd (last xs)" "snd (last xs) < 2 ^ 32"
      using act_rep_hd_le_last[OF rep, of x] Cons b(1) last_in_set[of xs] by auto
    have mp: "unat (aq_maxper (actQ (tm s)) + (?e - ?p)) = snd (last xs) - unat ?p"
      using e ne px last by (simp add: unat_add_lem[THEN iffD1])
    have dq': "dq ((vtimer (tm s))(v := t)) xs" for t
      using rep dq_other[OF v] by (simp add: act_rep_def)
    obtain f0 where nn: "ls_first (aq_list (actQ (tm s))) = Some f0" using d Cons by (simp add: dll_def)
    have "\<exists>s'. MRT_vtimer_ins v s = Inr s' \<and> links s' = h' \<and> aq_list (actQ (tm s')) = l'
        \<and> aq_earliest (actQ (tm s')) = ?p \<and> aq_maxper (actQ (tm s')) = aq_maxper (actQ (tm s)) + (?e - ?p)
        \<and> vtimer (tm s') = (vtimer (tm s))(v := VT s' v) \<and> vt_nextexp (VT s' v) = ?e - ?p"
      using nn lt ins by (simp add: MRT_vtimer_ins_def with_actQ_def Let_def)
    then obtain s' where s': "MRT_vtimer_ins v s = Inr s'" "links s' = h'" "aq_list (actQ (tm s')) = l'"
        "aq_earliest (actQ (tm s')) = ?p" "aq_maxper (actQ (tm s')) = aq_maxper (actQ (tm s)) + (?e - ?p)"
        and vt: "vtimer (tm s') = (vtimer (tm s))(v := VT s' v)" "vt_nextexp (VT s' v) = ?e - ?p" by blast
    have "act_rep s' ((v, unat ?p) # xs)"
    proof (rule act_repI)
      show "dq (vtimer (tm s')) ((v, unat ?p) # xs)"
        using dq'[of "VT s' v"] Cons px vt ne by (simp add: dq_Cons flip: vt(1))
    qed (use s' d' mp b Cons in auto)
    with s'(1,2) fr show ?thesis by auto
  qed
qed


lemma act_sum: "act_rep s xs \<Longrightarrow> xs \<noteq> [] \<Longrightarrow>
    unat (aq_maxper (actQ (tm s)) + aq_earliest (actQ (tm s))) = snd (last xs)"
proof -
  assume rep: "act_rep s xs" and ne: "xs \<noteq> []"
  have "snd (hd xs) \<le> snd (last xs)" "snd (last xs) < 2 ^ 32"
    using act_rep_hd_le_last[OF rep, of "hd xs"] act_repD(5)[OF rep, of "last xs"] ne by auto
  then show ?thesis using act_repD(3,4)[OF rep ne] by (simp add: unat_add_lem[THEN iffD1])
qed

lemma vtimer_ins_lastc:
  assumes rep: "act_rep s xs" and v: "v \<notin> fst ` set xs" and wf: "wf_links (links s)"
    and ne: "xs \<noteq> []" and c: "snd (hd xs) \<le> unat (per0 s v)" "snd (last xs) \<le> unat (per0 s v)"
  shows "\<exists>s'. MRT_vtimer_ins v s = Inr s' \<and> act_rep s' (xs @ [(v, unat (per0 s v))])
    \<and> heap_frame (insert (LVT v) (set (vlinks xs))) (links s) (links s')"
proof -
  let ?e = "aq_earliest (actQ (tm s))" and ?m = "aq_maxper (actQ (tm s))" and ?p = "per0 s v"
  obtain ys w ew where xs: "xs = ys @ [(w, ew)]" using ne by (metis rev_exhaust surj_pair)
  have k: "LVT v \<notin> set (vlinks xs)" and vw: "v \<noteq> w" using v xs by auto
  note d = act_repD(1)[OF rep]
  from MRT_list_app_ok[OF d k] obtain h' l' where
    app: "MRT_list_app (links s) (aq_list (actQ (tm s))) (LVT v) = Inr (h', l')"
    and d': "dll h' l' (vlinks xs @ [LVT v])" and fr: "heap_frame (insert (LVT v) (set (vlinks xs))) (links s) h'"
    by blast
  have sum: "unat (?m + ?e) = ew" using act_sum[OF rep ne] xs by simp
  have le: "?m + ?e \<le> ?p" "\<not> ?e > ?p"
    using c sum xs act_repD(3)[OF rep ne] by (auto simp: word_le_nat_alt word_less_nat_alt)
  obtain f0 where nn: "ls_first (aq_list (actQ (tm s))) = Some f0" "ls_last (aq_list (actQ (tm s))) = Some (LVT w)"
    using d xs by (cases ys) (auto simp: dll_def opt_last_def)
  have th: "lk_this (links s (LVT w)) = Some (OVT w)" using wf by (simp add: wf_links_def)
  have "\<exists>s'. MRT_vtimer_ins v s = Inr s' \<and> links s' = h' \<and> aq_list (actQ (tm s')) = l'
      \<and> aq_earliest (actQ (tm s')) = ?e \<and> aq_maxper (actQ (tm s')) = ?p - ?e
      \<and> (\<forall>u. u \<noteq> v \<and> u \<noteq> w \<longrightarrow> VT s' u = VT s u) \<and> vt_nextexp (VT s' w) = ?p - (?m + ?e)"
    using nn le app th vw by (simp add: MRT_vtimer_ins_def with_actQ_def Let_def)
  then obtain s' where s': "MRT_vtimer_ins v s = Inr s'" "links s' = h'" "aq_list (actQ (tm s')) = l'"
      "aq_earliest (actQ (tm s')) = ?e" "aq_maxper (actQ (tm s')) = ?p - ?e"
      and vt: "\<forall>u. u \<noteq> v \<and> u \<noteq> w \<longrightarrow> VT s' u = VT s u" "vt_nextexp (VT s' w) = ?p - (?m + ?e)" by blast
  have dqx: "dq (vtimer (tm s')) xs"
  proof -
    have "fst x \<noteq> v \<and> fst x \<noteq> w" if "x \<in> set (butlast xs)" for x
      using that v xs act_rep_distinct[OF rep] by (auto dest: in_set_butlastD)
    then show ?thesis using dq_cong[of xs "vtimer (tm s')" "vtimer (tm s)"] vt(1) act_repD(2)[OF rep] by simp
  qed
  have "act_rep s' (xs @ [(v, unat ?p)])"
  proof (rule act_repI)
    show "dq (vtimer (tm s')) (xs @ [(v, unat ?p)])"
      unfolding dq_snoc using dqx vt(2) c(2) sum le(1) by (simp add: xs unat_sub)
    show "unat (aq_maxper (actQ (tm s'))) = snd (last (xs @ [(v, unat ?p)])) - snd (hd (xs @ [(v, unat ?p)]))"
      using s'(5) le(2) ne act_repD(3)[OF rep ne] by (simp add: unat_sub)
    show "snd x < 2 ^ 32" if "x \<in> set (xs @ [(v, unat ?p)])" for x
      using that act_repD(5)[OF rep, of x] unsigned_less[of ?p] by auto
  qed (use s' d' ne act_repD(3)[OF rep ne] in auto)
  with s'(1,2) fr show ?thesis by auto
qed


lemma vtimer_ins_midc:
  assumes rep: "act_rep s xs" and v: "v \<notin> fst ` set xs" and wf: "wf_links (links s)"
    and len: "length xs \<le> NR_VTIMERS"
    and xs: "xs = us @ (w, ew) # (n, en) # vs" and c: "ew \<le> unat (per0 s v)" "unat (per0 s v) < en"
    and us: "\<forall>x\<in>set us. snd x \<le> unat (per0 s v)"
  shows "\<exists>s'. MRT_vtimer_ins v s = Inr s' \<and> act_rep s' (us @ (w, ew) # (v, unat (per0 s v)) # (n, en) # vs)
    \<and> heap_frame (insert (LVT v) (set (vlinks xs))) (links s) (links s')"
proof -
  let ?e = "aq_earliest (actQ (tm s))" and ?m = "aq_maxper (actQ (tm s))" and ?p = "per0 s v"
  define s1 where "s1 = upd_vt v (vt_flags_update (\<lambda>_. VT_ACTIVEQ)) s"
  have ne: "xs \<noteq> []" using xs by simp
  obtain w0 e0 zs where x0: "xs = (w0, e0) # zs" using ne by (cases xs) auto
  have e0: "unat ?e = e0" using act_repD(3)[OF rep ne] x0 by simp
  note d = act_repD(1)[OF rep]
  have first: "ls_first (aq_list (actQ (tm s))) = Some (LVT w0)" using d x0 by (simp add: dll_def)
  have dq1: "dq (vtimer (tm s1)) xs" and per1: "per0 s1 v = ?p"
    using act_repD(2)[OF rep] dq_other[OF v] by (simp_all add: s1_def)
  have "en \<le> snd (last xs)" using act_rep_hd_le_last[OF rep, of "(n, en)"] xs by simp
  then have nl: "\<not> ?m + ?e \<le> ?p" using act_sum[OF rep ne] c by (simp add: word_le_nat_alt)
  have "(w, ew) \<in> set xs" using xs by simp
  moreover have "hd xs = (w0, e0)" by (simp add: x0)
  ultimately have "e0 \<le> ew" using act_rep_hd_le_last[OF rep, of "(w, ew)"] by simp
  then have nf: "\<not> ?p < ?e" using e0 c by (simp add: word_less_nat_alt)
  have dw: "dropWhile (\<lambda>x. snd x \<le> unat ?p) ((w0, e0) # zs) = (n, en) # vs"
    using us c xs by (simp flip: x0 add: dropWhile_append)
  have "\<exists>t'. unat t' = en \<and> vtimer_ins_search vt_fuel ?p ?e (LVT w0) s1 = Inr (t', LVT n)"
  proof (rule vtimer_ins_search_ok[OF _ _ _ e0 _ dw])
    show "dseg (links s1) None (vlinks ((w0, e0) # zs)) None" using d x0 by (simp add: dll_def s1_def)
    show "\<forall>x\<in>set zs. snd x < 2 ^ 32" using act_repD(5)[OF rep] x0 by auto
  qed (use dq1 x0 wf len in \<open>simp_all add: s1_def\<close>)
  then obtain t' where t': "unat t' = en" "vtimer_ins_search vt_fuel ?p ?e (LVT w0) s1 = Inr (t', LVT n)" by blast
  have prv: "lk_prev (links s (LVT n)) = Some (LVT w)"
    using d xs by (simp add: dll_def dseg_append)
  have th: "lk_this (links s (LVT w)) = Some (OVT w)" using wf by (simp add: wf_links_def)
  have neq: "v \<noteq> w" "v \<noteq> n" using v xs by auto
  define h' where "h' = upd_link (LVT n) (lk_prev_update (\<lambda>_. Some (LVT v)))
      (upd_link (LVT w) (lk_next_update (\<lambda>_. Some (LVT v)))
        (upd_link (LVT v) (\<lambda>x. x\<lparr>lk_next := Some (LVT n), lk_prev := Some (LVT w)\<rparr>) (links s)))"
  have d': "dll h' (list_count_up (aq_list (actQ (tm s)))) (vlinks us @ LVT w # LVT v # LVT n # vlinks vs)"
    and fr: "heap_frame {LVT v, LVT w, LVT n} (links s) h'"
    using dll_ins_middle[of "links s" "aq_list (actQ (tm s))" "vlinks us" "LVT w" "LVT n" "vlinks vs" "LVT v" h']
      d v xs by (auto simp: h'_def image_iff)
  have "\<exists>s'. MRT_vtimer_ins v s = Inr s' \<and> links s' = h' \<and> aq_list (actQ (tm s')) = list_count_up (aq_list (actQ (tm s)))
      \<and> aq_earliest (actQ (tm s')) = ?e \<and> aq_maxper (actQ (tm s')) = ?m
      \<and> (\<forall>u. u \<noteq> v \<and> u \<noteq> w \<longrightarrow> VT s' u = VT s u) \<and> vt_nextexp (VT s' v) = t' - ?p
      \<and> vt_nextexp (VT s' w) = vt_nextexp (VT s w) - (t' - ?p)"
    using nl nf first t'(2) prv th neq
    by (simp add: MRT_vtimer_ins_def Let_def vtimer_ins_middle_def flip: s1_def)
      (simp add: s1_def h'_def)
  then obtain s' where s': "MRT_vtimer_ins v s = Inr s'" "links s' = h'"
      "aq_list (actQ (tm s')) = list_count_up (aq_list (actQ (tm s)))"
      "aq_earliest (actQ (tm s')) = ?e" "aq_maxper (actQ (tm s')) = ?m"
      and vt: "\<forall>u. u \<noteq> v \<and> u \<noteq> w \<longrightarrow> VT s' u = VT s u" "vt_nextexp (VT s' v) = t' - ?p"
      "vt_nextexp (VT s' w) = vt_nextexp (VT s w) - (t' - ?p)" by blast
  have dm: "dq (vtimer (tm s)) (us @ [(w, ew)])" "dq (vtimer (tm s)) ((w, ew) # (n, en) # vs)"
    using act_repD(2)[OF rep] xs by (simp_all add: dq_append[of _ us "(w, ew)" "(n, en) # vs"])
  have di: "distinct (map fst xs)" by (rule act_rep_distinct[OF rep])
  have eq: "VT s' (fst x) = VT s (fst x)" if "x \<in> set us \<or> x \<in> set ((n, en) # vs)" for x
    using that vt(1) v di xs by auto
  have tp: "unat (t' - ?p) = en - unat ?p" using t'(1) c(2) by (simp add: unat_sub word_le_nat_alt)
  have dqv: "unat (vt_nextexp (VT s' w)) = unat ?p - ew"
    using dm(2) c tp t'(1) by (simp add: vt(3) unat_sub word_le_nat_alt)
  have "dq (vtimer (tm s')) (us @ [(w, ew)])"
    using dm(1) dq_cong[of "us @ [(w, ew)]" "vtimer (tm s')" "vtimer (tm s)"] eq by simp
  moreover have "dq (vtimer (tm s')) ((n, en) # vs)"
    using dm(2) dq_cong[of "(n, en) # vs" "vtimer (tm s')" "vtimer (tm s)"] eq in_set_butlastD[of _ "(n, en) # vs"]
    by (auto simp: dq_Cons)
  ultimately have dq': "dq (vtimer (tm s')) (us @ (w, ew) # (v, unat ?p) # (n, en) # vs)"
    using c dqv tp vt(2) dq_append[of _ us "(w, ew)" "(v, unat ?p) # (n, en) # vs"] by simp
  have "act_rep s' (us @ (w, ew) # (v, unat ?p) # (n, en) # vs)"
  proof (rule act_repI)
    have hd: "hd (us @ (w, ew) # (v, unat ?p) # (n, en) # vs) = hd xs" using xs by (cases us) auto
    have la: "last (us @ (w, ew) # (v, unat ?p) # (n, en) # vs) = last xs" using xs by simp
    show "unat (aq_earliest (actQ (tm s'))) = snd (hd (us @ (w, ew) # (v, unat ?p) # (n, en) # vs))"
      using act_repD(3)[OF rep ne] s'(4) hd by simp
    show "unat (aq_maxper (actQ (tm s'))) = snd (last (us @ (w, ew) # (v, unat ?p) # (n, en) # vs))
        - snd (hd (us @ (w, ew) # (v, unat ?p) # (n, en) # vs))"
      using act_repD(4)[OF rep ne] s'(5) hd la by simp
    show "snd x < 2 ^ 32" if "x \<in> set (us @ (w, ew) # (v, unat ?p) # (n, en) # vs)" for x
      using that act_repD(5)[OF rep, of x] unsigned_less[of ?p] xs by auto
  qed (use s'(2,3) d' dq' in simp_all)
  moreover have "heap_frame (insert (LVT v) (set (vlinks xs))) (links s) h'"
    by (rule heap_frame_mono[OF fr]) (use xs in auto)
  ultimately show ?thesis using s'(1,2) by auto
qed

text \<open>The three cases together: \<open>MRT_vtimer_ins\<close> inserts into the sorted list.\<close>

lemma MRT_vtimer_ins_ok:
  assumes rep: "act_rep s xs" and v: "v \<notin> fst ` set xs" and wf: "wf_links (links s)"
    and len: "length xs \<le> NR_VTIMERS"
  shows "\<exists>s'. MRT_vtimer_ins v s = Inr s' \<and> act_rep s' (exp_ins v (unat (per0 s v)) xs)
    \<and> heap_frame (insert (LVT v) (set (vlinks xs))) (links s) (links s')"
proof -
  let ?p = "unat (per0 s v)" and ?P = "\<lambda>x. snd x \<le> unat (per0 s v)"
  consider "xs = [] \<or> ?p < snd (hd xs)" | "xs \<noteq> []" "snd (hd xs) \<le> ?p" "snd (last xs) \<le> ?p"
    | "xs \<noteq> []" "snd (hd xs) \<le> ?p" "?p < snd (last xs)" by linarith
  then show ?thesis
  proof cases
    case 1
    then have "exp_ins v ?p xs = (v, ?p) # xs" by (cases xs) (auto simp: exp_ins_simps)
    with vtimer_ins_first[OF rep v 1] show ?thesis by simp
  next
    case 2
    then have "exp_ins v ?p xs = xs @ [(v, ?p)]"
      using act_rep_hd_le_last[OF rep] by (intro exp_ins_last) (auto intro: order_trans)
    with vtimer_ins_lastc[OF rep v wf 2] show ?thesis by simp
  next
    case 3
    have "takeWhile ?P xs \<noteq> []" using 3 by (cases xs) auto
    then obtain us w ew where tw: "takeWhile ?P xs = us @ [(w, ew)]" by (metis rev_exhaust surj_pair)
    have "dropWhile ?P xs \<noteq> []" using 3 by (metis dropWhile_eq_Nil_conv last_in_set linorder_not_less)
    then obtain n en vs where dw: "dropWhile ?P xs = (n, en) # vs" by (metis neq_Nil_conv surj_pair)
    have xs: "xs = us @ (w, ew) # (n, en) # vs" using takeWhile_dropWhile_id[of ?P xs] tw dw by simp
    have "\<forall>x\<in>set (us @ [(w, ew)]). ?P x" using set_takeWhileD[of _ ?P xs] tw by metis
    moreover have "\<not> ?P (n, en)" using hd_dropWhile[of ?P xs] dw by simp
    ultimately show ?thesis
      using vtimer_ins_midc[OF rep v wf len xs] tw dw by (auto simp: exp_ins_def)
  qed
qed


subsection \<open>Removing a timer\<close>

lemma MRT_link_rst_frame:
  "wf_links h \<Longrightarrow> k = LVT v \<Longrightarrow> lk_next (h k) = None \<Longrightarrow> lk_prev (h k) = None \<Longrightarrow>
   wf_links (MRT_link_rst k (OVT v) MRT_OBJVT h) \<and>
   (\<forall>j. j \<noteq> k \<longrightarrow> MRT_link_rst k (OVT v) MRT_OBJVT h j = h j)"
  by (auto simp: wf_links_def MRT_link_rst_def)

lemma vtimer_rmv_run:
  assumes rep: "act_rep s xs" and wf: "wf_links (links s)" and xs: "xs = us @ (v, e) # vs"
  shows "\<exists>s'. MRT_vtimer_rmv v s = Inr s'
    \<and> dll (links s') (aq_list (actQ (tm s'))) (vlinks (us @ vs)) \<and> wf_links (links s')
    \<and> (\<forall>k. k \<notin> set (vlinks xs) \<longrightarrow> links s' k = links s k)
    \<and> aq_earliest (actQ (tm s')) = (if us \<noteq> [] then aq_earliest (actQ (tm s)) else
         if vs \<noteq> [] then aq_earliest (actQ (tm s)) + vt_nextexp (VT s v) else 0)
    \<and> aq_maxper (actQ (tm s')) = (if us = [] \<and> vs = [] then 0 else if us = []
         then aq_maxper (actQ (tm s)) - vt_nextexp (VT s v) else if vs = []
         then aq_maxper (actQ (tm s)) - vt_nextexp (VT s (fst (last us))) else aq_maxper (actQ (tm s)))
    \<and> (\<forall>u. vt_nextexp (VT s' u) = (if us \<noteq> [] \<and> vs \<noteq> [] \<and> u = fst (last us)
         then vt_nextexp (VT s u) + vt_nextexp (VT s v) else vt_nextexp (VT s u)))
    \<and> (\<forall>u. VT s' u = VT s u\<lparr>vt_nextexp := vt_nextexp (VT s' u), vt_flags := vt_flags (VT s' u)\<rparr>)
    \<and> expQ (tm s') = expQ (tm s) \<and> sv s' = sv s"
proof -
  note d = act_repD(1)[OF rep]
  have di: "distinct (map fst xs)" by (rule act_rep_distinct[OF rep])
  have k: "LVT v \<in> set (vlinks xs)" using xs by simp
  have rm: "remove1 (LVT v) (vlinks xs) = vlinks (us @ vs)"
    using di xs by (auto simp: remove1_append)
  from MRT_list_rmv_ok[OF d k] rm obtain h' l' where
    run: "MRT_list_rmv (links s) (aq_list (actQ (tm s))) (LVT v) = Inr (h', l')"
    and d': "dll h' l' (vlinks (us @ vs))" and fr: "heap_frame (set (vlinks xs)) (links s) h'"
    and nn: "lk_next (h' (LVT v)) = None" "lk_prev (h' (LVT v)) = None" by auto
  have nv: "LVT v \<notin> set (vlinks (us @ vs))" using di xs by auto
  define h2 where "h2 = MRT_link_rst (LVT v) (OVT v) MRT_OBJVT h'"
  have d2: "dll h2 l' (vlinks (us @ vs))" unfolding h2_def by (rule dll_rst_other[OF d' nv])
  have wf2: "wf_links h2" "\<forall>k. k \<notin> set (vlinks xs) \<longrightarrow> h2 k = links s k"
    using wf_links_frame[OF fr] wf fr MRT_link_rst_frame[of h' "LVT v" v] nn k
    by (auto simp: h2_def heap_frame_def)
  have first: "ls_first (aq_list (actQ (tm s))) = Some (LVT v) \<longleftrightarrow> us = []"
    using d di xs by (cases us) (auto simp: dll_def)
  have last: "ls_last (aq_list (actQ (tm s))) = Some (LVT v) \<longleftrightarrow> vs = []"
    using d di xs by (cases vs rule: rev_cases) (auto simp: dll_def opt_last_def)
  have prev: "bnd (deref (lk_prev (links s (LVT v)))) (\<lambda>kp. as_vt (lk_this (links s kp))) = Inr (fst (last us))"
    if "us \<noteq> []"
    using that d xs wf by (cases us rule: rev_cases) (auto simp: dll_def dseg_append opt_last_def wf_links_def)
  have nw: "fst (last us) \<noteq> v" if "us \<noteq> []"
    using that di xs by (cases us rule: rev_cases) auto
  show ?thesis
    using d2 wf2 nw
    by (cases "us = []"; cases "vs = []")
      (auto simp: MRT_vtimer_rmv_def Let_def first last prev run with_actQ_def h2_def[symmetric])
qed

lemma MRT_vtimer_rmv_ok:
  assumes rep: "act_rep s xs" and wf: "wf_links (links s)" and xs: "xs = us @ (v, e) # vs"
  shows "\<exists>s'. MRT_vtimer_rmv v s = Inr s' \<and> act_rep s' (us @ vs) \<and> wf_links (links s')
    \<and> (\<forall>k. k \<notin> set (vlinks xs) \<longrightarrow> links s' k = links s k)
    \<and> (\<forall>u. VT s' u = VT s u\<lparr>vt_nextexp := vt_nextexp (VT s' u), vt_flags := vt_flags (VT s' u)\<rparr>)
    \<and> expQ (tm s') = expQ (tm s) \<and> sv s' = sv s"
proof -
  from vtimer_rmv_run[OF rep wf xs] obtain s' where run: "MRT_vtimer_rmv v s = Inr s'"
    and d: "dll (links s') (aq_list (actQ (tm s'))) (vlinks (us @ vs))" and wf': "wf_links (links s')"
    and fr: "\<forall>k. k \<notin> set (vlinks xs) \<longrightarrow> links s' k = links s k"
    and ea: "aq_earliest (actQ (tm s')) = (if us \<noteq> [] then aq_earliest (actQ (tm s)) else
         if vs \<noteq> [] then aq_earliest (actQ (tm s)) + vt_nextexp (VT s v) else 0)"
    and ma: "aq_maxper (actQ (tm s')) = (if us = [] \<and> vs = [] then 0 else if us = []
         then aq_maxper (actQ (tm s)) - vt_nextexp (VT s v) else if vs = []
         then aq_maxper (actQ (tm s)) - vt_nextexp (VT s (fst (last us))) else aq_maxper (actQ (tm s)))"
    and nx: "\<forall>u. vt_nextexp (VT s' u) = (if us \<noteq> [] \<and> vs \<noteq> [] \<and> u = fst (last us)
         then vt_nextexp (VT s u) + vt_nextexp (VT s v) else vt_nextexp (VT s u))"
    and vt: "\<forall>u. VT s' u = VT s u\<lparr>vt_nextexp := vt_nextexp (VT s' u), vt_flags := vt_flags (VT s' u)\<rparr>"
    and oth: "expQ (tm s') = expQ (tm s)" "sv s' = sv s" by blast
  have ne: "xs \<noteq> []" using xs by simp
  note e = act_repD(3)[OF rep ne] act_repD(4)[OF rep ne]
  have b: "\<forall>x\<in>set xs. snd x < 2 ^ 32" using rep by (simp add: act_rep_def)
  have dq1: "dq (vtimer (tm s)) (us @ [(v, e)])" "dq (vtimer (tm s)) ((v, e) # vs)"
    using act_repD(2)[OF rep] xs dq_append[of _ us "(v, e)" vs] by auto
  have di: "distinct (map fst xs)" by (rule act_rep_distinct[OF rep])
  have "act_rep s' (us @ vs)"
  proof (cases "us = [] \<or> vs = []")
    case True
    have dq': "dq (vtimer (tm s')) (us @ vs)"
      using True dq1 nx dq_cong[of "us @ vs" "vtimer (tm s')" "vtimer (tm s)"] by (auto simp: dq_snoc dq_Cons)
    show ?thesis
    proof (rule act_repI)
      show "unat (aq_earliest (actQ (tm s'))) = snd (hd (us @ vs))" if "us @ vs \<noteq> []"
        using that True e(1) dq1(2) xs b by (cases us; cases vs) (auto simp: ea unat_add_lem[THEN iffD1])
      show "unat (aq_maxper (actQ (tm s'))) = snd (last (us @ vs)) - snd (hd (us @ vs))" if "us @ vs \<noteq> []"
      proof (cases "us = []")
        case True
        then show ?thesis using that e(2) dq1(2) xs act_rep_hd_le_last[OF rep, of "hd vs"]
          by (cases vs) (auto simp: ma unat_sub word_le_nat_alt)
      next
        case False
        then have "vs = []" using \<open>us = [] \<or> vs = []\<close> by simp
        then show ?thesis using False e(2) dq1(1) xs act_rep_hd_le_last[OF rep, of "last us"]
          by (auto simp: ma unat_sub word_le_nat_alt dq_snoc)
      qed
    qed (use d dq' b xs in auto)
  next
    case False
    then obtain us' w ew n en vs' where us: "us = us' @ [(w, ew)]" and vs: "vs = (n, en) # vs'"
      by (metis neq_Nil_conv rev_exhaust surj_pair)
    have q: "ew \<le> e" "e \<le> en" "unat (vt_nextexp (VT s w)) = e - ew" "unat (vt_nextexp (VT s v)) = en - e" "en < 2 ^ 32"
      using dq1(1)[unfolded dq_snoc] dq1(2) us vs b xs by auto
    have "dq (vtimer (tm s')) us = dq (vtimer (tm s)) us"
    proof (rule dq_cong)
      fix x assume "x \<in> set (butlast us)"
      then have "fst x \<noteq> w" using di xs us by (auto simp: image_iff)
      then show "vt_nextexp (VT s' (fst x)) = vt_nextexp (VT s (fst x))" using nx us by simp
    qed
    then have "dq (vtimer (tm s')) us" using dq1(1)[unfolded dq_snoc] by simp
    moreover
    have "dq (vtimer (tm s')) vs = dq (vtimer (tm s)) vs"
    proof (rule dq_cong)
      fix x assume "x \<in> set (butlast vs)"
      then have "x \<in> set vs" by (rule in_set_butlastD)
      then have "fst x \<noteq> w" using di xs us by (auto simp: image_iff)
      then show "vt_nextexp (VT s' (fst x)) = vt_nextexp (VT s (fst x))" using nx us by simp
    qed
    with dq1(2) have "dq (vtimer (tm s')) vs" using dq1(2) by (simp add: dq_Cons[of _ _ vs])
    moreover have "unat (vt_nextexp (VT s' w)) = en - ew"
      using nx us vs q by (simp add: unat_add_lem[THEN iffD1])
    ultimately have "dq (vtimer (tm s')) (us @ vs)"
      using us vs q dq_append[of _ us' "(w, ew)" vs] by simp
    moreover have "hd (us @ vs) = hd xs" "last (us @ vs) = last xs" using us vs xs by (cases us'; simp)+
    ultimately show ?thesis using d e b xs False by (intro act_repI) (auto simp: ea ma)
  qed
  with run wf' fr vt oth show ?thesis by blast
qed


lemma act_rep_heap:
  "act_rep s xs \<Longrightarrow> tm s' = expQ_update f (tm s) \<Longrightarrow> (\<And>k. k \<in> set (vlinks xs) \<Longrightarrow> links s' k = links s k) \<Longrightarrow>
   act_rep s' xs"
  using dll_cong[of "vlinks xs" "links s'" "links s"] by (auto simp: act_rep_def)

abbreviation vprio :: "kstate \<Rightarrow> nat \<Rightarrow> nat" where "vprio s v \<equiv> unat (vt_priority (VT s v))"

definition expire_to :: "kstate \<Rightarrow> (nat \<times> nat) list \<Rightarrow> (nat \<Rightarrow> lref list) \<Rightarrow> nat \<Rightarrow> lref list" where
  "expire_to s ys qs = (\<lambda>p. qs p @ vlinks (filter (\<lambda>x. vprio s (fst x) = p) ys))"

lemma clock_expire_ok:
  assumes "act_rep s xs" and "wf_links (links s)" and "pl_rep (links s) (expQ (tm s)) qs"
    and "members qs \<inter> set (vlinks xs) = {}" and "\<forall>x\<in>set xs. vprio s (fst x) < MRT_NR_PRTY"
    and "length xs < n"
  shows "\<exists>m s'. clock_expire n mn s = Inr (opt_hd (vlinks (dropWhile (\<lambda>x. snd x = 0) xs)), m, s')
    \<and> act_rep s' (dropWhile (\<lambda>x. snd x = 0) xs) \<and> wf_links (links s')
    \<and> pl_rep (links s') (expQ (tm s')) (expire_to s (takeWhile (\<lambda>x. snd x = 0) xs) qs) \<and> sv s' = sv s
    \<and> (\<forall>u. vprio s' u = vprio s u)"
  using assms
proof (induction xs arbitrary: s qs n mn)
  case Nil
  then obtain n' where "n = Suc n'" by (cases n) auto
  moreover have "ls_first (aq_list (actQ (tm s))) = None" using act_repD(1)[OF Nil.prems(1)] by (simp add: dll_def)
  ultimately show ?case using Nil by (simp add: expire_to_def)
next
  case (Cons x xs)
  obtain n' where n: "n = Suc n'" using Cons.prems(6) by (cases n) auto
  obtain v e where x: "x = (v, e)" by fastforce
  have first: "ls_first (aq_list (actQ (tm s))) = Some (LVT v)"
    using act_repD(1)[OF Cons.prems(1)] x by (simp add: dll_def)
  have ea: "unat (aq_earliest (actQ (tm s))) = e" using act_repD(3)[OF Cons.prems(1)] x by simp
  show ?case
  proof (cases "e = 0")
    case False
    then have "aq_earliest (actQ (tm s)) \<noteq> 0" using ea by auto
    with False first n x Cons.prems show ?thesis by (simp add: expire_to_def)
  next
    case True
    then have e0: "aq_earliest (actQ (tm s)) = 0" using ea by (simp add: unat_eq_0)
    have th: "lk_this (links s (LVT v)) = Some (OVT v)" using Cons.prems(2) by (simp add: wf_links_def)
    from MRT_vtimer_rmv_ok[OF Cons.prems(1,2), of "[]" v e xs] x obtain s1 where
      r1: "MRT_vtimer_rmv v s = Inr s1" "act_rep s1 xs" "wf_links (links s1)"
      and f1: "\<forall>k. k \<notin> set (vlinks (x # xs)) \<longrightarrow> links s1 k = links s k"
      and v1: "\<forall>u. VT s1 u = VT s u\<lparr>vt_nextexp := vt_nextexp (VT s1 u), vt_flags := vt_flags (VT s1 u)\<rparr>"
      and o1: "expQ (tm s1) = expQ (tm s)" "sv s1 = sv s" by auto
    have p1: "vprio s1 u = vprio s u" for u using v1 by (metis vtimer_t.select_convs(5) vtimer_t.surjective vtimer_t.update_convs(8,9))
    have "links s1 k = links s k" if "k \<in> members qs" for k using that f1 Cons.prems(4) by blast
    then have rep1: "pl_rep (links s1) (expQ (tm s1)) qs"
      using pl_rep_cong[of qs "links s1" "links s"] Cons.prems(3) o1 by simp
    have k: "LVT v \<notin> members qs" using Cons.prems(4) x by auto
    have pv: "vprio s1 v < MRT_NR_PRTY" using Cons.prems(5) x p1 by simp
    from MRT_plist_app_ok[OF rep1 pv k] obtain h2 q2 where
      r2: "MRT_plist_app (links s1) (expQ (tm s1)) (LVT v) (vprio s1 v) = Inr (h2, q2)"
      "pl_rep h2 q2 (qs(vprio s1 v := qs (vprio s1 v) @ [LVT v]))"
      and f2: "heap_frame (insert (LVT v) (set (qs (vprio s1 v)))) (links s1) h2" by blast
    define s2 where "s2 = tm_update (expQ_update (\<lambda>_. q2)) (s1\<lparr>links := h2\<rparr>)"
    have w2: "with_expQ (\<lambda>h q. MRT_plist_app h q (LVT v) (vprio s1 v)) s1 = Inr s2"
      using r2(1) by (simp add: with_expQ_def s2_def)
    have vx: "LVT v \<notin> set (vlinks xs)" using act_rep_distinct[OF Cons.prems(1)] x by auto
    have a2: "act_rep s2 xs"
    proof (rule act_rep_heap[OF r1(2)])
      show "tm s2 = expQ_update (\<lambda>_. q2) (tm s1)" by (simp add: s2_def)
      show "links s2 k = links s1 k" if "k \<in> set (vlinks xs)" for k
      proof -
        have "k \<notin> members qs" "k \<noteq> LVT v" using that vx Cons.prems(4) by auto
        then show ?thesis using f2 by (simp add: s2_def heap_frame_def members_def)
      qed
    qed
    let ?qs = "qs(vprio s1 v := qs (vprio s1 v) @ [LVT v])"
    have "\<exists>m s'. clock_expire n' mn' s2 = Inr (opt_hd (vlinks (dropWhile (\<lambda>x. snd x = 0) xs)), m, s')
      \<and> act_rep s' (dropWhile (\<lambda>x. snd x = 0) xs) \<and> wf_links (links s')
      \<and> pl_rep (links s') (expQ (tm s')) (expire_to s2 (takeWhile (\<lambda>x. snd x = 0) xs) ?qs) \<and> sv s' = sv s2
      \<and> (\<forall>u. vprio s' u = vprio s2 u)" for mn'
    proof (rule Cons.IH[OF a2])
      show "pl_rep (links s2) (expQ (tm s2)) ?qs" using r2(2) by (simp add: s2_def)
      show "wf_links (links s2)" using wf_links_frame[OF f2] r1(3) by (simp add: s2_def)
      show "members ?qs \<inter> set (vlinks xs) = {}"
      proof -
        have "members ?qs \<subseteq> insert (LVT v) (members qs)" by (auto simp: members_def split: if_splits)
        moreover have "set (vlinks xs) \<inter> members qs = {}" using Cons.prems(4) by auto
        ultimately show ?thesis using vx by blast
      qed
    qed (use Cons.prems n p1 in \<open>simp_all add: s2_def\<close>)
    moreover have "expire_to s2 (takeWhile (\<lambda>x. snd x = 0) xs) ?qs = expire_to s (takeWhile (\<lambda>x. snd x = 0) (x # xs)) qs"
      using True x p1 by (auto simp: expire_to_def s2_def)
    moreover have "sv s2 = sv s" "\<forall>u. vprio s2 u = vprio s u" using o1 p1 by (simp_all add: s2_def)
    ultimately show ?thesis using n first e0 th r1(1) w2 True x by simp
  qed
qed

subsection \<open>The interface of the timer queue\<close>

text \<open>
  What the clients of the active queue rely on: inserting gives the timer its period as the
  remaining time, removing takes it out, and the remaining time of no other timer changes.
\<close>

lemma map_of_middle: "v \<notin> fst ` set us \<Longrightarrow> map_of (us @ (v, e) # vs) = (map_of (us @ vs))(v \<mapsto> e)"
  by (induction us) (auto simp del: map_of_append)

locale exp_queue =
  fixes rep :: "'s \<Rightarrow> (nat \<times> nat) list \<Rightarrow> bool"
    and per :: "'s \<Rightarrow> nat \<Rightarrow> nat"
    and ins :: "nat \<Rightarrow> 's \<Rightarrow> 's res"
    and rmv :: "nat \<Rightarrow> 's \<Rightarrow> 's res"
    and cap :: nat
  assumes sorted_law: "rep s xs \<Longrightarrow> sorted (map snd xs)"
    and distinct_law: "rep s xs \<Longrightarrow> distinct (map fst xs)"
    and ins_law: "rep s xs \<Longrightarrow> v \<notin> fst ` set xs \<Longrightarrow> length xs \<le> cap \<Longrightarrow>
      \<exists>s'. ins v s = Inr s' \<and> rep s' (exp_ins v (per s v) xs)"
    and rmv_law: "rep s (us @ (v, e) # vs) \<Longrightarrow> \<exists>s'. rmv v s = Inr s' \<and> rep s' (us @ vs)"
begin

lemma map_of_exp_ins: "v \<notin> fst ` set xs \<Longrightarrow> map_of (exp_ins v p xs) = (map_of xs)(v \<mapsto> p)"
proof -
  assume v: "v \<notin> fst ` set xs"
  have "v \<notin> fst ` set (takeWhile (\<lambda>x. snd x \<le> p) xs)" using v set_takeWhileD by fastforce
  then show ?thesis unfolding exp_ins_def map_of_middle[OF \<open>v \<notin> fst ` set (takeWhile (\<lambda>x. snd x \<le> p) xs)\<close>]
    by (simp only: takeWhile_dropWhile_id)
qed

lemma ins_expirations:
  assumes "rep s xs" and "v \<notin> fst ` set xs" and "length xs \<le> cap"
  shows "\<exists>s' xs'. ins v s = Inr s' \<and> rep s' xs' \<and> map_of xs' = (map_of xs)(v \<mapsto> per s v)
    \<and> sorted (map snd xs')"
  using ins_law[OF assms] map_of_exp_ins[OF assms(2)] sorted_law by metis

lemma rmv_expirations:
  assumes rep: "rep s xs" and v: "(v, e) \<in> set xs"
  shows "\<exists>s' xs'. rmv v s = Inr s' \<and> rep s' xs' \<and> map_of xs' = (map_of xs)(v := None)
    \<and> sorted (map snd xs')"
proof -
  obtain us vs where xs: "xs = us @ (v, e) # vs" using v by (meson split_list)
  with rmv_law[of s us v e vs] rep obtain s' where s': "rmv v s = Inr s'" "rep s' (us @ vs)" by auto
  have "v \<notin> fst ` set us" "v \<notin> fst ` set vs" using distinct_law[OF rep] xs by auto
  then have "map_of (us @ vs) v = None" "map_of xs = (map_of (us @ vs))(v \<mapsto> e)"
    unfolding xs by (simp_all add: map_of_middle map_of_eq_None_iff image_Un del: map_of_append)
  then have "map_of (us @ vs) = (map_of xs)(v := None)" by (simp add: fun_upd_idem del: map_of_append)
  with s' sorted_law show ?thesis by metis
qed

lemma rmv_ins:
  assumes "rep s xs" and "v \<notin> fst ` set xs" and "length xs \<le> cap" and "ins v s = Inr s'"
  shows "\<exists>s''. rmv v s' = Inr s'' \<and> rep s'' xs"
proof -
  have "rep s' (exp_ins v (per s v) xs)" using ins_law[OF assms(1-3)] assms(4) by auto
  then show ?thesis using rmv_law[of s' _ v "per s v"] unfolding exp_ins_def by (metis takeWhile_dropWhile_id)
qed

end

interpretation vq: exp_queue "\<lambda>s xs. act_rep s xs \<and> wf_links (links s)" "\<lambda>s v. unat (per0 s v)"
  MRT_vtimer_ins MRT_vtimer_rmv NR_VTIMERS
proof unfold_locales
  show "act_rep s xs \<and> wf_links (links s) \<Longrightarrow> sorted (map snd xs)" for s xs
    using dq_sorted act_repD(2) by blast
  show "act_rep s xs \<and> wf_links (links s) \<Longrightarrow> distinct (map fst xs)" for s xs
    using act_rep_distinct by blast
  show "act_rep s xs \<and> wf_links (links s) \<Longrightarrow> v \<notin> fst ` set xs \<Longrightarrow> length xs \<le> NR_VTIMERS \<Longrightarrow>
      \<exists>s'. MRT_vtimer_ins v s = Inr s' \<and> act_rep s' (exp_ins v (unat (per0 s v)) xs) \<and> wf_links (links s')" for s xs v
    using MRT_vtimer_ins_ok[of s xs v] wf_links_frame by metis
  show "act_rep s (us @ (v, e) # vs) \<and> wf_links (links s) \<Longrightarrow>
      \<exists>s'. MRT_vtimer_rmv v s = Inr s' \<and> act_rep s' (us @ vs) \<and> wf_links (links s')" for s us v e vs
    using MRT_vtimer_rmv_ok[of s _ us v e vs] by blast
qed

lemma act_rep0: "act_rep kstate0 []"
  by (auto simp: act_rep_def dll_def zero_defs)

lemma vt_example:
  "\<exists>s. act_rep s [(4, 10)] \<and> wf_links (links s) \<and> pl_rep (links s) (expQ (tm s)) (\<lambda>_. []) \<and> sv s = sv kstate0
     \<and> vt_priority (VT s 4) = 0"
proof -
  let ?s = "upd_vt 4 (vt_period_update (\<lambda>_. 10)) kstate0"
  let ?s1 = "set_maxper (\<lambda>_. 0) (set_earliest (\<lambda>_. 10) (upd_vt 4 (\<lambda>t. t\<lparr>vt_flags := VT_ACTIVEQ, vt_nextexp := 0\<rparr>) ?s))"
  have "dll heap0 list0 []" by (simp add: dll_def list0_def)
  from MRT_list_ins_ok[OF this, of "LVT 4"] obtain h l where
    hl: "MRT_list_ins heap0 list0 (LVT 4) = Inr (h, l)" "dll h l [LVT 4]" "heap_frame {LVT 4} heap0 h" by auto
  let ?s' = "tm_update (actQ_update (aq_list_update (\<lambda>_. l))) (?s1\<lparr>links := h\<rparr>)"
  have "act_rep ?s' [(4, 10)]" using hl(2) by (simp add: act_rep_def)
  moreover have "wf_links (links ?s')" using wf_links_frame[OF hl(3)] by simp
  moreover have "pl_rep (links ?s') (expQ (tm ?s')) (\<lambda>_. [])"
    using pl_rep_frame[OF plist0_rep hl(3)] by (simp add: members_def kstate0_def)
  moreover have "sv ?s' = sv kstate0" "vt_priority (VT ?s' 4) = 0" by (simp_all add: kstate0_def vt0_def)
  ultimately show ?thesis by blast
qed

subsection \<open>Correctness of the timers\<close>

text \<open>
  C14. Inserting a virtual timer in the active queue, which stores the differences between
  consecutive expirations, adds one expiration, in as many ticks as the period of the timer, and
  leaves every other timer with the expiration it had; the queue stays sorted. Removing the timer
  again gives back the queue as it was.
\<close>

theorem vtimer_ins_expirations:
  assumes "act_rep s xs" and "wf_links (links s)" and "v \<notin> fst ` set xs" and "length xs \<le> NR_VTIMERS"
  shows "\<exists>s' xs'. MRT_vtimer_ins v s = Inr s' \<and> act_rep s' xs' \<and> sorted (map snd xs')
     \<and> map_of xs' = (map_of xs)(v \<mapsto> unat (vt_period (VT s v)))
     \<and> (\<exists>s''. MRT_vtimer_rmv v s' = Inr s'' \<and> act_rep s'' xs)"
  using vq.ins_expirations[of s xs v] vq.rmv_ins[of s xs v] assms by metis

theorem vtimer_ins_expirations_witness:
  "\<exists>s' xs'. MRT_vtimer_ins 4 (upd_vt 4 (vt_period_update (\<lambda>_. 10)) kstate0) = Inr s' \<and> act_rep s' xs' \<and> map_of xs' 4 = Some 10"
proof -
  let ?s = "upd_vt 4 (vt_period_update (\<lambda>_. 10)) kstate0"
  have "act_rep ?s []" using act_rep0 by (simp add: act_rep_def)
  from vtimer_ins_expirations[OF this, of 4] show ?thesis by fastforce
qed

text \<open>
  Removing a timer from any place of the active queue leaves every other timer with the
  expiration it had.
\<close>

lemma vtimer_rmv_expirations:
  assumes "act_rep s xs" and "wf_links (links s)" and "v \<in> fst ` set xs"
  shows "\<exists>s' xs'. MRT_vtimer_rmv v s = Inr s' \<and> act_rep s' xs' \<and> sorted (map snd xs') \<and> map_of xs' = (map_of xs)(v := None)"
  using vq.rmv_expirations[of s xs v] assms by fastforce

text \<open>
  C17. The clock handler (in periodic mode) returns and moves exactly the timers that are due, those
  whose expiration is 0, from the active queue to the queue of expired timers: each to the end of the
  list of its own priority, in the order of the active queue. All others stay in the active queue
  with their expirations.
\<close>

theorem clock_handler_expires_due:
  assumes "act_rep s xs" and "wf_links (links s)" and "pl_rep (links s) (expQ (tm s)) qs"
    and "members qs \<inter> set (vlinks xs) = {}" and "\<forall>x\<in>set xs. unat (vt_priority (VT s (fst x))) < MRT_NR_PRTY"
    and "length xs \<le> NR_VTIMERS" and "\<not> svflag s MRT_ONESHOT"
  shows "\<exists>s'. MRT_clock_handler s = Inr s' \<and> act_rep s' (filter (\<lambda>x. snd x \<noteq> 0) xs)
     \<and> pl_rep (links s') (expQ (tm s')) (\<lambda>p. qs p @ vlinks (filter (\<lambda>x. snd x = 0 \<and> unat (vt_priority (VT s (fst x))) = p) xs))"
proof -
  have srt: "sorted (map snd xs)" using dq_sorted act_repD(2)[OF assms(1)] by blast
  then have due: "takeWhile (\<lambda>x. snd x = 0) xs = filter (\<lambda>x. snd x = 0) xs"
      "dropWhile (\<lambda>x. snd x = 0) xs = filter (\<lambda>x. snd x \<noteq> 0) xs"
    by (induction xs) (auto simp: filter_empty_conv intro!: filter_id_conv[THEN iffD2, symmetric] filter_False[symmetric])
  have "length xs < vt_fuel" using assms(6) by simp
  from clock_expire_ok[OF assms(1-5) this, of MRT_MAXPER] obtain m s' where
    "clock_expire vt_fuel MRT_MAXPER s = Inr (opt_hd (vlinks (filter (\<lambda>x. snd x \<noteq> 0) xs)), m, s')"
    "act_rep s' (filter (\<lambda>x. snd x \<noteq> 0) xs)"
    "pl_rep (links s') (expQ (tm s')) (expire_to s (filter (\<lambda>x. snd x = 0) xs) qs)" "sv s' = sv s"
    unfolding due by blast
  moreover have "filter (\<lambda>x. vprio s (fst x) = p) (filter (\<lambda>x. snd x = 0) xs)
      = filter (\<lambda>x. snd x = 0 \<and> vprio s (fst x) = p) xs" for p by (simp add: conj_commute)
  ultimately show ?thesis using assms(7) by (auto simp: MRT_clock_handler_def expire_to_def)
qed

theorem clock_handler_expires_due_witness:
  "\<exists>s s'. MRT_clock_handler s = Inr s' \<and> act_rep s [(4, 0)] \<and> act_rep s' []
     \<and> pl_rep (links s') (expQ (tm s')) ((\<lambda>_. [])(0 := [LVT 4]))"
proof -
  obtain s0 where s0: "act_rep s0 [(4, 10)]" "wf_links (links s0)" "pl_rep (links s0) (expQ (tm s0)) (\<lambda>_. [])"
    "sv s0 = sv kstate0" "vt_priority (VT s0 4) = 0" using vt_example by blast
  let ?s = "set_earliest (\<lambda>_. 0) s0"
  have a: "act_rep ?s [(4, 0)]" using s0(1) by (simp add: act_rep_def)
  have e: "(\<lambda>p. [] @ vlinks (filter (\<lambda>x. snd x = 0 \<and> unat (vt_priority (VT ?s (fst x))) = p) [(4, 0)])) = (\<lambda>_. [])(0 := [LVT 4])"
    using s0(5) by auto
  have "\<not> svflag ?s MRT_ONESHOT" using s0(4) by (simp add: kstate0_def sysval0_def TEST_BIT_def)
  then show ?thesis
    using clock_handler_expires_due[OF a _ _ _ _ _ , of "\<lambda>_. []", unfolded e] s0 a
    by (auto simp: members_def MRT_NR_PRTY_def)
qed

end
