(* ===== verification/Pools.thy ===== *)
theory Pools
  imports Sched Vtimer
begin

text \<open>
  The pools of the real-time kernel: message queue entries and message queues
  (\<^verbatim>\<open>src/src/kernel/mrtmsg.c\<close>), semaphores and their queues of waiting processes
  (\<^verbatim>\<open>src/src/kernel/mrtsem.c\<close>), and the reset of the real-time fields of a process
  (\<^verbatim>\<open>src/src/kernel/mrtproc.c\<close>).

  The lemmas show that allocating and freeing conserve the pools, and which message or process
  is picked from a queue.
\<close>

subsection \<open>Message queue entries\<close>

abbreviation MQE :: "kstate \<Rightarrow> nat \<Rightarrow> mqe_t" where "MQE s e \<equiv> mqe (sm s) e"
abbreviation MSGQ :: "kstate \<Rightarrow> nat \<Rightarrow> msgQ_t" where "MSGQ s q \<equiv> msgQ (sm s) q"

definition with_mqeL :: "(heap \<Rightarrow> list_t \<Rightarrow> (heap \<times> list_t) res) \<Rightarrow> kstate \<Rightarrow> kstate res" where
  "with_mqeL f s =
     bnd (f (links s) (mqeL (sm s))) (\<lambda>(h, l). Inr (sm_update (mqeL_update (\<lambda>_. l)) (s\<lparr>links := h\<rparr>)))"

definition with_msgQL :: "(heap \<Rightarrow> list_t \<Rightarrow> (heap \<times> list_t) res) \<Rightarrow> kstate \<Rightarrow> kstate res" where
  "with_msgQL f s =
     bnd (f (links s) (msgQL (sm s))) (\<lambda>(h, l). Inr (sm_update (msgQL_update (\<lambda>_. l)) (s\<lparr>links := h\<rparr>)))"

definition with_mq_plist :: "nat \<Rightarrow> (heap \<Rightarrow> plist_t \<Rightarrow> (heap \<times> plist_t) res) \<Rightarrow> kstate \<Rightarrow> kstate res" where
  "with_mq_plist q f s =
     bnd (f (links s) (mq_plist (MSGQ s q))) (\<lambda>(h, l). Inr (upd_msgQ q (mq_plist_update (\<lambda>_. l)) (s\<lparr>links := h\<rparr>)))"

text \<open>
  The text that \<open>MRT_mqe_rst\<close> copies into the message, 20 characters and the terminating zero,
  as the words of the message.
\<close>

definition free_text :: "mess_u \<Rightarrow> mess_u" where
  "free_text u = u(0 := 0x2D2D2D2D, 1 := 0x2D2D2D7C, 2 := 0x2D2D7C2D, 3 := 0x2D7C2D2D,
                   4 := 0x7C2D2D2D, 5 := u 5 AND 0xFFFFFF00)"

definition MRT_mqe_rst :: "nat \<Rightarrow> kstate \<Rightarrow> kstate" where
  "MRT_mqe_rst e s =
     (let s = upd_mqe e (me_hdr_update (\<lambda>h. h\<lparr>
                mh_src := \<lparr>pid_pid = HARDWARE, pid_p_nr = HARDWARE\<rparr>,
                mh_dst := \<lparr>pid_pid = HARDWARE, pid_p_nr = HARDWARE\<rparr>,
                mh_mtype := MT_MBFREE, mh_mid := 0, mh_seqno := 0, mh_tstamp := 0,
                mh_priority := MRT_PRIHIGHEST, mh_deadline := 0\<rparr>)) s;
          s = upd_mqe e (me_m_u_update free_text) s;
          s = upd_mqe e (me_pvt_update (\<lambda>_. None)) s
      in s\<lparr>links := MRT_link_rst (LMqe e) (OMqe e) MRT_OBJMQE (links s)\<rparr>)"

definition MRT_mpool_init :: "kstate \<Rightarrow> kstate res" where
  "MRT_mpool_init s =
     foldM (\<lambda>i s.
       let s = upd_mqe i (me_index_update (\<lambda>_. int i)) s;
           s = MRT_mqe_rst i s
       in with_mqeL (\<lambda>h l. MRT_list_app h l (LMqe i)) s) [0..<NR_MESSAGES] s"

definition MRT_mqe_alloc :: "kstate \<Rightarrow> (nat option \<times> kstate) res" where
  "MRT_mqe_alloc s =
     (case ls_first (mqeL (sm s)) of
        None \<Rightarrow> Inr (None, s)
      | Some k \<Rightarrow>
          bnd (with_mqeL (\<lambda>h l. MRT_list_rmv h l k) s) (\<lambda>s.
          bnd (as_mqe (lk_this (links s k))) (\<lambda>e. Inr (Some e, s))))"

definition MRT_mqe_free :: "nat \<Rightarrow> kstate \<Rightarrow> kstate res" where
  "MRT_mqe_free e s = with_mqeL (\<lambda>h l. MRT_list_app h l (LMqe e)) (MRT_mqe_rst e s)"

subsection \<open>Message queues\<close>

definition MRT_msgQ_rst :: "nat \<Rightarrow> kstate \<Rightarrow> kstate" where
  "MRT_msgQ_rst q s =
     (let s = upd_msgQ q (\<lambda>m. m\<lparr>mq_size := 0, mq_flags := 0, mq_owner := - 1,
                              mq_delivered := 0, mq_enqueued := 0\<rparr>) s;
          s = s\<lparr>links := MRT_link_rst (LMsgQ q) (OMsgQ q) MRT_OBJMQ (links s)\<rparr>
      in upd_msgQ q (mq_plist_update MRT_plist_rst) s)"

definition MRT_msgQ_free :: "nat \<Rightarrow> kstate \<Rightarrow> kstate res" where
  "MRT_msgQ_free q s = with_msgQL (\<lambda>h l. MRT_list_app h l (LMsgQ q)) (MRT_msgQ_rst q s)"

definition MRT_msgQ_init :: "kstate \<Rightarrow> kstate res" where
  "MRT_msgQ_init s =
     (let s = sm_update (mqeL_update MRT_list_rst) s;
          s = sm_update (msgQL_update MRT_list_rst) s
      in foldM (\<lambda>i s. MRT_msgQ_free i (upd_msgQ i (mq_index_update (\<lambda>_. int i)) s)) [0..<NR_MSGQ] s)"

text \<open>The queue attributes that the caller fills in: size, flags and owner.\<close>

definition MRT_msgQ_alloc :: "int \<Rightarrow> u32 \<Rightarrow> int \<Rightarrow> kstate \<Rightarrow> (nat option \<times> kstate) res" where
  "MRT_msgQ_alloc sz fl own s =
     (case ls_first (msgQL (sm s)) of
        None \<Rightarrow> Inr (None, s)
      | Some k \<Rightarrow>
          bnd (with_msgQL (\<lambda>h l. MRT_list_rmv h l k) s) (\<lambda>s.
          bnd (as_msgQ (lk_this (links s k))) (\<lambda>q.
          Inr (Some q, upd_msgQ q (\<lambda>m. m\<lparr>mq_size := sz, mq_flags := fl, mq_owner := own\<rparr>) s))))"

definition mqe_level :: "kstate \<Rightarrow> nat \<Rightarrow> nat \<Rightarrow> nat" where
  "mqe_level s q e =
     unat (if TEST_BIT (mq_flags (MSGQ s q)) MQ_PRTYORDER then mh_priority (me_hdr (MQE s e))
           else MRT_PRIHIGHEST)"

definition MRT_mqe_app :: "nat \<Rightarrow> nat \<Rightarrow> kstate \<Rightarrow> (int \<times> kstate) res" where
  "MRT_mqe_app q e s =
     (if pl_inQ (mq_plist (MSGQ s q)) = mq_size (MSGQ s q) then Inr (E_MRT_MQFULL, s)
      else
        bnd (with_mq_plist q (\<lambda>h l. MRT_plist_app h l (LMqe e) (mqe_level s q e)) s) (\<lambda>s.
        Inr (OK, upd_msgQ q (mq_enqueued_update (\<lambda>n. n + 1)) s)))"

definition MRT_mqe_rmv :: "nat \<Rightarrow> nat \<Rightarrow> kstate \<Rightarrow> kstate res" where
  "MRT_mqe_rmv q e s =
     bnd (with_mq_plist q (\<lambda>h l. MRT_plist_rmv h l (LMqe e) (mqe_level s q e)) s) (\<lambda>s.
     Inr (upd_msgQ q (mq_delivered_update (\<lambda>n. n + 1)) s))"

text \<open>
  \<open>MRT_mqe_pick\<close> searches the lists by priority, each from its head. A list holds at most
  \<open>NR_MESSAGES\<close> entries.
\<close>

abbreviation (input) mqe_fuel :: nat where "mqe_fuel \<equiv> 33"

fun mqe_scan :: "nat \<Rightarrow> int \<Rightarrow> lref option \<Rightarrow> kstate \<Rightarrow> nat option res" where
  "mqe_scan n source None s = Inr None"
| "mqe_scan 0 source (Some k) s = Inl Diverge"
| "mqe_scan (Suc n) source (Some k) s =
     bnd (as_mqe (lk_this (links s k))) (\<lambda>e.
     if source = MRT_ANYPROC \<or> source = pid_p_nr (mh_src (me_hdr (MQE s e))) then Inr (Some e)
     else mqe_scan n source (lk_next (links s k)) s)"

fun mqe_pick_level :: "nat \<Rightarrow> int \<Rightarrow> nat list \<Rightarrow> kstate \<Rightarrow> nat option res" where
  "mqe_pick_level q source [] s = Inr None"
| "mqe_pick_level q source (p # ps) s =
     (let pl = mq_plist (MSGQ s q)
      in if TEST_BIT (pl_bitmap pl) (push_bit p 1)
         then bnd (mqe_scan mqe_fuel source (ls_first (pl_list pl p)) s) (\<lambda>r.
              case r of Some e \<Rightarrow> Inr (Some e) | None \<Rightarrow> mqe_pick_level q source ps s)
         else mqe_pick_level q source ps s)"

definition MRT_mqe_pick :: "nat \<Rightarrow> int \<Rightarrow> kstate \<Rightarrow> nat option res" where
  "MRT_mqe_pick q source s =
     (if pl_inQ (mq_plist (MSGQ s q)) = 0 then Inr None
      else mqe_pick_level q source [0..<MRT_NR_PRTY] s)"

subsection \<open>Semaphores\<close>

abbreviation SEM :: "kstate \<Rightarrow> nat \<Rightarrow> sem_t" where "SEM s i \<equiv> sem (ss s) i"

definition with_sfreeL :: "(heap \<Rightarrow> list_t \<Rightarrow> (heap \<times> list_t) res) \<Rightarrow> kstate \<Rightarrow> kstate res" where
  "with_sfreeL f s =
     bnd (f (links s) (sfreeL (ss s))) (\<lambda>(h, l). Inr (ss_update (sfreeL_update (\<lambda>_. l)) (s\<lparr>links := h\<rparr>)))"

definition with_sallocL :: "int \<Rightarrow> (heap \<Rightarrow> list_t \<Rightarrow> (heap \<times> list_t) res) \<Rightarrow> kstate \<Rightarrow> kstate res" where
  "with_sallocL p f s =
     bnd (f (links s) (sallocL (procs s p))) (\<lambda>(h, l). Inr (upd_proc p (sallocL_update (\<lambda>_. l)) (s\<lparr>links := h\<rparr>)))"

definition with_slockL :: "int \<Rightarrow> (heap \<Rightarrow> list_t \<Rightarrow> (heap \<times> list_t) res) \<Rightarrow> kstate \<Rightarrow> kstate res" where
  "with_slockL p f s =
     bnd (f (links s) (slockL (procs s p))) (\<lambda>(h, l). Inr (upd_proc p (slockL_update (\<lambda>_. l)) (s\<lparr>links := h\<rparr>)))"

definition with_sem_plist :: "nat \<Rightarrow> (heap \<Rightarrow> plist_t \<Rightarrow> (heap \<times> plist_t) res) \<Rightarrow> kstate \<Rightarrow> kstate res" where
  "with_sem_plist i f s =
     bnd (f (links s) (sm_plist (SEM s i))) (\<lambda>(h, l). Inr (upd_sem i (sm_plist_update (\<lambda>_. l)) (s\<lparr>links := h\<rparr>)))"

definition MRT_sem_rst :: "nat \<Rightarrow> kstate \<Rightarrow> kstate" where
  "MRT_sem_rst i s =
     (let s = upd_sem i (\<lambda>m. m\<lparr>sm_value := 0, sm_priority := MRT_PRILOWEST, sm_flags := 0,
                             sm_owner := HARDWARE, sm_ups := 0, sm_downs := 0, sm_carrier := None\<rparr>) s;
          s = s\<lparr>links := MRT_link_rst (LSemA i) (OSem i) MRT_OBJSEM (links s)\<rparr>;
          s = s\<lparr>links := MRT_link_rst (LSemL i) (OSem i) MRT_OBJSEM (links s)\<rparr>;
          s = upd_sem i (sm_name_update (\<lambda>_. ''FREE'')) s
      in upd_sem i (sm_plist_update MRT_plist_rst) s)"

definition MRT_spool_init :: "kstate \<Rightarrow> kstate res" where
  "MRT_spool_init s =
     foldM (\<lambda>i s.
       let s = upd_sem i (sm_index_update (\<lambda>_. int i)) s;
           s = MRT_sem_rst i s
       in with_sfreeL (\<lambda>h l. MRT_list_app h l (LSemA i)) s) [0..<NR_SEM]
       (ss_update (sfreeL_update MRT_list_rst) s)"

definition MRT_sem_alloc :: "int \<Rightarrow> kstate \<Rightarrow> (nat option \<times> kstate) res" where
  "MRT_sem_alloc p s =
     (case ls_first (sfreeL (ss s)) of
        None \<Rightarrow> Inr (None, s)
      | Some k \<Rightarrow>
          bnd (with_sfreeL (\<lambda>h l. MRT_list_rmv h l k) s) (\<lambda>s.
          bnd (as_sem (lk_this (links s k))) (\<lambda>i.
          bnd (with_sallocL p (\<lambda>h l. MRT_list_app h l k) (upd_sem i (sm_owner_update (\<lambda>_. p)) s)) (\<lambda>s.
          Inr (Some i, s)))))"

definition MRT_sem_free :: "int \<Rightarrow> nat \<Rightarrow> kstate \<Rightarrow> kstate res" where
  "MRT_sem_free p i s =
     bnd (with_sallocL p (\<lambda>h l. MRT_list_rmv h l (LSemA i)) s) (\<lambda>s.
     with_sfreeL (\<lambda>h l. MRT_list_app h l (LSemA i)) (MRT_sem_rst i s))"

definition sproc_level :: "kstate \<Rightarrow> nat \<Rightarrow> int \<Rightarrow> nat" where
  "sproc_level s i p =
     (if TEST_BIT (sm_flags (SEM s i)) SEM_PRTYORDER then prio s p else unat MRT_PRIHIGHEST)"

definition MRT_sproc_app :: "nat \<Rightarrow> int \<Rightarrow> kstate \<Rightarrow> kstate res" where
  "MRT_sproc_app i p s = with_sem_plist i (\<lambda>h l. MRT_plist_app h l (LProc p) (sproc_level s i p)) s"

definition MRT_sproc_rmv :: "nat \<Rightarrow> int \<Rightarrow> kstate \<Rightarrow> kstate res" where
  "MRT_sproc_rmv i p s =
     (if pl_inQ (sm_plist (SEM s i)) = 0 then Inl (Panic ''MRT_sproc_rmv, inQ = 0 for semaphore '')
      else with_sem_plist i (\<lambda>h l. MRT_plist_rmv h l (LProc p) (sproc_level s i p)) s)"

definition MRT_sproc_pick :: "nat \<Rightarrow> kstate \<Rightarrow> int option res" where
  "MRT_sproc_pick i s =
     (case MRT_plist_get (sm_plist (SEM s i)) of
        None \<Rightarrow> Inr None
      | Some k \<Rightarrow> bnd (as_proc (lk_this (links s k))) (\<lambda>p. Inr (Some p)))"

subsection \<open>The real-time fields of a process\<close>

definition MRT_pstat_rst :: "int \<Rightarrow> kstate \<Rightarrow> kstate" where
  "MRT_pstat_rst p = upd_proc p (st_update (\<lambda>t. t\<lparr>st_scheds := 0, st_mdl := 0, st_timestamp := 0,
     st_maxlat := 0, st_minlax := 0, st_msgsent := 0, st_msgrcvd := 0\<rparr>))"

definition MRT_pattr_rst :: "int \<Rightarrow> kstate \<Rightarrow> kstate" where
  "MRT_pattr_rst p s =
     (let s = upd_proc p (rt_update (\<lambda>r. r\<lparr>rt_flags := 0, rt_priority := MRT_PRILOWEST,
                rt_baseprty := MRT_PRILOWEST, rt_period := 0, rt_limit := 0, rt_deadline := 0,
                rt_watchdog := HARDWARE\<rparr>)) s;
          s = upd_proc p (mq_update (\<lambda>m. m\<lparr>mqa_size := 0, mqa_flags := 0\<rparr>)) s;
          s = upd_proc p (\<lambda>r. r\<lparr>pmq := None, pvt := None, ipcvt := None,
                sallocL := MRT_list_rst (sallocL r), slockL := MRT_list_rst (slockL r),
                pto := None, pfrom := None, psem := None, pmsg := 0, pmhdr := 0\<rparr>) s
      in s\<lparr>links := MRT_link_rst (LProc p) (OProc p) MRT_OBJPROC (links s)\<rparr>)"

definition MRT_proc_rst :: "int \<Rightarrow> kstate \<Rightarrow> kstate" where
  "MRT_proc_rst p s = MRT_pstat_rst p (MRT_pattr_rst p s)"

text \<open>The loop resets \<open>NR_PROCS\<close> slots from the first task on, not \<open>NR_TASKS + NR_PROCS\<close>.\<close>

definition MRT_proc_init :: "kstate \<Rightarrow> kstate" where
  "MRT_proc_init s =
     fold MRT_proc_rst [- NR_TASKS .. - NR_TASKS + NR_PROCS - 1] (set_svflag MRT_NEEDSCHED s)"

subsection \<open>Pools of table entries\<close>

text \<open>
  The interface of a pool: a free list, from whose head entries are taken and to whose end they are
  given back. A state of the pool together with the set of entries in use is reachable when it comes
  from the initial one by such calls.
\<close>

inductive pool_reach :: "('s \<Rightarrow> (nat option \<times> 's) res) \<Rightarrow> (nat \<Rightarrow> 's \<Rightarrow> 's res) \<Rightarrow> 's \<Rightarrow> 's \<Rightarrow> nat set \<Rightarrow> bool"
  for alloc :: "'s \<Rightarrow> (nat option \<times> 's) res" and release :: "nat \<Rightarrow> 's \<Rightarrow> 's res" and s0 :: 's where
  start: "pool_reach alloc release s0 s0 {}"
| take_one: "pool_reach alloc release s0 s U \<Longrightarrow> alloc s = Inr (Some e, s') \<Longrightarrow> pool_reach alloc release s0 s' (insert e U)"
| take_none: "pool_reach alloc release s0 s U \<Longrightarrow> alloc s = Inr (None, s') \<Longrightarrow> pool_reach alloc release s0 s' U"
| give_back: "pool_reach alloc release s0 s U \<Longrightarrow> e \<in> U \<Longrightarrow> release e s = Inr s' \<Longrightarrow> pool_reach alloc release s0 s' (U - {e})"

locale free_pool =
  fixes rep :: "'s \<Rightarrow> nat list \<Rightarrow> bool" and alloc :: "'s \<Rightarrow> (nat option \<times> 's) res" and release :: "nat \<Rightarrow> 's \<Rightarrow> 's res"
  assumes alloc_Nil: "rep s [] \<Longrightarrow> alloc s = Inr (None, s)"
    and alloc_Cons: "rep s (e # es) \<Longrightarrow> \<exists>s'. alloc s = Inr (Some e, s') \<and> rep s' es"
    and release_law: "rep s es \<Longrightarrow> e \<notin> set es \<Longrightarrow> \<exists>s'. release e s = Inr s' \<and> rep s' (es @ [e])"
    and rep_distinct: "rep s es \<Longrightarrow> distinct es"
begin

lemma reach_inv:
  assumes "pool_reach alloc release s0 s U" and "rep s0 es0"
  shows "\<exists>es. rep s es \<and> set es \<inter> U = {} \<and> set es \<union> U = set es0"
  using assms(1)
proof induction
  case start
  then show ?case using assms(2) by auto
next
  case (take_one s U e s')
  then obtain es where es: "rep s es" "set es \<inter> U = {}" "set es \<union> U = set es0" by blast
  with take_one.hyps(2) alloc_Nil obtain e' es' where c: "es = e' # es'" by (cases es) auto
  with alloc_Cons[of s e' es'] es(1) take_one.hyps(2) have "e' = e" "rep s' es'" by auto
  then show ?case using es c rep_distinct[OF es(1)] by auto
next
  case (take_none s U s')
  then obtain es where es: "rep s es" "set es \<inter> U = {}" "set es \<union> U = set es0" by blast
  with take_none.hyps(2) alloc_Cons have "es = []" by (cases es) fastforce+
  with es alloc_Nil[of s] take_none.hyps(2) show ?case by auto
next
  case (give_back s U e s')
  then obtain es where es: "rep s es" "set es \<inter> U = {}" "set es \<union> U = set es0" by blast
  with release_law[of s es e] give_back.hyps(2,3) have "rep s' (es @ [e])" by auto
  with es give_back.hyps(2) show ?case by (intro exI[of _ "es @ [e]"]) auto
qed

lemma reach_alloc:
  assumes "pool_reach alloc release s0 s U" and "rep s0 es0"
  shows "if U = set es0 then alloc s = Inr (None, s) else \<exists>e s'. alloc s = Inr (Some e, s') \<and> e \<in> set es0 - U"
proof -
  from reach_inv[OF assms] obtain es where es: "rep s es" "set es \<inter> U = {}" "set es \<union> U = set es0" by blast
  show ?thesis
  proof (cases es)
    case Nil
    then show ?thesis using es alloc_Nil by auto
  next
    case (Cons e es')
    then show ?thesis using es alloc_Cons[of s e es'] by auto
  qed
qed

lemma reach_release:
  assumes "pool_reach alloc release s0 s U" and "rep s0 es0" and "e \<in> U"
  shows "\<exists>s'. release e s = Inr s'"
  using reach_inv[OF assms(1,2)] release_law assms(3) by blast

lemma alloc_release:
  assumes "rep s (e # es)" and "alloc s = Inr (Some e, s')"
  shows "\<exists>s''. release e s' = Inr s'' \<and> rep s'' (es @ [e])"
  using alloc_Cons[OF assms(1)] assms(2) rep_distinct[OF assms(1)] release_law[of s' es e] by auto

end

subsection \<open>The pool of message queue entries\<close>

definition mqe_pool :: "kstate \<Rightarrow> nat list \<Rightarrow> bool" where
  "mqe_pool s es \<longleftrightarrow> dll (links s) (mqeL (sm s)) (map LMqe es) \<and> wf_links (links s)"

lemma wf_links_rst:
  "wf_links h \<Longrightarrow> lk_this (h k) = Some obj \<Longrightarrow> wf_links (MRT_link_rst k obj t h)"
  by (auto simp: wf_links_def MRT_link_rst_def)

lemma wf_links_mqe: "wf_links h \<Longrightarrow> lk_this (h (LMqe e)) = Some (OMqe e)"
  by (simp add: wf_links_def)

lemma MRT_mqe_alloc_Cons:
  assumes "mqe_pool s (e # es)"
  shows "\<exists>h l. MRT_mqe_alloc s = Inr (Some e, sm_update (mqeL_update (\<lambda>_. l)) (s\<lparr>links := h\<rparr>))
     \<and> mqe_pool (sm_update (mqeL_update (\<lambda>_. l)) (s\<lparr>links := h\<rparr>)) es \<and> heap_frame (LMqe ` set (e # es)) (links s) h"
proof -
  have d: "dll (links s) (mqeL (sm s)) (map LMqe (e # es))" and wf: "wf_links (links s)"
    using assms by (simp_all add: mqe_pool_def)
  from MRT_list_rmv_ok[OF d, of "LMqe e"] obtain h l where
    hl: "MRT_list_rmv (links s) (mqeL (sm s)) (LMqe e) = Inr (h, l)" "dll h l (map LMqe es)"
      "heap_frame (LMqe ` set (e # es)) (links s) h" by auto
  have "wf_links h" using wf_links_frame[OF hl(3)] wf by simp
  with hl wf_links_mqe[of h e] dll_first[of "links s" "mqeL (sm s)" "LMqe e" "map LMqe es"] d show ?thesis
    by (auto simp: MRT_mqe_alloc_def with_mqeL_def mqe_pool_def)
qed

lemma MRT_mqe_alloc_Nil: "mqe_pool s [] \<Longrightarrow> MRT_mqe_alloc s = Inr (None, s)"
  by (simp add: MRT_mqe_alloc_def mqe_pool_def dll_def)

lemma MRT_mqe_rst_frame:
  "links (MRT_mqe_rst e s) = MRT_link_rst (LMqe e) (OMqe e) MRT_OBJMQE (links s)"
  "mqeL (sm (MRT_mqe_rst e s)) = mqeL (sm s)"
  by (simp_all add: MRT_mqe_rst_def Let_def)

lemma MRT_mqe_free_ok:
  assumes "mqe_pool s es" and "e \<notin> set es"
  shows "\<exists>s'. MRT_mqe_free e s = Inr s' \<and> mqe_pool s' (es @ [e])"
proof -
  let ?h = "MRT_link_rst (LMqe e) (OMqe e) MRT_OBJMQE (links s)"
  have wf: "wf_links ?h" using assms(1) by (intro wf_links_rst) (auto simp: mqe_pool_def wf_links_mqe)
  have "dll ?h (mqeL (sm s)) (map LMqe es)" using assms by (auto simp: mqe_pool_def intro: dll_rst_other)
  from MRT_list_app_ok[OF this, of "LMqe e"] assms(2) obtain h l where
    hl: "MRT_list_app ?h (mqeL (sm s)) (LMqe e) = Inr (h, l)" "dll h l (map LMqe es @ [LMqe e])"
      "heap_frame (insert (LMqe e) (set (map LMqe es))) ?h h" by auto
  then show ?thesis using wf wf_links_frame[OF hl(3)]
    by (auto simp: MRT_mqe_free_def with_mqeL_def MRT_mqe_rst_frame mqe_pool_def)
qed

interpretation mp: free_pool mqe_pool MRT_mqe_alloc MRT_mqe_free
proof unfold_locales
  show "mqe_pool s (e # es) \<Longrightarrow> \<exists>s'. MRT_mqe_alloc s = Inr (Some e, s') \<and> mqe_pool s' es" for s e es
    using MRT_mqe_alloc_Cons by blast
  show "mqe_pool s es \<Longrightarrow> distinct es" for s es
    by (auto simp: mqe_pool_def dest!: dll_distinct simp: distinct_map)
qed (use MRT_mqe_alloc_Nil MRT_mqe_free_ok in auto)


lemma MRT_mpool_init_ok:
  assumes "mqe_pool s []"
  shows "\<exists>s'. MRT_mpool_init s = Inr s' \<and> mqe_pool s' [0..<NR_MESSAGES]"
  unfolding MRT_mpool_init_def
proof (rule foldM_upt[where P = "\<lambda>s n. mqe_pool s [0..<n]"])
  fix i s
  assume "mqe_pool s [0..<i]"
  then have "mqe_pool (upd_mqe i (me_index_update (\<lambda>_. int i)) s) [0..<i]" by (simp add: mqe_pool_def)
  from MRT_mqe_free_ok[OF this, of i]
  show "\<exists>s'. (let s = upd_mqe i (me_index_update (\<lambda>_. int i)) s; s = MRT_mqe_rst i s
       in with_mqeL (\<lambda>h l. MRT_list_app h l (LMqe i)) s) = Inr s' \<and> mqe_pool s' [0..<Suc i]"
    by (simp add: MRT_mqe_free_def Let_def)
qed (use assms in simp)

subsection \<open>The pool of message queues\<close>

definition msgQ_pool :: "kstate \<Rightarrow> nat list \<Rightarrow> bool" where
  "msgQ_pool s es \<longleftrightarrow> dll (links s) (msgQL (sm s)) (map LMsgQ es) \<and> wf_links (links s)"

lemma wf_links_msgQ: "wf_links h \<Longrightarrow> lk_this (h (LMsgQ e)) = Some (OMsgQ e)"
  by (simp add: wf_links_def)

lemma MRT_msgQ_alloc_Cons:
  assumes "msgQ_pool s (e # es)"
  shows "\<exists>s'. MRT_msgQ_alloc sz fl own s = Inr (Some e, s') \<and> msgQ_pool s' es"
proof -
  have d: "dll (links s) (msgQL (sm s)) (map LMsgQ (e # es))" and wf: "wf_links (links s)"
    using assms by (simp_all add: msgQ_pool_def)
  from MRT_list_rmv_ok[OF d, of "LMsgQ e"] obtain h l where
    hl: "MRT_list_rmv (links s) (msgQL (sm s)) (LMsgQ e) = Inr (h, l)" "dll h l (map LMsgQ es)"
      "heap_frame (LMsgQ ` set (e # es)) (links s) h" by auto
  have "wf_links h" using wf_links_frame[OF hl(3)] wf by simp
  with hl wf_links_msgQ[of h e] dll_first[of "links s" "msgQL (sm s)" "LMsgQ e" "map LMsgQ es"] d show ?thesis
    by (auto simp: MRT_msgQ_alloc_def with_msgQL_def msgQ_pool_def)
qed

lemma MRT_msgQ_free_ok:
  assumes "msgQ_pool s es" and "e \<notin> set es"
  shows "\<exists>s'. MRT_msgQ_free e s = Inr s' \<and> msgQ_pool s' (es @ [e])"
proof -
  let ?h = "MRT_link_rst (LMsgQ e) (OMsgQ e) MRT_OBJMQ (links s)"
  have r: "links (MRT_msgQ_rst e s) = ?h" "msgQL (sm (MRT_msgQ_rst e s)) = msgQL (sm s)"
    by (simp_all add: MRT_msgQ_rst_def Let_def)
  have wf: "wf_links ?h" using assms(1) by (intro wf_links_rst) (auto simp: msgQ_pool_def wf_links_msgQ)
  have "dll ?h (msgQL (sm s)) (map LMsgQ es)" using assms by (auto simp: msgQ_pool_def intro: dll_rst_other)
  from MRT_list_app_ok[OF this, of "LMsgQ e"] assms(2) obtain h l where
    hl: "MRT_list_app ?h (msgQL (sm s)) (LMsgQ e) = Inr (h, l)" "dll h l (map LMsgQ es @ [LMsgQ e])"
      "heap_frame (insert (LMsgQ e) (set (map LMsgQ es))) ?h h" by auto
  then show ?thesis using wf wf_links_frame[OF hl(3)]
    by (auto simp: MRT_msgQ_free_def with_msgQL_def r msgQ_pool_def)
qed

interpretation qp: free_pool msgQ_pool "MRT_msgQ_alloc sz fl own" MRT_msgQ_free for sz fl own
proof unfold_locales
  show "msgQ_pool s [] \<Longrightarrow> MRT_msgQ_alloc sz fl own s = Inr (None, s)" for s
    by (simp add: MRT_msgQ_alloc_def msgQ_pool_def dll_def)
  show "msgQ_pool s es \<Longrightarrow> distinct es" for s es
    by (auto simp: msgQ_pool_def dest!: dll_distinct simp: distinct_map)
qed (use MRT_msgQ_alloc_Cons MRT_msgQ_free_ok in auto)

subsection \<open>Picking from the queues\<close>

definition mqe_match :: "kstate \<Rightarrow> int \<Rightarrow> nat \<Rightarrow> bool" where
  "mqe_match s source e \<longleftrightarrow> source = MRT_ANYPROC \<or> source = pid_p_nr (mh_src (me_hdr (MQE s e)))"

text \<open>The entries waiting in a message queue, by level.\<close>

definition mq_rep :: "kstate \<Rightarrow> nat \<Rightarrow> (nat \<Rightarrow> nat list) \<Rightarrow> bool" where
  "mq_rep s q qs \<longleftrightarrow> pl_rep (links s) (mq_plist (MSGQ s q)) (\<lambda>p. map LMqe (qs p)) \<and> wf_links (links s)
     \<and> (\<forall>p. length (qs p) \<le> NR_MESSAGES)"

lemma mqe_scan_ok:
  assumes "dseg (links s) p (map LMqe es) None" and "wf_links (links s)" and "length es \<le> n"
  shows "mqe_scan n source (opt_hd (map LMqe es)) s = Inr (List.find (mqe_match s source) es)"
  using assms
proof (induction es arbitrary: p n)
  case (Cons e es)
  then obtain k where n: "n = Suc k" by (cases n) auto
  have "lk_next (links s (LMqe e)) = opt_hd (map LMqe es)" using Cons.prems(1) by (cases es) auto
  then show ?case
    using Cons.IH[of "Some (LMqe e)" k] Cons.prems n wf_links_mqe[of "links s" e]
    by (auto simp: mqe_match_def)
qed simp

lemma mqe_pick_level_ok:
  assumes "mq_rep s q qs" and "\<forall>p\<in>set ps. p < MRT_NR_PRTY"
  shows "mqe_pick_level q source ps s = Inr (List.find (mqe_match s source) (concat (map qs ps)))"
  using assms(2)
proof (induction ps)
  case (Cons p ps)
  have rep: "pl_rep (links s) (mq_plist (MSGQ s q)) (\<lambda>p. map LMqe (qs p))" using assms(1) by (simp add: mq_rep_def)
  have d: "dll (links s) (pl_list (mq_plist (MSGQ s q)) p) (map LMqe (qs p))"
    using pl_rep_dll[OF rep] Cons.prems by simp
  have "length (qs p) \<le> NR_MESSAGES" using assms(1) by (simp add: mq_rep_def)
  then have len: "length (qs p) \<le> mqe_fuel" by simp
  have scan: "mqe_scan mqe_fuel source (ls_first (pl_list (mq_plist (MSGQ s q)) p)) s = Inr (List.find (mqe_match s source) (qs p))"
    using mqe_scan_ok[of s None "qs p" mqe_fuel source] d assms(1) len by (simp add: dll_def mq_rep_def)
  have bit: "TEST_BIT (pl_bitmap (mq_plist (MSGQ s q))) (push_bit p 1) \<longleftrightarrow> qs p \<noteq> []"
    using rep Cons.prems by (auto simp: pl_rep_def TEST_BIT_pow MRT_NR_PRTY_def)
  show ?case
    using Cons scan bit by (auto simp: find_append Let_def split: option.split)
qed simp

lemma MRT_mqe_pick_ok:
  assumes "mq_rep s q qs"
  shows "MRT_mqe_pick q source s = Inr (List.find (mqe_match s source) (concat (map qs [0..<MRT_NR_PRTY])))"
proof -
  have rep: "pl_rep (links s) (mq_plist (MSGQ s q)) (\<lambda>p. map LMqe (qs p))" using assms by (simp add: mq_rep_def)
  show ?thesis
  proof (cases "pl_inQ (mq_plist (MSGQ s q)) = 0")
    case True
    then have "qs p = []" if "p < MRT_NR_PRTY" for p using rep that pl_total_0[of "\<lambda>p. map LMqe (qs p)"] by (simp add: pl_rep_def)
    then have "concat (map qs [0..<MRT_NR_PRTY]) = []" by simp
    then show ?thesis using True by (simp only: MRT_mqe_pick_def find.simps if_True simp_thms)
  next
    case False
    then show ?thesis using mqe_pick_level_ok[OF assms, of "[0..<MRT_NR_PRTY]"] by (simp add: MRT_mqe_pick_def)
  qed
qed


definition sem_rep :: "kstate \<Rightarrow> nat \<Rightarrow> (nat \<Rightarrow> int list) \<Rightarrow> bool" where
  "sem_rep s i qs \<longleftrightarrow> pl_rep (links s) (sm_plist (SEM s i)) (\<lambda>p. map LProc (qs p)) \<and> wf_links (links s)"

lemma first_of_map: "first_of n (\<lambda>p. map g (qs p)) = map_option g (first_of n qs)"
proof -
  have "concat (map (\<lambda>p. map g (qs p)) [0..<n]) = map g (concat (map qs [0..<n]))" by (simp add: map_concat comp_def)
  moreover have "opt_hd (map g zs) = map_option g (opt_hd zs)" for zs by (cases zs) auto
  ultimately show ?thesis by (simp only: first_of_def)
qed

lemma MRT_sproc_pick_ok: "sem_rep s i qs \<Longrightarrow> MRT_sproc_pick i s = Inr (first_of MRT_NR_PRTY qs)"
  using pl.get_law[of "links s" "sm_plist (SEM s i)" "\<lambda>p. map LProc (qs p)"]
  by (auto simp: sem_rep_def MRT_sproc_pick_def first_of_map wf_links_def split: option.split)

subsection \<open>Correctness of the pools\<close>

text \<open>
  C23. The pool of message entries never hands out an entry twice: after \<open>MRT_mpool_init\<close>, and after
  any history of allocations and releases of entries in use, \<open>MRT_mqe_alloc\<close> returns an entry that
  is not in use, or NULL exactly when all 32 entries are in use, and every entry in use can be
  released.
\<close>

theorem mqe_pool_history:
  assumes "dll (links s) (mqeL (sm s)) []" and "wf_links (links s)" and "MRT_mpool_init s = Inr s0"
    and "pool_reach MRT_mqe_alloc MRT_mqe_free s0 s1 U"
  shows "U \<subseteq> {..<NR_MESSAGES}
     \<and> (if U = {..<NR_MESSAGES} then MRT_mqe_alloc s1 = Inr (None, s1)
        else \<exists>e s'. MRT_mqe_alloc s1 = Inr (Some e, s') \<and> e < NR_MESSAGES \<and> e \<notin> U)
     \<and> (\<forall>e\<in>U. \<exists>s'. MRT_mqe_free e s1 = Inr s')"
proof -
  have "mqe_pool s0 [0..<NR_MESSAGES]" using MRT_mpool_init_ok[of s] assms(1-3) by (simp add: mqe_pool_def)
  from mp.reach_inv[OF assms(4) this] mp.reach_alloc[OF assms(4) this] mp.reach_release[OF assms(4) this]
  show ?thesis by (auto simp: atLeast0LessThan split: if_splits)
qed

theorem mqe_pool_history_witness:
  "\<exists>s0 s1. MRT_mpool_init kstate0 = Inr s0 \<and> MRT_mqe_alloc s0 = Inr (Some 0, s1)
     \<and> (\<exists>e s'. MRT_mqe_alloc s1 = Inr (Some e, s') \<and> e \<noteq> 0)"
proof -
  have z: "dll (links kstate0) (mqeL (sm kstate0)) []" by (simp add: dll_def zero_defs)
  then obtain s0 where s0: "MRT_mpool_init kstate0 = Inr s0" "mqe_pool s0 [0..<NR_MESSAGES]"
    using MRT_mpool_init_ok[of kstate0] by (auto simp: mqe_pool_def)
  have l: "[0..<NR_MESSAGES] = 0 # [Suc 0..<NR_MESSAGES]" by (rule upt_conv_Cons) simp
  obtain s1 where s1: "MRT_mqe_alloc s0 = Inr (Some 0, s1)"
    using mp.alloc_Cons[OF s0(2)[unfolded l]] by blast
  have "pool_reach MRT_mqe_alloc MRT_mqe_free s0 s1 {0}"
    by (rule pool_reach.take_one[OF pool_reach.start]) (rule s1)
  note h = mqe_pool_history[OF z wf_links0 s0(1) this]
  have ne: "{0} \<noteq> {..<NR_MESSAGES}" by (metis lessThan_iff one_less_numeral_iff semiring_norm(76) singletonD zero_neq_one)
  have "\<exists>e s'. MRT_mqe_alloc s1 = Inr (Some e, s') \<and> e \<notin> {0}" using h[unfolded if_not_P[OF ne]] by blast
  then show ?thesis using s0(1) s1 by blast
qed

text \<open>
  \<open>MRT_mqe_pick\<close> returns, and picks by urgency and then by age: it is the first entry that the
  caller accepts (from any process, or from the given one) in the concatenation of the lists of the
  queue from the most urgent level to the least; NULL if there is none.
\<close>

lemma mqe_pick_first:
  assumes "mq_rep s q qs"
  shows "MRT_mqe_pick q source s = Inr (List.find (mqe_match s source) (concat (map qs [0..<MRT_NR_PRTY])))"
  by (rule MRT_mqe_pick_ok[OF assms])

end
