(* ===== verification/Inherit.thy ===== *)
theory Inherit
  imports Pools
begin

text \<open>
  Priority inheritance (\<open>MRT_inherit\<close>, \<open>MRT_disinherit\<close>) and the two small conversions
  (\<open>MRT_pid2pptr\<close>, \<open>int2bin\<close>) of \<^verbatim>\<open>src/src/kernel/mrtlib.c\<close>.

  The lemmas show that inheritance ends within one visit per process, only raises priorities,
  and gives every process it visits the priority of the caller.
\<close>

subsection \<open>Conversions\<close>

text \<open>The process table in the order of its slots.\<close>

definition proc_slots :: "int list" where
  "proc_slots = [- NR_TASKS .. NR_PROCS - 1]"

definition MRT_pid2pptr :: "int \<Rightarrow> kstate \<Rightarrow> int option" where
  "MRT_pid2pptr pid s =
     (case List.find (\<lambda>p. p_pid (procs s p) = pid) proc_slots of
        None \<Rightarrow> None
      | Some p \<Rightarrow> if p_flags (procs s p) = P_SLOT_FREE then None else Some p)"

fun int2bin_loop :: "nat \<Rightarrow> u32 \<Rightarrow> u32 \<Rightarrow> string" where
  "int2bin_loop 0 number sreg = ''''"
| "int2bin_loop (Suc n) number sreg =
     (if sreg \<noteq> 0
      then (if number AND sreg \<noteq> 0 then CHR ''1'' else CHR ''0'') # int2bin_loop n number (drop_bit 1 sreg)
      else '''')"

definition int2bin :: "u32 \<Rightarrow> string" where
  "int2bin number = int2bin_loop 17 number 0x8000"

subsection \<open>Inheritance\<close>

text \<open>
  The process whose completion \<open>p\<close> waits for, where \<open>MRT_inherit\<close> goes on: \<open>Inr None\<close> when it
  returns, \<open>Inr (Some q)\<close> when it calls itself with the pointer \<open>q\<close>.
\<close>

definition blocker :: "kstate \<Rightarrow> int \<Rightarrow> int option option res" where
  "blocker s p =
     (let r = procs s p; fl = rt_flags (rt r)
      in if TEST_BIT fl MRT_MBX_SND then Inr (Some (pto r))
         else if TEST_BIT fl MRT_MBX_RCV \<and> pfrom r \<noteq> Some p then Inr (Some (pfrom r))
         else if TEST_BIT fl MRT_SEM_DOWN
         then bnd (deref (psem r)) (\<lambda>i.
              Inr (if sm_carrier (SEM s i) \<noteq> None then Some (sm_carrier (SEM s i)) else None))
         else Inr None)"

fun MRT_inherit_fuel :: "nat \<Rightarrow> int \<Rightarrow> int option \<Rightarrow> kstate \<Rightarrow> kstate res" where
  "MRT_inherit_fuel 0 prty pp s = Inl Diverge"
| "MRT_inherit_fuel (Suc n) prty pp s =
     (if \<not> svflag s MRT_BPIP then Inr s
      else
        bnd (deref pp) (\<lambda>p.
        if prty < int (prio s p)
        then
          if MRT_is_rtready (procs s p)
          then
            bnd (MRT_rdyQ_rmv p s) (\<lambda>s.
            MRT_rdyQ_ins p (set_rtprio p (word_of_int prty) s))
          else
            let s = set_rtprio p (word_of_int prty) s
            in bnd (blocker s p) (\<lambda>b.
               case b of None \<Rightarrow> Inr s | Some q \<Rightarrow> MRT_inherit_fuel n prty q s)
        else Inr s))"

text \<open>One visit to each of the 43 processes and the call that ends the chain.\<close>

definition MRT_inherit :: "int \<Rightarrow> int option \<Rightarrow> kstate \<Rightarrow> kstate res" where
  "MRT_inherit prty pp s = MRT_inherit_fuel proc_fuel prty pp s"

subsection \<open>Giving the priority back\<close>

abbreviation (input) sem_fuel :: nat where "sem_fuel \<equiv> 17"

text \<open>The loop over the semaphores of the list that starts at \<open>k\<close>.\<close>

fun sem_prty_loop :: "nat \<Rightarrow> lref option \<Rightarrow> u8 \<Rightarrow> kstate \<Rightarrow> u8 res" where
  "sem_prty_loop n None acc s = Inr acc"
| "sem_prty_loop 0 (Some k) acc s = Inl Diverge"
| "sem_prty_loop (Suc n) (Some k) acc s =
     bnd (as_sem (lk_this (links s k))) (\<lambda>i.
     bnd (MRT_sproc_pick i s) (\<lambda>r.
     let acc = (case r of None \<Rightarrow> acc | Some p \<Rightarrow> min acc (rt_priority (rt (procs s p))))
     in sem_prty_loop n (lk_next (links s k)) acc s))"

definition MRT_disinherit :: "int \<Rightarrow> kstate \<Rightarrow> kstate res" where
  "MRT_disinherit p s =
     (if \<not> svflag s MRT_BPIP then Inr s
      else
        bnd (deref (stk_rp s)) (\<lambda>rp.
        bnd (sem_prty_loop sem_fuel (ls_first (slockL (procs s rp))) MRT_PRILOWEST s) (\<lambda>sem_prty.
        bnd (deref (pmq (procs s p))) (\<lambda>q.
        bnd (MRT_mqe_pick q MRT_ANYPROC s) (\<lambda>e.
        let mq_prty = (case e of None \<Rightarrow> MRT_PRILOWEST | Some e \<Rightarrow> mh_priority (me_hdr (MQE s e)));
            prty = min (min sem_prty mq_prty) (rt_baseprty (rt (procs s p)))
        in if prty \<noteq> rt_baseprty (rt (procs s p))
           then
             if MRT_is_rtready (procs s p)
             then bnd (MRT_rdyQ_rmv p s) (\<lambda>s. MRT_rdyQ_ins p (set_rtprio p prty s))
             else Inr (set_rtprio p prty s)
           else Inr s)))))"

subsection \<open>Waiting\<close>

text \<open>The edge that inheritance follows: the blocked process \<open>x\<close> waits for \<open>y\<close>.\<close>

definition waits :: "kstate \<Rightarrow> int \<Rightarrow> int \<Rightarrow> bool" where
  "waits s x y \<longleftrightarrow> \<not> MRT_is_rtready (procs s x) \<and> blocker s x = Inr (Some (Some y))"

text \<open>No priority inversion: nobody waits for a process of lower priority.\<close>

definition chain_mono :: "kstate \<Rightarrow> bool" where
  "chain_mono s \<longleftrightarrow> (\<forall>x y. waits s x y \<longrightarrow> prio s y \<le> prio s x)"

text \<open>
  The real-time processes \<open>A\<close> with the ready queue \<open>qs\<close>: exactly those that are ready are queued, and what
  the others wait for is a process of \<open>A\<close> again.
\<close>

definition rt_closed :: "int set \<Rightarrow> (nat \<Rightarrow> lref list) \<Rightarrow> kstate \<Rightarrow> bool" where
  "rt_closed A qs s \<longleftrightarrow> rdyQ_inv s qs \<and> (\<forall>x\<in>A. isokprocn x \<and>
     (if MRT_is_rtready (procs s x) then LProc x \<in> members qs
      else LProc x \<notin> members qs \<and> (blocker s x = Inr None \<or> (\<exists>y\<in>A. blocker s x = Inr (Some (Some y))))))"

lemma rt_closedD:
  assumes "rt_closed A qs s" and "x \<in> A"
  shows "isokprocn x" and "rdyQ_inv s qs"
    and "MRT_is_rtready (procs s x) \<Longrightarrow> LProc x \<in> set (qs (prio s x))"
    and "\<not> MRT_is_rtready (procs s x) \<Longrightarrow> blocker s x = Inr None \<or> (\<exists>y\<in>A. blocker s x = Inr (Some (Some y)))"
proof -
  show "isokprocn x" "rdyQ_inv s qs" using assms by (auto simp: rt_closed_def)
  show "\<not> MRT_is_rtready (procs s x) \<Longrightarrow> blocker s x = Inr None \<or> (\<exists>y\<in>A. blocker s x = Inr (Some (Some y)))"
    using assms by (auto simp: rt_closed_def)
  assume "MRT_is_rtready (procs s x)"
  then have "LProc x \<in> members qs" using assms by (auto simp: rt_closed_def)
  then obtain l where l: "LProc x \<in> set (qs l)" by (auto simp: members_def)
  with rdyQ_inv_member[OF \<open>rdyQ_inv s qs\<close> l] show "LProc x \<in> set (qs (prio s x))" by auto
qed

text \<open>What inheritance changes are priorities and the ready queue only.\<close>

lemma blocker_prio:
  assumes "ss s' = ss s" and "\<And>x. rt_flags (rt (procs s' x)) = rt_flags (rt (procs s x))"
    and "\<And>x. pto (procs s' x) = pto (procs s x)" and "\<And>x. pfrom (procs s' x) = pfrom (procs s x)"
    and "\<And>x. psem (procs s' x) = psem (procs s x)"
  shows "blocker s' x = blocker s x" and "waits s' x y = waits s x y"
  using assms by (simp_all add: blocker_def waits_def MRT_is_rtready_def Let_def cong: if_cong)

text \<open>Moving an element between levels.\<close>

definition q_move :: "'k \<Rightarrow> nat \<Rightarrow> nat \<Rightarrow> (nat \<Rightarrow> 'k list) \<Rightarrow> nat \<Rightarrow> 'k list" where
  "q_move k l m qs = (let qs1 = qs(l := remove1 k (qs l)) in qs1(m := k # qs1 m))"

lemma q_move_mem:
  assumes "\<And>r. distinct (qs r)" and "\<And>r. k \<in> set (qs r) \<Longrightarrow> r = l"
  shows "x \<in> set ((qs(l := remove1 k (qs l))) r) \<longleftrightarrow> x \<noteq> k \<and> x \<in> set (qs r)"
    and "x \<in> set (q_move k l m qs r) \<longleftrightarrow> x = k \<and> r = m \<or> x \<noteq> k \<and> x \<in> set (qs r)"
proof -
  show 1: "x \<in> set ((qs(l := remove1 k (qs l))) r) \<longleftrightarrow> x \<noteq> k \<and> x \<in> set (qs r)" for r
    using assms(1)[of l] assms(2)[of r] by auto
  show "x \<in> set (q_move k l m qs r) \<longleftrightarrow> x = k \<and> r = m \<or> x \<noteq> k \<and> x \<in> set (qs r)"
    using 1[of r] by (simp add: q_move_def Let_def del: fun_upd_apply) (auto simp: fun_upd_def)
qed

lemma pl_rep_distinct: "pl_rep h pl qs \<Longrightarrow> distinct (qs r)"
  using dll_distinct[OF pl_rep_dll[of h pl qs r]] by (cases "r < MRT_NR_PRTY") (auto simp: pl_rep_def)

lemma pl_rep_one_level: "pl_rep h pl qs \<Longrightarrow> k \<in> set (qs l) \<Longrightarrow> k \<in> set (qs r) \<Longrightarrow> r = l"
  unfolding pl_rep_def by (metis disjoint_iff)

lemma pl_rep_level: "pl_rep h pl qs \<Longrightarrow> k \<in> set (qs l) \<Longrightarrow> l < MRT_NR_PRTY"
  by (rule ccontr) (auto simp: pl_rep_def)

lemma rdyQ_move:
  assumes "rdyQ_inv s qs" and "LProc p \<in> set (qs (prio s p))" and "unat w < MRT_NR_PRTY"
  shows "\<exists>h q qs'. bnd (MRT_rdyQ_rmv p s) (\<lambda>s. MRT_rdyQ_ins p (set_rtprio p w s)) = Inr ((set_rtprio p w s)\<lparr>links := h, rdyQ := q\<rparr>)
     \<and> rdyQ_inv ((set_rtprio p w s)\<lparr>links := h, rdyQ := q\<rparr>) qs' \<and> members qs' = members qs"
proof -
  define l k where "l = prio s p" and "k = LProc p"
  have k: "k \<in> set (qs l)" using assms(2) by (simp add: l_def k_def)
  have rep: "pl_rep (links s) (rdyQ s) qs" using rdyQ_inv_rep[OF assms(1)] .
  have mem: "x \<in> set ((qs(l := remove1 k (qs l))) r) \<longleftrightarrow> x \<noteq> k \<and> x \<in> set (qs r)"
      "x \<in> set (q_move k l m qs r) \<longleftrightarrow> x = k \<and> r = m \<or> x \<noteq> k \<and> x \<in> set (qs r)" for x r m
    using q_move_mem[of qs k l] pl_rep_distinct[OF rep] pl_rep_one_level[OF rep k] by blast+
  from pl.rmv_law[OF rep k] obtain h1 q1 where
    1: "MRT_plist_rmv (links s) (rdyQ s) k l = Inr (h1, q1)" "pl_rep h1 q1 (qs(l := remove1 k (qs l)))" by blast
  have out: "k \<notin> members (qs(l := remove1 k (qs l)))" unfolding members_iff using mem(1)[of k] by blast
  from pl.ins_law[OF 1(2) assms(3) out] obtain h2 q2 where
    2: "MRT_plist_ins h1 q1 k (unat w) = Inr (h2, q2)" "pl_rep h2 q2 (q_move k l (unat w) qs)"
    unfolding q_move_def Let_def by blast
  let ?s = "(set_rtprio p w s)\<lparr>links := h2, rdyQ := q2\<rparr>"
  have "\<exists>x. j = LProc x \<and> isokprocn x \<and> prio ?s x = r" if "j \<in> set (q_move k l (unat w) qs r)" for j r
  proof (cases "j = k")
    case True
    then show ?thesis using that mem(2)[where x = j and r = r and m = "unat w"] rdyQ_inv_member[OF assms(1,2)] by (auto simp: k_def)
  next
    case False
    then show ?thesis using that mem(2)[where x = j and r = r and m = "unat w"] rdyQ_inv_member[OF assms(1), of j r] by (auto simp: k_def)
  qed
  then have "rdyQ_inv ?s (q_move k l (unat w) qs)" using 2(2) by (simp add: rdyQ_inv_def)
  moreover have "members (q_move k l (unat w) qs) = members qs"
    using k by (auto simp: members_iff mem(2)) blast
  moreover have "bnd (MRT_rdyQ_rmv p s) (\<lambda>s. MRT_rdyQ_ins p (set_rtprio p w s)) = Inr ?s"
    using 1(1) 2(1) by (simp add: MRT_rdyQ_rmv_def MRT_rdyQ_ins_def with_rdyQ_def l_def k_def)
  ultimately show ?thesis by blast
qed


lemma isokprocn_finite [simp]: "finite {x. isokprocn x \<and> P x}"
proof -
  have "{x. isokprocn x \<and> P x} \<subseteq> {- 11..31}" by (auto simp: isokprocn_def)
  then show ?thesis using finite_subset by blast
qed

text \<open>The processes that a call with the priority \<open>np\<close> can still raise.\<close>

definition below :: "nat \<Rightarrow> kstate \<Rightarrow> int set" where
  "below np s = {x. isokprocn x \<and> np < prio s x}"

lemma below_card: "card (below np s) < proc_fuel"
proof -
  have "below np s \<subseteq> {- 11..31}" by (auto simp: below_def isokprocn_def)
  then have "card (below np s) \<le> card {- 11..31 :: int}" by (intro card_mono) auto
  then show ?thesis by simp
qed

lemma prio_set:
  assumes "np < prio s p"
  shows "unat (word_of_int (int np) :: u8) = np"
proof -
  have "prio s p < 256" using unsigned_less[of "rt_priority (rt (procs s p))"] by simp
  then show ?thesis using assms by (simp add: unsigned_of_nat take_bit_nat_eq_self)
qed

lemma below_set:
  assumes "np < prio s p" and "isokprocn p"
  shows "card (below np (set_rtprio p (word_of_int (int np)) s)) < card (below np s)"
proof -
  have "below np (set_rtprio p (word_of_int (int np)) s) = below np s - {p}"
    using prio_set[OF assms(1)] by (auto simp: below_def)
  moreover have "p \<in> below np s" using assms by (simp add: below_def)
  moreover have "finite (below np s)"
    using isokprocn_finite by (rule finite_subset[rotated]) (auto simp: below_def)
  ultimately show ?thesis by (metis card_Diff1_less)
qed

text \<open>
  The invariant of the recursion: every edge respects the priorities, but for edges into the
  process \<open>p\<close> that is visited next, whose sources have the priority \<open>np\<close> or a lower one.
\<close>

definition mono_but :: "nat \<Rightarrow> int \<Rightarrow> kstate \<Rightarrow> bool" where
  "mono_but np p s \<longleftrightarrow> (\<forall>x y. waits s x y \<longrightarrow> prio s y \<le> prio s x \<or> (y = p \<and> np \<le> prio s x))"

lemma waits_rtprio [simp]:
  "waits (set_rtprio p w s) x y = waits s x y" "blocker (set_rtprio p w s) x = blocker s x"
  "waits ((set_rtprio p w s)\<lparr>links := h, rdyQ := q\<rparr>) x y = waits s x y"
  "blocker ((set_rtprio p w s)\<lparr>links := h, rdyQ := q\<rparr>) x = blocker s x"
  by (intro blocker_prio; auto)+

text \<open>What a call achieves, from the state \<open>s\<close> to \<open>s'\<close>: priorities are raised only, and to \<open>np\<close>.\<close>

definition raised :: "nat \<Rightarrow> kstate \<Rightarrow> kstate \<Rightarrow> bool" where
  "raised np s s' \<longleftrightarrow> (\<forall>x. prio s' x = prio s x \<or> np < prio s x \<and> prio s' x = np)"

lemma raised_refl [simp]: "raised np s s"
  by (simp add: raised_def)

lemma raised_trans:
  assumes "raised np s t" and "raised np t u"
  shows "raised np s u"
  unfolding raised_def
proof
  fix x
  show "prio u x = prio s x \<or> np < prio s x \<and> prio u x = np"
    using assms[unfolded raised_def, rule_format, of x] by linarith
qed

text \<open>One process is raised: what remains to be repaired is the edge that leaves it.\<close>

lemma raise_one:
  assumes np: "np < prio s p"
    and prio: "\<And>x. prio s' x = (if x = p then np else prio s x)"
    and waits: "\<And>x y. waits s' x y = waits s x y"
  shows "raised np s s'"
    and "mono_but np p s \<Longrightarrow> waits s p y \<Longrightarrow> mono_but np y s'"
    and "mono_but np p s \<Longrightarrow> (\<And>y. \<not> waits s p y) \<Longrightarrow> chain_mono s'"
proof -
  show "raised np s s'" unfolding raised_def prio using np by simp
  have edge: "prio s' b \<le> prio s' a" if m: "mono_but np p s" and w: "waits s' a b" and a: "a \<noteq> p" for a b
  proof -
    from m w have "prio s b \<le> prio s a \<or> b = p \<and> np \<le> prio s a" unfolding mono_but_def waits by blast
    then show ?thesis using a np unfolding prio by (cases "b = p") (auto simp del: of_nat_unat)
  qed
  show "mono_but np y s'" if m: "mono_but np p s" and w: "waits s p y"
    unfolding mono_but_def
  proof (intro allI impI)
    fix a b assume ab: "waits s' a b"
    show "prio s' b \<le> prio s' a \<or> b = y \<and> np \<le> prio s' a"
    proof (cases "a = p")
      case True
      then have "b = y" using ab w unfolding waits by (simp add: waits_def)
      then show ?thesis using True prio[of p] by simp
    qed (use edge[OF m ab] in simp)
  qed
  show "chain_mono s'" if m: "mono_but np p s" and nw: "\<And>y. \<not> waits s p y"
    unfolding chain_mono_def using edge[OF m] nw waits by blast
qed

lemma mono_but_done: "mono_but np p s \<Longrightarrow> prio s p \<le> np \<Longrightarrow> chain_mono s"
  unfolding mono_but_def chain_mono_def by (blast intro: order_trans)

lemma rt_closed_cong:
  assumes c: "rt_closed A qs s" and r: "rdyQ_inv s' qs'" "members qs' = members qs"
    and "\<And>x. blocker s' x = blocker s x" "\<And>x. MRT_is_rtready (procs s' x) = MRT_is_rtready (procs s x)"
  shows "rt_closed A qs' s'"
  using c r unfolding rt_closed_def assms(4,5) r(2) by simp

lemma rdyQ_inv_rtprio:
  assumes "rdyQ_inv s qs" and "LProc p \<notin> members qs"
  shows "rdyQ_inv (set_rtprio p w s) qs"
proof -
  have "x \<noteq> p" if "LProc x \<in> set (qs r)" for x r using assms(2) that by (auto simp: members_iff)
  then have "\<exists>x. k = LProc x \<and> isokprocn x \<and> prio (set_rtprio p w s) x = l" if "k \<in> set (qs l)" for k l
    using rdyQ_inv_member[OF assms(1) that] that by auto
  then show ?thesis using rdyQ_inv_rep[OF assms(1)] unfolding rdyQ_inv_def by simp
qed

definition inherit_post :: "nat \<Rightarrow> int set \<Rightarrow> (nat \<Rightarrow> lref list) \<Rightarrow> int \<Rightarrow> kstate \<Rightarrow> kstate \<Rightarrow> bool" where
  "inherit_post np A qs p s s' \<longleftrightarrow> (\<exists>qs'. rt_closed A qs' s' \<and> members qs' = members qs) \<and> raised np s s'
     \<and> prio s' p \<le> np \<and> waits s' = waits s \<and> (mono_but np p s \<longrightarrow> chain_mono s')"

lemma inherit_ready:
  assumes c: "rt_closed A qs s" and p: "p \<in> A" and np: "np < prio s p" and rdy: "MRT_is_rtready (procs s p)"
  shows "\<exists>s'. bnd (MRT_rdyQ_rmv p s) (\<lambda>s. MRT_rdyQ_ins p (set_rtprio p (word_of_int (int np)) s)) = Inr s'
     \<and> inherit_post np A qs p s s'"
proof -
  note D = rt_closedD[OF c p]
  define w :: u8 where "w = word_of_int (int np)"
  have w: "unat w = np" using prio_set[OF np] by (simp add: w_def)
  have l: "np < MRT_NR_PRTY" using np pl_rep_level[OF rdyQ_inv_rep[OF D(2)] D(3)[OF rdy]] by simp
  from rdyQ_move[OF D(2) D(3)[OF rdy], of w] l w obtain h q qs' where
    m: "bnd (MRT_rdyQ_rmv p s) (\<lambda>s. MRT_rdyQ_ins p (set_rtprio p w s)) = Inr ((set_rtprio p w s)\<lparr>links := h, rdyQ := q\<rparr>)"
      "rdyQ_inv ((set_rtprio p w s)\<lparr>links := h, rdyQ := q\<rparr>) qs'" "members qs' = members qs" by blast
  let ?s = "(set_rtprio p w s)\<lparr>links := h, rdyQ := q\<rparr>"
  have pr: "prio ?s x = (if x = p then np else prio s x)" for x using w by simp
  note R = raise_one[OF np pr waits_rtprio(3)]
  have "rt_closed A qs' ?s" by (rule rt_closed_cong[OF c m(2,3)]) (simp_all add: MRT_is_rtready_def)
  moreover have "mono_but np p s \<longrightarrow> chain_mono ?s" using R(3) rdy by (simp add: waits_def)
  moreover have "prio ?s p \<le> np" using pr[of p] by simp
  moreover have "waits ?s = waits s" by (intro ext waits_rtprio)
  ultimately have "inherit_post np A qs p s ?s" using R(1) m(3) unfolding inherit_post_def by blast
  then show ?thesis using m(1) unfolding w_def by blast
qed

lemma inherit_blocked:
  assumes c: "rt_closed A qs s" and p: "p \<in> A" and np: "np < prio s p" and rdy: "\<not> MRT_is_rtready (procs s p)"
    and s1: "s1 = set_rtprio p (word_of_int (int np)) s"
  shows "rt_closed A qs s1"
    and "blocker s p = Inr None \<Longrightarrow> inherit_post np A qs p s s1"
    and "blocker s p = Inr (Some (Some y)) \<Longrightarrow> inherit_post np A qs y s1 s' \<Longrightarrow> inherit_post np A qs p s s'"
proof -
  have pr: "prio s1 x = (if x = p then np else prio s x)" for x using prio_set[OF np] by (simp add: s1)
  have ws: "waits s1 = waits s" unfolding s1 by (intro ext waits_rtprio)
  note R = raise_one[OF np pr ws[THEN fun_cong, THEN fun_cong]]
  have notin: "LProc p \<notin> members qs" using c p rdy by (auto simp: rt_closed_def)
  show c1: "rt_closed A qs s1" unfolding s1
    by (rule rt_closed_cong[OF c rdyQ_inv_rtprio[OF rt_closedD(2)[OF c p] notin] refl]) (simp_all add: MRT_is_rtready_def)
  show "blocker s p = Inr None \<Longrightarrow> inherit_post np A qs p s s1"
    using R(1,3) c1 ws pr[of p] unfolding inherit_post_def by (auto simp: waits_def simp del: of_nat_unat)
  assume b: "blocker s p = Inr (Some (Some y))" and i: "inherit_post np A qs y s1 s'"
  have "prio s' p \<le> np"
    using i[unfolded inherit_post_def raised_def] pr[of p] by (metis order_refl)
  moreover have "mono_but np p s \<longrightarrow> chain_mono s'"
    using i R(2)[of y] b rdy by (simp add: inherit_post_def waits_def)
  ultimately show "inherit_post np A qs p s s'"
    using i ws raised_trans[OF R(1), of s'] unfolding inherit_post_def by (metis (no_types))
qed

lemma inherit_ok:
  assumes "rt_closed A qs s" and "p \<in> A" and "svflag s MRT_BPIP" and "card (below np s) < n"
  shows "\<exists>s'. MRT_inherit_fuel n (int np) (Some p) s = Inr s' \<and> inherit_post np A qs p s s'"
  using assms
proof (induction n arbitrary: p s)
  case 0
  then show ?case by simp
next
  case (Suc n)
  define s1 where "s1 = set_rtprio p (word_of_int (int np)) s"
  have step: "MRT_inherit_fuel (Suc n) (int np) (Some p) s =
    (if np < prio s p then
       if MRT_is_rtready (procs s p)
       then bnd (MRT_rdyQ_rmv p s) (\<lambda>s. MRT_rdyQ_ins p (set_rtprio p (word_of_int (int np)) s))
       else bnd (blocker s p) (\<lambda>b. case b of None \<Rightarrow> Inr s1 | Some q \<Rightarrow> MRT_inherit_fuel n (int np) q s1)
     else Inr s)"
    using Suc.prems(3) waits_rtprio(2)[of p "word_of_int (int np)" s p]
    by (simp only: MRT_inherit_fuel.simps deref_simps bnd.simps if_False not_True_eq_False of_nat_less_iff Let_def s1_def)
  consider "\<not> np < prio s p" | "np < prio s p" "MRT_is_rtready (procs s p)"
    | "np < prio s p" "\<not> MRT_is_rtready (procs s p)" by blast
  then show ?case
  proof cases
    case 1
    then have "inherit_post np A qs p s s"
      using Suc.prems mono_but_done[of np p s] by (auto simp: inherit_post_def simp del: of_nat_unat)
    with 1 show ?thesis unfolding step by simp
  next
    case 2
    from inherit_ready[OF Suc.prems(1,2) this] show ?thesis unfolding step using 2 by simp
  next
    case 3
    note B = inherit_blocked[OF Suc.prems(1,2) 3 s1_def]
    from rt_closedD(4)[OF Suc.prems(1,2) 3(2)] show ?thesis
    proof
      assume "blocker s p = Inr None"
      then show ?thesis unfolding step using 3 B(2) by simp
    next
      assume "\<exists>y\<in>A. blocker s p = Inr (Some (Some y))"
      then obtain y where y: "y \<in> A" "blocker s p = Inr (Some (Some y))" by blast
      have "card (below np s1) < n"
        using below_set[OF 3(1) rt_closedD(1)[OF Suc.prems(1,2)]] Suc.prems(4) by (simp only: s1_def)
      moreover have "svflag s1 MRT_BPIP" using Suc.prems(3) by (simp add: s1_def)
      ultimately show ?thesis unfolding step using Suc.IH[OF B(1) y(1)] B(3)[OF y(2)] 3 y(2) by auto
    qed
  qed
qed

text \<open>Process 6, at priority 4, is blocked sending to process 5, which is ready at priority 3.\<close>

lemma inherit_example:
  "\<exists>s qs. rt_closed {5, 6} qs s \<and> svflag s MRT_BPIP \<and> mono_but 1 6 s \<and> prio s 5 = 3 \<and> prio s 6 = 4 \<and> waits s 6 5"
proof -
  from MRT_plist_app_ok[OF plist0_rep, of 3 "LProc 5"] obtain h q where
    hq: "pl_rep h q ((\<lambda>_. [])(3 := [LProc 5]))" "heap_frame (insert (LProc 5) (members (\<lambda>_. []))) heap0 h"
    by (auto simp: MRT_NR_PRTY_def members_def)
  let ?s = "upd_rtflags 6 (\<lambda>_. MRT_MBX_SND) (upd_proc 6 (pto_update (\<lambda>_. Some 5)) (set_rtprio 5 3 (set_rtprio 6 4
      (set_svflag MRT_BPIP (kstate0\<lparr>links := h, rdyQ := q\<rparr>)))))"
  have r: "MRT_is_rtready (procs ?s x) \<longleftrightarrow> x \<noteq> 6" for x by (simp add: MRT_is_rtready_def zero_defs)
  have b: "blocker ?s 6 = Inr (Some (Some 5))" by (simp add: blocker_def TEST_BIT_def)
  have w: "waits ?s x y \<longleftrightarrow> x = 6 \<and> y = 5" for x y using b by (cases "x = 6") (auto simp only: waits_def r)
  have "rdyQ_inv ?s ((\<lambda>_. [])(3 := [LProc 5]))" using hq(1) by (auto simp: rdyQ_inv_def isokprocn_def)
  then have "rt_closed {5, 6} ((\<lambda>_. [])(3 := [LProc 5])) ?s"
    unfolding rt_closed_def r using b by (auto simp: members_iff isokprocn_def)
  moreover have "svflag ?s MRT_BPIP" by (simp add: TEST_SET_same)
  moreover have "mono_but 1 6 ?s" unfolding mono_but_def w by simp
  ultimately show ?thesis using w by (intro exI[of _ ?s] exI[of _ "(\<lambda>_. [])(3 := [LProc 5])"]) simp
qed

subsection \<open>Priority inheritance prevents inversion\<close>

text \<open>
  C1. Priority inheritance prevents priority inversion. Suppose that no real-time process waits for a
  process of lower priority, except that processes of priority \<open>np\<close> or lower may now wait for
  \<open>p\<close>. Then \<open>MRT_inherit\<close>, called with \<open>np\<close> and \<open>p\<close>, returns within its fuel, although waiting
  chains may be long or cyclic. In the state it leaves, nobody waits for a process of lower priority. It raises
  priorities only, and only to \<open>np\<close>. The ready queue still holds exactly the ready processes, each at
  the level of its new priority.
\<close>

theorem inherit_no_inversion:
  assumes "rt_closed A qs s" and "p \<in> A" and "svflag s MRT_BPIP" and "mono_but np p s"
  shows "\<exists>s' qs'. MRT_inherit (int np) (Some p) s = Inr s' \<and> chain_mono s' \<and> prio s' p \<le> np \<and> raised np s s'
     \<and> waits s' = waits s \<and> rt_closed A qs' s' \<and> members qs' = members qs"
  using inherit_ok[OF assms(1-3) below_card] assms(4) unfolding MRT_inherit_def inherit_post_def by blast

theorem inherit_no_inversion_witness:
  "\<exists>s s'. waits s 6 5 \<and> MRT_inherit 1 (Some 6) s = Inr s' \<and> prio s 5 = 3 \<and> prio s 6 = 4 \<and> prio s' 6 = 1 \<and> prio s' 5 = 1"
proof -
  from inherit_example obtain s qs where
    s: "rt_closed {5, 6} qs s" "svflag s MRT_BPIP" "mono_but 1 6 s" "prio s 5 = 3" "prio s 6 = 4" "waits s 6 5" by blast
  from inherit_no_inversion[OF s(1) _ s(2,3)] obtain s' where
    i: "MRT_inherit (int 1) (Some 6) s = Inr s'" "chain_mono s'" "prio s' 6 \<le> 1" "raised 1 s s'" "waits s' = waits s" by blast
  have "prio s' x = prio s x \<or> prio s' x = 1" for x using i(4) by (auto simp: raised_def)
  moreover have "prio s' 5 \<le> prio s' 6" using i(2,5) s(6) by (simp add: chain_mono_def)
  ultimately have "prio s' 6 = 1" "prio s' 5 = 1" using i(3) s(4,5) by (metis le_antisym numeral_le_one_iff semiring_norm(69,70) order_trans)+
  then show ?thesis using i(1) s(4,5,6) by (metis of_nat_1)
qed

end
