(* ===== verification/Ipc.thy ===== *)
theory Ipc
  imports Inherit
begin

text \<open>
  The real-time messages of \<^verbatim>\<open>src/src/kernel/mrtmsg.c\<close>: the asynchronous send of the
  kernel and the calls that send requests, replies and signals and receive messages.

  A call returns its code and the new state. The copies between kernel and user memory return
  \<open>EINVAL\<close> from the call when an address does not map; what the call did before stays done.
\<close>

subsection \<open>Steps shared by the calls\<close>

abbreviation ret :: "int \<Rightarrow> kstate \<Rightarrow> (int \<times> kstate) res" where "ret c s \<equiv> Inr (c, s)"

text \<open>A copy that returns \<open>EINVAL\<close> on failure, and the code after it.\<close>

definition copy_or_einval :: "'a option \<Rightarrow> kstate \<Rightarrow> ('a \<Rightarrow> (int \<times> kstate) res) \<Rightarrow> (int \<times> kstate) res" where
  "copy_or_einval c s k = (case c of None \<Rightarrow> ret EINVAL s | Some x \<Rightarrow> k x)"

text \<open>
  The checks on the destination. Every call but \<open>rtk_reply\<close> returns the code at once; the check
  of the queue dereferences \<open>dest_ptr->pmq\<close>.
\<close>

definition check_dest :: "int \<Rightarrow> int option \<Rightarrow> kstate \<Rightarrow> int res" where
  "check_dest d pid s =
     (if \<not> MRT_is_process (procs s d) then Inr E_BAD_PROC
      else if (case pid of None \<Rightarrow> False | Some x \<Rightarrow> p_pid (procs s d) \<noteq> x) then Inr E_BAD_DEST
      else if \<not> MRT_is_realtime (procs s d) then Inr E_MRT_BADPTYPE
      else bnd (deref (pmq (procs s d))) (\<lambda>q.
           Inr (if pl_inQ (mq_plist (MSGQ s q)) = mq_size (MSGQ s q) then E_MRT_MQFULL else OK)))"

text \<open>Is \<open>d\<close> waiting for a message of the running process (or of any process)?\<close>

definition is_waiting :: "int \<Rightarrow> kstate \<Rightarrow> bool" where
  "is_waiting d s \<longleftrightarrow> TEST_BIT (rt_flags (rt (procs s d))) MRT_MBX_RCV
     \<and> (pfrom (procs s d) = Some (proc_ptr s) \<or> pfrom (procs s d) = Some d)"

text \<open>
  The header of a message from \<open>src\<close> to \<open>d\<close>, filled in over the fields \<open>h\<close> that were there,
  and the state in which the message and the sequence counters have been advanced.
\<close>

definition fill_hdr :: "int \<Rightarrow> int \<Rightarrow> u32 \<Rightarrow> u8 \<Rightarrow> u32 \<Rightarrow> mrt_mhdr_t \<Rightarrow> kstate \<Rightarrow> mrt_mhdr_t \<times> kstate" where
  "fill_hdr src d mtype pty dl h s =
     (let s = upd_counter (ct_messages_update (\<lambda>n. n + 1)) s;
          s = upd_proc src (st_update (st_msgsent_update (\<lambda>n. n + 1))) s
      in (h\<lparr>mh_src := \<lparr>pid_pid = p_pid (procs s src), pid_p_nr = src\<rparr>,
            mh_dst := \<lparr>pid_pid = p_pid (procs s d), pid_p_nr = d\<rparr>,
            mh_mtype := mtype, mh_mid := ct_messages (counter (sv s)),
            mh_seqno := st_msgsent (st (procs s src)), mh_tstamp := ticks s,
            mh_priority := pty, mh_deadline := dl\<rparr>, s))"

text \<open>Unblock \<open>d\<close>, which was waiting to receive, and stop its timer.\<close>

definition unblock_rcv :: "int \<Rightarrow> kstate \<Rightarrow> kstate res" where
  "unblock_rcv d s =
     (let s = upd_proc d (pfrom_update (\<lambda>_. None)) s;
          s = upd_rtflags d (\<lambda>w. CLR_BIT w MRT_MBX_RCV) s
      in bnd (if MRT_is_rtready (procs s d) then MRT_ready d s else Inr s) (\<lambda>s.
         bnd (deref (ipcvt (procs s d))) (\<lambda>v. MRT_vtimer_stop v s)))"

text \<open>Deliver a message to the waiting process \<open>d\<close>: copies, statistics, unblocking.\<close>

definition deliver :: "int \<Rightarrow> nat \<Rightarrow> u32 \<Rightarrow> mrt_mhdr_t \<Rightarrow> kstate \<Rightarrow> (kstate \<Rightarrow> (int \<times> kstate) res) \<Rightarrow> (int \<times> kstate) res" where
  "deliver d q msg h s k =
     copy_or_einval (USR2USR_msg s d (proc_ptr s) (pmsg (procs s d)) msg) s (\<lambda>s.
     copy_or_einval (KRN2USR_hdr s d (pmhdr (procs s d)) h) s (\<lambda>s.
     let s = upd_msgQ q (\<lambda>m. m\<lparr>mq_delivered := mq_delivered m + 1, mq_enqueued := mq_enqueued m + 1,
               mq_plist := (mq_plist m)\<lparr>pl_maxinQ := max (pl_maxinQ (mq_plist m)) (pl_inQ (mq_plist m) + 1)\<rparr>\<rparr>) s;
         s = upd_proc d (st_update (st_msgrcvd_update (\<lambda>n. n + 1))) s
     in bnd (unblock_rcv d s) k))"

text \<open>Store a message into the entry \<open>e\<close> and append the entry to the queue of \<open>d\<close>.\<close>

definition enqueue :: "nat \<Rightarrow> nat \<Rightarrow> u32 \<Rightarrow> string \<Rightarrow> kstate \<Rightarrow> (kstate \<Rightarrow> (int \<times> kstate) res) \<Rightarrow> (int \<times> kstate) res" where
  "enqueue q e msg err s k =
     copy_or_einval (USR2KRN um_msg sizeof_msg s (proc_ptr s) msg) s (\<lambda>u.
     bnd (MRT_mqe_app q e (upd_mqe e (me_m_u_update (\<lambda>_. u)) s)) (\<lambda>(r, s).
     if r \<noteq> OK then Inl (Panic err) else k s))"

text \<open>
  The common course of a sending call after its checks: fill in the header of a local entry, or of
  a fresh one, then deliver or enqueue the message and go on with \<open>kw\<close> or \<open>kq\<close>.
\<close>

definition send_msg :: "int \<Rightarrow> nat \<Rightarrow> bool \<Rightarrow> u32 \<Rightarrow> u8 \<Rightarrow> u32 \<Rightarrow> u32 \<Rightarrow> string \<Rightarrow>
    (kstate \<Rightarrow> (int \<times> kstate) res) \<Rightarrow> (nat \<Rightarrow> kstate \<Rightarrow> (int \<times> kstate) res) \<Rightarrow>
    kstate \<Rightarrow> (int \<times> kstate) res" where
  "send_msg d q waiting mtype pty dl msg err kw kq s =
     (if waiting
      then
        let (h, s) = fill_hdr (proc_ptr s) d mtype pty dl (stk_hdr s) s
        in deliver d q msg h s kw
      else
        bnd (MRT_mqe_alloc s) (\<lambda>(eo, s).
        case eo of
          None \<Rightarrow> ret E_MRT_NOMQENT s
        | Some e \<Rightarrow>
            let (h, s) = fill_hdr (proc_ptr s) d mtype pty dl (me_hdr (MQE s e)) s;
                s = upd_mqe e (me_hdr_update (\<lambda>_. h)) s
            in enqueue q e msg err s (kq e)))"

definition inherit_if :: "nat \<Rightarrow> int \<Rightarrow> int \<Rightarrow> kstate \<Rightarrow> (int \<times> kstate) res" where
  "inherit_if q prty d s =
     (if TEST_BIT (mq_flags (MSGQ s q)) MQ_PRTYINHERIT
      then bnd (MRT_inherit prty (Some d) s) (\<lambda>s. ret OK s)
      else ret OK s)"

subsection \<open>The kernel's own send\<close>

definition MRT_ksend :: "int \<Rightarrow> int \<Rightarrow> int \<Rightarrow> u32 \<Rightarrow> kstate \<Rightarrow> (int \<times> kstate) res" where
  "MRT_ksend src dest prty mtype s =
     bnd (proc_addr src) (\<lambda>sp.
     bnd (proc_addr dest) (\<lambda>d.
     bnd (check_dest d None s) (\<lambda>c.
     if c \<noteq> OK then ret c s
     else
       bnd (deref (pmq (procs s d))) (\<lambda>q.
       let waiting = is_waiting d s
       in bnd (if waiting then Inr (None, s) else MRT_mqe_alloc s) (\<lambda>(eo, s).
       if \<not> waiting \<and> eo = None then ret E_MRT_NOMQENT s
       else
         let h0 = (case eo of None \<Rightarrow> stk_hdr s | Some e \<Rightarrow> me_hdr (MQE s e));
             (h, s) = fill_hdr sp d mtype (word_of_int prty) 0 h0 s;
             s = (case eo of None \<Rightarrow> s | Some e \<Rightarrow> upd_mqe e (me_hdr_update (\<lambda>_. h)) s)
         in copy_or_einval (KRN2USR_hdr s d (pmhdr (procs s d)) h) s (\<lambda>s.
            case eo of
              None \<Rightarrow>
                let s = upd_msgQ q (\<lambda>m. m\<lparr>mq_delivered := mq_delivered m + 1, mq_enqueued := mq_enqueued m + 1\<rparr>) s;
                    s = upd_proc d (st_update (st_msgrcvd_update (\<lambda>n. n + 1))) s
                in bnd (unblock_rcv d s) (inherit_if q prty d)
            | Some e \<Rightarrow>
                bnd (MRT_mqe_app q e s) (\<lambda>(r, s).
                if r \<noteq> 0 then ret E_MRT_MQFULL s else inherit_if q prty d s)))))))"

subsection \<open>Receiving\<close>

definition rtk_receive :: "mrt_ipc_t \<Rightarrow> kstate \<Rightarrow> (int \<times> kstate) res" where
  "rtk_receive ipc s =
     bnd (if ipc_p_nr ipc \<noteq> MRT_ANYPROC
          then bnd (proc_addr (ipc_p_nr ipc)) (\<lambda>sp.
               Inr (if \<not> MRT_is_process (procs s sp) then E_BAD_PROC
                    else if p_pid (procs s sp) \<noteq> ipc_pid ipc then E_MRT_BADPTYPE else OK))
          else Inr OK) (\<lambda>c.
     if c \<noteq> OK then ret c s
     else
       let me = proc_ptr s
       in bnd (deref (pmq (procs s me))) (\<lambda>q.
          bnd (MRT_mqe_pick q (ipc_p_nr ipc) s) (\<lambda>eo.
          case eo of
            None \<Rightarrow>
              if ipc_timeout ipc = MRT_NOWAIT then ret E_TRY_AGAIN s
              else
                bnd (if ipc_timeout ipc \<noteq> MRT_FOREVER
                     then VTSET (ipcvt (procs s me)) (ipc_timeout ipc) 1 6 (mq_index (MSGQ s q))
                            (rt_priority (rt (procs s me))) s
                     else Inr s) (\<lambda>s.
                let s = upd_rtflags me (\<lambda>w. SET_BIT w MRT_MBX_RCV) s;
                    s = upd_proc me (pfrom_update (\<lambda>_. if ipc_p_nr ipc = MRT_ANYPROC then Some me
                                                        else Some (ipc_p_nr ipc))) s;
                    s = upd_proc me (pmsg_update (\<lambda>_. ipc_msg ipc)) s;
                    s = upd_proc me (pmhdr_update (\<lambda>_. ipc_hdr ipc)) s
                in bnd (MRT_unready me s) (\<lambda>s. ret OK s))
          | Some e \<Rightarrow>
              copy_or_einval (KRN2USR_msg s me (ipc_msg ipc) (me_m_u (MQE s e))) s (\<lambda>s.
              copy_or_einval (KRN2USR_hdr s me (ipc_hdr ipc) (me_hdr (MQE s e))) s (\<lambda>s.
              bnd (proc_addr (pid_p_nr (mh_src (me_hdr (MQE s e))))) (\<lambda>sp.
              bnd (if mh_mtype (me_hdr (MQE s e)) = MT_REQUEST \<and> pto (procs s sp) = Some me
                   then
                     bnd (deref (ipcvt (procs s sp))) (\<lambda>v.
                     bnd (MRT_vtimer_stop v s) (\<lambda>s.
                     let s = upd_rtflags sp (\<lambda>w. CLR_BIT w MRT_MBX_SND) s;
                         s = upd_proc sp (pto_update (\<lambda>_. None)) s
                     in if MRT_is_rtready (procs s sp) then MRT_ready sp s else Inr s))
                   else if mh_mtype (me_hdr (MQE s e)) = MT_RQRCV \<and> pto (procs s sp) = Some me
                   then Inr (upd_proc sp (pto_update (\<lambda>_. None)) (upd_rtflags sp (\<lambda>w. CLR_BIT w MRT_MBX_SND) s))
                   else Inr s) (\<lambda>s.
              bnd (MRT_mqe_rmv q e s) (\<lambda>s.
              bnd (MRT_mqe_free e (MRT_mqe_rst e s)) (\<lambda>s.
              ret OK (upd_proc me (st_update (st_msgrcvd_update (\<lambda>n. n + 1))) s)))))))))) "

subsection \<open>Sending\<close>

definition rtk_rqst :: "mrt_ipc_t \<Rightarrow> kstate \<Rightarrow> (int \<times> kstate) res" where
  "rtk_rqst ipc s =
     bnd (proc_addr (ipc_p_nr ipc)) (\<lambda>d.
     bnd (check_dest d (Some (ipc_pid ipc)) s) (\<lambda>c.
     if c \<noteq> OK then ret c s
     else
       bnd (deref (pmq (procs s d))) (\<lambda>q.
       let me = proc_ptr s; waiting = is_waiting d s;
           fin = (\<lambda>s. inherit_if q (int (prio s me)) d s)
       in if \<not> waiting \<and> ipc_timeout ipc = MRT_NOWAIT then ret E_TRY_AGAIN s
          else
            send_msg d q waiting MT_REQUEST (rt_priority (rt (procs s me))) (rt_deadline (rt (procs s me)))
              (ipc_msg ipc) ''rtk_rqst: the msgq must not be full for proc !!'' fin
              (\<lambda>e s.
                 bnd (if ipc_timeout ipc \<noteq> MRT_FOREVER
                      then VTSET (ipcvt (procs s me)) (ipc_timeout ipc) 1 5 (me_index (MQE s e))
                             (rt_priority (rt (procs s me))) s
                      else Inr s) (\<lambda>s.
                 let s = upd_rtflags me (\<lambda>w. SET_BIT w MRT_MBX_SND) s;
                     s = upd_proc me (pto_update (\<lambda>_. Some d)) s
                 in bnd (MRT_unready me s) fin)) s)))"

definition rtk_arqst :: "mrt_ipc_t \<Rightarrow> kstate \<Rightarrow> (int \<times> kstate) res" where
  "rtk_arqst ipc s =
     bnd (proc_addr (ipc_p_nr ipc)) (\<lambda>d.
     bnd (check_dest d (Some (ipc_pid ipc)) s) (\<lambda>c.
     if c \<noteq> OK then ret c s
     else
       bnd (deref (pmq (procs s d))) (\<lambda>q.
       let me = proc_ptr s; fin = (\<lambda>s. inherit_if q (int (prio s me)) d s)
       in send_msg d q (is_waiting d s) MT_AREQUEST (rt_priority (rt (procs s me)))
            (rt_deadline (rt (procs s me))) (ipc_msg ipc)
            ''rtk_arqst: the msgq must not be full for proc !!'' fin (\<lambda>_. fin) s)))"

definition rtk_reply :: "mrt_ipc_t \<Rightarrow> kstate \<Rightarrow> (int \<times> kstate) res" where
  "rtk_reply ipc s =
     bnd (proc_addr (ipc_p_nr ipc)) (\<lambda>d.
     let me = proc_ptr s;
         fin = (\<lambda>c s. bnd (deref (pmq (procs s me))) (\<lambda>mq.
                  if TEST_BIT (mq_flags (MSGQ s mq)) MQ_PRTYINHERIT
                  then bnd (MRT_disinherit me s) (\<lambda>s. ret c s) else ret c s))
     in bnd (check_dest d (Some (ipc_pid ipc)) s) (\<lambda>c.
     if c \<noteq> OK then fin c s
     else
       bnd (deref (pmq (procs s d))) (\<lambda>q.
       send_msg d q (TEST_BIT (rt_flags (rt (procs s d))) MRT_MBX_RCV \<and> pfrom (procs s d) = Some me)
         MT_REPLY (rt_priority (rt (procs s me))) (rt_deadline (rt (procs s me))) (ipc_msg ipc)
         ''rtk_rply: the msgq must not be full for proc !!'' (fin OK) (\<lambda>_. fin OK) s)))"

definition rtk_uprqst :: "mrt_ipc_t \<Rightarrow> kstate \<Rightarrow> (int \<times> kstate) res" where
  "rtk_uprqst ipc s =
     bnd (proc_addr (ipc_p_nr ipc)) (\<lambda>d.
     bnd (check_dest d (Some (ipc_pid ipc)) s) (\<lambda>c.
     if c \<noteq> OK then ret c s
     else
       bnd (deref (pmq (procs s d))) (\<lambda>q.
       let fin = inherit_if q (ipc_priority ipc) d
       in send_msg d q (is_waiting d s) MT_UPRQST (word_of_int (ipc_priority ipc)) 0 (ipc_msg ipc)
            ''rtk_uprqst: the msgq must not be full for proc !!'' fin (\<lambda>_. fin) s)))"

definition rtk_sign :: "mrt_ipc_t \<Rightarrow> kstate \<Rightarrow> (int \<times> kstate) res" where
  "rtk_sign ipc s =
     bnd (proc_addr (ipc_p_nr ipc)) (\<lambda>d.
     bnd (check_dest d (Some (ipc_pid ipc)) s) (\<lambda>c.
     if c \<noteq> OK then ret c s
     else
       bnd (deref (pmq (procs s d))) (\<lambda>q.
       send_msg d q (is_waiting d s) MT_SIGNAL (rt_priority (rt (procs s d))) (rt_deadline (rt (procs s d)))
         (ipc_msg ipc) ''rtk_sign: the msgq must not be full for proc !!'' (ret OK) (\<lambda>_. ret OK) s)))"

text \<open>
  \<open>rtk_rqrcv\<close> stores the index of the message entry in the timer of the caller and then sets the
  timer with the parameter 0, which overwrites it.
\<close>

definition rtk_rqrcv :: "mrt_ipc_t \<Rightarrow> kstate \<Rightarrow> (int \<times> kstate) res" where
  "rtk_rqrcv ipc s =
     (if ipc_timeout ipc = MRT_NOWAIT then ret EINVAL s
      else
        bnd (proc_addr (ipc_p_nr ipc)) (\<lambda>d.
        bnd (check_dest d (Some (ipc_pid ipc)) s) (\<lambda>c.
        if c \<noteq> OK then ret c s
        else
          bnd (deref (pmq (procs s d))) (\<lambda>q.
          let me = proc_ptr s;
              rcv = (\<lambda>s.
                bnd (if ipc_timeout ipc \<noteq> MRT_FOREVER
                     then VTSET (ipcvt (procs s me)) (ipc_timeout ipc) 1 10 0 (rt_priority (rt (procs s me))) s
                     else Inr s) (\<lambda>s.
                let s = upd_rtflags me (\<lambda>w. SET_BIT w MRT_MBX_RCV) s;
                    s = upd_proc me (pfrom_update (\<lambda>_. Some d)) s;
                    s = upd_proc me (pmsg_update (\<lambda>_. ipc_msg2 ipc)) s;
                    s = upd_proc me (pmhdr_update (\<lambda>_. ipc_hdr ipc)) s
                in bnd (MRT_unready me s) (\<lambda>s. inherit_if q (int (prio s me)) d s)))
          in send_msg d q (is_waiting d s) MT_RQRCV (rt_priority (rt (procs s me)))
               (rt_deadline (rt (procs s me))) (ipc_msg ipc)
               ''rtk_rqst: the msgq must not be full for proc !!''
               (\<lambda>s. bnd (deref (ipcvt (procs s me))) (\<lambda>v. rcv (upd_vt v (vt_param_update (\<lambda>_. - 1)) s)))
               (\<lambda>e s.
                  let s = upd_rtflags me (\<lambda>w. SET_BIT w MRT_MBX_SND) s;
                      s = upd_proc me (pto_update (\<lambda>_. Some (ipc_p_nr ipc))) s
                  in bnd (deref (ipcvt (procs s me))) (\<lambda>v.
                     rcv (upd_vt v (vt_param_update (\<lambda>_. me_index (MQE s e))) s))) s))))"

end
