(* ===== verification/Sem.thy ===== *)
theory Sem
  imports Inherit
begin

text \<open>
  Up and down on the semaphores of \<^verbatim>\<open>src/src/kernel/mrtsem.c\<close>, and what happens to the
  semaphores of a process that ends.
\<close>

subsection \<open>Operations\<close>

text \<open>The branch of \<open>MRT_semup\<close> that hands the semaphore to the first waiting process \<open>rp\<close>.\<close>

definition semup_wake :: "nat \<Rightarrow> int \<Rightarrow> kstate \<Rightarrow> kstate res" where
  "semup_wake i rp s =
     bnd (MRT_sproc_rmv i rp s) (\<lambda>s.
     bnd (deref (ipcvt (procs s rp))) (\<lambda>v.
     bnd (MRT_vtimer_stop v s) (\<lambda>s.
     let s = upd_proc rp (psem_update (\<lambda>_. None)) s
     in bnd (if TEST_BIT (sm_flags (SEM s i)) SEM_MUTEX
             then
               bnd (with_slockL (proc_ptr s) (\<lambda>h l. MRT_list_rmv h l (LSemL i)) s) (\<lambda>s.
               bnd (with_slockL rp (\<lambda>h l. MRT_list_app h l (LSemL i))
                      (upd_sem i (sm_carrier_update (\<lambda>_. Some rp)) s)) (\<lambda>s.
               if TEST_BIT (sm_flags (SEM s i)) SEM_PRTYINHERIT then MRT_disinherit (proc_ptr s) s else Inr s))
             else Inr s) (\<lambda>s.
        let s = upd_rtflags rp (\<lambda>w. CLR_BIT w MRT_SEM_DOWN) s
        in if MRT_is_rtready (procs s rp) then MRT_ready rp s else Inr s))))"

definition MRT_semup :: "nat \<Rightarrow> kstate \<Rightarrow> (int \<times> kstate) res" where
  "MRT_semup i s =
     (if sm_owner (SEM s i) = HARDWARE then Inr (E_MRT_BADSEM, s)
      else
        bnd (if sm_value (SEM s i) < 0
             then
               bnd (MRT_sproc_pick i s) (\<lambda>r.
               case r of
                 None \<Rightarrow> Inl (Panic ''MRT_semup: value<0 but any process waiting on semaphore '')
               | Some rp \<Rightarrow> semup_wake i rp s)
             else if sm_value (SEM s i) = 0 \<and> TEST_BIT (sm_flags (SEM s i)) SEM_MUTEX
             then
               bnd (with_slockL (proc_ptr s) (\<lambda>h l. MRT_list_rmv h l (LSemL i)) s) (\<lambda>s.
               Inr (upd_sem i (sm_carrier_update (\<lambda>_. None)) s))
             else Inr s) (\<lambda>s.
        Inr (OK, upd_sem i (\<lambda>m. m\<lparr>sm_ups := int32 (sm_ups m + 1), sm_value := int32 (sm_value m + 1)\<rparr>) s)))"

definition MRT_semdown :: "nat \<Rightarrow> u32 \<Rightarrow> kstate \<Rightarrow> (int \<times> kstate) res" where
  "MRT_semdown i timeout s =
     (let me = proc_ptr s;
          fin = (\<lambda>s. Inr (OK, upd_sem i (\<lambda>m. m\<lparr>sm_downs := int32 (sm_downs m + 1), sm_value := int32 (sm_value m - 1)\<rparr>) s))
      in if sm_owner (SEM s i) = HARDWARE then Inr (E_MRT_BADSEM, s)
         else if sm_value (SEM s i) \<le> 0
         then
           if timeout = MRT_NOWAIT then Inr (E_TRY_AGAIN, s)
           else
             bnd (if timeout \<noteq> MRT_FOREVER
                  then VTSET (ipcvt (procs s me)) timeout 1 12 (sm_index (SEM s i)) (rt_priority (rt (procs s me))) s
                  else Inr s) (\<lambda>s.
             let s = upd_rtflags me (\<lambda>w. SET_BIT w MRT_SEM_DOWN) s;
                 s = upd_proc me (psem_update (\<lambda>_. Some i)) s
             in bnd (MRT_unready me s) (\<lambda>s.
                bnd (MRT_sproc_app i me s) (\<lambda>s.
                bnd (if TEST_BIT (sm_flags (SEM s i)) SEM_PRTYINHERIT
                     then MRT_inherit (int (prio s me)) (sm_carrier (SEM s i)) s
                     else Inr s) fin)))
         else if sm_value (SEM s i) = 1 \<and> TEST_BIT (sm_flags (SEM s i)) SEM_MUTEX
         then
           bnd (with_slockL me (\<lambda>h l. MRT_list_app h l (LSemL i))
                  (upd_sem i (sm_carrier_update (\<lambda>_. Some me)) s)) fin
         else fin s)"

text \<open>
  The loop of \<open>MRT_sem_unlock\<close> takes the first locked semaphore of \<open>rp\<close> until there is none;
  \<open>MRT_semup\<close> removes it from the list of the running process.
\<close>

fun sem_unlock_loop :: "nat \<Rightarrow> int \<Rightarrow> kstate \<Rightarrow> kstate res" where
  "sem_unlock_loop 0 rp s = Inl Diverge"
| "sem_unlock_loop (Suc n) rp s =
     (case ls_first (slockL (procs s rp)) of
        None \<Rightarrow> Inr s
      | Some k \<Rightarrow>
          bnd (as_sem (lk_this (links s k))) (\<lambda>i.
          bnd (MRT_semup i s) (\<lambda>(_, s). sem_unlock_loop n rp s)))"

definition MRT_sem_unlock :: "int \<Rightarrow> kstate \<Rightarrow> kstate res" where
  "MRT_sem_unlock rp s = sem_unlock_loop sem_fuel rp s"

fun sem_drain :: "nat \<Rightarrow> nat \<Rightarrow> kstate \<Rightarrow> kstate res" where
  "sem_drain 0 i s = Inl Diverge"
| "sem_drain (Suc n) i s =
     bnd (MRT_sproc_pick i s) (\<lambda>r.
     case r of
       None \<Rightarrow> Inr s
     | Some p \<Rightarrow>
         bnd (MRT_sproc_rmv i p s) (\<lambda>s.
         bnd (case ipcvt (procs s p) of None \<Rightarrow> Inr s | Some v \<Rightarrow> MRT_vtimer_stop v s) (\<lambda>s.
         let s = upd_proc p (psem_update (\<lambda>_. None)) s;
             s = upd_rtflags p (\<lambda>w. CLR_BIT w MRT_SEM_DOWN) s
         in bnd (if MRT_is_rtready (procs s p) then MRT_ready p s else Inr s) (\<lambda>s.
            sem_drain n i (set_retreg p E_MRT_EXITING s)))))"

fun sem_empty_loop :: "nat \<Rightarrow> lref option \<Rightarrow> kstate \<Rightarrow> kstate res" where
  "sem_empty_loop n None s = Inr s"
| "sem_empty_loop 0 (Some k) s = Inl Diverge"
| "sem_empty_loop (Suc n) (Some k) s =
     bnd (as_sem (lk_this (links s k))) (\<lambda>i.
     bnd (sem_drain proc_fuel i s) (\<lambda>s.
     sem_empty_loop n (lk_next (links s k)) s))"

definition MRT_sem_empty :: "int \<Rightarrow> kstate \<Rightarrow> kstate res" where
  "MRT_sem_empty rp s = sem_empty_loop sem_fuel (ls_first (sallocL (procs s rp))) s"

text \<open>
  The invariant of a semaphore and the real-time ready queue: no process is in both, a waiting process
  is on the level that \<open>MRT_sproc_app\<close> chose for it, and as many wait as the value is below 0.
\<close>

definition sem_inv :: "nat \<Rightarrow> kstate \<Rightarrow> (nat \<Rightarrow> lref list) \<Rightarrow> (nat \<Rightarrow> int list) \<Rightarrow> bool" where
  "sem_inv i s qs sq \<longleftrightarrow> rdyQ_inv s qs \<and> sem_rep s i sq \<and> members qs \<inter> LProc ` members sq = {}
     \<and> (\<forall>l. \<forall>p\<in>set (sq l). isokprocn p \<and> sproc_level s i p = l) \<and> int (pl_total sq) = max 0 (- sm_value (SEM s i))
     \<and> sm_value (SEM s i) < 2 ^ 31"

lemma members_map: "members (\<lambda>p. map LProc (sq p)) = LProc ` members sq"
  by (auto simp: members_def)

lemma set_members: "set (qs l) \<subseteq> members qs"
  by (auto simp: members_def)

lemma members_remove_sub: "members (qs(l := remove1 k (qs l))) \<subseteq> members qs"
proof
  fix x assume "x \<in> members (qs(l := remove1 k (qs l)))"
  then obtain r where "x \<in> set ((qs(l := remove1 k (qs l))) r)" by (auto simp: members_iff simp del: fun_upd_apply)
  then have "x \<in> set (qs r)" using set_remove1_subset[of k "qs l"] by (cases "r = l") auto
  then show "x \<in> members qs" by (auto simp: members_iff)
qed

lemma members_app: "members (qs(l := qs l @ [k])) = insert k (members qs)"
  unfolding members_upd by (auto simp: members_def)

lemma rmv_not_member:
  assumes "pl_rep h pl qs" and "k \<in> set (qs l)"
  shows "k \<notin> members (qs(l := remove1 k (qs l)))"
  using pl_rep_distinct[OF assms(1), of l] pl_rep_one_level[OF assms] by (auto simp: members_iff)

text \<open>An object moves from one priority list to another one on the same heap.\<close>

lemma plist_move:
  assumes X: "pl_rep h X qs" and Y: "pl_rep h Y rs" and disj: "members qs \<inter> members rs = {}"
    and k: "k \<in> set (qs l)" and m: "m < MRT_NR_PRTY"
  shows "\<exists>h1 X1. MRT_plist_rmv h X k l = Inr (h1, X1) \<and> heap_frame (members qs) h h1 \<and>
     (\<forall>g. (\<forall>j\<in>members qs \<union> members rs. g j = h1 j) \<longrightarrow>
       (\<exists>h2 Y1. MRT_plist_app g Y k m = Inr (h2, Y1) \<and> heap_frame (members qs \<union> members rs) g h2
          \<and> pl_rep h2 X1 (qs(l := remove1 k (qs l))) \<and> pl_rep h2 Y1 (rs(m := rs m @ [k]))))"
proof -
  have kq: "k \<in> members qs" and kr: "k \<notin> members rs" using k disj by (auto simp: members_def)
  from MRT_plist_rmv_ok[OF X k] obtain h1 X1 where
    1: "MRT_plist_rmv h X k l = Inr (h1, X1)" "pl_rep h1 X1 (qs(l := remove1 k (qs l)))" "heap_frame (set (qs l)) h h1" by blast
  have f1: "heap_frame (members qs) h h1" by (rule heap_frame_mono[OF 1(3)]) (auto simp: members_iff)
  have Y1: "pl_rep h1 Y rs" by (rule pl_rep_frame[OF Y f1]) (use disj in auto)
  have "\<exists>h2 Y1. MRT_plist_app g Y k m = Inr (h2, Y1) \<and> heap_frame (members qs \<union> members rs) g h2
      \<and> pl_rep h2 X1 (qs(l := remove1 k (qs l))) \<and> pl_rep h2 Y1 (rs(m := rs m @ [k]))"
    if g: "\<forall>j\<in>members qs \<union> members rs. g j = h1 j" for g
  proof -
    have Yg: "pl_rep g Y rs" by (rule pl_rep_cong[OF _ Y1]) (use g in auto)
    have Xg: "pl_rep g X1 (qs(l := remove1 k (qs l)))"
      by (rule pl_rep_cong[OF _ 1(2)]) (use g members_remove_sub[of qs l k] in blast)
    from MRT_plist_app_ok[OF Yg m kr] obtain h2 Y1 where
      2: "MRT_plist_app g Y k m = Inr (h2, Y1)" "pl_rep h2 Y1 (rs(m := rs m @ [k]))" "heap_frame (insert k (set (rs m))) g h2" by blast
    have "members (qs(l := remove1 k (qs l))) \<inter> insert k (set (rs m)) = {}"
      using rmv_not_member[OF X k] members_remove_sub[of qs l k] disj set_members[of rs m] by blast
    then have "pl_rep h2 X1 (qs(l := remove1 k (qs l)))" by (rule pl_rep_frame[OF Xg 2(3)])
    moreover have "heap_frame (members qs \<union> members rs) g h2"
      by (rule heap_frame_mono[OF 2(3)]) (use kq in \<open>auto simp: members_iff\<close>)
    ultimately show ?thesis using 2 by blast
  qed
  then show ?thesis using 1(1) f1 by blast
qed

lemma pl_total_remove:
  assumes "x \<in> set (sq l)" and "l < MRT_NR_PRTY"
  shows "pl_total sq = pl_total (sq(l := remove1 x (sq l))) + 1"
proof -
  have "length (sq l) = length (remove1 x (sq l)) + 1" using length_pos_if_in_set[OF assms(1)] assms(1) by (simp add: length_remove1)
  then show ?thesis using pl_total_upd[OF assms(2), of sq "remove1 x (sq l)"] by simp
qed

lemma pl_total_app: "l < MRT_NR_PRTY \<Longrightarrow> pl_total (sq(l := sq l @ [x])) = pl_total sq + 1"
  using pl_total_upd[of l sq "sq l @ [x]"] by simp

lemma map_upd: "(\<lambda>p. map g ((sq(l := xs)) p)) = (\<lambda>p. map g (sq p))(l := map g xs)"
  by auto

lemma map_remove1_LProc: "map LProc (remove1 x xs) = remove1 (LProc x) (map LProc xs)"
  by (induction xs) auto

subsection \<open>Down\<close>

lemma sem_inv_level:
  assumes "sem_inv i s qs sq" and "LProc p \<in> members qs"
  shows "LProc p \<in> set (qs (prio s p))" and "isokprocn p" and "sproc_level s i p < MRT_NR_PRTY"
proof -
  have inv: "rdyQ_inv s qs" using assms(1) by (simp add: sem_inv_def)
  from assms(2) obtain l where l: "LProc p \<in> set (qs l)" by (auto simp: members_def)
  from rdyQ_inv_member[OF inv l] show "LProc p \<in> set (qs (prio s p))" "isokprocn p" using l by auto
  then show "sproc_level s i p < MRT_NR_PRTY"
    using pl_rep_level[OF rdyQ_inv_rep[OF inv]] by (auto simp: sproc_level_def MRT_NR_PRTY_def)
qed

text \<open>There are 43 processes, so the value of a semaphore never comes near the least \<open>int\<close>.\<close>

lemma sem_inv_value:
  assumes "sem_inv i s qs sq"
  shows "- (2 ^ 31) < sm_value (SEM s i)" "int32 (sm_value (SEM s i) - 1) = sm_value (SEM s i) - 1"
    "sm_value (SEM s i) \<noteq> 2 ^ 31 - 1 \<Longrightarrow> int32 (sm_value (SEM s i) + 1) = sm_value (SEM s i) + 1"
proof -
  have "length (sq l) \<le> 43" if "l < MRT_NR_PRTY" for l
  proof -
    have "dll (links s) (pl_list (sm_plist (SEM s i)) l) (map LProc (sq l))"
      using assms pl_rep_dll that by (auto simp: sem_inv_def sem_rep_def)
    then have "distinct (sq l)" using dll_distinct distinct_map by blast
    moreover have "isokprocn x" if "x \<in> set (sq l)" for x using assms that by (simp add: sem_inv_def)
    then have "set (sq l) \<subseteq> {- 11..31}" by (fastforce simp: isokprocn_def)
    ultimately have "length (sq l) \<le> card {- 11..31 :: int}" by (metis card_mono distinct_card finite_atLeastAtMost_int)
    then show ?thesis by simp
  qed
  then have "pl_total sq \<le> (\<Sum>l<MRT_NR_PRTY. 43)" unfolding pl_total_def by (intro sum_mono) auto
  then have "int (pl_total sq) < 2 ^ 31 - 1" by (simp add: MRT_NR_PRTY_def)
  moreover have "int (pl_total sq) = max 0 (- sm_value (SEM s i))" using assms by (simp add: sem_inv_def)
  ultimately show *: "- (2 ^ 31) < sm_value (SEM s i)" by linarith
  have v: "sm_value (SEM s i) < 2 ^ 31" using assms by (simp add: sem_inv_def)
  show "int32 (sm_value (SEM s i) - 1) = sm_value (SEM s i) - 1" by (rule int32_id) (use * v in linarith)+
  show "int32 (sm_value (SEM s i) + 1) = sm_value (SEM s i) + 1" if "sm_value (SEM s i) \<noteq> 2 ^ 31 - 1"
    by (rule int32_id) (use * v that in linarith)+
qed

text \<open>The invariant after a process has moved to the queue of the semaphore, and back.\<close>

lemma sem_inv_wait:
  assumes inv: "sem_inv i s qs sq" and p: "LProc p \<in> set (qs l)" and m: "m = sproc_level s i p" and val: "sm_value (SEM s i) \<le> 0"
    and reps: "pl_rep (links s') (rdyQ s') (qs(l := remove1 (LProc p) (qs l)))"
      "pl_rep (links s') (sm_plist (SEM s' i)) ((\<lambda>p. map LProc (sq p))(m := map LProc (sq m) @ [LProc p]))" "wf_links (links s')"
    and same: "\<And>x. prio s' x = prio s x" "\<And>x. sproc_level s' i x = sproc_level s i x" "sm_value (SEM s' i) = sm_value (SEM s i) - 1"
  shows "sem_inv i s' (qs(l := remove1 (LProc p) (qs l))) (sq(m := sq m @ [p]))"
proof -
  have rq: "rdyQ_inv s qs" and disj: "members qs \<inter> LProc ` members sq = {}" using inv by (simp_all add: sem_inv_def)
  have pm: "LProc p \<in> members qs" using p by (auto simp: members_iff)
  note L = sem_inv_level[OF inv pm]
  have "\<exists>x. k = LProc x \<and> isokprocn x \<and> prio s' x = r" if "k \<in> set ((qs(l := remove1 (LProc p) (qs l))) r)" for k r
  proof -
    have "k \<in> set (qs r)" using that set_remove1_subset[of "LProc p" "qs l"] by (cases "r = l") auto
    then show ?thesis using same(1) rdyQ_inv_member[OF rq, of k r] by auto
  qed
  then have "rdyQ_inv s' (qs(l := remove1 (LProc p) (qs l)))" using reps(1) by (simp add: rdyQ_inv_def)
  moreover have "sem_rep s' i (sq(m := sq m @ [p]))" using reps(2,3) unfolding sem_rep_def map_upd by simp
  moreover have "members (qs(l := remove1 (LProc p) (qs l))) \<inter> LProc ` members (sq(m := sq m @ [p])) = {}"
    using rmv_not_member[OF rdyQ_inv_rep[OF rq] p] members_remove_sub[of qs l "LProc p"] disj unfolding members_app by auto
  moreover have "isokprocn x \<and> sproc_level s' i x = r" if "x \<in> set ((sq(m := sq m @ [p])) r)" for x r
    using that inv L(2) same(2) by (cases "r = m") (auto simp: sem_inv_def m)
  moreover have "int (pl_total (sq(m := sq m @ [p]))) = max 0 (- sm_value (SEM s' i))"
    using pl_total_app[OF L(3), of sq p] inv val same(3) m by (simp add: sem_inv_def)
  moreover have "sm_value (SEM s' i) < 2 ^ 31" using same(3) val by simp
  ultimately show ?thesis unfolding sem_inv_def by blast
qed

lemma sem_inv_wake:
  assumes inv: "sem_inv i s qs sq" and p: "p \<in> set (sq m)" and l: "l = prio s p"
    and reps: "pl_rep (links s') (rdyQ s') (qs(l := qs l @ [LProc p]))"
      "pl_rep (links s') (sm_plist (SEM s' i)) ((\<lambda>p. map LProc (sq p))(m := remove1 (LProc p) (map LProc (sq m))))" "wf_links (links s')"
    and same: "\<And>x. prio s' x = prio s x" "\<And>x. sproc_level s' i x = sproc_level s i x" "sm_value (SEM s' i) = sm_value (SEM s i) + 1"
  shows "sem_inv i s' (qs(l := qs l @ [LProc p])) (sq(m := remove1 p (sq m)))"
proof -
  have rq: "rdyQ_inv s qs" and sr: "sem_rep s i sq" and disj: "members qs \<inter> LProc ` members sq = {}" using inv by (simp_all add: sem_inv_def)
  have "LProc p \<in> set (map LProc (sq m))" using p by simp
  note P = pl_rep_level[of "links s" "sm_plist (SEM s i)" "\<lambda>p. map LProc (sq p)", OF _ this]
    rmv_not_member[of "links s" "sm_plist (SEM s i)" "\<lambda>p. map LProc (sq p)", OF _ this]
  have pm: "p \<notin> members (sq(m := remove1 p (sq m)))" and m: "m < MRT_NR_PRTY"
    using P sr members_map[of "sq(m := remove1 p (sq m))"] unfolding sem_rep_def map_upd map_remove1_LProc by auto
  have "\<exists>x. k = LProc x \<and> isokprocn x \<and> prio s' x = r" if "k \<in> set ((qs(l := qs l @ [LProc p])) r)" for k r
    using that rdyQ_inv_member[OF rq, of k r] inv p l same(1) by (cases "r = l") (auto simp: sem_inv_def)
  then have "rdyQ_inv s' (qs(l := qs l @ [LProc p]))" using reps(1) by (simp add: rdyQ_inv_def)
  moreover have "sem_rep s' i (sq(m := remove1 p (sq m)))"
    using reps(2,3) unfolding sem_rep_def map_upd map_remove1_LProc by simp
  moreover have "members (qs(l := qs l @ [LProc p])) \<inter> LProc ` members (sq(m := remove1 p (sq m))) = {}"
    using pm members_remove_sub[of sq m p] disj unfolding members_app by auto
  moreover have "isokprocn x \<and> sproc_level s' i x = r" if "x \<in> set ((sq(m := remove1 p (sq m))) r)" for x r
  proof -
    have "x \<in> set (sq r)" using that set_remove1_subset[of p "sq m"] by (cases "r = m") auto
    then show ?thesis using inv same(2) by (simp add: sem_inv_def)
  qed
  moreover have "int (pl_total (sq(m := remove1 p (sq m)))) = max 0 (- sm_value (SEM s' i))"
    using pl_total_remove[of p sq m] p m inv same(3) by (simp add: sem_inv_def max_def split: if_splits)
  moreover have "sm_value (SEM s' i) < 2 ^ 31"
  proof -
    have "pl_total sq \<noteq> 0" using p m by (auto simp: pl_total_0)
    moreover have "int (pl_total sq) = max 0 (- sm_value (SEM s i))" using inv by (simp add: sem_inv_def)
    ultimately show ?thesis using same(3) by (simp add: max_def split: if_splits)
  qed
  ultimately show ?thesis unfolding sem_inv_def by blast
qed

lemma semdown_waits:
  assumes inv: "sem_inv i s qs sq" and run: "LProc (proc_ptr s) \<in> members qs" and own: "sm_owner (SEM s i) \<noteq> HARDWARE"
    and val: "sm_value (SEM s i) \<le> 0" and fl: "\<not> TEST_BIT (sm_flags (SEM s i)) SEM_PRTYINHERIT"
  shows "\<exists>s'. MRT_semdown i MRT_FOREVER s = Inr (OK, s') \<and> sm_value (SEM s' i) = sm_value (SEM s i) - 1
     \<and> TEST_BIT (rt_flags (rt (procs s' (proc_ptr s)))) MRT_SEM_DOWN \<and> psem (procs s' (proc_ptr s)) = Some i
     \<and> sem_inv i s' (qs(prio s (proc_ptr s) := remove1 (LProc (proc_ptr s)) (qs (prio s (proc_ptr s)))))
         (sq(sproc_level s i (proc_ptr s) := sq (sproc_level s i (proc_ptr s)) @ [proc_ptr s]))"
proof -
  define me l m where "me = proc_ptr s" and "l = prio s me" and "m = sproc_level s i me"
  note L = sem_inv_level[OF inv run, folded me_def, folded l_def m_def]
  have X: "pl_rep (links s) (rdyQ s) qs" and Y: "pl_rep (links s) (sm_plist (SEM s i)) (\<lambda>p. map LProc (sq p))"
    and wf: "wf_links (links s)" and disj: "members qs \<inter> members (\<lambda>p. map LProc (sq p)) = {}"
    using inv by (auto simp: sem_inv_def rdyQ_inv_def sem_rep_def members_map)
  from plist_move[OF X Y disj L(1,3)] obtain h1 X1 where
    mv: "MRT_plist_rmv (links s) (rdyQ s) (LProc me) l = Inr (h1, X1)" "heap_frame (members qs) (links s) h1"
    and mv2: "\<forall>g. (\<forall>j\<in>members qs \<union> members (\<lambda>p. map LProc (sq p)). g j = h1 j) \<longrightarrow>
       (\<exists>h2 Y1. MRT_plist_app g (sm_plist (SEM s i)) (LProc me) m = Inr (h2, Y1)
          \<and> heap_frame (members qs \<union> members (\<lambda>p. map LProc (sq p))) g h2
          \<and> pl_rep h2 X1 (qs(l := remove1 (LProc me) (qs l)))
          \<and> pl_rep h2 Y1 ((\<lambda>p. map LProc (sq p))(m := map LProc (sq m) @ [LProc me])))" by blast
  from mv2[rule_format, of h1] obtain h2 Y1 where
    mv': "MRT_plist_app h1 (sm_plist (SEM s i)) (LProc me) m = Inr (h2, Y1)"
      "heap_frame (members qs \<union> members (\<lambda>p. map LProc (sq p))) h1 h2" "pl_rep h2 X1 (qs(l := remove1 (LProc me) (qs l)))"
      "pl_rep h2 Y1 ((\<lambda>p. map LProc (sq p))(m := map LProc (sq m) @ [LProc me]))" by auto
  have wf2: "wf_links h2" using wf_links_frame[OF mv'(2)] wf_links_frame[OF mv(2)] wf by simp
  let ?a = "upd_proc me (psem_update (\<lambda>_. Some i)) (upd_rtflags me (\<lambda>w. SET_BIT w MRT_SEM_DOWN) s)"
  let ?b = "?a\<lparr>links := h1, rdyQ := X1\<rparr>"
  let ?c = "upd_sem i (sm_plist_update (\<lambda>_. Y1)) (?b\<lparr>links := h2\<rparr>)"
  let ?s' = "upd_sem i (\<lambda>m. m\<lparr>sm_downs := int32 (sm_downs m + 1), sm_value := int32 (sm_value m - 1)\<rparr>) ?c"
  have unr: "MRT_unready me ?a = Inr ?b" using mv(1) by (simp add: MRT_rdyQ_rmv_def with_rdyQ_def l_def)
  have "sproc_level ?b i me = m" by (simp add: sproc_level_def m_def)
  then have app: "MRT_sproc_app i me ?b = Inr ?c" using mv'(1) by (simp add: MRT_sproc_app_def with_sem_plist_def)
  have flc: "\<not> TEST_BIT (sm_flags (SEM ?c i)) SEM_PRTYINHERIT" using fl by simp
  have "MRT_semdown i MRT_FOREVER s = bnd (MRT_unready me ?a) (\<lambda>s. bnd (MRT_sproc_app i me s) (\<lambda>s.
      bnd (if TEST_BIT (sm_flags (SEM s i)) SEM_PRTYINHERIT then MRT_inherit (int (prio s me)) (sm_carrier (SEM s i)) s else Inr s)
        (\<lambda>s. Inr (OK, upd_sem i (\<lambda>m. m\<lparr>sm_downs := int32 (sm_downs m + 1), sm_value := int32 (sm_value m - 1)\<rparr>) s))))"
    unfolding MRT_semdown_def Let_def me_def[symmetric] using own val by (simp only: if_True if_False bnd.simps refl) simp
  then have down: "MRT_semdown i MRT_FOREVER s = Inr (OK, ?s')" by (simp only: unr app bnd.simps flc if_False)
  define s' where "s' = ?s'"
  have F: "links s' = h2" "rdyQ s' = X1" "sm_plist (SEM s' i) = Y1" "sm_value (SEM s' i) = sm_value (SEM s i) - 1"
    "prio s' p = prio s p" "sproc_level s' i p = sproc_level s i p" "psem (procs s' me) = Some i"
    "TEST_BIT (rt_flags (rt (procs s' me))) MRT_SEM_DOWN" for p
    by (simp_all add: s'_def sproc_level_def TEST_SET_same sem_inv_value(2)[OF inv])
  have "sem_inv i s' (qs(l := remove1 (LProc me) (qs l))) (sq(m := sq m @ [me]))"
    using sem_inv_wait[OF inv L(1) m_def val, of s'] mv' wf2 F by simp
  then show ?thesis using down F unfolding s'_def[symmetric] me_def[symmetric] l_def[symmetric] m_def[symmetric] by blast
qed

subsection \<open>Up\<close>

lemma first_of_level:
  assumes "sem_inv i s qs sq" and "first_of MRT_NR_PRTY sq = Some p"
  shows "p \<in> set (sq (sproc_level s i p))" and "isokprocn p"
proof -
  from assms(2) obtain l ys where "sq l = p # ys" by (auto simp: first_of_Some)
  then have "p \<in> set (sq l)" by simp
  then have "sproc_level s i p = l" "isokprocn p" using assms(1) unfolding sem_inv_def by blast+
  then show "p \<in> set (sq (sproc_level s i p))" "isokprocn p" using \<open>p \<in> set (sq l)\<close> by simp_all
qed

text \<open>A process that is blocked on a semaphore only, with its timer stopped and no limit on its activations.\<close>

definition wakeable :: "kstate \<Rightarrow> int \<Rightarrow> bool" where
  "wakeable s p \<longleftrightarrow> (\<exists>v. ipcvt (procs s p) = Some v \<and> vt_flags (VT s v) = VT_ALLOC)
     \<and> rt_flags (rt (procs s p)) = MRT_SEM_DOWN \<and> rt_limit (rt (procs s p)) = 0 \<and> prio s p < MRT_NR_PRTY"

lemma first_of_None: "first_of n qs = None \<longleftrightarrow> (\<forall>r<n. qs r = [])"
proof -
  have "opt_hd xs = None \<longleftrightarrow> xs = []" for xs :: "'a list" by (cases xs) auto
  then show ?thesis by (auto simp: first_of_def)
qed

lemma semup_wakes:
  assumes inv: "sem_inv i s qs sq" and own: "sm_owner (SEM s i) \<noteq> HARDWARE" and val: "sm_value (SEM s i) < 0"
    and fl: "\<not> TEST_BIT (sm_flags (SEM s i)) SEM_MUTEX" and p: "first_of MRT_NR_PRTY sq = Some p"
    and v: "ipcvt (procs s p) = Some v" "vt_flags (VT s v) = VT_ALLOC"
    and r: "rt_flags (rt (procs s p)) = MRT_SEM_DOWN" "rt_limit (rt (procs s p)) = 0"
    and m: "m = sproc_level s i p" and l: "l = prio s p" and lv: "l < MRT_NR_PRTY"
  shows "\<exists>s'. MRT_semup i s = Inr (OK, s') \<and> sm_value (SEM s' i) = sm_value (SEM s i) + 1
     \<and> psem (procs s' p) = None \<and> MRT_is_rtready (procs s' p)
     \<and> sem_inv i s' (qs(l := qs l @ [LProc p])) (sq(m := remove1 p (sq m)))"
proof -
  have X: "pl_rep (links s) (rdyQ s) qs" and Y: "pl_rep (links s) (sm_plist (SEM s i)) (\<lambda>p. map LProc (sq p))"
    and sr: "sem_rep s i sq" and wf: "wf_links (links s)" and disj: "members (\<lambda>p. map LProc (sq p)) \<inter> members qs = {}"
    using inv by (auto simp: sem_inv_def rdyQ_inv_def sem_rep_def members_map)
  have pick: "MRT_sproc_pick i s = Inr (Some p)" using MRT_sproc_pick_ok[OF sr] p by simp
  have pm: "p \<in> set (sq m)" using first_of_level[OF inv p] m by simp
  then have pm': "LProc p \<in> set (map LProc (sq m))" by simp
  have q0: "pl_inQ (sm_plist (SEM s i)) \<noteq> 0"
    using Y pm pl_rep_level[OF Y pm'] by (auto simp: pl_rep_def pl_total_0)
  have vt: "LVT v \<notin> members qs" using inv by (fastforce simp: sem_inv_def rdyQ_inv_def members_iff)
  from plist_move[OF Y X disj pm' lv] obtain h1 Y1 where
    mv: "MRT_plist_rmv (links s) (sm_plist (SEM s i)) (LProc p) m = Inr (h1, Y1)" "heap_frame (members (\<lambda>p. map LProc (sq p))) (links s) h1"
    and mv2: "\<forall>g. (\<forall>j\<in>members (\<lambda>p. map LProc (sq p)) \<union> members qs. g j = h1 j) \<longrightarrow>
       (\<exists>h2 X1. MRT_plist_app g (rdyQ s) (LProc p) l = Inr (h2, X1)
          \<and> heap_frame (members (\<lambda>p. map LProc (sq p)) \<union> members qs) g h2
          \<and> pl_rep h2 Y1 ((\<lambda>p. map LProc (sq p))(m := remove1 (LProc p) (map LProc (sq m))))
          \<and> pl_rep h2 X1 (qs(l := qs l @ [LProc p])))" by blast
  let ?g = "MRT_link_rst (LVT v) (OVT v) MRT_OBJVT h1"
  have wf1: "wf_links h1" using wf_links_frame[OF mv(2)] wf by simp
  have wfg: "wf_links ?g" using wf1 by (intro wf_links_rst) (simp_all add: wf_links_def)
  have g: "\<forall>j\<in>members (\<lambda>p. map LProc (sq p)) \<union> members qs. ?g j = h1 j"
    using vt by (auto simp: members_map MRT_link_rst_def)
  from mv2[rule_format, of ?g] g obtain h2 X1 where
    mv': "MRT_plist_app ?g (rdyQ s) (LProc p) l = Inr (h2, X1)" "heap_frame (members (\<lambda>p. map LProc (sq p)) \<union> members qs) ?g h2"
      "pl_rep h2 Y1 ((\<lambda>p. map LProc (sq p))(m := remove1 (LProc p) (map LProc (sq m))))" "pl_rep h2 X1 (qs(l := qs l @ [LProc p]))" by blast
  have wf2: "wf_links h2" using wf_links_frame[OF mv'(2)] wfg by simp
  let ?a = "upd_sem i (sm_plist_update (\<lambda>_. Y1)) (s\<lparr>links := h1\<rparr>)"
  have rmv: "MRT_sproc_rmv i p s = Inr ?a" using mv(1) q0 m by (simp add: MRT_sproc_rmv_def with_sem_plist_def)
  let ?b = "(upd_vt v (\<lambda>t. t\<lparr>vt_nextexp := 0, vt_flags := VT_ALLOC\<rparr>) ?a)\<lparr>links := ?g\<rparr>"
  have stop: "MRT_vtimer_stop v ?a = Inr ?b" using v(2) by (simp add: MRT_vtimer_stop_def Let_def)
  let ?c = "upd_rtflags p (\<lambda>w. CLR_BIT w MRT_SEM_DOWN) (upd_proc p (psem_update (\<lambda>_. None)) ?b)"
  have rdy: "MRT_is_rtready (procs ?c p)" using r(1) by (simp add: MRT_is_rtready_def CLR_BIT_def)
  have app: "MRT_ready p ?c = Inr (?c\<lparr>links := h2, rdyQ := X1\<rparr>)"
    using mv'(1) r(2) l by (simp add: MRT_rdyQ_app_def with_rdyQ_def)
  define s' where "s' = upd_sem i (\<lambda>m. m\<lparr>sm_ups := int32 (sm_ups m + 1), sm_value := int32 (sm_value m + 1)\<rparr>) (?c\<lparr>links := h2, rdyQ := X1\<rparr>)"
  have F: "links s' = h2" "rdyQ s' = X1" "sm_plist (SEM s' i) = Y1" "sm_value (SEM s' i) = sm_value (SEM s i) + 1"
    "prio s' x = prio s x" "sproc_level s' i x = sproc_level s i x" "psem (procs s' p) = None" for x
    using sem_inv_value(3)[OF inv] val by (simp_all add: s'_def sproc_level_def)
  have vb: "ipcvt (procs ?a p) = Some v" and fb: "\<not> TEST_BIT (sm_flags (SEM (upd_proc p (psem_update (\<lambda>_. None)) ?b) i)) SEM_MUTEX"
    using v(1) fl by simp_all
  have "semup_wake i p s = Inr (?c\<lparr>links := h2, rdyQ := X1\<rparr>)"
    by (simp only: semup_wake_def rmv bnd.simps vb deref_simps stop Let_def fb rdy app if_True if_False)
  then have up: "MRT_semup i s = Inr (OK, s')" unfolding MRT_semup_def s'_def using own val pick by simp
  have "sem_inv i s' (qs(l := qs l @ [LProc p])) (sq(m := remove1 p (sq m)))"
    by (rule sem_inv_wake[OF inv pm l]) (use mv' wf2 F in simp_all)
  moreover have "MRT_is_rtready (procs s' p)" using rdy by (simp add: s'_def)
  ultimately show ?thesis using up F by blast
qed

subsection \<open>Inheritance and the queue of a semaphore\<close>

text \<open>
  A removal from the wrong level: the level that really holds the object keeps its head and its bit.
\<close>

lemma plist_scan_unset:
  "\<not> TEST_BIT (pl_bitmap pl) (push_bit r 1) \<Longrightarrow> plist_scan (pl\<lparr>pl_list := (pl_list pl)(r := x), pl_inQ := n\<rparr>) ps = plist_scan pl ps"
  by (induction ps) auto

lemma plist_rmv_wrong_level:
  assumes rep: "pl_rep h pl qs" and k: "qs m = [k]" and r: "r < MRT_NR_PRTY" "qs r = []"
    and get: "first_of MRT_NR_PRTY qs = Some k" and two: "pl_total qs \<noteq> 1"
  shows "\<exists>h' pl'. MRT_plist_rmv h pl k r = Inr (h', pl') \<and> MRT_plist_get pl' = Some k \<and> lk_this (h' k) = lk_this (h k)"
proof -
  have m: "m < MRT_NR_PRTY" using pl_rep_level[OF rep, of k m] k by simp
  have links: "lk_prev (h k) = None" "lk_next (h k) = None" using pl_rep_dll[OF rep m] k by (simp_all add: dll_def)
  have empty: "ls_inQ (pl_list pl r) = 0" using pl_rep_dll[OF rep r(1)] r(2) by (simp add: dll_def)
  have bit: "\<not> TEST_BIT (pl_bitmap pl) (push_bit r 1)"
    using rep r by (simp add: TEST_BIT_pow MRT_NR_PRTY_def pl_rep_def)
  obtain h' x where rmv: "MRT_list_rmv h (pl_list pl r) k = Inr (h', x)" "ls_inQ x = - 1" "lk_this (h' k) = lk_this (h k)"
    using links empty by (simp add: MRT_list_rmv_def)
  let ?pl = "pl\<lparr>pl_list := (pl_list pl)(r := x), pl_inQ := pl_inQ pl - 1\<rparr>"
  have "MRT_plist_rmv h pl k r = Inr (h', ?pl)" using rmv r(1) by (simp add: MRT_plist_rmv_def Let_def)
  moreover have "pl_inQ pl \<noteq> 1" using rep two by (simp add: pl_rep_def)
  then have "MRT_plist_get ?pl = plist_scan ?pl [0..<MRT_NR_PRTY]" by (simp add: MRT_plist_get_def)
  moreover have "plist_scan ?pl [0..<MRT_NR_PRTY] = Some k"
    unfolding plist_scan_unset[OF bit] using plist_scan_rep[OF rep, of "[0..<MRT_NR_PRTY]"] get by (simp add: first_of_def atLeast0LessThan)
  ultimately show ?thesis using rmv(3) by auto
qed

text \<open>Process 5 runs at priority 3, and semaphore 0 is a counting semaphore with the value 0.\<close>

lemma sem_example:
  "\<exists>s. sem_inv 0 s ((\<lambda>_. [])(3 := [LProc 5])) (\<lambda>_. []) \<and> sm_owner (SEM s 0) = 5 \<and> sm_flags (SEM s 0) = 0
     \<and> sm_value (SEM s 0) = 0 \<and> proc_ptr s = 5 \<and> prio s 5 = 3"
proof -
  from MRT_plist_app_ok[OF plist0_rep, of 3 "LProc 5"] obtain h q where
    hq: "pl_rep h q ((\<lambda>_. [])(3 := [LProc 5]))" "heap_frame (insert (LProc 5) (members (\<lambda>_. []))) heap0 h"
    by (auto simp: MRT_NR_PRTY_def members_def)
  let ?s = "upd_sem 0 (\<lambda>m. m\<lparr>sm_owner := 5, sm_flags := 0, sm_value := 0\<rparr>)
      (set_rtprio 5 3 (kstate0\<lparr>links := h, rdyQ := q, proc_ptr := 5\<rparr>))"
  have "rdyQ_inv ?s ((\<lambda>_. [])(3 := [LProc 5]))" using hq(1) by (auto simp: rdyQ_inv_def isokprocn_def)
  moreover have "sem_rep ?s 0 (\<lambda>_. [])"
    using pl_rep_frame[OF plist0_rep hq(2)] wf_links_frame[OF hq(2)] by (simp add: sem_rep_def members_def zero_defs)
  moreover have "pl_total (\<lambda>_. [] :: int list) = 0" by (simp add: pl_total_def)
  ultimately have "sem_inv 0 ?s ((\<lambda>_. [])(3 := [LProc 5])) (\<lambda>_. [])" by (simp add: sem_inv_def members_def)
  then show ?thesis by (intro exI[of _ ?s]) simp
qed

text \<open>Process 5 waits on semaphore 0.\<close>

lemma sem_waiting_example:
  "\<exists>s. sem_inv 0 s (\<lambda>_. []) ((\<lambda>_. [])(0 := [5])) \<and> sm_owner (SEM s 0) = 6 \<and> sm_flags (SEM s 0) = 0
     \<and> sm_value (SEM s 0) = - 1 \<and> wakeable s 5"
proof -
  from MRT_plist_app_ok[OF plist0_rep, of 0 "LProc 5"] obtain h q where
    hq: "pl_rep h q ((\<lambda>_. [])(0 := [LProc 5]))" "heap_frame (insert (LProc 5) (members (\<lambda>_. []))) heap0 h"
    by (auto simp: MRT_NR_PRTY_def members_def)
  let ?s = "upd_sem 0 (\<lambda>m. m\<lparr>sm_owner := 6, sm_flags := 0, sm_value := - 1, sm_plist := q\<rparr>)
      (upd_proc 5 (ipcvt_update (\<lambda>_. Some 2)) (upd_rtflags 5 (\<lambda>_. MRT_SEM_DOWN) (set_rtprio 5 3 (kstate0\<lparr>links := h\<rparr>))))"
  have "rdyQ_inv ?s (\<lambda>_. [])"
    using pl_rep_frame[OF plist0_rep hq(2)] by (simp add: rdyQ_inv_def members_def zero_defs)
  moreover have "(\<lambda>p. map LProc (((\<lambda>_. [])(0 :: nat := [5])) p)) = (\<lambda>_. [])(0 := [LProc 5])" by auto
  then have "sem_rep ?s 0 ((\<lambda>_. [])(0 := [5]))"
    using hq(1) wf_links_frame[OF hq(2)] unfolding sem_rep_def by (simp del: fun_upd_apply add: fun_upd_same)
  moreover have "pl_total ((\<lambda>_. [])(0 := [5 :: int])) = 1"
    using pl_total_app[of 0 "\<lambda>_. []" "5 :: int"] by (simp add: pl_total_def MRT_NR_PRTY_def)
  ultimately have "sem_inv 0 ?s (\<lambda>_. []) ((\<lambda>_. [])(0 := [5]))"
    by (auto simp: sem_inv_def members_def sproc_level_def TEST_BIT_def isokprocn_def)
  moreover have "wakeable ?s 5" by (simp add: wakeable_def zero_defs MRT_NR_PRTY_def)
  ultimately show ?thesis by (intro exI[of _ ?s]) simp
qed

subsection \<open>Counting semaphores\<close>



text \<open>
  C12. Up on a counting semaphore, for an allocated semaphore that is no mutex and whose waiting processes wait for nothing
  else, with their timer stopped and no limit of activations. If nobody waits, the value is increased, unless it is the largest
  \<open>int\<close>: then it wraps around to the least one, and the next up finds a negative value and nobody waiting, and panics. If
  processes wait, the first one of the most urgent level of the queue of the semaphore, the one that has waited longest there, is
  taken off this queue and appended to the ready queue at its priority, the value is increased, and the number of waiting processes is
  again the value below 0.
\<close>

theorem semup_correct:
  assumes inv: "sem_inv i s qs sq" and own: "sm_owner (SEM s i) \<noteq> HARDWARE" and fl: "\<not> TEST_BIT (sm_flags (SEM s i)) SEM_MUTEX"
    and wake: "\<forall>p\<in>members sq. wakeable s p"
  shows "if sm_value (SEM s i) = 2 ^ 31 - 1
     then \<exists>s'. MRT_semup i s = Inr (OK, s') \<and> sm_value (SEM s' i) = - (2 ^ 31)
       \<and> MRT_semup i s' = Inl (Panic ''MRT_semup: value<0 but any process waiting on semaphore '')
     else if 0 \<le> sm_value (SEM s i)
     then \<exists>s'. MRT_semup i s = Inr (OK, s') \<and> sm_value (SEM s' i) = sm_value (SEM s i) + 1 \<and> sem_inv i s' qs sq
     else \<exists>p s'. first_of MRT_NR_PRTY sq = Some p \<and> MRT_semup i s = Inr (OK, s') \<and> sm_value (SEM s' i) = sm_value (SEM s i) + 1
       \<and> psem (procs s' p) = None \<and> MRT_is_rtready (procs s' p)
       \<and> sem_inv i s' (qs(prio s p := qs (prio s p) @ [LProc p])) (sq(sproc_level s i p := remove1 p (sq (sproc_level s i p))))"
proof (cases "0 \<le> sm_value (SEM s i)")
  case True
  let ?s' = "upd_sem i (\<lambda>m. m\<lparr>sm_ups := int32 (sm_ups m + 1), sm_value := int32 (sm_value m + 1)\<rparr>) s"
  have up: "MRT_semup i s = Inr (OK, ?s')" using own fl True by (simp add: MRT_semup_def)
  show ?thesis
  proof (cases "sm_value (SEM s i) = 2 ^ 31 - 1")
    case max: True
    have "pl_total sq = 0" using inv True by (simp add: sem_inv_def)
    then have none: "first_of MRT_NR_PRTY sq = None" by (auto simp: pl_total_0 first_of_None)
    have "sem_rep ?s' i sq" using inv by (simp add: sem_inv_def sem_rep_def)
    from MRT_sproc_pick_ok[OF this] none have "MRT_sproc_pick i ?s' = Inr None" by simp
    moreover have v: "sm_value (SEM ?s' i) = - (2 ^ 31)" using max int32_max by simp
    moreover have "sm_owner (SEM ?s' i) \<noteq> HARDWARE" using own by simp
    ultimately have "MRT_semup i ?s' = Inl (Panic ''MRT_semup: value<0 but any process waiting on semaphore '')"
      unfolding MRT_semup_def[of i ?s'] by simp
    with up v max show ?thesis by auto
  next
    case False
    have "sem_inv i ?s' qs sq"
      using inv True False sem_inv_value(3)[OF inv False] by (auto simp: sem_inv_def rdyQ_inv_def sem_rep_def sproc_level_def)
    then show ?thesis using True False up sem_inv_value(3)[OF inv False] by auto
  qed
next
  case False
  then have v: "sm_value (SEM s i) < 0" by simp
  have "pl_total sq \<noteq> 0" using inv v by (simp add: sem_inv_def)
  then obtain p where p: "first_of MRT_NR_PRTY sq = Some p"
    by (cases "first_of MRT_NR_PRTY sq") (auto simp: pl_total_0 first_of_None)
  have "wakeable s p" using wake first_of_level(1)[OF inv p] by (auto simp: members_iff)
  then show ?thesis using semup_wakes[OF inv own v fl p _ _ _ _ refl refl] p False unfolding wakeable_def by auto
qed

theorem semup_correct_witness: "\<exists>s s'. sm_value (SEM s 0) = - 1 \<and> MRT_semup 0 s = Inr (OK, s') \<and> MRT_is_rtready (procs s' 5)"
proof -
  from sem_waiting_example obtain s where
    s: "sem_inv 0 s (\<lambda>_. []) ((\<lambda>_. [])(0 := [5]))" "sm_owner (SEM s 0) = 6" "sm_flags (SEM s 0) = 0"
      "sm_value (SEM s 0) = - 1" "wakeable s 5" by blast
  have "first_of MRT_NR_PRTY ((\<lambda>_. [])(0 := [5 :: int])) = Some 5"
    by (rule first_of_hit[of 0]) (simp_all add: MRT_NR_PRTY_def)
  then show ?thesis using semup_correct[OF s(1)] s by (auto simp: TEST_BIT_def members_def split: if_splits)
qed

text \<open>
  C13. A process that waits on a semaphore ordered by priority stays on the level of its old priority when
  it inherits a higher one. When it is then taken off the queue, the code looks on the level of the
  new priority: with another process waiting, the queue still has the process as its head, so the next
  up wakes it once more instead of the one that waits.
\<close>

theorem inherit_breaks_sem_queue:
  assumes inv: "sem_inv i s qs sq" and order: "TEST_BIT (sm_flags (SEM s i)) SEM_PRTYORDER" and bpip: "svflag s MRT_BPIP"
    and p: "first_of MRT_NR_PRTY sq = Some p" "sq (prio s p) = [p]" and two: "pl_total sq \<noteq> 1"
    and waits: "rt_flags (rt (procs s p)) = MRT_SEM_DOWN" "psem (procs s p) = Some i" "sm_carrier (SEM s i) = None"
    and np: "np < prio s p"
  shows "\<exists>s1 s2. MRT_inherit (int np) (Some p) s = Inr s1 \<and> prio s1 p = np
     \<and> MRT_sproc_rmv i p s1 = Inr s2 \<and> MRT_sproc_pick i s2 = Inr (Some p)"
proof -
  define w :: u8 where "w = word_of_int (int np)"
  have w: "unat w = np" using prio_set[OF np] by (simp add: w_def)
  let ?s1 = "set_rtprio p w s"
  have Y: "pl_rep (links s) (sm_plist (SEM s i)) (\<lambda>p. map LProc (sq p))" and wf: "wf_links (links s)"
    using inv by (simp_all add: sem_inv_def sem_rep_def)
  have "LProc p \<in> set (map LProc (sq (prio s p)))" using p(2) by simp
  from pl_rep_level[OF Y this] np have nl: "np < MRT_NR_PRTY" by simp
  have "sq np = []"
  proof -
    from p(1) obtain l ys where l: "sq l = p # ys" "\<forall>r<l. sq r = []" by (auto simp: first_of_Some)
    then have "p \<in> set (sq l)" by simp
    then have "l = prio s p" using inv order unfolding sem_inv_def sproc_level_def by auto
    then show ?thesis using l(2) np by simp
  qed
  have "\<not> MRT_is_rtready (procs s p)" "blocker ?s1 p = Inr None"
    using waits by (simp_all add: MRT_is_rtready_def blocker_def TEST_BIT_def)
  moreover have ilt: "int np < int (prio s p)" using np by (simp only: of_nat_less_iff)
  ultimately have inh: "MRT_inherit (int np) (Some p) s = Inr ?s1"
    using bpip ilt by (simp add: MRT_inherit_def numeral_eq_Suc w_def)
  have lev: "sproc_level ?s1 i p = np" using order w by (simp add: sproc_level_def)
  obtain h' pl' where
    rmv: "MRT_plist_rmv (links s) (sm_plist (SEM s i)) (LProc p) np = Inr (h', pl')" "MRT_plist_get pl' = Some (LProc p)"
      "lk_this (h' (LProc p)) = lk_this (links s (LProc p))"
    using plist_rmv_wrong_level[OF Y, of "prio s p" "LProc p" np] p nl \<open>sq np = []\<close> two first_of_map[of MRT_NR_PRTY LProc sq]
    by (auto simp: pl_total_def)
  let ?s2 = "upd_sem i (sm_plist_update (\<lambda>_. pl')) (?s1\<lparr>links := h'\<rparr>)"
  have "pl_inQ (sm_plist (SEM s i)) \<noteq> 0"
    using Y p(2) pl_rep_level[OF Y, of "LProc p" "prio s p"] by (auto simp: pl_rep_def pl_total_0)
  then have "MRT_sproc_rmv i p ?s1 = Inr ?s2" using rmv(1) lev by (simp add: MRT_sproc_rmv_def with_sem_plist_def)
  moreover have "MRT_sproc_pick i ?s2 = Inr (Some p)" using rmv(2,3) wf by (simp add: MRT_sproc_pick_def wf_links_def)
  ultimately show ?thesis using inh w by (intro exI[of _ ?s1] exI[of _ ?s2]) simp
qed

theorem inherit_breaks_sem_queue_witness:
  "\<exists>s s1 s2. MRT_inherit 1 (Some 5) s = Inr s1 \<and> MRT_sproc_rmv 0 5 s1 = Inr s2 \<and> MRT_sproc_pick 0 s2 = Inr (Some 5)"
proof -
  from MRT_plist_app_ok[OF plist0_rep, of 3 "LProc 5"] obtain h q where
    hq: "pl_rep h q ((\<lambda>_. [])(3 := [LProc 5]))" "heap_frame {LProc 5} heap0 h"
    by (auto simp: MRT_NR_PRTY_def members_def)
  from MRT_plist_app_ok[OF hq(1), of 7 "LProc 6"] obtain h' q' where
    hq': "pl_rep h' q' ((\<lambda>_. [])(3 := [LProc 5], 7 := [LProc 6]))" "heap_frame {LProc 6} h h'"
    by (auto simp: MRT_NR_PRTY_def members_def)
  let ?sq = "(\<lambda>_. [])(3 :: nat := [5 :: int], 7 := [6])"
  let ?s = "upd_sem 0 (\<lambda>m. m\<lparr>sm_owner := 4, sm_flags := SEM_PRTYORDER, sm_value := - 2, sm_plist := q', sm_carrier := None\<rparr>)
      (upd_proc 5 (psem_update (\<lambda>_. Some 0)) (upd_rtflags 5 (\<lambda>_. MRT_SEM_DOWN) (set_rtprio 5 3 (set_rtprio 6 7
        (set_svflag MRT_BPIP (kstate0\<lparr>links := h'\<rparr>))))))"
  have fr: "heap_frame ({LProc 5} \<union> {LProc 6}) heap0 h'" by (rule heap_frame_trans[OF hq(2) hq'(2)])
  have "rdyQ_inv ?s (\<lambda>_. [])" using pl_rep_frame[OF plist0_rep fr] by (simp add: rdyQ_inv_def members_def zero_defs)
  moreover have "(\<lambda>p. map LProc (?sq p)) = (\<lambda>_. [])(3 := [LProc 5], 7 := [LProc 6])" by auto
  then have "sem_rep ?s 0 ?sq" using hq'(1) wf_links_frame[OF fr] unfolding sem_rep_def by (simp del: fun_upd_apply add: fun_upd_same)
  moreover have t: "pl_total ?sq = 2"
    using pl_total_app[of 7 "(\<lambda>_. [])(3 := [5])" "6 :: int"] pl_total_app[of 3 "\<lambda>_. []" "5 :: int"]
    by (simp add: pl_total_def MRT_NR_PRTY_def)
  ultimately have i: "sem_inv 0 ?s (\<lambda>_. []) ?sq"
    by (auto simp: sem_inv_def members_def sproc_level_def TEST_BIT_def isokprocn_def)
  have fo: "first_of MRT_NR_PRTY ?sq = Some 5" by (rule first_of_hit[of 3]) (simp_all add: MRT_NR_PRTY_def)
  have pre: "TEST_BIT (sm_flags (SEM ?s 0)) SEM_PRTYORDER" "svflag ?s MRT_BPIP" "?sq (prio ?s 5) = [5]" "pl_total ?sq \<noteq> 1"
    "rt_flags (rt (procs ?s 5)) = MRT_SEM_DOWN" "psem (procs ?s 5) = Some 0" "sm_carrier (SEM ?s 0) = None" "1 < prio ?s 5"
    using t by (simp_all add: TEST_SET_same TEST_BIT_def[of 1])
  from inherit_breaks_sem_queue[OF i pre(1,2) fo pre(3-8)] show ?thesis unfolding of_nat_1 by blast
qed

end
