(* ===== verification/Proc.thy ===== *)
theory Proc
  imports Ipc Sem
begin

text \<open>
  The life of a real-time process, \<^verbatim>\<open>src/src/kernel/mrtproc.c\<close>: becoming real-time, leaving
  it, sleeping and being woken up, and the kernel call \<open>rtk_call\<close> by which a process reaches
  these and the message and semaphore operations.
\<close>

subsection \<open>Becoming a real-time process\<close>

text \<open>
  The test \<open>if (rp->pvt = NULL)\<close> assigns: the timer just allocated is forgotten and NULL is
  what \<open>MRT_vtimer_ins\<close> is called with.
\<close>

definition rtk_set2rt :: "kstate \<Rightarrow> (int \<times> kstate) res" where
  "rtk_set2rt s =
     (let rp = proc_ptr s
      in if MRT_is_realtime (procs s rp) then ret E_MRT_BADPTYPE s
         else if ls_inQ (freeQ (tm s)) = 0 then ret E_MRT_NOVTIMER s
         else if ls_inQ (freeQ (tm s)) = 1 \<and> MRT_is_periodic (procs s rp) then ret E_MRT_NOVTIMER s
         else if ls_inQ (mqeL (sm s)) = 0 then ret E_MRT_NOMSGQ s
         else
           bnd (MRT_msgQ_alloc (sint (mqa_size (mq (procs s rp)))) (mqa_flags (mq (procs s rp))) rp s) (\<lambda>(q, s).
           let s = upd_proc rp (pmq_update (\<lambda>_. q)) s
           in if q = None then Inl (Panic ''rtk_set2rt: a MQ must be free for proc'')
           else
             bnd (VTALLOC 1 0 0 0 rp (rt_priority (rt (procs s rp))) s) (\<lambda>(v, s).
             let s = upd_proc rp (ipcvt_update (\<lambda>_. v)) s
             in if v = None then Inl (Panic ''rtk_set2rt: a VT for IPC must be free for proc'')
             else
               bnd (if MRT_is_periodic (procs s rp)
                    then
                      bnd (VTALLOC (rt_period (rt (procs s rp))) (rt_limit (rt (procs s rp))) 9 0 rp
                             (rt_priority (rt (procs s rp))) s) (\<lambda>(v, s).
                      let s = upd_proc rp (pvt_update (\<lambda>_. v)) s;
                          s = upd_proc rp (pvt_update (\<lambda>_. None)) s;
                          s = upd_rtflags rp (\<lambda>w. SET_BIT w MRT_P_SLEEP) s
                      in bnd (deref (pvt (procs s rp))) (\<lambda>v. MRT_vtimer_ins v s))
                    else Inr s) (\<lambda>s.
               bnd (lock_unready rp s) (\<lambda>s.
               bnd (MRT_ready rp (upd_proc rp (p_flags_update (\<lambda>w. SET_BIT w MRT_P_REALTIME)) s)) (\<lambda>s.
               ret OK s))))))"

subsection \<open>Leaving real time\<close>

definition stop_and_free :: "(proc_t \<Rightarrow> nat option) \<Rightarrow> ((nat option \<Rightarrow> nat option) \<Rightarrow> proc_t \<Rightarrow> proc_t) \<Rightarrow> int \<Rightarrow> kstate \<Rightarrow> kstate res" where
  "stop_and_free sel upd rp s =
     (case sel (procs s rp) of
        None \<Rightarrow> Inr s
      | Some v \<Rightarrow>
          bnd (MRT_vtimer_stop v s) (\<lambda>s.
          bnd (MRT_vtimer_free v s) (\<lambda>s.
          Inr (upd_proc rp (upd (\<lambda>_. None)) s))))"

text \<open>The message to the watchdog of the process, and those to the processes it watches.\<close>

definition tell_watchdog :: "int \<Rightarrow> kstate \<Rightarrow> kstate res" where
  "tell_watchdog rp s =
     bnd (proc_addr (rt_watchdog (rt (procs s rp)))) (\<lambda>w.
     if rt_watchdog (rt (procs s rp)) \<noteq> HARDWARE \<and> MRT_is_realtime (procs s w)
     then bnd (MRT_ksend rp w (int (prio s rp)) MT_KRNPROC s) (\<lambda>(_, s). Inr s)
     else Inr s)"

definition tell_watched :: "int \<Rightarrow> kstate \<Rightarrow> kstate res" where
  "tell_watched rp s =
     foldM (\<lambda>p s.
       if rp = rt_watchdog (rt (procs s p)) \<and> MRT_is_realtime (procs s p)
       then
         let s = upd_proc p (rt_update (rt_watchdog_update (\<lambda>_. HARDWARE))) s
         in bnd (MRT_ksend rp p (int (prio s p)) MT_KRNWDOG s) (\<lambda>(_, s). Inr s)
       else Inr s) [- NR_TASKS .. - NR_TASKS + NR_PROCS - 1] s"

definition clear_irq_watchdogs :: "int \<Rightarrow> kstate \<Rightarrow> kstate" where
  "clear_irq_watchdogs rp s =
     fold (\<lambda>i s. if rp = iq_watchdog (irqtab (si s) i)
                 then upd_irqd i (iq_watchdog_update (\<lambda>_. HARDWARE)) s else s)
       [0..<NR_IRQ_VECTORS + NR_IRQ_SOFT] s"

text \<open>
  The loop that is meant to release the senders of the waiting messages. Its condition picks the
  first message of the queue and its body does not remove it.
\<close>

fun release_senders :: "nat \<Rightarrow> nat \<Rightarrow> kstate \<Rightarrow> kstate res" where
  "release_senders 0 q s = Inl Diverge"
| "release_senders (Suc n) q s =
     bnd (MRT_mqe_pick q MRT_ANYPROC s) (\<lambda>eo.
     case eo of
       None \<Rightarrow> Inr s
     | Some e \<Rightarrow>
         bnd (proc_addr (pid_p_nr (mh_src (me_hdr (MQE s e))))) (\<lambda>sp.
         bnd (case ipcvt (procs s sp) of None \<Rightarrow> Inr s | Some v \<Rightarrow> MRT_vtimer_stop v s) (\<lambda>s.
         let s = upd_rtflags sp (\<lambda>w. CLR_BIT w MRT_MBX_SND) s;
             s = upd_proc sp (pto_update (\<lambda>_. None)) s
         in bnd (if MRT_is_rtready (procs s sp) then MRT_ready sp s else Inr s) (\<lambda>s.
            release_senders n q (set_retreg sp E_MRT_EXITING s)))))"

definition remove_sent :: "int \<Rightarrow> kstate \<Rightarrow> kstate res" where
  "remove_sent rp s =
     foldM (\<lambda>i s.
       if pid_p_nr (mh_src (me_hdr (MQE s i))) = rp
       then
         bnd (proc_addr (pid_p_nr (mh_dst (me_hdr (MQE s i))))) (\<lambda>d.
         bnd (deref (pmq (procs s d))) (\<lambda>q.
         bnd (MRT_mqe_rmv q i s) (\<lambda>s.
         MRT_mqe_free i (MRT_mqe_rst i s))))
       else Inr s) [0..<NR_MESSAGES] s"

abbreviation (input) release_fuel :: nat where "release_fuel \<equiv> 33"

definition MRT_set2nrt_fuel :: "nat \<Rightarrow> int \<Rightarrow> kstate \<Rightarrow> (int \<times> kstate) res" where
  "MRT_set2nrt_fuel n rp s =
     (if \<not> MRT_is_realtime (procs s rp) then ret E_MRT_BADPTYPE s
      else
        bnd (if MRT_is_rtready (procs s rp) then MRT_unready rp s else Inr s) (\<lambda>s.
        bnd (stop_and_free pvt pvt_update rp s) (\<lambda>s.
        bnd (stop_and_free ipcvt ipcvt_update rp s) (\<lambda>s.
        bnd (tell_watchdog rp s) (\<lambda>s.
        bnd (tell_watched rp s) (\<lambda>s.
        let s = clear_irq_watchdogs rp s
        in bnd (case pmq (procs s rp) of
                  None \<Rightarrow> Inr s
                | Some q \<Rightarrow>
                    bnd (release_senders n q s) (\<lambda>s.
                    bnd (MRT_msgQ_free q s) (\<lambda>s.
                    Inr (upd_proc rp (pmq_update (\<lambda>_. None)) s)))) (\<lambda>s.
           bnd (remove_sent rp s) (\<lambda>s.
           bnd (if ls_inQ (slockL (procs s rp)) \<noteq> 0 then MRT_sem_unlock rp s else Inr s) (\<lambda>s.
           bnd (if ls_inQ (sallocL (procs s rp)) \<noteq> 0 then MRT_sem_empty rp s else Inr s) (\<lambda>s.
           let s = upd_rtflags rp (\<lambda>_. 0) s;
               s = upd_proc rp (p_flags_update (\<lambda>w. CLR_BIT w MRT_P_REALTIME)) s
           in bnd (if p_flags (procs s rp) = 0 then lock_ready rp s else Inr s) (\<lambda>s.
              ret OK s)))))))))))"

definition MRT_set2nrt :: "int \<Rightarrow> kstate \<Rightarrow> (int \<times> kstate) res" where
  "MRT_set2nrt = MRT_set2nrt_fuel release_fuel"

definition rtk_set2nrt :: "kstate \<Rightarrow> (int \<times> kstate) res" where
  "rtk_set2nrt s = MRT_set2nrt (proc_ptr s) s"

subsection \<open>Sleeping and waking up\<close>

text \<open>
  The third argument of the link reset is the address of the pointer \<open>rp->ipcvt\<close>, not the timer
  it points to.
\<close>

definition MRT_sleep :: "int \<Rightarrow> u32 \<Rightarrow> kstate \<Rightarrow> (int \<times> kstate) res" where
  "MRT_sleep rp timeout s =
     (if \<not> MRT_is_realtime (procs s rp) then ret E_MRT_BADPTYPE s
      else if timeout = MRT_NOWAIT then ret OK s
      else
        bnd (if timeout \<noteq> MRT_FOREVER
             then
               bnd (deref (ipcvt (procs s rp))) (\<lambda>v.
               let s = upd_vt v (\<lambda>t. t\<lparr>vt_nextexp := 0, vt_flags := VT_ALLOC\<rparr>) s;
                   s = s\<lparr>links := MRT_link_rst (LVT v) (OIpcvtField rp) MRT_OBJVT (links s)\<rparr>
               in VTSET (ipcvt (procs s rp)) timeout 1 7 0 (rt_priority (rt (procs s rp))) s)
             else Inr s) (\<lambda>s.
        bnd (MRT_unready rp (upd_rtflags rp (\<lambda>w. SET_BIT w MRT_P_SLEEP) s)) (\<lambda>s.
        ret OK s)))"

definition MRT_wakeup :: "int \<Rightarrow> kstate \<Rightarrow> (int \<times> kstate) res" where
  "MRT_wakeup rp s =
     bnd (deref (ipcvt (procs s rp))) (\<lambda>v.
     bnd (MRT_vtimer_stop v s) (\<lambda>s.
     if \<not> TEST_BIT (rt_flags (rt (procs s rp))) MRT_P_SLEEP
     then
       bnd (if rt_watchdog (rt (procs s rp)) \<noteq> HARDWARE
            then bnd (MRT_ksend (proc_ptr s) (rt_watchdog (rt (procs s rp))) (int (prio s rp)) MT_KRNDLINE s)
                   (\<lambda>(_, s). Inr s)
            else Inr s) (\<lambda>s. ret E_MRT_UNSLEEP s)
     else
       let s = upd_rtflags rp (\<lambda>w. CLR_BIT w MRT_P_SLEEP) s
       in if \<not> MRT_is_rtready (procs s rp) then ret E_MRT_UNREADY s
          else bnd (MRT_ready rp s) (\<lambda>s. ret OK s)))"

definition rtk_sleep :: "u32 \<Rightarrow> kstate \<Rightarrow> (int \<times> kstate) res" where
  "rtk_sleep parm s =
     copy_or_einval (USR2KRN um_long sizeof_long s (proc_ptr s) parm) s (\<lambda>timeout.
     MRT_sleep (proc_ptr s) timeout s)"

definition rtk_wakeup :: "u32 \<Rightarrow> kstate \<Rightarrow> (int \<times> kstate) res" where
  "rtk_wakeup parm s =
     copy_or_einval (USR2KRN um_pid sizeof_mrtpid s (proc_ptr s) parm) s (\<lambda>m.
     bnd (proc_addr (pid_p_nr m)) (\<lambda>rp.
     if \<not> MRT_is_process (procs s rp) then ret E_BAD_PROC s
     else if p_pid (procs s rp) \<noteq> pid_pid m then ret E_BAD_PROC s
     else if \<not> MRT_is_realtime (procs s rp) then ret E_MRT_BADPTYPE s
     else MRT_wakeup rp s))"

text \<open>The text goes to the console, which is not part of the state.\<close>

definition rtk_print :: "u32 \<Rightarrow> kstate \<Rightarrow> (int \<times> kstate) res" where
  "rtk_print parm s = (if numap s (proc_ptr s) parm 80 = 0 then ret EINVAL s else ret OK s)"

definition rtk_semup :: "u32 \<Rightarrow> kstate \<Rightarrow> (int \<times> kstate) res" where
  "rtk_semup parm s =
     copy_or_einval (USR2KRN um_int sizeof_int s (proc_ptr s) parm) s (\<lambda>semid.
     bnd (sem_addr semid) (\<lambda>i. MRT_semup i s))"

definition rtk_semdown :: "u32 \<Rightarrow> kstate \<Rightarrow> (int \<times> kstate) res" where
  "rtk_semdown parm s =
     copy_or_einval (USR2KRN um_down sizeof_down s (proc_ptr s) parm) s (\<lambda>dw.
     bnd (sem_addr (dw_index dw)) (\<lambda>i. MRT_semdown i (dw_timeout dw) s))"

subsection \<open>The kernel call\<close>

text \<open>The table \<open>MRT_kernel[]\<close>, for the IPC calls and for the others.\<close>

definition MRT_kernel_ipc :: "int \<Rightarrow> mrt_ipc_t \<Rightarrow> kstate \<Rightarrow> (int \<times> kstate) res" where
  "MRT_kernel_ipc nr ipc s =
     (if nr = 5 then rtk_rqst ipc s else if nr = 6 then rtk_reply ipc s
      else if nr = 7 then rtk_arqst ipc s else if nr = 8 then rtk_uprqst ipc s
      else if nr = 9 then rtk_sign ipc s else if nr = 10 then rtk_receive ipc s
      else rtk_rqrcv ipc s)"

definition MRT_kernel_other :: "int \<Rightarrow> u32 \<Rightarrow> kstate \<Rightarrow> (int \<times> kstate) res" where
  "MRT_kernel_other nr parm s =
     (if nr = 0 then rtk_set2rt s else if nr = 1 then rtk_set2nrt s
      else if nr = 2 then rtk_sleep parm s else if nr = 3 then rtk_wakeup parm s
      else if nr = 4 then rtk_print parm s else if nr = 12 then rtk_semup parm s
      else rtk_semdown parm s)"

definition rtk_call :: "int \<Rightarrow> u32 \<Rightarrow> kstate \<Rightarrow> (int \<times> kstate) res" where
  "rtk_call rtk_nr parm s =
     (if \<not> svflag s MRT_RTMODE then ret E_MRT_NORTMODE s
      else if rtk_nr \<noteq> 0 \<and> \<not> MRT_is_realtime (procs s (proc_ptr s)) then ret E_MRT_BADPTYPE s
      else if rtk_nr < 0 \<or> rtk_nr \<ge> 14 then ret E_BAD_FCN s
      else
        let go = (\<lambda>m. bnd m (\<lambda>(rcode, s). bnd (lock_pick_proc s) (\<lambda>s. ret rcode s)))
        in if 5 \<le> rtk_nr \<and> rtk_nr \<le> 11
           then copy_or_einval (USR2KRN um_ipc sizeof_ipc s (proc_ptr s) parm) s (\<lambda>ipc.
                go (MRT_kernel_ipc rtk_nr ipc s))
           else go (MRT_kernel_other rtk_nr parm s))"

subsection \<open>The idle process\<close>

definition MRT_idle_init :: "kstate \<Rightarrow> kstate" where
  "MRT_idle_init s =
     upd_counter (\<lambda>c. c\<lparr>ct_idlelast := 0, ct_idlemax := 1\<rparr>) (sv_update (idlecount_update (\<lambda>_. 0)) s)"

text \<open>The handler has no return statement; the value it returns is \<open>r\<close>.\<close>

definition MRT_idle_handler :: "int \<Rightarrow> kstate \<Rightarrow> (int \<times> kstate) res" where
  "MRT_idle_handler r s =
     (let s = upd_counter (ct_idlelast_update (\<lambda>_. idlecount (sv s))) s;
          s = sv_update (idlecount_update (\<lambda>_. 0)) s
      in ret r (upd_counter (\<lambda>c. c\<lparr>ct_idlemax := max (ct_idlelast c) (ct_idlemax c)\<rparr>) s))"

end
