(* ===== verification/Irq.thy ===== *)
theory Irq
  imports Proc
begin

text \<open>
  Interrupts, \<^verbatim>\<open>src/src/kernel/mrtirq.c\<close>: the descriptors and their queues, running a handler
  at the priority of its descriptor, and the virtual interrupt flag of MINIX.

  The handlers themselves belong to the drivers and the clock task. They are a parameter
  \<open>hnd\<close> of the operations that run them: \<open>hnd h irq s\<close> is the value the handler \<open>h\<close> returns and
  the state it leaves.
\<close>

type_synonym handlers = "handler \<Rightarrow> int \<Rightarrow> kstate \<Rightarrow> (int \<times> kstate) res"

abbreviation IRQD :: "kstate \<Rightarrow> nat \<Rightarrow> irqd_t" where "IRQD s d \<equiv> irqtab (si s) d"

text \<open>Flags of a descriptor and bits of its type.\<close>

abbreviation (input) MRT_ENQUEUED :: u32 where "MRT_ENQUEUED \<equiv> 0x1"
abbreviation (input) MRT_DISABLED :: u32 where "MRT_DISABLED \<equiv> 0x2"
abbreviation (input) MRT_LATCALC :: u32 where "MRT_LATCALC \<equiv> 0x8"
abbreviation (input) MRT_TDTRIGGER :: u32 where "MRT_TDTRIGGER \<equiv> 0x10"
abbreviation (input) MRT_TASKLOCKED :: u32 where "MRT_TASKLOCKED \<equiv> 0x40"
abbreviation (input) MRT_HANDLOCKED :: u32 where "MRT_HANDLOCKED \<equiv> 0x80"
abbreviation (input) MRT_TASKWAIT :: u32 where "MRT_TASKWAIT \<equiv> 0x100"
abbreviation (input) MRT_HANDWAIT :: u32 where "MRT_HANDWAIT \<equiv> 0x200"
abbreviation (input) MRT_RTIRQ :: u8 where "MRT_RTIRQ \<equiv> 0x1"
abbreviation (input) MRT_TDIRQ :: u8 where "MRT_TDIRQ \<equiv> 0x2"
abbreviation (input) MRT_SOFTIRQ :: u8 where "MRT_SOFTIRQ \<equiv> 0x4"
abbreviation (input) MRT_ISTMSG :: u8 where "MRT_ISTMSG \<equiv> 0x8"
abbreviation (input) MRT_IRQ_DISABLED :: int where "MRT_IRQ_DISABLED \<equiv> 0"
abbreviation (input) MRT_IRQ_ENABLED :: int where "MRT_IRQ_ENABLED \<equiv> 1"

abbreviation iflag :: "kstate \<Rightarrow> nat \<Rightarrow> u32 \<Rightarrow> bool" where
  "iflag s d b \<equiv> TEST_BIT (iq_flags (IRQD s d)) b"
abbreviation itype :: "kstate \<Rightarrow> nat \<Rightarrow> u8 \<Rightarrow> bool" where
  "itype s d b \<equiv> TEST_BIT (iq_irqtype (IRQD s d)) b"
abbreviation set_iflag :: "nat \<Rightarrow> u32 \<Rightarrow> kstate \<Rightarrow> kstate" where
  "set_iflag d b \<equiv> upd_irqd d (iq_flags_update (\<lambda>w. SET_BIT w b))"
abbreviation clr_iflag :: "nat \<Rightarrow> u32 \<Rightarrow> kstate \<Rightarrow> kstate" where
  "clr_iflag d b \<equiv> upd_irqd d (iq_flags_update (\<lambda>w. CLR_BIT w b))"

definition with_irqQ :: "(heap \<Rightarrow> plist_t \<Rightarrow> (heap \<times> plist_t) res) \<Rightarrow> kstate \<Rightarrow> kstate res" where
  "with_irqQ f s =
     bnd (f (links s) (irqQ (si s))) (\<lambda>(h, q). Inr (si_update (irqQ_update (\<lambda>_. q)) (s\<lparr>links := h\<rparr>)))"

definition with_mnxQ :: "(heap \<Rightarrow> list_t \<Rightarrow> (heap \<times> list_t) res) \<Rightarrow> kstate \<Rightarrow> kstate res" where
  "with_mnxQ f s =
     bnd (f (links s) (mnxQ (si s))) (\<lambda>(h, l). Inr (si_update (mnxQ_update (\<lambda>_. l)) (s\<lparr>links := h\<rparr>)))"

subsection \<open>Queueing a descriptor\<close>

text \<open>The counter of timer 2 as \<open>MRT_irqd_enQ\<close> and \<open>MRT_do_handler\<close> read it.\<close>

definition read_back2 :: "kstate \<Rightarrow> u32 \<times> kstate" where
  "read_back2 s =
     (let s = out_byte TIMER_MODE 0xD8 s;
          (lo, s) = in_byte s;
          (hi, s) = in_byte s
      in (lo OR push_bit 8 hi, s))"

definition missed_deadline :: "nat \<Rightarrow> kstate \<Rightarrow> kstate res" where
  "missed_deadline d s =
     (let s = upd_irqd d (iq_mdl_update (\<lambda>n. n + 1)) s
      in if iq_watchdog (IRQD s d) \<noteq> HARDWARE
         then bnd (MRT_ksend HARDWARE (iq_watchdog (IRQD s d)) (int (unat (iq_priority (IRQD s d)))) MT_KRNDLINE s)
                (\<lambda>(_, s). Inr s)
         else Inr s)"

definition MRT_irqd_enQ :: "nat \<Rightarrow> kstate \<Rightarrow> kstate res" where
  "MRT_irqd_enQ d s =
     (if iflag s d MRT_ENQUEUED then missed_deadline d s
      else if iflag s d MRT_DISABLED then Inr s
      else
        let s = set_svflag MRT_NEWINT s
        in if \<not> itype s d MRT_RTIRQ
              \<and> (TEST_BIT (virtual_PIC (sv s)) (push_bit (nat (iq_irq (IRQD s d))) 1) \<or> svflag s MRT_MINIXCLI)
           then with_mnxQ (\<lambda>h l. MRT_list_app h l (LIrqd d)) s
           else
             let s = (if itype s d MRT_SOFTIRQ \<and> svflag s MRT_LATENCY \<and> iflag s d MRT_LATCALC
                      then let (b, s) = read_back2 s in upd_irqd d (iq_before_update (\<lambda>_. b)) s
                      else s);
                 s = set_iflag d MRT_ENQUEUED s
             in with_irqQ (\<lambda>h q. MRT_plist_app h q (LIrqd d) (unat (iq_priority (IRQD s d)))) s)"

definition MRT_irqd_deQ :: "nat \<Rightarrow> kstate \<Rightarrow> kstate res" where
  "MRT_irqd_deQ d s =
     (if \<not> iflag s d MRT_ENQUEUED then Inl (Panic ''MRT_irqd_deQ: interrupt descriptor was not enqueued '')
      else
        bnd (with_irqQ (\<lambda>h q. MRT_plist_rmv h q (LIrqd d) (unat (iq_priority (IRQD s d)))) s) (\<lambda>s.
        Inr (clr_iflag d MRT_ENQUEUED s)))"

subsection \<open>Software interrupts\<close>

definition MRT_softirq_alloc :: "kstate \<Rightarrow> int \<times> kstate" where
  "MRT_softirq_alloc s =
     (case List.find (\<lambda>i. \<not> TEST_BIT (push_bit i 1) (soft_use (si s))) [0..<NR_IRQ_SOFT] of
        None \<Rightarrow> (E_MRT_NOSOFTIRQ, s)
      | Some i \<Rightarrow> (int (i + NR_IRQ_VECTORS), si_update (soft_use_update (\<lambda>w. SET_BIT w (push_bit i 1))) s))"

text \<open>The bound accepts the number after the last one.\<close>

definition MRT_softirq_free :: "int \<Rightarrow> kstate \<Rightarrow> kstate res" where
  "MRT_softirq_free irq s =
     (let i = irq - int NR_IRQ_VECTORS
      in if i < 0 \<or> i > int NR_IRQ_SOFT then Inl (Panic ''invalid soft irq number in MRT_softirq_free'')
         else Inr (si_update (soft_use_update (\<lambda>w. CLR_BIT w (push_bit (nat i) 1))) s))"

subsection \<open>Descriptors\<close>

definition MRT_irqname :: "string list" where
  "MRT_irqname = [''TIMER'', ''KEYBOARD'', ''PIC-CASCADE'', ''SERIAL-PORT-2'', ''SERIAL-PORT-1'', ''FREE'',
     ''DISKETTE'', ''PARALLEL-PORT'', ''FREE'', ''FREE'', ''FREE'', ''FREE'', ''FREE'', ''FREE'', ''HARD-DISK'',
     ''FREE'']"

definition irqd_clrstat :: "nat \<Rightarrow> kstate \<Rightarrow> kstate" where
  "irqd_clrstat d = upd_irqd d (\<lambda>i. i\<lparr>iq_count := 0, iq_maxshower := 0, iq_mdl := 0, iq_timestamp := 0,
     iq_maxlat := 0, iq_reenter := 0\<rparr>)"

definition MRT_irqd_clr :: "nat \<Rightarrow> kstate \<Rightarrow> kstate" where
  "MRT_irqd_clr d s =
     (let s = irqd_clrstat d s;
          s = upd_irqd d (\<lambda>i. i\<lparr>iq_latency := 0, iq_shower := 0, iq_before := 0, iq_flags := 0\<rparr>) s
      in s\<lparr>links := MRT_link_rst (LIrqd d) (OIrqd d) MRT_OBJIRQD (links s)\<rparr>)"

definition MRT_irqd_rst :: "nat \<Rightarrow> kstate \<Rightarrow> kstate res" where
  "MRT_irqd_rst d s =
     (let i = iq_irq (IRQD s d);
          s = upd_irqd d (\<lambda>q. q\<lparr>iq_rthandler := H_spurious_irq, iq_nrthandler := H_spurious_irq,
                iq_harmonic := 1, iq_period := 0, iq_task := HARDWARE, iq_watchdog := HARDWARE,
                iq_priority := MRT_PRILOWEST, iq_pvt := None\<rparr>) s;
          s = MRT_irqd_clr d s
      in if i < int NR_IRQ_VECTORS
         then chk (0 \<le> i) OutOfBounds
                (Inr (upd_irqd d (\<lambda>q. q\<lparr>iq_irqtype := 0, iq_name := take 15 (MRT_irqname ! nat i)\<rparr>) s))
         else Inr (upd_irqd d (\<lambda>q. q\<lparr>iq_irqtype := MRT_SOFTIRQ, iq_name := ''SOFTIRQ''\<rparr>) s))"

text \<open>
  Setting a descriptor. The source does not compile as it stands (\<open>task_ptr\<close> is declared without
  a semicolon and used once as \<open>taskt_ptr\<close>); the definition reads it with both repaired. The
  attributes come from a descriptor \<open>a\<close> of the caller.
\<close>

definition set_masks :: "nat \<Rightarrow> nat \<Rightarrow> (nat \<Rightarrow> u32) \<Rightarrow> nat \<Rightarrow> u32" where
  "set_masks irq p m =
     (let m = fold (\<lambda>r m. m(p := m p OR m r)) [0..<p] m
      in fold (\<lambda>r m. m(r := SET_BIT (m r) (push_bit irq 1))) [p..<MRT_NR_PRTY] m)"

definition MRT_irqd_set :: "int \<Rightarrow> irqd_t \<Rightarrow> kstate \<Rightarrow> kstate res" where
  "MRT_irqd_set irq a s =
     (if TEST_BIT (iq_irqtype a) MRT_SOFTIRQ \<and> (irq < int NR_IRQ_VECTORS \<or> irq \<ge> int (NR_IRQ_VECTORS + NR_IRQ_SOFT))
      then Inl (Panic ''MRT_irqd_set: invalid SOFTIRQ number'')
      else if \<not> TEST_BIT (iq_irqtype a) MRT_SOFTIRQ \<and> (irq < 0 \<or> irq \<ge> int NR_IRQ_VECTORS)
      then Inl (Panic ''MRT_irqd_set: invalid HARDIRQ number'')
      else if irq \<noteq> 0 \<and> iq_priority a \<le> MRT_PRIHIGHEST then Inr s
      else if iq_priority a > MRT_PRILOWEST then Inr s
      else
        let d = nat irq;
            s = (if TEST_BIT (iq_irqtype a) MRT_RTIRQ
                 then upd_irqd d (iq_rthandler_update (\<lambda>_. iq_rthandler a)) s
                 else upd_irqd d (iq_nrthandler_update (\<lambda>_. iq_nrthandler a)) s);
            s = upd_irqd d (\<lambda>q. q\<lparr>iq_flags := 0, iq_irq := irq\<rparr>) s
        in bnd (if iq_task a \<noteq> HARDWARE
                then
                  bnd (proc_addr (iq_task a)) (\<lambda>t.
                  if \<not> MRT_is_process (procs s t) then Inl (Panic ''MRT_irqd_set: invalid TASK number '')
                  else if \<not> MRT_is_realtime (procs s t) then Inl (Panic ''MRT_irqd_set: task is not realtime '')
                  else Inr (upd_irqd d (iq_task_update (\<lambda>_. iq_task a)) s,
                            SET_BIT (iq_irqtype a) (iq_irqtype a AND MRT_ISTMSG)))
                else Inr (s, CLR_BIT (iq_irqtype a) (iq_irqtype a AND MRT_ISTMSG))) (\<lambda>(s, ty).
           let s = upd_irqd d (iq_priority_update (\<lambda>_. iq_priority a)) s;
               s = (if irq < int NR_IRQ_VECTORS
                    then si_update (irqmask_update (set_masks d (unat (iq_priority a)))) s else s);
               s = upd_irqd d (\<lambda>q. q\<lparr>iq_irqtype := ty, iq_period := iq_period a, iq_name := take 15 (iq_name a)\<rparr>) s
           in Inr (if irq < int NR_IRQ_VECTORS then si_update (hard_use_update (\<lambda>w. SET_BIT w (push_bit d 1))) s else s)))"

definition MRT_irqd_free :: "nat \<Rightarrow> kstate \<Rightarrow> kstate res" where
  "MRT_irqd_free d s =
     bnd (if iq_irq (IRQD s d) \<ge> int NR_IRQ_VECTORS then MRT_softirq_free (iq_irq (IRQD s d)) s else Inr s)
       (MRT_irqd_rst d)"

definition MRT_irqQ_init :: "kstate \<Rightarrow> kstate" where
  "MRT_irqQ_init s =
     si_update (\<lambda>i. i\<lparr>irqQ := MRT_plist_rst (irqQ i), mnxQ := MRT_list_rst (mnxQ i),
                      irqmask := (\<lambda>p. if p < MRT_NR_PRTY then 0 else irqmask i p)\<rparr>) s"

subsection \<open>Running a handler\<close>

definition handler_latency :: "nat \<Rightarrow> kstate \<Rightarrow> kstate" where
  "handler_latency d s =
     (if svflag s MRT_LATENCY \<and> iflag s d MRT_LATCALC
      then
        let (after, s) = read_back2 s
        in upd_irqd d (\<lambda>q.
             let l = (if iq_before q > after then iq_before q - after else 0xFFFF - after + iq_before q)
             in q\<lparr>iq_latency := l, iq_maxlat := max l (iq_maxlat q)\<rparr>) s
      else s)"

definition MRT_do_handler :: "handlers \<Rightarrow> nat \<Rightarrow> kstate \<Rightarrow> kstate res" where
  "MRT_do_handler hnd d s =
     (let lvl = prtylvl (sv s); PICmask = real_PIC (sv s)
      in bnd (MRT_prtylvl_set (iq_priority (IRQD s d)) s) (\<lambda>s.
         let s = set_iflag d MRT_HANDLOCKED s
         in bnd (if \<not> itype s d MRT_RTIRQ then hnd (iq_nrthandler (IRQD s d)) (iq_irq (IRQD s d)) s
                 else
                   bnd (hnd (iq_rthandler (IRQD s d)) (iq_irq (IRQD s d)) s) (\<lambda>(r, s).
                   if itype s d MRT_ISTMSG
                   then bnd (MRT_ksend HARDWARE (iq_task (IRQD s d)) (int (unat (iq_priority (IRQD s d)))) MT_KRNIRQ s)
                          (\<lambda>(_, s). Inr (r, s))
                   else Inr (r, s))) (\<lambda>(retval, s).
            let s = clr_iflag d MRT_HANDLOCKED s;
                s = sv_update (real_PIC_update (\<lambda>_. PICmask)) s;
                s = (if retval = MRT_IRQ_ENABLED
                     then
                       let s = sv_update (real_PIC_update (\<lambda>w. CLR_BIT w (push_bit (nat (iq_irq (IRQD s d))) 1))) s
                       in if \<not> svflag s MRT_PRTYMASK then MRT_set_PIC (real_PIC (sv s)) s else s
                     else s)
            in bnd (MRT_prtylvl_set lvl s) (\<lambda>s.
               let s = handler_latency d s
               in bnd (if iflag s d MRT_TASKWAIT
                       then
                         let s = clr_iflag d MRT_TASKWAIT s;
                             s = set_iflag d MRT_TASKLOCKED s
                         in bnd (proc_addr (iq_task (IRQD s d))) (\<lambda>t.
                            bnd (MRT_ready t (upd_rtflags t (\<lambda>w. CLR_BIT w MRT_LOCK_WAIT) s)) (\<lambda>s.
                            Inr (set_svflag MRT_NEEDSCHED s)))
                       else Inr s) (\<lambda>s.
                  if itype s d MRT_SOFTIRQ
                  then Inr (upd_irqd d (\<lambda>q. q\<lparr>iq_count := iq_count q + 1, iq_timestamp := ticks s\<rparr>) s)
                  else if itype s d MRT_TDIRQ
                  then Inr (upd_irqd d (\<lambda>q. q\<lparr>iq_flags := CLR_BIT (iq_flags q) MRT_TDTRIGGER,
                              iq_maxshower := max (iq_maxshower q) (iq_shower q), iq_shower := 0\<rparr>) s)
                  else Inr s)))))"

subsection \<open>The virtual interrupt flag of MINIX\<close>

definition lock :: "kstate \<Rightarrow> kstate" where
  "lock s = set_svflag MRT_MINIXCLI s"

text \<open>The loop of \<open>unlock\<close>; a handler may queue descriptors again, so it has fuel.\<close>

fun unlock_loop :: "nat \<Rightarrow> handlers \<Rightarrow> kstate \<Rightarrow> kstate res" where
  "unlock_loop 0 hnd s = Inl Diverge"
| "unlock_loop (Suc n) hnd s =
     (case ls_first (mnxQ (si s)) of
        None \<Rightarrow> Inr s
      | Some k \<Rightarrow>
          bnd (with_mnxQ (\<lambda>h l. MRT_list_rmv h l k) s) (\<lambda>s.
          bnd (as_irqd (lk_this (links s k))) (\<lambda>d.
          bnd (MRT_do_handler hnd d s) (unlock_loop n hnd))))"

definition unlock :: "nat \<Rightarrow> handlers \<Rightarrow> kstate \<Rightarrow> kstate res" where
  "unlock n hnd s =
     (let s = clr_svflag MRT_MINIXCLI s
      in if svflag s MRT_RTMODE then unlock_loop n hnd s else Inr s)"

definition enable_irq :: "u32 \<Rightarrow> kstate \<Rightarrow> kstate res" where
  "enable_irq irq s =
     (let s = sv_update (virtual_PIC_update (\<lambda>w. CLR_BIT w (push_bit (unat irq) 1))) s
      in if \<not> svflag s MRT_RTMODE then Inr (MRT_set_irq irq s)
         else bnd (irqd_addr (uint irq)) (\<lambda>d. Inr (if \<not> itype s d MRT_RTIRQ then MRT_set_irq irq s else s)))"

text \<open>To disable the line, \<open>disable_irq\<close> calls \<open>MRT_set_irq\<close>, which enables it.\<close>

definition disable_irq :: "u32 \<Rightarrow> kstate \<Rightarrow> (int \<times> kstate) res" where
  "disable_irq irq s =
     (let s = sv_update (virtual_PIC_update (\<lambda>w. SET_BIT w (push_bit (unat irq) 1))) s
      in if \<not> svflag s MRT_RTMODE then Inr (1, MRT_set_irq irq s)
         else bnd (irqd_addr (uint irq)) (\<lambda>d. Inr (1, if \<not> itype s d MRT_RTIRQ then MRT_set_irq irq s else s)))"

subsection \<open>Locking a descriptor\<close>

definition lockable :: "u32 \<Rightarrow> bool" where
  "lockable irq \<longleftrightarrow> NR_IRQ_VECTORS \<le> unat irq \<and> unat irq < NR_IRQ_VECTORS + NR_IRQ_SOFT"

definition MRT_irqd_lock :: "u32 \<Rightarrow> kstate \<Rightarrow> kstate res" where
  "MRT_irqd_lock irq s =
     (if \<not> lockable irq then Inl (Panic ''MRT_irqd_lock: invalid IRQ number'')
      else
        let d = unat irq
        in if iflag s d MRT_HANDLOCKED
           then MRT_unready (proc_ptr s) (upd_rtflags (proc_ptr s) (\<lambda>w. SET_BIT w MRT_LOCK_WAIT) (set_iflag d MRT_TASKWAIT s))
           else Inr s)"

definition MRT_irqd_unlock :: "handlers \<Rightarrow> u32 \<Rightarrow> kstate \<Rightarrow> kstate res" where
  "MRT_irqd_unlock hnd irq s =
     (if \<not> lockable irq then Inl (Panic ''MRT_irqd_lock: invalid IRQ number'')
      else
        let d = unat irq;
            s = clr_iflag d MRT_TASKLOCKED s
        in if iflag s d MRT_HANDWAIT
           then MRT_do_handler hnd d (set_iflag d MRT_HANDLOCKED (clr_iflag d MRT_HANDWAIT s))
           else Inr s)"

subsection \<open>Interrupt masks by priority\<close>

lemma fold_or_below:
  "bit (fold (\<lambda>r m. m(p := m p OR m r)) [0..<n] m q) i
     \<longleftrightarrow> bit (m q :: u32) i \<or> (q = p \<and> (\<exists>r<n. bit (m r) i))" if "n \<le> p"
  using that
proof (induction n arbitrary: q)
  case (Suc n)
  then show ?case by (auto simp: bit_or_iff less_Suc_eq)
qed simp

lemma fold_set_above:
  "bit (fold (\<lambda>r m. m(r := SET_BIT (m r) (push_bit irq 1))) [p..<n] m q) i
     \<longleftrightarrow> bit (m q :: u32) i \<or> (p \<le> q \<and> q < n \<and> i = irq)" if "irq < 32"
proof (induction n)
  case (Suc n)
  then show ?case
    using that by (cases "p \<le> n") (auto simp: push_bit_of_1 bit_SET_BIT_pow less_Suc_eq)
qed simp

lemma bit_set_masks:
  "irq < 32 \<Longrightarrow> bit (set_masks irq p m q) i
     \<longleftrightarrow> bit (m q) i \<or> (q = p \<and> (\<exists>r<p. bit (m r) i)) \<or> (p \<le> q \<and> q < MRT_NR_PRTY \<and> i = irq)"
  by (simp only: set_masks_def Let_def fold_set_above fold_or_below[OF order_refl] disj_assoc)

text \<open>
  A permitted registration of a hardware line, what a list of registrations asks for: the line
  \<open>i\<close> is served at the level \<open>q\<close>, and masks that grant exactly that.
\<close>

definition line_ok :: "int \<times> irqd_t \<Rightarrow> bool" where
  "line_ok x = (case x of (irq, a) \<Rightarrow>
     \<not> TEST_BIT (iq_irqtype a) MRT_SOFTIRQ \<and> 0 \<le> irq \<and> irq < 16
     \<and> unat (iq_priority a) < MRT_NR_PRTY \<and> (irq = 0 \<or> 0 < unat (iq_priority a)) \<and> iq_task a = HARDWARE)"

definition served_at :: "(int \<times> irqd_t) list \<Rightarrow> nat \<Rightarrow> nat \<Rightarrow> bool" where
  "served_at regs q i = list_ex (\<lambda>(irq, a). nat irq = i \<and> unat (iq_priority a) \<le> q) regs"

definition masks_grant :: "(int \<times> irqd_t) list \<Rightarrow> (nat \<Rightarrow> u32) \<Rightarrow> bool" where
  "masks_grant regs m \<longleftrightarrow> (\<forall>q<MRT_NR_PRTY. \<forall>i. bit (m q) i \<longleftrightarrow> served_at regs q i)"

lemma served_at_mono: "served_at regs q i \<Longrightarrow> q \<le> q' \<Longrightarrow> served_at regs q' i"
  by (force simp: served_at_def list_ex_iff)

lemma served_at_snoc:
  "served_at (regs @ [(irq, a)]) q i \<longleftrightarrow> served_at regs q i \<or> (nat irq = i \<and> unat (iq_priority a) \<le> q)"
  by (auto simp: served_at_def)

lemma masks_grant_step:
  assumes "masks_grant regs m" "line_ok (irq, a)"
  shows "masks_grant (regs @ [(irq, a)]) (set_masks (nat irq) (unat (iq_priority a)) m)"
proof -
  have b: "nat irq < 32" "unat (iq_priority a) < MRT_NR_PRTY" using assms(2) by (auto simp: line_ok_def)
  show ?thesis
    unfolding masks_grant_def
  proof (intro allI impI)
    fix q i assume q: "q < MRT_NR_PRTY"
    have lower: "served_at regs r i \<Longrightarrow> r < unat (iq_priority a) \<Longrightarrow> served_at regs (unat (iq_priority a)) i" for r
      by (rule served_at_mono) auto
    show "bit (set_masks (nat irq) (unat (iq_priority a)) m q) i \<longleftrightarrow> served_at (regs @ [(irq, a)]) q i"
      using assms(1) q b by (auto simp: bit_set_masks served_at_snoc masks_grant_def dest: lower)
  qed
qed

lemma irqd_set_line:
  assumes "line_ok (irq, a)"
  shows "\<exists>s'. MRT_irqd_set irq a s = Inr s' \<and> irqmask (si s') = set_masks (nat irq) (unat (iq_priority a)) (irqmask (si s))
    \<and> sv s' = sv s \<and> hw s' = hw s"
proof -
  have "\<not> iq_priority a > MRT_PRILOWEST"
    using assms by (auto simp: line_ok_def word_less_nat_alt MRT_NR_PRTY_def)
  moreover have "\<not> (irq \<noteq> 0 \<and> iq_priority a \<le> MRT_PRIHIGHEST)"
    using assms by (auto simp: line_ok_def word_le_nat_alt)
  ultimately show ?thesis
    using assms by (auto simp: line_ok_def MRT_irqd_set_def Let_def)
qed

lemma irqd_set_lines:
  assumes "\<forall>x\<in>set regs. line_ok x"
  shows "\<exists>s'. foldM (\<lambda>(irq, a). MRT_irqd_set irq a) regs (MRT_irqQ_init s) = Inr s'
    \<and> masks_grant regs (irqmask (si s')) \<and> sv s' = sv s \<and> hw s' = hw s"
  using assms
proof (induction regs rule: rev_induct)
  case Nil
  show ?case by (simp add: MRT_irqQ_init_def masks_grant_def served_at_def)
next
  case (snoc x regs)
  obtain irq a where x: "x = (irq, a)" by force
  from snoc obtain s1 where s1: "foldM (\<lambda>(irq, a). MRT_irqd_set irq a) regs (MRT_irqQ_init s) = Inr s1"
    "masks_grant regs (irqmask (si s1))" "sv s1 = sv s" "hw s1 = hw s" by auto
  have ok: "line_ok (irq, a)" using snoc.prems x by simp
  from irqd_set_line[OF ok, of s1] masks_grant_step[OF s1(2) ok] s1 show ?case
    by (auto simp: foldM_append x)
qed

definition line_attr :: "u8 \<Rightarrow> irqd_t" where
  "line_attr p = irqd0\<lparr>iq_priority := p, iq_task := HARDWARE\<rparr>"

subsection \<open>Properties of the interrupt masks\<close>

text \<open>
  C26. After any sequence of registrations of hardware lines with a priority that is a level (level 0 for the timer only) and no
  task of their own, changing the priority level
  with \<open>MRT_PRTYMASK\<close> set programs the interrupt controller exactly: a line stays enabled if and
  only if it was registered with a priority at least as urgent as the level and is not masked by
  itself.
\<close>

theorem irq_masks_exact:
  assumes "\<forall>x\<in>set regs. line_ok x" "svflag s MRT_PRTYMASK" "unat lvl < MRT_NR_PRTY"
  shows "\<exists>s1 s2 m. foldM (\<lambda>(irq, a). MRT_irqd_set irq a) regs (MRT_irqQ_init s) = Inr s1
    \<and> MRT_prtylvl_set lvl s1 = Inr s2 \<and> prtylvl (sv s2) = lvl \<and> hw_log (hw s2) = hw_log (hw s) @ [SetPIC m]
    \<and> (\<forall>i<16. \<not> bit m i \<longleftrightarrow> served_at regs (unat lvl) i \<and> \<not> bit (real_PIC (sv s)) i)"
proof -
  obtain s1 where s1: "foldM (\<lambda>(irq, a). MRT_irqd_set irq a) regs (MRT_irqQ_init s) = Inr s1"
    "masks_grant regs (irqmask (si s1))" "sv s1 = sv s" "hw s1 = hw s"
    using irqd_set_lines[OF assms(1)] by blast
  let ?m = "NOT (irqmask (si s1) (unat lvl)) OR real_PIC (sv s)"
  have "\<not> bit ?m i \<longleftrightarrow> served_at regs (unat lvl) i \<and> \<not> bit (real_PIC (sv s)) i" if "i < 16" for i
    using s1(2) assms(3) that by (auto simp: masks_grant_def bit_or_iff bit_not_iff)
  moreover have "\<exists>s2. MRT_prtylvl_set lvl s1 = Inr s2 \<and> prtylvl (sv s2) = lvl \<and> hw_log (hw s2) = hw_log (hw s) @ [SetPIC ?m]"
    using assms(2,3) s1(3,4) by (simp add: MRT_prtylvl_set_def MRT_set_PIC_def hw_emit_def)
  ultimately show ?thesis using s1(1) by blast
qed

theorem irq_masks_exact_witness:
  "\<exists>s1 s2 m. foldM (\<lambda>(irq, a). MRT_irqd_set irq a) [(0, line_attr 0), (3, line_attr 9), (1, line_attr 4)]
      (MRT_irqQ_init (set_svflag MRT_PRTYMASK kstate0)) = Inr s1
    \<and> MRT_prtylvl_set 5 s1 = Inr s2 \<and> hw_log (hw s2) = [SetPIC m] \<and> \<not> bit m 0 \<and> \<not> bit m 1 \<and> bit m 3 \<and> bit m 2"
proof -
  have "\<forall>x\<in>set [(0, line_attr 0), (3, line_attr 9), (1, line_attr 4)]. line_ok x"
    by (simp add: line_ok_def line_attr_def irqd0_def TEST_BIT_def MRT_NR_PRTY_def)
  moreover have "svflag (set_svflag MRT_PRTYMASK kstate0) MRT_PRTYMASK"
    by (simp add: TEST_SET_same)
  moreover have "unat (5 :: u8) < MRT_NR_PRTY" by (simp add: MRT_NR_PRTY_def)
  ultimately obtain s1 s2 m where r:
    "foldM (\<lambda>(irq, a). MRT_irqd_set irq a) [(0, line_attr 0), (3, line_attr 9), (1, line_attr 4)]
      (MRT_irqQ_init (set_svflag MRT_PRTYMASK kstate0)) = Inr s1"
    "MRT_prtylvl_set 5 s1 = Inr s2" "hw_log (hw s2) = hw_log (hw (set_svflag MRT_PRTYMASK kstate0)) @ [SetPIC m]"
    "\<forall>i<16. \<not> bit m i \<longleftrightarrow> served_at [(0, line_attr 0), (3, line_attr 9), (1, line_attr 4)] (unat (5 :: u8)) i
       \<and> \<not> bit (real_PIC (sv (set_svflag MRT_PRTYMASK kstate0))) i"
    using irq_masks_exact by blast
  have "\<not> bit m 0 \<and> \<not> bit m 1 \<and> bit m 3 \<and> bit m 2"
    using r(4)[rule_format, of 0] r(4)[rule_format, of 1] r(4)[rule_format, of 2] r(4)[rule_format, of 3]
    by (simp add: served_at_def line_attr_def irqd0_def kstate0_def sysval0_def)
  with r(1-3) show ?thesis by (auto simp: kstate0_def)
qed

end
