(* ===== verification/Vtact.thy ===== *)
theory Vtact
  imports Irq
begin

text \<open>
  The actions of the virtual timers (\<^verbatim>\<open>src/src/kernel/mrtvt.c\<close>), the code that runs the
  pending timers and interrupt descriptors by priority, and the common interrupt handler
  (\<^verbatim>\<open>src/src/kernel/mrtirq.c\<close>).

  An action returns \<open>CONTINUE\<close> (0) when the timer is still on the expired queue, and another
  value when the action has taken care of it.
\<close>

subsection \<open>Actions\<close>

text \<open>\<open>MRT_ready\<close> and a request to schedule, when nothing blocks \<open>rp\<close> any more.\<close>

definition ready_and_sched :: "int \<Rightarrow> kstate \<Rightarrow> kstate res" where
  "ready_and_sched rp s =
     (if MRT_is_rtready (procs s rp)
      then bnd (MRT_ready rp s) (\<lambda>s. Inr (set_svflag MRT_NEEDSCHED s))
      else Inr s)"

definition MRT_act_none :: "nat \<Rightarrow> kstate \<Rightarrow> (int \<times> kstate) res" where
  "MRT_act_none v s = ret 0 s"

definition MRT_act_sched :: "nat \<Rightarrow> kstate \<Rightarrow> (int \<times> kstate) res" where
  "MRT_act_sched v s =
     (if vt_param (VT s v) \<noteq> HARDWARE
      then
        bnd (proc_addr (vt_param (VT s v))) (\<lambda>dp.
        bnd (MRT_wakeup dp s) (\<lambda>(c, s).
        ret 1 (if c = OK then set_svflag MRT_NEEDSCHED s else s)))
      else ret 0 s)"

definition MRT_act_msgown :: "nat \<Rightarrow> kstate \<Rightarrow> (int \<times> kstate) res" where
  "MRT_act_msgown v s =
     bnd (proc_addr (vt_owner (VT s v))) (\<lambda>rp.
     bnd (MRT_ksend HARDWARE rp (int (prio s rp)) MT_KRNTOUT s) (\<lambda>(_, s). ret 0 s))"

definition MRT_act_msgwdog :: "nat \<Rightarrow> kstate \<Rightarrow> (int \<times> kstate) res" where
  "MRT_act_msgwdog v s =
     bnd (proc_addr (vt_owner (VT s v))) (\<lambda>rp.
     bnd (MRT_ksend rp (rt_watchdog (rt (procs s rp))) (int (prio s rp)) MT_KRNTOUT s) (\<lambda>(_, s). ret 0 s))"

definition MRT_act_irqtrig :: "nat \<Rightarrow> kstate \<Rightarrow> (int \<times> kstate) res" where
  "MRT_act_irqtrig v s =
     bnd (irqd_addr (vt_param (VT s v))) (\<lambda>d.
     bnd (if \<not> itype s d MRT_TDIRQ then MRT_irqd_enQ d s
          else if iflag s d MRT_TDTRIGGER \<or> itype s d MRT_SOFTIRQ then MRT_irqd_enQ d s
          else Inr s) (\<lambda>s. ret 0 s))"

text \<open>Take the message entry \<open>param\<close> of the timer out of the queue of the destination \<open>dp\<close>.\<close>

definition drop_message :: "int \<Rightarrow> int \<Rightarrow> kstate \<Rightarrow> kstate res" where
  "drop_message param dp s =
     bnd (mqe_addr param) (\<lambda>e.
     bnd (deref (pmq (procs s dp))) (\<lambda>q.
     bnd (MRT_mqe_rmv q e s) (MRT_mqe_free e)))"

definition MRT_act_sndto :: "nat \<Rightarrow> kstate \<Rightarrow> (int \<times> kstate) res" where
  "MRT_act_sndto v s =
     bnd (proc_addr (vt_owner (VT s v))) (\<lambda>rp.
     bnd (deref (pto (procs s rp))) (\<lambda>dp.
     bnd (drop_message (vt_param (VT s v)) dp s) (\<lambda>s.
     bnd (MRT_disinherit dp s) (\<lambda>s.
     let s = upd_rtflags rp (\<lambda>w. CLR_BIT w MRT_MBX_SND) s;
         s = upd_proc rp (pto_update (\<lambda>_. None)) s
     in bnd (ready_and_sched rp s) (\<lambda>s. ret 0 (set_retreg rp E_MRT_TIMEOUT s))))))"

definition MRT_act_rcvfr :: "nat \<Rightarrow> kstate \<Rightarrow> (int \<times> kstate) res" where
  "MRT_act_rcvfr v s =
     bnd (proc_addr (vt_owner (VT s v))) (\<lambda>rp.
     let s = upd_rtflags rp (\<lambda>w. CLR_BIT w MRT_MBX_RCV) s;
         s = upd_proc rp (pfrom_update (\<lambda>_. None)) s
     in bnd (ready_and_sched rp s) (\<lambda>s. ret 0 (set_retreg rp E_MRT_TIMEOUT s)))"

definition MRT_act_wakeup :: "nat \<Rightarrow> kstate \<Rightarrow> (int \<times> kstate) res" where
  "MRT_act_wakeup v s =
     bnd (proc_addr (vt_owner (VT s v))) (\<lambda>rp.
     bnd (MRT_wakeup rp s) (\<lambda>(c, s).
     ret 1 (if c = OK then set_svflag MRT_NEEDSCHED s else s)))"

text \<open>It prints the parameter of the timer.\<close>

definition MRT_act_debug :: "nat \<Rightarrow> kstate \<Rightarrow> (int \<times> kstate) res" where
  "MRT_act_debug v s = ret 0 s"

text \<open>\<open>MRT_disinherit(dp)\<close> returns at once, whatever \<open>dp\<close> is, unless \<open>MRT_BPIP\<close> is set.\<close>

definition MRT_act_sndrcv :: "nat \<Rightarrow> kstate \<Rightarrow> (int \<times> kstate) res" where
  "MRT_act_sndrcv v s =
     bnd (proc_addr (vt_owner (VT s v))) (\<lambda>rp.
     bnd (if TEST_BIT (rt_flags (rt (procs s rp))) MRT_MBX_SND
          then
            bnd (deref (pto (procs s rp))) (\<lambda>dp.
            bnd (drop_message (vt_param (VT s v)) dp s) (\<lambda>s.
            let s = upd_proc rp (pto_update (\<lambda>_. None)) s
            in Inr (upd_rtflags rp (\<lambda>w. CLR_BIT w MRT_MBX_SND) s)))
          else Inr s) (\<lambda>s.
     bnd (if svflag s MRT_BPIP
          then bnd (deref (pfrom (procs s rp))) (\<lambda>dp. MRT_disinherit dp s)
          else Inr s) (\<lambda>s.
     let s = upd_rtflags rp (\<lambda>w. CLR_BIT w MRT_MBX_RCV) s;
         s = upd_proc rp (pfrom_update (\<lambda>_. None)) s
     in bnd (ready_and_sched rp s) (\<lambda>s. ret 0 (set_retreg rp E_MRT_TIMEOUT s)))))"

definition MRT_act_stop :: "nat \<Rightarrow> kstate \<Rightarrow> (int \<times> kstate) res" where
  "MRT_act_stop v s =
     bnd (proc_addr (vt_param (VT s v))) (\<lambda>rp.
     ret 0 (if MRT_is_realtime (procs s rp)
            then set_svflag MRT_NEEDSCHED (upd_proc rp (p_flags_update (\<lambda>w. SET_BIT w P_STOP)) s)
            else s))"

definition MRT_act_down :: "nat \<Rightarrow> kstate \<Rightarrow> (int \<times> kstate) res" where
  "MRT_act_down v s =
     bnd (proc_addr (vt_owner (VT s v))) (\<lambda>rp.
     bnd (sem_addr (vt_param (VT s v))) (\<lambda>i.
     bnd (MRT_sproc_rmv i rp s) (\<lambda>s.
     bnd (ready_and_sched rp (upd_rtflags rp (\<lambda>w. CLR_BIT w MRT_SEM_DOWN) s)) (\<lambda>s.
     ret 0 (set_retreg rp E_MRT_TIMEOUT s)))))"

text \<open>The table \<open>MRT_vtaction[]\<close>.\<close>

definition MRT_vtaction :: "(nat \<Rightarrow> kstate \<Rightarrow> (int \<times> kstate) res) list" where
  "MRT_vtaction = [MRT_act_none, MRT_act_sched, MRT_act_msgown, MRT_act_msgwdog, MRT_act_irqtrig,
     MRT_act_sndto, MRT_act_rcvfr, MRT_act_wakeup, MRT_act_debug, MRT_act_wakeup, MRT_act_sndrcv,
     MRT_act_stop, MRT_act_down]"

definition MRT_vtimer_run :: "nat \<Rightarrow> kstate \<Rightarrow> kstate res" where
  "MRT_vtimer_run v s =
     (let s = upd_vt v (vt_timestamp_update (\<lambda>_. ticks s)) s
      in if vt_action (VT s v) < 0 \<or> vt_action (VT s v) \<ge> 13
         then Inl (Panic ''MRT_vtimer_run: bad action type for vtimer'')
         else
           bnd ((MRT_vtaction ! nat (vt_action (VT s v))) v s) (\<lambda>(c, s).
           bnd (if c = 0
                then
                  bnd (with_expQ (\<lambda>h q. MRT_plist_rmv h q (LVT v) (unat (vt_priority (VT s v)))) s) (\<lambda>s.
                  Inr (upd_vt v (vt_expired_update (\<lambda>n. n + 1)) s))
                else Inr s) (\<lambda>s.
           if vt_expired (VT s v) < vt_limit (VT s v) \<or> vt_limit (VT s v) = 0
           then MRT_vtimer_ins v s else Inr s)))"

subsection \<open>Running what is pending\<close>

fun MRT_vtimer_flush :: "nat \<Rightarrow> nat \<Rightarrow> kstate \<Rightarrow> kstate res" where
  "MRT_vtimer_flush 0 pty s = Inl Diverge"
| "MRT_vtimer_flush (Suc n) pty s =
     (case ls_first (pl_list (expQ (tm s)) pty) of
        None \<Rightarrow> Inr s
      | Some k \<Rightarrow>
          bnd (as_vt (lk_this (links s k))) (\<lambda>v.
          bnd (MRT_vtimer_run v s) (MRT_vtimer_flush n pty)))"

fun MRT_irqd_flush :: "nat \<Rightarrow> handlers \<Rightarrow> nat \<Rightarrow> kstate \<Rightarrow> kstate res" where
  "MRT_irqd_flush 0 hnd pty s = Inl Diverge"
| "MRT_irqd_flush (Suc n) hnd pty s =
     (case ls_first (pl_list (irqQ (si s)) pty) of
        None \<Rightarrow> Inr s
      | Some k \<Rightarrow>
          bnd (as_irqd (lk_this (links s k))) (\<lambda>d.
          bnd (if iflag s d MRT_TASKLOCKED
               then Inr (set_svflag MRT_NEEDSCHED (set_iflag d MRT_HANDWAIT s))
               else bnd (MRT_do_handler hnd d s) (MRT_irqd_deQ d))
            (MRT_irqd_flush n hnd pty)))"

text \<open>The loop of \<open>MRT_flush_int\<close>: \<open>n\<close> bounds its iterations and those of the loops inside.\<close>

fun flush_loop :: "nat \<Rightarrow> nat \<Rightarrow> handlers \<Rightarrow> nat \<Rightarrow> kstate \<Rightarrow> kstate res" where
  "flush_loop 0 m hnd p s = Inl Diverge"
| "flush_loop (Suc n) m hnd p s =
     (if p \<le> unat (prtylvl (sv s)) \<and> (pl_bitmap (expQ (tm s)) \<noteq> 0 \<or> pl_bitmap (irqQ (si s)) \<noteq> 0)
      then
        bnd (if TEST_BIT (pl_bitmap (expQ (tm s))) (push_bit p 1)
             then chk (p < MRT_NR_PRTY) OutOfBounds (MRT_vtimer_flush m p s) else Inr s) (\<lambda>s.
        bnd (if TEST_BIT (pl_bitmap (irqQ (si s))) (push_bit p 1)
             then chk (p < MRT_NR_PRTY) OutOfBounds (MRT_irqd_flush m hnd p s) else Inr s) (\<lambda>s.
        bnd (if svflag s MRT_NEEDSCHED then lock_pick_proc s else Inr s) (\<lambda>s.
        if svflag s MRT_NEWINT then flush_loop n m hnd 1 (clr_svflag MRT_NEWINT s)
        else flush_loop n m hnd (p + 1) s)))
      else Inr s)"

definition MRT_flush_int :: "nat \<Rightarrow> handlers \<Rightarrow> kstate \<Rightarrow> kstate res" where
  "MRT_flush_int n hnd s =
     (let s = set_svflag MRT_FLUSHLCK s;
          s = clr_svflag MRT_NEWINT s
      in bnd (flush_loop n n hnd 1 s) (\<lambda>s. Inr (clr_svflag MRT_FLUSHLCK s)))"

subsection \<open>The common interrupt handler\<close>

definition MRT_enable_PIC :: "u32 \<Rightarrow> kstate \<Rightarrow> kstate" where
  "MRT_enable_PIC irq = hw_emit (EnablePIC irq)"

text \<open>The branch for the timer interrupt.\<close>

definition dispatch_timer :: "nat \<Rightarrow> kstate \<Rightarrow> kstate res" where
  "dispatch_timer d s =
     bnd (if svflag s MRT_ONESHOT then MRT_clock_handler (set_earliest (\<lambda>_. 0) s)
          else
            let s = upd_counter (ct_ticks_update (\<lambda>n. n + 1)) s
            in if ls_first (aq_list (actQ (tm s))) \<noteq> None
               then
                 let s = set_earliest (\<lambda>n. n - 1) s
                 in if aq_earliest (actQ (tm s)) = 0 then MRT_clock_handler s else Inr s
               else Inr s) (\<lambda>s.
     Inr (upd_irqd d (iq_timestamp_update (\<lambda>_. ticks s)) s))"

text \<open>The branch for the others: the value returned and the state.\<close>

definition dispatch_other :: "handlers \<Rightarrow> nat \<Rightarrow> kstate \<Rightarrow> (int \<times> kstate) res" where
  "dispatch_other hnd d s =
     (let s = upd_irqd d (iq_timestamp_update (\<lambda>_. ticks s)) s
      in if itype s d MRT_TDIRQ
         then ret MRT_IRQ_ENABLED (upd_irqd d (iq_shower_update (\<lambda>n. n + 1)) (set_iflag d MRT_TDTRIGGER s))
         else if iq_priority (IRQD s d) > prtylvl (sv s)
                 \<or> (\<not> itype s d MRT_RTIRQ \<and> svflag s MRT_MINIXCLI)
         then bnd (MRT_irqd_enQ d s) (\<lambda>s. ret MRT_IRQ_DISABLED s)
         else
           bnd (if iflag s d MRT_ENQUEUED then missed_deadline d s else Inr s) (\<lambda>s.
           bnd (if iflag s d MRT_TASKLOCKED
                then ret MRT_IRQ_DISABLED (set_svflag MRT_NEEDSCHED (set_iflag d MRT_HANDWAIT s))
                else bnd (MRT_do_handler hnd d s) (\<lambda>s. ret MRT_IRQ_ENABLED s)) (\<lambda>(r, s).
           if svflag s MRT_NEEDSCHED then bnd (lock_pick_proc s) (\<lambda>s. ret r s) else ret r s)))"

definition MRT_IRQ_dispatch :: "handlers \<Rightarrow> int \<Rightarrow> kstate \<Rightarrow> (int \<times> kstate) res" where
  "MRT_IRQ_dispatch hnd irq s =
     bnd (irqd_addr irq) (\<lambda>d.
     let s = MRT_reset_irq (word_of_int irq) s;
         s = MRT_enable_PIC (word_of_int irq) s;
         s = upd_counter (ct_interrupts_update (\<lambda>n. n + 1)) s;
         s = upd_irqd d (iq_count_update (\<lambda>n. n + 1)) s;
         s = upd_irqd d (iq_reenter_update (\<lambda>n. max n (uint (k_reenter s)))) s
     in if iflag s d MRT_DISABLED then ret MRT_IRQ_ENABLED s
        else
          let s = (if svflag s MRT_LATENCY \<and> iflag s d MRT_LATCALC
                   then let (b, s) = MRT_read_timer2 s in upd_irqd d (iq_before_update (\<lambda>_. b)) s else s)
          in bnd (if irq = 0 then bnd (dispatch_timer d s) (\<lambda>s. ret MRT_IRQ_ENABLED s)
                  else dispatch_other hnd d s) (\<lambda>(retval, s).
             ret retval (if retval = MRT_IRQ_ENABLED then MRT_set_irq (word_of_int irq) s else s)))"

subsection \<open>The interrupts the kernel sets up for itself\<close>

definition irqd_attr :: "handler \<Rightarrow> int \<Rightarrow> u8 \<Rightarrow> u8 \<Rightarrow> u32 \<Rightarrow> string \<Rightarrow> irqd_t" where
  "irqd_attr h task pty ty per name =
     \<lparr>iq_count = 0, iq_maxshower = 0, iq_mdl = 0, iq_timestamp = 0, iq_maxlat = 0, iq_reenter = 0,
      iq_irq = 0, iq_harmonic = 0, iq_pvt = None, iq_flags = 0, iq_latency = 0, iq_shower = 0,
      iq_before = 0, iq_nrthandler = h, iq_rthandler = h, iq_period = per, iq_task = task,
      iq_watchdog = 0, iq_priority = pty, iq_irqtype = ty, iq_name = name\<rparr>"

definition MRT_vtimer_MINIX :: "u32 \<Rightarrow> kstate \<Rightarrow> kstate res" where
  "MRT_vtimer_MINIX per s =
     (let (n, s) = MRT_softirq_alloc s;
          s = sv_update (MINIX_soft_update (\<lambda>_. n)) s
      in if n < 0 then Inl (Panic ''clock_task: could not set MINIX CLOCK software IRQ'')
         else MRT_irqd_set n (irqd_attr H_clock_handler HARDWARE MRT_PRILOWEST 7 per ''MINIX-CLOCK'') s)"

definition MRT_vtimer_IDLE :: "int \<Rightarrow> kstate \<Rightarrow> kstate res" where
  "MRT_vtimer_IDLE prty s =
     (let per = refresh (sv s);
          (n, s) = MRT_softirq_alloc s;
          s = sv_update (IDLE_soft_update (\<lambda>_. n)) s
      in if n < 0 then Inl (Panic ''MRT_vtimer_IDLE: could not set IDEL Refresh soft IRQ'')
         else MRT_irqd_set n (irqd_attr H_MRT_idle_handler IDLE (word_of_int prty) 7 per ''IDLE-REFRESH'') s)"

subsection \<open>Serving the pending interrupts of a level\<close>

text \<open>
  Quiet handlers return, and they leave the links, the descriptors with their queues and the flags of the system
  alone. The handlers of the drivers are a parameter of the model, and they run with interrupts enabled, so this is an assumption.
\<close>

definition quiet :: "handlers \<Rightarrow> bool" where
  "quiet hnd \<longleftrightarrow> (\<forall>h irq s. \<exists>r s'. hnd h irq s = Inr (r, s') \<and> links s' = links s \<and> si s' = si s
     \<and> sv_flags (sv s') = sv_flags (sv s))"

text \<open>Nothing is left to do for \<open>d\<close> but to run its handler.\<close>

definition servable :: "nat \<Rightarrow> kstate \<Rightarrow> nat \<Rightarrow> bool" where
  "servable pty s d \<longleftrightarrow> unat (iq_priority (IRQD s d)) = pty \<and> iflag s d MRT_ENQUEUED \<and> \<not> iflag s d MRT_TASKLOCKED
     \<and> \<not> iflag s d MRT_TASKWAIT \<and> \<not> (itype s d MRT_RTIRQ \<and> itype s d MRT_ISTMSG)"

definition handled :: "nat \<Rightarrow> kstate \<Rightarrow> kstate \<Rightarrow> bool" where
  "handled d s s' \<longleftrightarrow> links s' = links s \<and> irqQ (si s') = irqQ (si s) \<and> prtylvl (sv s') = prtylvl (sv s)
     \<and> sv_flags (sv s') = sv_flags (sv s) \<and> (\<forall>e. e \<noteq> d \<longrightarrow> IRQD s' e = IRQD s e)
     \<and> iq_priority (IRQD s' d) = iq_priority (IRQD s d) \<and> (iflag s' d MRT_ENQUEUED \<longleftrightarrow> iflag s d MRT_ENQUEUED)
     \<and> iq_irqtype (IRQD s' d) = iq_irqtype (IRQD s d)
     \<and> iq_count (IRQD s' d) = iq_count (IRQD s d) + (if itype s d MRT_SOFTIRQ then 1 else 0)"

lemma handler_latency_keeps:
  "links (handler_latency d s) = links s \<and> irqQ (si (handler_latency d s)) = irqQ (si s)
   \<and> sv (handler_latency d s) = sv s \<and> (\<forall>e. e \<noteq> d \<longrightarrow> IRQD (handler_latency d s) e = IRQD s e)
   \<and> (\<exists>l m. IRQD (handler_latency d s) d = (IRQD s d)\<lparr>iq_latency := l, iq_maxlat := m\<rparr>)"
proof (cases "svflag s MRT_LATENCY \<and> iflag s d MRT_LATCALC")
  case True
  then show ?thesis
    by (auto simp: handler_latency_def read_back2_def in_byte_def out_byte_def hw_emit_def Let_def)
next
  case False
  then have "handler_latency d s = s" by (auto simp: handler_latency_def)
  moreover have "IRQD s d = (IRQD s d)\<lparr>iq_latency := iq_latency (IRQD s d), iq_maxlat := iq_maxlat (IRQD s d)\<rparr>" by simp
  ultimately show ?thesis by metis
qed

lemma do_handler_quiet:
  assumes q: "quiet hnd" and p: "unat (iq_priority (IRQD s d)) < MRT_NR_PRTY" "unat (prtylvl (sv s)) < MRT_NR_PRTY"
    and w: "\<not> iflag s d MRT_TASKWAIT" "\<not> (itype s d MRT_RTIRQ \<and> itype s d MRT_ISTMSG)"
  shows "\<exists>s'. MRT_do_handler hnd d s = Inr s' \<and> handled d s s'"
proof -
  obtain l where l: "MRT_prtylvl_set (iq_priority (IRQD s d)) s
      = Inr (hw_update (hw_log_update l) (sv_update (prtylvl_update (\<lambda>_. iq_priority (IRQD s d))) s))"
    using MRT_prtylvl_set_ok[OF p(1)] by blast
  define s0 where "s0 = set_iflag d MRT_HANDLOCKED
      (hw_update (hw_log_update l) (sv_update (prtylvl_update (\<lambda>_. iq_priority (IRQD s d))) s))"
  have F0: "links s0 = links s" "si s0 = si (set_iflag d MRT_HANDLOCKED s)" "sv_flags (sv s0) = sv_flags (sv s)"
    by (simp_all add: s0_def)
  define h where "h = (if itype s d MRT_RTIRQ then iq_rthandler (IRQD s0 d) else iq_nrthandler (IRQD s0 d))"
  obtain r s1 where s1: "hnd h (iq_irq (IRQD s0 d)) s0 = Inr (r, s1)" "links s1 = links s0" "si s1 = si s0"
      "sv_flags (sv s1) = sv_flags (sv s0)"
    using q by (metis quiet_def)
  define s2 where "s2 = (let s' = clr_iflag d MRT_HANDLOCKED s1; s = sv_update (real_PIC_update (\<lambda>_. real_PIC (sv s))) s'
      in if r = MRT_IRQ_ENABLED
         then let s = sv_update (real_PIC_update (\<lambda>w. CLR_BIT w (push_bit (nat (iq_irq (IRQD s d))) 1))) s
              in if \<not> svflag s MRT_PRTYMASK then MRT_set_PIC (real_PIC (sv s)) s else s
         else s)"
  have F2: "links s2 = links s" "si s2 = si (clr_iflag d MRT_HANDLOCKED s0)" "sv_flags (sv s2) = sv_flags (sv s)"
    by (simp_all add: s2_def Let_def MRT_set_PIC_def hw_emit_def s1 F0)
  obtain l' where l': "MRT_prtylvl_set (prtylvl (sv s)) s2
      = Inr (hw_update (hw_log_update l') (sv_update (prtylvl_update (\<lambda>_. prtylvl (sv s))) s2))"
    using MRT_prtylvl_set_ok[OF p(2)] by blast
  define s3 where "s3 = handler_latency d (hw_update (hw_log_update l') (sv_update (prtylvl_update (\<lambda>_. prtylvl (sv s))) s2))"
  have run: "(if \<not> itype s0 d MRT_RTIRQ then hnd (iq_nrthandler (IRQD s0 d)) (iq_irq (IRQD s0 d)) s0
                 else
                   bnd (hnd (iq_rthandler (IRQD s0 d)) (iq_irq (IRQD s0 d)) s0) (\<lambda>(r, s).
                   if itype s d MRT_ISTMSG
                   then bnd (MRT_ksend HARDWARE (iq_task (IRQD s d)) (int (unat (iq_priority (IRQD s d)))) MT_KRNIRQ s)
                          (\<lambda>(_, s). Inr (r, s))
                   else Inr (r, s))) = Inr (r, s1)"
    using s1 w(2) by (auto simp: h_def F0 split: if_splits)
  have K: "links s3 = links s" "irqQ (si s3) = irqQ (si s)" "prtylvl (sv s3) = prtylvl (sv s)"
      "sv_flags (sv s3) = sv_flags (sv s)" "\<forall>e. e \<noteq> d \<longrightarrow> IRQD s3 e = IRQD s e"
      "iq_flags (IRQD s3 d) = CLR_BIT (SET_BIT (iq_flags (IRQD s d)) MRT_HANDLOCKED) MRT_HANDLOCKED"
      "iq_priority (IRQD s3 d) = iq_priority (IRQD s d)" "iq_irqtype (IRQD s3 d) = iq_irqtype (IRQD s d)"
      "iq_count (IRQD s3 d) = iq_count (IRQD s d)"
    using handler_latency_keeps[of d "hw_update (hw_log_update l') (sv_update (prtylvl_update (\<lambda>_. prtylvl (sv s))) s2)"]
    by (auto simp: s3_def F2 F0)
  have nw: "\<not> iflag s3 d MRT_TASKWAIT" "iflag s3 d MRT_ENQUEUED \<longleftrightarrow> iflag s d MRT_ENQUEUED"
    using w(1) unfolding K(6) by (simp_all add: TEST_SET_other TEST_CLR_other)
  have "MRT_do_handler hnd d s = (if itype s3 d MRT_SOFTIRQ
                  then Inr (upd_irqd d (\<lambda>q. q\<lparr>iq_count := iq_count q + 1, iq_timestamp := ticks s3\<rparr>) s3)
                  else if itype s3 d MRT_TDIRQ
                  then Inr (upd_irqd d (\<lambda>q. q\<lparr>iq_flags := CLR_BIT (iq_flags q) MRT_TDTRIGGER,
                              iq_maxshower := max (iq_maxshower q) (iq_shower q), iq_shower := 0\<rparr>) s3)
                  else Inr s3)"
    unfolding MRT_do_handler_def Let_def l bnd.simps s0_def[symmetric] run prod.case s2_def[unfolded Let_def, symmetric] l'
      s3_def[symmetric] if_not_P[OF nw(1)] ..
  then show ?thesis
    using K nw(2) by (auto simp: handled_def TEST_CLR_other)
qed


lemma irqd_deQ_ok:
  assumes rep: "pl_rep (links s) (irqQ (si s)) qs" and wf: "wf_links (links s)"
    and d: "LIrqd d \<in> set (qs pty)" "unat (iq_priority (IRQD s d)) = pty" "iflag s d MRT_ENQUEUED"
  shows "\<exists>s'. MRT_irqd_deQ d s = Inr s' \<and> pl_rep (links s') (irqQ (si s')) (qs(pty := remove1 (LIrqd d) (qs pty)))
    \<and> wf_links (links s') \<and> sv s' = sv s
    \<and> irqtab (si s') = (irqtab (si s))(d := iq_flags_update (\<lambda>w. CLR_BIT w MRT_ENQUEUED) (IRQD s d))"
proof -
  from MRT_plist_rmv_ok[OF rep d(1)] obtain h q where
    "MRT_plist_rmv (links s) (irqQ (si s)) (LIrqd d) pty = Inr (h, q)"
    "pl_rep h q (qs(pty := remove1 (LIrqd d) (qs pty)))" "heap_frame (set (qs pty)) (links s) h" by blast
  then show ?thesis
    using d wf wf_links_frame by (auto simp: MRT_irqd_deQ_def with_irqQ_def)
qed

text \<open>A state whose descriptors are all software interrupts of level 5 that are pending.\<close>

definition irq_pair :: "heap \<Rightarrow> plist_t \<Rightarrow> kstate" where
  "irq_pair h q = kstate0\<lparr>links := h, si := (si kstate0)\<lparr>irqQ := q,
     irqtab := (\<lambda>_. irqd0\<lparr>iq_flags := MRT_ENQUEUED, iq_priority := 5, iq_irqtype := MRT_SOFTIRQ\<rparr>)\<rparr>\<rparr>"

subsection \<open>Properties of the pending interrupts\<close>

text \<open>
  Flushing the pending interrupts of a priority with quiet handlers, when no task holds or awaits the lock of a descriptor of the level and
  none of them sends a message: the loop ends, every pending descriptor of that level is dequeued and a software
  interrupt has counted one run, the level is empty afterwards, the other levels and descriptors are as before, and the
  priority level of the system is restored. That the handlers are quiet is an assumption on the drivers, which are not modelled.
\<close>

lemma irqd_flush_serves:
  assumes "quiet hnd" "pty < MRT_NR_PRTY" "wf_links (links s)" "pl_rep (links s) (irqQ (si s)) qs"
    "qs pty = map LIrqd ds" "\<forall>d\<in>set ds. servable pty s d" "unat (prtylvl (sv s)) < MRT_NR_PRTY" "length ds < n"
  shows "\<exists>s'. MRT_irqd_flush n hnd pty s = Inr s' \<and> pl_rep (links s') (irqQ (si s')) (qs(pty := []))
    \<and> prtylvl (sv s') = prtylvl (sv s) \<and> sv_flags (sv s') = sv_flags (sv s)
    \<and> (\<forall>d\<in>set ds. \<not> iflag s' d MRT_ENQUEUED
         \<and> iq_count (IRQD s' d) = iq_count (IRQD s d) + (if itype s d MRT_SOFTIRQ then 1 else 0))
    \<and> (\<forall>d. d \<notin> set ds \<longrightarrow> IRQD s' d = IRQD s d)"
  using assms(3-8)
proof (induction ds arbitrary: s qs n)
  case Nil
  then obtain m where "n = Suc m" by (cases n) auto
  moreover have "dll (links s) (pl_list (irqQ (si s)) pty) []"
    using pl_rep_dll[OF Nil.prems(2) assms(2)] Nil.prems(3) by simp
  moreover have "qs(pty := []) = qs" using Nil.prems(3) by auto
  ultimately show ?case using Nil.prems(2) by (auto simp: dll_def)
next
  case (Cons d ds)
  from Cons.prems obtain m where n: "n = Suc m" "length ds < m" by (cases n) auto
  have dll: "dll (links s) (pl_list (irqQ (si s)) pty) (LIrqd d # map LIrqd ds)"
    using pl_rep_dll[OF Cons.prems(2) assms(2)] Cons.prems(3) by simp
  then have nd: "d \<notin> set ds" and first: "ls_first (pl_list (irqQ (si s)) pty) = Some (LIrqd d)"
    by (auto simp: dll_def)
  have sv: "servable pty s d" using Cons.prems(4) by simp
  obtain s1 where s1: "MRT_do_handler hnd d s = Inr s1" "handled d s s1"
    using do_handler_quiet[OF assms(1), of s d] sv assms(2) Cons.prems(5) by (auto simp: servable_def)
  have "\<exists>s2. MRT_irqd_deQ d s1 = Inr s2 \<and> pl_rep (links s2) (irqQ (si s2)) (qs(pty := map LIrqd ds))
    \<and> wf_links (links s2) \<and> sv s2 = sv s1
    \<and> irqtab (si s2) = (irqtab (si s1))(d := iq_flags_update (\<lambda>w. CLR_BIT w MRT_ENQUEUED) (IRQD s1 d))"
    using irqd_deQ_ok[of s1 qs d pty] s1(2) sv Cons.prems(1-3) by (simp add: handled_def servable_def)
  then obtain s2 where s2: "MRT_irqd_deQ d s1 = Inr s2" "pl_rep (links s2) (irqQ (si s2)) (qs(pty := map LIrqd ds))"
    "wf_links (links s2)" "sv s2 = sv s1"
    "irqtab (si s2) = (irqtab (si s1))(d := iq_flags_update (\<lambda>w. CLR_BIT w MRT_ENQUEUED) (IRQD s1 d))" by blast
  have keep: "IRQD s2 e = IRQD s e" if "e \<noteq> d" for e
    using that s1(2) s2(5) by (simp add: handled_def)
  have d2: "\<not> iflag s2 d MRT_ENQUEUED"
      "iq_count (IRQD s2 d) = iq_count (IRQD s d) + (if itype s d MRT_SOFTIRQ then 1 else 0)"
    using s1(2) s2(5) by (simp_all add: handled_def)
  have "\<forall>e\<in>set ds. servable pty s2 e"
    using Cons.prems(4) nd by (simp add: servable_def keep cong: ball_cong) (metis keep)
  moreover have "unat (prtylvl (sv s2)) < MRT_NR_PRTY"
    using s1(2) s2(4) Cons.prems(5) by (simp add: handled_def)
  ultimately obtain s' where
    s': "MRT_irqd_flush m hnd pty s2 = Inr s'" "pl_rep (links s') (irqQ (si s')) (qs(pty := []))"
      "prtylvl (sv s') = prtylvl (sv s2)" "sv_flags (sv s') = sv_flags (sv s2)"
      "\<forall>d\<in>set ds. \<not> iflag s' d MRT_ENQUEUED
         \<and> iq_count (IRQD s' d) = iq_count (IRQD s2 d) + (if itype s2 d MRT_SOFTIRQ then 1 else 0)"
      "\<forall>d. d \<notin> set ds \<longrightarrow> IRQD s' d = IRQD s2 d"
    using Cons.IH[OF s2(3,2) fun_upd_same _ _ n(2), unfolded fun_upd_upd] by blast
  have "MRT_irqd_flush n hnd pty s = Inr s'"
    using s1 s2(1) s'(1) sv Cons.prems(1) by (simp add: n first wf_links_def servable_def)
  moreover have "prtylvl (sv s') = prtylvl (sv s)" "sv_flags (sv s') = sv_flags (sv s)"
    using s'(3,4) s2(4) s1(2) by (simp_all add: handled_def)
  moreover have "\<forall>e\<in>set (d # ds). \<not> iflag s' e MRT_ENQUEUED
         \<and> iq_count (IRQD s' e) = iq_count (IRQD s e) + (if itype s e MRT_SOFTIRQ then 1 else 0)"
    using s'(5,6) nd d2 by (auto simp: keep) (metis keep)+
  moreover have "\<forall>e. e \<notin> set (d # ds) \<longrightarrow> IRQD s' e = IRQD s e"
    using s'(6) by (simp add: keep)
  ultimately show ?case using s'(2) by blast
qed

lemma irqd_flush_locked:
  assumes "ls_first (pl_list (irqQ (si s)) p) = Some (LIrqd d)" and "wf_links (links s)" and "iflag s d MRT_TASKLOCKED"
  shows "MRT_irqd_flush n hnd p s = Inl Diverge"
  using assms
proof (induction n arbitrary: s)
  case (Suc n)
  let ?s = "set_svflag MRT_NEEDSCHED (set_iflag d MRT_HANDWAIT s)"
  have "iflag ?s d MRT_TASKLOCKED" using Suc.prems(3) by (simp add: TEST_SET_other)
  then have "MRT_irqd_flush n hnd p ?s = Inl Diverge" using Suc.prems by (intro Suc.IH) auto
  then show ?case using Suc.prems by (simp add: wf_links_def)
qed simp

lemma flush_loop_locked:
  assumes rep: "pl_rep (links s) (irqQ (si s)) qs" and wf: "wf_links (links s)" and d: "qs p = LIrqd d # ks" "iflag s d MRT_TASKLOCKED"
    and p: "p \<le> unat (prtylvl (sv s))" and more: "\<forall>r. q \<le> r \<and> r < p \<longrightarrow> qs r = []"
    and exp: "\<forall>r. q \<le> r \<and> r \<le> p \<longrightarrow> \<not> TEST_BIT (pl_bitmap (expQ (tm s))) (push_bit r 1)"
    and fl: "\<not> svflag s MRT_NEEDSCHED" "\<not> svflag s MRT_NEWINT" and q: "q \<le> p"
  shows "flush_loop n m hnd q s = Inl Diverge"
  using more exp q
proof (induction n arbitrary: q)
  case (Suc n)
  have lev: "p < MRT_NR_PRTY" using pl_rep_level[OF rep, of "LIrqd d" p] d(1) by simp
  then have b: "TEST_BIT (pl_bitmap (irqQ (si s))) (push_bit r 1) \<longleftrightarrow> qs r \<noteq> []" if "r \<le> p" for r
    using rep that by (simp add: TEST_BIT_pow MRT_NR_PRTY_def pl_rep_def)
  have nz: "pl_bitmap (irqQ (si s)) \<noteq> 0" using b[of p] d(1) by (auto simp: TEST_BIT_def)
  have ex: "\<not> TEST_BIT (pl_bitmap (expQ (tm s))) (push_bit q 1)" using Suc.prems by blast
  show ?case
  proof (cases "q = p")
    case True
    have "ls_first (pl_list (irqQ (si s)) p) = Some (LIrqd d)" using pl_rep_dll[OF rep lev] d(1) by (simp add: dll_def)
    from irqd_flush_locked[OF this wf d(2)] show ?thesis using True ex b[of p] d(1) p nz lev by (simp add: chk_def)
  next
    case False
    then have "flush_loop n m hnd (q + 1) s = Inl Diverge" using Suc.prems by (intro Suc.IH) auto
    moreover have "\<not> TEST_BIT (pl_bitmap (irqQ (si s))) (push_bit q 1)" using b[of q] Suc.prems False by auto
    ultimately show ?thesis using ex p nz fl Suc.prems(3) by simp
  qed
qed simp

text \<open>
  C27. The kernel never leaves the flush of the pending interrupts when it meets a descriptor that a task has locked. The
  loop of \<open>MRT_irqd_flush\<close> marks the descriptor (\<open>MRT_HANDWAIT\<close>) and takes the first one of the level again, but it does not dequeue it, so
  it takes the same descriptor for ever. The statement is for \<open>MRT_flush_int\<close>, for every set of handlers: a locked descriptor heads
  the most urgent level with pending interrupts, this level is between 1 and the priority level of the system, no timer has expired up
  to this level, and no rescheduling is due.
\<close>

theorem flush_locked_diverges:
  assumes "pl_rep (links s) (irqQ (si s)) qs" and "wf_links (links s)" and "qs p = LIrqd d # ks" and "iflag s d MRT_TASKLOCKED"
    and "1 \<le> p" and "p \<le> unat (prtylvl (sv s))" and "\<forall>r. 1 \<le> r \<and> r < p \<longrightarrow> qs r = []"
    and "\<forall>r. 1 \<le> r \<and> r \<le> p \<longrightarrow> \<not> TEST_BIT (pl_bitmap (expQ (tm s))) (push_bit r 1)" and "\<not> svflag s MRT_NEEDSCHED"
  shows "MRT_flush_int n hnd s = Inl Diverge"
proof -
  let ?s = "clr_svflag MRT_NEWINT (set_svflag MRT_FLUSHLCK s)"
  have "flush_loop n n hnd 1 ?s = Inl Diverge"
    by (rule flush_loop_locked[where qs = qs and p = p and d = d and ks = ks])
      (use assms in \<open>simp_all add: TEST_SET_other TEST_CLR_other TEST_CLR_same\<close>)
  then show ?thesis by (simp add: MRT_flush_int_def Let_def)
qed

theorem flush_locked_diverges_witness:
  "\<exists>s. iflag s 16 MRT_TASKLOCKED \<and> pl_rep (links s) (irqQ (si s)) ((\<lambda>_. [])(5 := [LIrqd 16])) \<and> (\<forall>n hnd. MRT_flush_int n hnd s = Inl Diverge)"
proof -
  have five: "(5 :: nat) < MRT_NR_PRTY" by (simp add: MRT_NR_PRTY_def)
  obtain h q where hq: "pl_rep h q ((\<lambda>_. [])(5 := [LIrqd 16]))" "heap_frame {LIrqd 16} heap0 h"
    using MRT_plist_app_ok[OF plist0_rep five, of "LIrqd 16"] by (auto simp: members_def)
  define s where "s = sv_update (prtylvl_update (\<lambda>_. 15)) (set_iflag 16 MRT_TASKLOCKED (irq_pair h q))"
  have F: "links s = h" "irqQ (si s) = q" "unat (prtylvl (sv s)) = 15" "pl_bitmap (expQ (tm s)) = 0" "sv_flags (sv s) = 0"
    by (simp_all add: s_def irq_pair_def zero_defs plist0_def)
  have l: "iflag s 16 MRT_TASKLOCKED" by (simp add: s_def TEST_SET_same)
  have "MRT_flush_int n hnd s = Inl Diverge" for n hnd
    using flush_locked_diverges[of s "(\<lambda>_. [])(5 := [LIrqd 16])" 5 16 "[]" n hnd] hq wf_links_frame[OF hq(2)] l
    by (simp add: F TEST_BIT_def)
  then show ?thesis using l hq(1) by (intro exI[of _ s]) (simp add: F)
qed

subsection \<open>Timer ticks\<close>

text \<open>What is left of the active queue after \<open>n\<close> ticks.\<close>

definition later :: "nat \<Rightarrow> (nat \<times> nat) list \<Rightarrow> (nat \<times> nat) list" where
  "later n xs = map (\<lambda>x. (fst x, snd x - n)) (filter (\<lambda>x. n < snd x) xs)"

lemma later_later: "later 1 (later n xs) = later (Suc n) xs"
  by (induction xs) (auto simp: later_def)

lemma vlinks_dec: "vlinks (map (\<lambda>x. (fst x, snd x - n)) xs) = vlinks xs"
  by simp

lemma later_due: "vlinks (filter (\<lambda>x. snd x = 1 \<and> P (fst x)) (later n xs)) = vlinks (filter (\<lambda>x. snd x = Suc n \<and> P (fst x)) xs)"
  by (induction xs) (auto simp: later_def)

lemma filter_upto_Suc:
  "sorted (map snd xs) \<Longrightarrow>
   filter (\<lambda>x. snd x \<le> n \<and> P x) xs @ filter (\<lambda>x. snd x = Suc n \<and> P x) xs = filter (\<lambda>x. snd x \<le> Suc n \<and> P x) xs"
proof (induction xs)
  case (Cons x xs)
  have "filter (\<lambda>x. snd x \<le> n \<and> P x) xs = []" if "n < snd x"
    using Cons.prems that by (auto simp: filter_empty_conv)
  then show ?case using Cons by (auto simp: le_Suc_eq)
qed simp

lemma dq_dec: "dq m xs \<Longrightarrow> \<forall>x\<in>set xs. 0 < snd x \<Longrightarrow> dq m (map (\<lambda>x. (fst x, snd x - 1)) xs)"
  by (induction m xs rule: dq.induct) auto

lemma act_rep_dec:
  assumes rep: "act_rep s xs" and pos: "\<forall>x\<in>set xs. 0 < snd x" and ne: "xs \<noteq> []"
    and L: "links s' = links s" and T: "tm s' = tm (set_earliest (\<lambda>n. n - 1) s)"
  shows "act_rep s' (map (\<lambda>x. (fst x, snd x - 1)) xs)"
proof (rule act_repI)
  have "unat (aq_earliest (actQ (tm s))) = snd (hd xs)" "0 < snd (hd xs)"
    using act_repD(3)[OF rep] pos ne by auto
  then have "unat (aq_earliest (actQ (tm s)) - 1) = snd (hd xs) - 1"
    by (metis One_nat_def unat_1 unat_eq_zero unat_minus_one less_numeral_extra(3))
  then show "unat (aq_earliest (actQ (tm s'))) = snd (hd (map (\<lambda>x. (fst x, snd x - 1)) xs))"
    using ne T by (simp add: hd_map)
  show "unat (aq_maxper (actQ (tm s'))) = snd (last (map (\<lambda>x. (fst x, snd x - 1)) xs)) - snd (hd (map (\<lambda>x. (fst x, snd x - 1)) xs))"
    using act_repD(4)[OF rep] pos ne T by (simp add: hd_map last_map)
  show "snd x < 2 ^ 32" if "x \<in> set (map (\<lambda>x. (fst x, snd x - 1)) xs)" for x
    using that by (auto dest!: act_repD(5)[OF rep] simp: less_imp_diff_less)
qed (use act_repD(1,2)[OF rep] pos L T dq_dec in \<open>auto simp: comp_def\<close>)

text \<open>The timer queues: active timers \<open>xs\<close> with the time left to each, expired timers \<open>qs\<close>.\<close>

definition timers :: "kstate \<Rightarrow> (nat \<times> nat) list \<Rightarrow> (nat \<Rightarrow> lref list) \<Rightarrow> bool" where
  "timers s xs qs \<longleftrightarrow> act_rep s xs \<and> wf_links (links s) \<and> pl_rep (links s) (expQ (tm s)) qs
     \<and> members qs \<inter> set (vlinks xs) = {} \<and> (\<forall>x\<in>set xs. vprio s (fst x) < MRT_NR_PRTY)
     \<and> length xs \<le> NR_VTIMERS \<and> \<not> svflag s MRT_ONESHOT \<and> (\<forall>x\<in>set xs. 0 < snd x)"

lemma members_expire_to: "members (expire_to s ys qs) \<subseteq> members qs \<union> set (vlinks ys)"
  by (auto simp: members_def expire_to_def)

lemma takeWhile_due:
  assumes "sorted (map snd xs)" "\<forall>x\<in>set xs. 0 < snd x"
  shows "takeWhile (\<lambda>x. snd x = 0) (map (\<lambda>x. (fst x, snd x - 1)) xs) = map (\<lambda>x. (fst x, snd x - 1)) (filter (\<lambda>x. snd x = 1) xs)"
    and "dropWhile (\<lambda>x. snd x = 0) (map (\<lambda>x. (fst x, snd x - 1)) xs) = later 1 xs"
  using assms
proof (induction xs)
  case (Cons x xs)
  { case 1
    have "filter (\<lambda>x. snd x = 1) xs = []" if "1 < snd x" using 1 that by (auto simp: filter_empty_conv)
    then show ?case using Cons.IH(1) 1 by auto
  next
    case 2
    have "filter (\<lambda>x. 1 < snd x) xs = xs" if "1 < snd x" using 2 that by (auto simp: filter_id_conv)
    then show ?case using Cons.IH(2) 2 by (auto simp: later_def)
  }
qed (simp_all add: later_def)

lemma clock_handler_tick:
  assumes T: "timers s xs qs" and ne: "xs \<noteq> []" and L: "links s1 = links s" "tm s1 = tm (set_earliest (\<lambda>n. n - 1) s)"
    "sv_flags (sv s1) = sv_flags (sv s)"
  shows "\<exists>s'. (if aq_earliest (actQ (tm s1)) = 0 then MRT_clock_handler s1 else Inr s1) = Inr s'
    \<and> act_rep s' (later 1 xs) \<and> wf_links (links s')
    \<and> pl_rep (links s') (expQ (tm s')) (expire_to s (filter (\<lambda>x. snd x = 1) xs) qs) \<and> sv s' = sv s1
    \<and> (\<forall>u. vprio s' u = vprio s u)"
proof -
  let ?ys = "map (\<lambda>x. (fst x, snd x - 1)) xs"
  have rep: "act_rep s xs" and pos: "\<forall>x\<in>set xs. 0 < snd x" using T by (auto simp: timers_def)
  have srt: "sorted (map snd xs)" using dq_sorted act_repD(2)[OF rep] by blast
  note due = takeWhile_due[OF srt pos]
  have a1: "act_rep s1 ?ys" by (rule act_rep_dec[OF rep pos ne L(1,2)])
  have vp: "vprio s1 u = vprio s u" for u by (simp add: L)
  have ex: "expire_to s1 (map (\<lambda>x. (fst x, snd x - 1)) ys) qs = expire_to s ys qs" for ys
    by (simp add: expire_to_def filter_map comp_def vp)
  show ?thesis
  proof (cases "aq_earliest (actQ (tm s1)) = 0")
    case True
    have "\<exists>m s'. clock_expire vt_fuel MRT_MAXPER s1 = Inr (opt_hd (vlinks (later 1 xs)), m, s') \<and> act_rep s' (later 1 xs)
      \<and> wf_links (links s') \<and> pl_rep (links s') (expQ (tm s')) (expire_to s (filter (\<lambda>x. snd x = 1) xs) qs) \<and> sv s' = sv s1
      \<and> (\<forall>u. vprio s' u = vprio s1 u)"
      using clock_expire_ok[OF a1, of qs vt_fuel MRT_MAXPER, unfolded due ex] T L vp by (simp add: timers_def comp_def)
    with True T L(3) show ?thesis by (auto simp: MRT_clock_handler_def timers_def vp)
  next
    case False
    then have "1 < snd (hd xs)"
      using act_repD(3)[OF a1] ne by (simp add: hd_map unat_eq_0[symmetric])
    then have "\<forall>x\<in>set xs. 1 < snd x" using srt ne by (cases xs) auto
    then have "later 1 xs = ?ys" "filter (\<lambda>x. snd x = 1) xs = []"
      by (auto simp: later_def filter_empty_conv filter_id_conv[THEN iffD2])
    with False a1 T L vp show ?thesis by (simp add: timers_def expire_to_def)
  qed
qed

lemma dispatch_timer_tick:
  assumes T: "timers s xs qs"
  shows "\<exists>s'. dispatch_timer d s = Inr s' \<and> act_rep s' (later 1 xs) \<and> wf_links (links s')
    \<and> pl_rep (links s') (expQ (tm s')) (expire_to s (filter (\<lambda>x. snd x = 1) xs) qs)
    \<and> sv_flags (sv s') = sv_flags (sv s) \<and> ticks s' = ticks s + 1 \<and> (\<forall>u. vprio s' u = vprio s u)"
proof -
  define s0 where "s0 = upd_counter (ct_ticks_update (\<lambda>n. n + 1)) s"
  have F0: "links s0 = links s" "tm s0 = tm s" "sv_flags (sv s0) = sv_flags (sv s)" "ticks s0 = ticks s + 1"
    by (simp_all add: s0_def)
  have o: "\<not> svflag s MRT_ONESHOT" and rep: "act_rep s xs" using T by (auto simp: timers_def)
  show ?thesis
  proof (cases xs)
    case Nil
    then have "ls_first (aq_list (actQ (tm s))) = None" using act_repD(1)[OF rep] by (simp add: dll_def)
    then have "dispatch_timer d s = Inr (upd_irqd d (iq_timestamp_update (\<lambda>_. ticks s0)) s0)"
      using o by (simp add: dispatch_timer_def s0_def)
    with T Nil F0 show ?thesis by (auto simp: timers_def later_def expire_to_def act_rep_def)
  next
    case (Cons x ys)
    then have f: "ls_first (aq_list (actQ (tm s0))) \<noteq> None" using act_repD(1)[OF rep] F0 by (simp add: dll_def)
    define s1 where "s1 = set_earliest (\<lambda>n. n - 1) s0"
    have F1: "links s1 = links s" "tm s1 = tm (set_earliest (\<lambda>n. n - 1) s)" "sv s1 = sv s0"
      by (simp_all add: s1_def F0)
    obtain s' where s': "(if aq_earliest (actQ (tm s1)) = 0 then MRT_clock_handler s1 else Inr s1) = Inr s'"
      "act_rep s' (later 1 xs)" "wf_links (links s')"
      "pl_rep (links s') (expQ (tm s')) (expire_to s (filter (\<lambda>x. snd x = 1) xs) qs)" "sv s' = sv s1" "\<forall>u. vprio s' u = vprio s u"
      using clock_handler_tick[OF T _ F1(1,2)] Cons F1(3) F0(3) by auto
    have "dispatch_timer d s = Inr (upd_irqd d (iq_timestamp_update (\<lambda>_. ticks s')) s')"
      unfolding dispatch_timer_def Let_def if_not_P[OF o] s0_def[symmetric] if_P[OF f] s1_def[symmetric] s'(1) by simp
    with s' F1(3) F0 show ?thesis by (auto simp: act_rep_def)
  qed
qed

text \<open>The state of the queues after \<open>n\<close> ticks.\<close>

lemma timers_after:
  assumes T: "timers s xs qs" and A: "act_rep s' (later n xs)" "wf_links (links s')"
    "pl_rep (links s') (expQ (tm s')) (expire_to s (filter (\<lambda>x. snd x \<le> n) xs) qs)"
    "sv_flags (sv s') = sv_flags (sv s)" "\<forall>u. vprio s' u = vprio s u"
  shows "timers s' (later n xs) (expire_to s (filter (\<lambda>x. snd x \<le> n) xs) qs)"
proof -
  have rep: "act_rep s xs" and dis: "members qs \<inter> set (vlinks xs) = {}" and len: "length xs \<le> NR_VTIMERS"
    using T by (auto simp: timers_def)
  have vl: "vlinks (later n xs) = vlinks (filter (\<lambda>x. n < snd x) xs)" by (simp add: later_def comp_def)
  have "distinct (vlinks xs)" using act_repD(1)[OF rep] by (simp add: dll_def)
  then have "set (vlinks (filter (\<lambda>x. snd x \<le> n) xs)) \<inter> set (vlinks (filter (\<lambda>x. n < snd x) xs)) = {}"
    by (induction xs) auto
  moreover have "set (vlinks (filter P xs)) \<subseteq> set (vlinks xs)" for P by auto
  ultimately have "members (expire_to s (filter (\<lambda>x. snd x \<le> n) xs) qs) \<inter> set (vlinks (later n xs)) = {}"
    unfolding vl using members_expire_to[of s "filter (\<lambda>x. snd x \<le> n) xs" qs] dis by blast
  moreover have "length (later n xs) \<le> NR_VTIMERS"
    using len length_filter_le[of "\<lambda>x. n < snd x" xs] by (simp only: later_def length_map)
  ultimately show ?thesis
    using T A by (auto simp: timers_def later_def)
qed

lemma expire_to_Suc:
  assumes "sorted (map snd xs)" "\<forall>u. vprio s' u = vprio s u"
  shows "expire_to s' (filter (\<lambda>x. snd x = 1) (later n xs)) (expire_to s (filter (\<lambda>x. snd x \<le> n) xs) qs)
    = expire_to s (filter (\<lambda>x. snd x \<le> Suc n) xs) qs"
proof
  fix p
  show "expire_to s' (filter (\<lambda>x. snd x = 1) (later n xs)) (expire_to s (filter (\<lambda>x. snd x \<le> n) xs) qs) p
    = expire_to s (filter (\<lambda>x. snd x \<le> Suc n) xs) qs p"
    using later_due[of "\<lambda>v. vprio s v = p" n xs]
      arg_cong[OF filter_upto_Suc[OF assms(1), of n "\<lambda>x. vprio s (fst x) = p"], of vlinks] assms(2)
    by (simp add: expire_to_def conj_commute)
qed

subsection \<open>Properties of the timer tick\<close>

text \<open>
  C28. A virtual timer fires on time. In periodic mode, after any number \<open>n\<close> of timer interrupts
  the timers with at most \<open>n\<close> ticks left are in the queue of expired timers, each at its own
  priority and in the order of expiration, behind what was there, and every other timer is still
  active with \<open>n\<close> ticks less to go. So a timer expires at exactly the tick it was set for.
\<close>

theorem timers_fire_on_time:
  assumes "timers s xs qs"
  shows "\<exists>s'. foldM (\<lambda>_. dispatch_timer d) [0..<n] s = Inr s' \<and> ticks s' = ticks s + of_nat n
    \<and> timers s' (later n xs) (\<lambda>p. qs p @ vlinks (filter (\<lambda>x. vprio s (fst x) = p) (filter (\<lambda>x. snd x \<le> n) xs)))"
proof -
  have rep: "act_rep s xs" using assms by (simp add: timers_def)
  have srt: "sorted (map snd xs)" using dq_sorted act_repD(2)[OF rep] by blast
  let ?P = "\<lambda>s' n. ticks s' = ticks s + of_nat n \<and> sv_flags (sv s') = sv_flags (sv s) \<and> (\<forall>u. vprio s' u = vprio s u)
    \<and> timers s' (later n xs) (expire_to s (filter (\<lambda>x. snd x \<le> n) xs) qs)"
  have "\<exists>s'. foldM (\<lambda>_. dispatch_timer d) [0..<n] s = Inr s' \<and> ?P s' n"
  proof (rule foldM_upt)
    have "later 0 xs = xs" "filter (\<lambda>x. snd x \<le> 0) xs = []"
      using assms by (auto simp: later_def timers_def filter_empty_conv)
    then show "?P s 0" using assms by (simp add: expire_to_def)
  next
    fix i s1 assume P: "?P s1 i" and "i < n"
    from dispatch_timer_tick[of s1, OF P[THEN conjunct2, THEN conjunct2, THEN conjunct2], of d] obtain s2 where
      s2: "dispatch_timer d s1 = Inr s2" "act_rep s2 (later (Suc i) xs)" "wf_links (links s2)"
        "pl_rep (links s2) (expQ (tm s2)) (expire_to s (filter (\<lambda>x. snd x \<le> Suc i) xs) qs)"
        "sv_flags (sv s2) = sv_flags (sv s1)" "ticks s2 = ticks s1 + 1" "\<forall>u. vprio s2 u = vprio s1 u"
      using P by (auto simp: later_later[unfolded One_nat_def] expire_to_Suc[OF srt, unfolded One_nat_def])
    have "timers s2 (later (Suc i) xs) (expire_to s (filter (\<lambda>x. snd x \<le> Suc i) xs) qs)"
      using s2 P by (intro timers_after[OF assms]) auto
    with s2 P show "\<exists>s'. dispatch_timer d s1 = Inr s' \<and> ?P s' (Suc i)" by auto
  qed
  then show ?thesis by (auto simp: expire_to_def)
qed

theorem timers_fire_on_time_witness:
  "\<exists>s s1 s2. timers s [(4, 10)] (\<lambda>_. [])
     \<and> foldM (\<lambda>_. dispatch_timer 0) [0..<9] s = Inr s1 \<and> timers s1 [(4, 1)] (\<lambda>_. [])
     \<and> foldM (\<lambda>_. dispatch_timer 0) [0..<10] s = Inr s2 \<and> timers s2 [] ((\<lambda>_. [])(0 := [LVT 4]))"
proof -
  obtain s where s: "act_rep s [(4, 10)]" "wf_links (links s)" "pl_rep (links s) (expQ (tm s)) (\<lambda>_. [])"
    "sv s = sv kstate0" "vt_priority (VT s 4) = 0" using vt_example by blast
  have T: "timers s [(4, 10)] (\<lambda>_. [])"
    using s by (simp add: timers_def members_def MRT_NR_PRTY_def kstate0_def sysval0_def TEST_BIT_def)
  have e: "(\<lambda>p. [] @ vlinks (filter (\<lambda>x. vprio s (fst x) = p) (filter (\<lambda>x. snd x \<le> 9) [(4, 10)]))) = (\<lambda>_. [])"
      "(\<lambda>p. [] @ vlinks (filter (\<lambda>x. vprio s (fst x) = p) (filter (\<lambda>x. snd x \<le> 10) [(4, 10)]))) = (\<lambda>_. [])(0 := [LVT 4])"
      "later 9 [(4, 10)] = [(4, 1)]" "later 10 [(4, 10)] = []"
    using s(5) by (auto simp: later_def)
  from timers_fire_on_time[OF T, of 0 9, unfolded e] timers_fire_on_time[OF T, of 0 10, unfolded e] T show ?thesis by blast
qed

subsection \<open>A timed sleep\<close>

lemma link_rst_frame_other: "k \<noteq> j \<Longrightarrow> MRT_link_rst j o0 t0 h k = h k"
  by (simp add: MRT_link_rst_def)

lemma timed_sleep:
  assumes rt: "MRT_is_realtime (procs s rp)" and v: "ipcvt (procs s rp) = Some v" and act: "act_rep s []"
    and rdy: "pl_rep (links s) (rdyQ s) qs" "LProc rp \<in> set (qs (prio s rp))" "LVT v \<notin> members qs"
    and t: "t \<noteq> MRT_NOWAIT" "t \<noteq> MRT_FOREVER"
  shows "\<exists>s1. MRT_sleep rp t s = Inr (OK, s1) \<and> aq_earliest (actQ (tm s1)) = t
    \<and> ls_first (aq_list (actQ (tm s1))) = Some (LVT v) \<and> lk_this (links s1 (LVT v)) = Some (OIpcvtField rp)
    \<and> sv s1 = sv s \<and> pl_rep (links s1) (rdyQ s1) (qs(prio s rp := remove1 (LProc rp) (qs (prio s rp))))"
proof -
  let ?h = "MRT_link_rst (LVT v) (OIpcvtField rp) MRT_OBJVT (links s)"
  let ?l = "aq_list (actQ (tm s))"
  have none: "ls_first ?l = None" using act_repD(1)[OF act] by (simp add: dll_def)
  have "dll ?h ?l []" using act_repD(1)[OF act] by (simp add: dll_def)
  from MRT_list_ins_ok[OF this, of "LVT v"] obtain h1 l1 where
    ins: "MRT_list_ins ?h ?l (LVT v) = Inr (h1, l1)" "dll h1 l1 [LVT v]" "heap_frame {LVT v} ?h h1" by auto
  have "h1 k = links s k" if "k \<noteq> LVT v" for k
    using ins(3) that by (simp add: heap_frame_def link_rst_frame_other)
  then have rep1: "pl_rep h1 (rdyQ s) qs" using rdy(3) by (intro pl_rep_cong[OF _ rdy(1)]) metis
  from MRT_plist_rmv_ok[OF rep1 rdy(2)] obtain h2 q2 where
    rmv: "MRT_plist_rmv h1 (rdyQ s) (LProc rp) (prio s rp) = Inr (h2, q2)"
      "pl_rep h2 q2 (qs(prio s rp := remove1 (LProc rp) (qs (prio s rp))))" "heap_frame (set (qs (prio s rp))) h1 h2" by blast
  have this2: "lk_this (h2 (LVT v)) = Some (OIpcvtField rp)"
    using ins(3) rmv(3) by (simp add: heap_frame_def MRT_link_rst_def)
  have f1: "ls_first l1 = Some (LVT v)" using ins(2) by (simp add: dll_def)
  show ?thesis
    using rt v t none ins(1) rmv(1,2) this2 f1
    by (simp add: MRT_sleep_def VTSET_def MRT_vtimer_ins_def with_actQ_def Let_def MRT_rdyQ_rmv_def with_rdyQ_def)
qed

text \<open>Ticks while the first timer is not yet due.\<close>

lemma dispatch_timer_count:
  assumes "\<not> svflag s MRT_ONESHOT" "ls_first (aq_list (actQ (tm s))) = Some k" "aq_earliest (actQ (tm s)) \<noteq> 1"
  shows "\<exists>s'. dispatch_timer d s = Inr s' \<and> links s' = links s \<and> sv_flags (sv s') = sv_flags (sv s)
    \<and> aq_list (actQ (tm s')) = aq_list (actQ (tm s)) \<and> aq_earliest (actQ (tm s')) = aq_earliest (actQ (tm s)) - 1"
  using assms by (simp add: dispatch_timer_def Let_def)

lemma dispatch_timer_bad:
  assumes "\<not> svflag s MRT_ONESHOT" "ls_first (aq_list (actQ (tm s))) = Some k" "aq_earliest (actQ (tm s)) = 1"
    "as_vt (lk_this (links s k)) = Inl e"
  shows "dispatch_timer d s = Inl e"
  using assms by (simp add: dispatch_timer_def Let_def MRT_clock_handler_def numeral_eq_Suc)

lemma ticks_to_bad:
  assumes "\<not> svflag s MRT_ONESHOT" "ls_first (aq_list (actQ (tm s))) = Some k" "as_vt (lk_this (links s k)) = Inl e"
    "unat (aq_earliest (actQ (tm s))) = Suc n"
  shows "(\<exists>s'. foldM (\<lambda>_. dispatch_timer d) [0..<n] s = Inr s') \<and> foldM (\<lambda>_. dispatch_timer d) [0..<Suc n] s = Inl e"
proof -
  let ?P = "\<lambda>s' m. \<not> svflag s' MRT_ONESHOT \<and> ls_first (aq_list (actQ (tm s'))) = Some k \<and> links s' = links s
    \<and> unat (aq_earliest (actQ (tm s'))) = Suc n - m"
  have "\<exists>s'. foldM (\<lambda>_. dispatch_timer d) [0..<n] s = Inr s' \<and> ?P s' n"
  proof (rule foldM_upt[where P = ?P])
    show "?P s 0" using assms by simp
  next
    fix i s1 assume P: "?P s1 i" and i: "i < n"
    have one: "aq_earliest (actQ (tm s1)) \<noteq> 1" "aq_earliest (actQ (tm s1)) \<noteq> 0"
      using P i by (auto simp: unat_eq_0[symmetric])
    then have "unat (aq_earliest (actQ (tm s1)) - 1) = Suc n - Suc i"
      using P by (simp add: unat_minus_one)
    then show "\<exists>s'. dispatch_timer d s1 = Inr s' \<and> ?P s' (Suc i)"
      using dispatch_timer_count[of s1 k d] P one by auto
  qed
  then obtain s' where s': "foldM (\<lambda>_. dispatch_timer d) [0..<n] s = Inr s'" "?P s' n" by blast
  have "unat (aq_earliest (actQ (tm s'))) = 1" using s'(2) by simp
  then have "aq_earliest (actQ (tm s')) = 1" by (simp add: word_unat_eq_iff)
  then have "dispatch_timer d s' = Inl e" using s'(2) assms(3) by (intro dispatch_timer_bad) auto
  with s'(1) show ?thesis by (simp add: foldM_append)
qed

text \<open>A kernel in which the real-time process 5 of priority 3 is ready and owns the timer 2.\<close>

definition sleeper :: "heap \<Rightarrow> plist_t \<Rightarrow> kstate" where
  "sleeper h q = kstate0\<lparr>links := h, rdyQ := q,
     procs := (\<lambda>_. proc0)(5 := proc0\<lparr>p_flags := MRT_P_REALTIME, ipcvt := Some 2, rt := (rt proc0)\<lparr>rt_priority := 3\<rparr>\<rparr>)\<rparr>"

text \<open>
  C29. A timed sleep brings the kernel down. \<open>MRT_sleep\<close> stores the address of the pointer \<open>ipcvt\<close>
  instead of the timer as the owner of the link, so when the timer is the only active one, the
  call returns \<open>OK\<close>, the ticks before the timeout pass, and at exactly the tick of the timeout the
  clock handler follows that pointer to an object that is not a timer.
\<close>

theorem timed_sleep_faults:
  assumes "MRT_is_realtime (procs s rp)" "ipcvt (procs s rp) = Some v" "act_rep s []"
    and "pl_rep (links s) (rdyQ s) qs" "LProc rp \<in> set (qs (prio s rp))" "LVT v \<notin> members qs"
    and "\<not> svflag s MRT_ONESHOT" "0 < n" "of_nat n \<noteq> MRT_FOREVER" "n < 2 ^ 32"
  shows "\<exists>s1 s2. MRT_sleep rp (of_nat n) s = Inr (OK, s1) \<and> foldM (\<lambda>_. dispatch_timer d) [0..<n - 1] s1 = Inr s2
    \<and> foldM (\<lambda>_. dispatch_timer d) [0..<n] s1 = Inl BadCast"
proof -
  have u: "unat (of_nat n :: u32) = n" using assms(10) by (simp add: unat_of_nat)
  then have nz: "(of_nat n :: u32) \<noteq> MRT_NOWAIT" using assms(8) by (metis unat_0 less_irrefl)
  obtain s1 where s1: "MRT_sleep rp (of_nat n) s = Inr (OK, s1)" "aq_earliest (actQ (tm s1)) = of_nat n"
    "ls_first (aq_list (actQ (tm s1))) = Some (LVT v)" "lk_this (links s1 (LVT v)) = Some (OIpcvtField rp)" "sv s1 = sv s"
    using timed_sleep[OF assms(1-6) nz assms(9)] by blast
  obtain m where n: "n = Suc m" using assms(8) by (cases n) auto
  have "\<not> svflag s1 MRT_ONESHOT" using s1(5) assms(7) by simp
  moreover have "unat (aq_earliest (actQ (tm s1))) = Suc m" using s1(2) u n by simp
  moreover have "as_vt (lk_this (links s1 (LVT v))) = Inl BadCast" using s1(4) by (simp add: as_vt_def)
  ultimately have "(\<exists>s2. foldM (\<lambda>_. dispatch_timer d) [0..<m] s1 = Inr s2) \<and> foldM (\<lambda>_. dispatch_timer d) [0..<Suc m] s1 = Inl BadCast"
    using ticks_to_bad s1(3) by blast
  with s1(1) n show ?thesis by simp
qed

theorem timed_sleep_faults_witness:
  "\<exists>h q s1 s2. MRT_sleep 5 10 (sleeper h q) = Inr (OK, s1) \<and> foldM (\<lambda>_. dispatch_timer 0) [0..<9] s1 = Inr s2
     \<and> foldM (\<lambda>_. dispatch_timer 0) [0..<10] s1 = Inl BadCast"
proof -
  have three: "(3 :: nat) < MRT_NR_PRTY" by (simp add: MRT_NR_PRTY_def)
  obtain h q where 1: "pl_rep h q ((\<lambda>_. [])(3 := [LProc 5]))"
    using MRT_plist_app_ok[OF plist0_rep three, of "LProc 5"] by (auto simp: members_def)
  let ?s = "sleeper h q"
  have "MRT_is_realtime (procs ?s 5)" "ipcvt (procs ?s 5) = Some 2" "prio ?s 5 = 3" "act_rep ?s []"
      "pl_rep (links ?s) (rdyQ ?s) ((\<lambda>_. [])(3 := [LProc 5]))" "\<not> svflag ?s MRT_ONESHOT"
    using 1 act_rep0 by (simp_all add: sleeper_def MRT_is_realtime_def TEST_BIT_def act_rep_def dll_def kstate0_def sysval0_def)
  then show ?thesis
    using timed_sleep_faults[of ?s 5 2 "(\<lambda>_. [])(3 := [LProc 5])" 10 0] by (auto simp: members_def)
qed

subsection \<open>A down that times out\<close>

lemma act_down_removes:
  assumes inv: "sem_inv i s qs sq" and p: "p \<in> set (sq m)" and i: "sem_addr (vt_param (VT s v)) = Inr i" and o: "vt_owner (VT s v) = p"
    and r: "rt_flags (rt (procs s p)) = MRT_SEM_DOWN" "rt_limit (rt (procs s p)) = 0" and lv: "prio s p < MRT_NR_PRTY"
  shows "\<exists>s'. MRT_act_down v s = ret 0 s' \<and> p_retreg (procs s' p) = E_MRT_TIMEOUT \<and> sem_rep s' i (sq(m := remove1 p (sq m)))
    \<and> pl_rep (links s') (rdyQ s') (qs(prio s p := qs (prio s p) @ [LProc p]))
    \<and> sm_value (SEM s' i) = sm_value (SEM s i) \<and> sm_owner (SEM s' i) = sm_owner (SEM s i)"
proof -
  have X: "pl_rep (links s) (rdyQ s) qs" and Y: "pl_rep (links s) (sm_plist (SEM s i)) (\<lambda>p. map LProc (sq p))"
    and wf: "wf_links (links s)" and disj: "members (\<lambda>p. map LProc (sq p)) \<inter> members qs = {}"
    and ok: "isokprocn p" "sproc_level s i p = m"
    using inv p by (auto simp: sem_inv_def rdyQ_inv_def sem_rep_def members_map)
  have pm: "LProc p \<in> set (map LProc (sq m))" using p by simp
  have q0: "pl_inQ (sm_plist (SEM s i)) \<noteq> 0"
    using Y p pl_rep_level[OF Y pm] by (auto simp: pl_rep_def pl_total_0)
  from plist_move[OF Y X disj pm lv] obtain h1 Y1 h2 X1 where
    mv: "MRT_plist_rmv (links s) (sm_plist (SEM s i)) (LProc p) m = Inr (h1, Y1)"
      "heap_frame (members (\<lambda>p. map LProc (sq p))) (links s) h1"
      "MRT_plist_app h1 (rdyQ s) (LProc p) (prio s p) = Inr (h2, X1)"
      "heap_frame (members (\<lambda>p. map LProc (sq p)) \<union> members qs) h1 h2"
      "pl_rep h2 Y1 ((\<lambda>p. map LProc (sq p))(m := remove1 (LProc p) (map LProc (sq m))))"
      "pl_rep h2 X1 (qs(prio s p := qs (prio s p) @ [LProc p]))" by metis
  have wf2: "wf_links h2" using wf_links_frame[OF mv(2)] wf_links_frame[OF mv(4)] wf by simp
  let ?a = "upd_sem i (sm_plist_update (\<lambda>_. Y1)) (s\<lparr>links := h1\<rparr>)"
  have rmv: "MRT_sproc_rmv i p s = Inr ?a" using mv(1) q0 ok(2) by (simp add: MRT_sproc_rmv_def with_sem_plist_def)
  let ?c = "upd_rtflags p (\<lambda>w. CLR_BIT w MRT_SEM_DOWN) ?a"
  have rdy: "MRT_is_rtready (procs ?c p)" using r(1) by (simp add: MRT_is_rtready_def CLR_BIT_def)
  have app: "MRT_ready p ?c = Inr (?c\<lparr>links := h2, rdyQ := X1\<rparr>)"
    using mv(3) r(2) by (simp add: MRT_rdyQ_app_def with_rdyQ_def)
  have pa: "proc_addr (vt_owner (VT s v)) = Inr p" using o ok(1) by (simp add: proc_addr_def isokprocn_def)
  define s' where "s' = set_retreg p E_MRT_TIMEOUT (set_svflag MRT_NEEDSCHED (?c\<lparr>links := h2, rdyQ := X1\<rparr>))"
  have "MRT_act_down v s = ret 0 s'"
    by (simp only: MRT_act_down_def pa i bnd.simps rmv ready_and_sched_def rdy app if_True s'_def)
  moreover have "sem_rep s' i (sq(m := remove1 p (sq m)))"
    using mv(5) wf2 unfolding sem_rep_def map_upd map_remove1_LProc by (simp add: s'_def)
  ultimately show ?thesis using mv(6) by (auto simp: s'_def)
qed

text \<open>
  C30. When a down times out, \<open>MRT_act_down\<close> takes the process off the semaphore and makes it ready with
  \<open>E_MRT_TIMEOUT\<close>, but leaves the value as it is: from then on one process fewer waits than the value
  says. If nobody else was waiting, the next up finds a negative value and an empty queue and panics.
\<close>

theorem down_timeout_panics:
  assumes "sem_inv i s qs sq" "p \<in> set (sq m)" "sem_addr (vt_param (VT s v)) = Inr i" "vt_owner (VT s v) = p"
    and "wakeable s p" "sm_owner (SEM s i) \<noteq> HARDWARE"
  shows "\<exists>s'. MRT_act_down v s = ret 0 s' \<and> p_retreg (procs s' p) = E_MRT_TIMEOUT
    \<and> pl_rep (links s') (rdyQ s') (qs(prio s p := qs (prio s p) @ [LProc p]))
    \<and> sem_rep s' i (sq(m := remove1 p (sq m))) \<and> int (pl_total (sq(m := remove1 p (sq m)))) = - sm_value (SEM s' i) - 1
    \<and> (pl_total sq = 1 \<longrightarrow> MRT_semup i s' = Inl (Panic ''MRT_semup: value<0 but any process waiting on semaphore ''))"
proof -
  obtain s' where s': "MRT_act_down v s = ret 0 s'" "p_retreg (procs s' p) = E_MRT_TIMEOUT" "sem_rep s' i (sq(m := remove1 p (sq m)))"
    "pl_rep (links s') (rdyQ s') (qs(prio s p := qs (prio s p) @ [LProc p]))"
    "sm_value (SEM s' i) = sm_value (SEM s i)" "sm_owner (SEM s' i) = sm_owner (SEM s i)"
    using act_down_removes[OF assms(1-4)] assms(5) by (auto simp: wakeable_def)
  have Y: "pl_rep (links s) (sm_plist (SEM s i)) (\<lambda>p. map LProc (sq p))" using assms(1) by (simp add: sem_inv_def sem_rep_def)
  have "m < MRT_NR_PRTY" using pl_rep_level[OF Y, of "LProc p" m] assms(2) by simp
  note tot = pl_total_remove[of p sq m, OF assms(2) this]
  have val: "int (pl_total sq) = - sm_value (SEM s i)" "sm_value (SEM s i) < 0" using assms(1) tot by (auto simp: sem_inv_def)
  have "MRT_semup i s' = Inl (Panic ''MRT_semup: value<0 but any process waiting on semaphore '')" if "pl_total sq = 1"
  proof -
    have "pl_total (sq(m := remove1 p (sq m))) = 0" using tot that by linarith
    then have "first_of MRT_NR_PRTY (sq(m := remove1 p (sq m))) = None" by (simp only: first_of_None pl_total_0)
    then have "MRT_sproc_pick i s' = Inr None" using MRT_sproc_pick_ok[OF s'(3)] by (simp only:)
    then show ?thesis using s'(5,6) val(2) assms(6) by (simp add: MRT_semup_def)
  qed
  moreover have "int (pl_total (sq(m := remove1 p (sq m)))) = - sm_value (SEM s' i) - 1" using tot val s'(5) by linarith
  ultimately show ?thesis using s'(1-4) by blast
qed

theorem down_timeout_panics_witness:
  "\<exists>s s'. sm_value (SEM s 0) = - 1 \<and> MRT_act_down 2 s = ret 0 s' \<and> p_retreg (procs s' 5) = E_MRT_TIMEOUT
     \<and> MRT_semup 0 s' = Inl (Panic ''MRT_semup: value<0 but any process waiting on semaphore '')"
proof -
  from sem_waiting_example obtain s where
    s: "sem_inv 0 s (\<lambda>_. []) ((\<lambda>_. [])(0 := [5]))" "sm_owner (SEM s 0) = 6" "sm_value (SEM s 0) = - 1" "wakeable s 5" by blast
  let ?s = "upd_vt 2 (\<lambda>t. t\<lparr>vt_owner := 5, vt_param := 0\<rparr>) s"
  have "sem_inv 0 ?s (\<lambda>_. []) ((\<lambda>_. [])(0 := [5]))"
    using s(1) by (auto simp: sem_inv_def rdyQ_inv_def sem_rep_def sproc_level_def split: if_splits)
  moreover have "wakeable ?s 5" using s(4) by (auto simp: wakeable_def)
  moreover have "sem_addr (vt_param (VT ?s 2)) = Inr 0" by (simp add: sem_addr_def tab_addr_def)
  moreover have "pl_total ((\<lambda>_. [])(0 := [5 :: int])) = 1"
    using pl_total_app[of 0 "\<lambda>_. []" "5 :: int"] by (simp add: pl_total_def MRT_NR_PRTY_def)
  ultimately have "\<exists>s'. MRT_act_down 2 ?s = ret 0 s' \<and> p_retreg (procs s' 5) = E_MRT_TIMEOUT
     \<and> MRT_semup 0 s' = Inl (Panic ''MRT_semup: value<0 but any process waiting on semaphore '')"
    using down_timeout_panics[of 0 ?s "\<lambda>_. []" "(\<lambda>_. [])(0 := [5])" 5 0 2] s(2) by auto
  moreover have "sm_value (SEM ?s 0) = - 1" using s(3) by simp
  ultimately show ?thesis by blast
qed

end
