(* ===== verification/Minix_Ipc.thy ===== *)
theory Minix_Ipc
  imports Vtact
begin

text \<open>
  Message passing of MINIX (\<^verbatim>\<open>src/src/kernel/proc.c\<close>): \<open>sys_call\<close>, \<open>mini_send\<close>,
  \<open>mini_rec\<close>, interrupts as messages (\<open>interrupt\<close>, \<open>unhold\<close>), and the signals the kernel reports to
  the memory manager (\<open>cause_sig\<close>, \<open>inform\<close> of \<^verbatim>\<open>src/src/kernel/system.c\<close>).

  A message buffer is a virtual address. \<open>CopyMess\<close> adds it to the origin of the data segment of
  its process. The kernel itself and its tasks share one data segment, that of \<open>HARDWARE\<close>; this is
  where a pointer that the kernel dereferences directly leads.
\<close>

abbreviation (input) KSIG :: int where "KSIG \<equiv> 64"
abbreviation (input) HARD_INT :: int where "HARD_INT \<equiv> 2"
abbreviation (input) MESS_SIZE :: u32 where "MESS_SIZE \<equiv> 36"
abbreviation (input) NSIG :: int where "NSIG \<equiv> 16"
abbreviation (input) F_SEND :: int where "F_SEND \<equiv> 1"
abbreviation (input) F_RECEIVE :: int where "F_RECEIVE \<equiv> 2"
abbreviation (input) F_BOTH :: int where "F_BOTH \<equiv> 3"

subsection \<open>Messages in memory\<close>

definition mess_phys :: "kstate \<Rightarrow> int \<Rightarrow> u32 \<Rightarrow> u32" where
  "mess_phys s p a = push_bit 8 (mem_phys (p_map (procs s p) 1)) + a"

definition upd_message :: "u32 \<Rightarrow> (message \<Rightarrow> message) \<Rightarrow> kstate \<Rightarrow> kstate" where
  "upd_message a f = um_update (um_message_update (\<lambda>m. m(a := f (m a))))"

text \<open>\<open>cp_mess\<close> writes the number of the sender into the copy.\<close>

definition CopyMess :: "int \<Rightarrow> int \<Rightarrow> u32 \<Rightarrow> int \<Rightarrow> u32 \<Rightarrow> kstate \<Rightarrow> kstate" where
  "CopyMess src sp smess dp dmess s =
     (let x = um_message (um s) (mess_phys s sp smess)
      in upd_message (mess_phys s dp dmess) (\<lambda>_. x\<lparr>m_source := src\<rparr>) s)"

definition hard_int_message :: "u32 \<Rightarrow> kstate \<Rightarrow> kstate" where
  "hard_int_message a s =
     upd_message (mess_phys s HARDWARE a) (\<lambda>x. x\<lparr>m_source := HARDWARE, m_type := HARD_INT\<rparr>) s"

subsection \<open>Interrupts as messages\<close>

definition hold_interrupt :: "int \<Rightarrow> kstate \<Rightarrow> kstate res" where
  "hold_interrupt rp s =
     (if p_int_held (procs s rp) then Inr s
      else
        let s = upd_proc rp (p_int_held_update (\<lambda>_. True)) s
        in bnd (if held_head s \<noteq> None
                then bnd (deref (held_tail s)) (\<lambda>t. Inr (upd_proc t (p_nextheld_update (\<lambda>_. Some rp)) s))
                else Inr (s\<lparr>held_head := Some rp\<rparr>)) (\<lambda>s.
           Inr (upd_proc rp (p_nextheld_update (\<lambda>_. None)) (s\<lparr>held_tail := Some rp\<rparr>))))"

definition interrupt :: "nat \<Rightarrow> handlers \<Rightarrow> int \<Rightarrow> kstate \<Rightarrow> kstate res" where
  "interrupt n hnd task s =
     bnd (proc_addr task) (\<lambda>rp.
     if k_reenter s \<noteq> 0 \<or> switching s
     then bnd (hold_interrupt rp (lock s)) (unlock n hnd)
     else if p_flags (procs s rp) AND (RECEIVING OR SENDING) \<noteq> RECEIVING
             \<or> \<not> isrxhardware (p_getfrom (procs s rp))
     then Inr (upd_proc rp (p_int_blocked_update (\<lambda>_. True)) s)
     else
       let s = hard_int_message (p_messbuf (procs s rp)) s;
           s = upd_proc rp (p_flags_update (\<lambda>w. w AND NOT RECEIVING)) s;
           s = upd_proc rp (p_int_blocked_update (\<lambda>_. False)) s
       in ready_tail TASK_Q rp (\<lambda>s. s\<lparr>proc_ptr := rp\<rparr>) s)"

fun unhold_loop :: "nat \<Rightarrow> nat \<Rightarrow> handlers \<Rightarrow> int \<Rightarrow> kstate \<Rightarrow> kstate res" where
  "unhold_loop 0 m hnd rp s = Inl Diverge"
| "unhold_loop (Suc n) m hnd rp s =
     (let s = s\<lparr>held_head := p_nextheld (procs s rp)\<rparr>;
          s = (if held_head s = None then s\<lparr>held_tail := None\<rparr> else s);
          s = upd_proc rp (p_int_held_update (\<lambda>_. False)) s
      in bnd (unlock m hnd s) (\<lambda>s.
         bnd (interrupt m hnd rp s) (\<lambda>s.
         let s = lock s
         in case held_head s of None \<Rightarrow> Inr s | Some rp \<Rightarrow> unhold_loop n m hnd rp s)))"

definition unhold :: "nat \<Rightarrow> handlers \<Rightarrow> kstate \<Rightarrow> kstate res" where
  "unhold n hnd s =
     (if switching s then Inr s
      else bnd (deref (held_head s)) (\<lambda>rp. unhold_loop n n hnd rp s))"

subsection \<open>Sending\<close>

text \<open>
  The walk along the chain of blocked senders that starts at \<open>p\<close>: whether it meets \<open>caller\<close>. There
  are 43 processes, so a longer walk is in a cycle.
\<close>

fun send_chain :: "nat \<Rightarrow> int \<Rightarrow> int \<Rightarrow> kstate \<Rightarrow> bool res" where
  "send_chain 0 caller p s = Inl Diverge"
| "send_chain (Suc n) caller p s =
     (if p = caller then Inr True
      else if TEST_BIT (p_flags (procs s p)) SENDING
      then bnd (proc_addr (p_sendto (procs s p))) (\<lambda>p. send_chain n caller p s)
      else Inr False)"

fun callerq_last :: "nat \<Rightarrow> int \<Rightarrow> kstate \<Rightarrow> int res" where
  "callerq_last 0 p s = Inl Diverge"
| "callerq_last (Suc n) p s =
     (case p_sendlink (procs s p) of None \<Rightarrow> Inr p | Some q \<Rightarrow> callerq_last n q s)"

definition message_outside :: "proc_t \<Rightarrow> u32 \<Rightarrow> bool" where
  "message_outside p vb =
     (let vlo = drop_bit 8 vb; vhi = drop_bit 8 (vb + MESS_SIZE - 1)
      in vlo < mem_vir (p_map p 1) \<or> vlo > vhi \<or> vhi \<ge> mem_vir (p_map p 2) + mem_len (p_map p 2))"

definition callerq_app :: "int \<Rightarrow> int \<Rightarrow> kstate \<Rightarrow> kstate res" where
  "callerq_app dest caller s =
     bnd (case p_callerq (procs s dest) of
            None \<Rightarrow> Inr (upd_proc dest (p_callerq_update (\<lambda>_. Some caller)) s)
          | Some q \<Rightarrow>
              bnd (callerq_last proc_fuel q s) (\<lambda>l.
              Inr (upd_proc l (p_sendlink_update (\<lambda>_. Some caller)) s))) (\<lambda>s.
     Inr (upd_proc caller (p_sendlink_update (\<lambda>_. None)) s))"

definition mini_send :: "int \<Rightarrow> int \<Rightarrow> u32 \<Rightarrow> kstate \<Rightarrow> (int \<times> kstate) res" where
  "mini_send caller dest m_ptr s =
     (if isuserp caller \<and> \<not> issysmrt dest then ret E_BAD_DEST s
      else
        bnd (proc_addr dest) (\<lambda>dp.
        if TEST_BIT (p_flags (procs s dp)) P_SLOT_FREE then ret E_BAD_DEST s
        else if message_outside (procs s caller) m_ptr then ret EFAULT s
        else
          bnd (if TEST_BIT (p_flags (procs s dp)) SENDING
               then bnd (proc_addr (p_sendto (procs s dp))) (\<lambda>p. send_chain proc_fuel caller p s)
               else Inr False) (\<lambda>locked.
          if locked then ret ELOCKED s
          else if p_flags (procs s dp) AND (RECEIVING OR SENDING) = RECEIVING
                  \<and> (p_getfrom (procs s dp) = ANY \<or> p_getfrom (procs s dp) = caller)
          then
            let s = CopyMess caller caller m_ptr dp (p_messbuf (procs s dp)) s;
                s = upd_proc dp (p_flags_update (\<lambda>w. w AND NOT RECEIVING)) s
            in bnd (if p_flags (procs s dp) = 0 then ready dp s else Inr s) (\<lambda>s. ret OK s)
          else
            let s = upd_proc caller (p_messbuf_update (\<lambda>_. m_ptr)) s
            in bnd (if p_flags (procs s caller) = 0 then unready caller s else Inr s) (\<lambda>s.
               let s = upd_proc caller (p_flags_update (\<lambda>w. w OR SENDING)) s;
                   s = upd_proc caller (p_sendto_update (\<lambda>_. dest)) s
               in bnd (callerq_app dp caller s) (\<lambda>s. ret OK s)))))"

definition lock_mini_send :: "int \<Rightarrow> int \<Rightarrow> u32 \<Rightarrow> kstate \<Rightarrow> (int \<times> kstate) res" where
  "lock_mini_send caller dest m_ptr s =
     bnd (mini_send caller dest m_ptr (s\<lparr>switching := True\<rparr>)) (\<lambda>(r, s). ret r (s\<lparr>switching := False\<rparr>))"

subsection \<open>Signals\<close>

definition inform_message :: "int \<Rightarrow> kstate \<Rightarrow> kstate" where
  "inform_message rp s =
     upd_message (mess_phys s HARDWARE (m_addr s))
       (\<lambda>x. x\<lparr>m_type := KSIG, m_u := (m_u x)(0 := word_of_int rp, 3 := p_pending (procs s rp))\<rparr>) s"

definition inform :: "kstate \<Rightarrow> kstate res" where
  "inform s =
     (case List.find (\<lambda>p. TEST_BIT (p_flags (procs s p)) PENDING) [0..NR_PROCS - 1] of
        None \<Rightarrow> Inr s
      | Some rp \<Rightarrow>
          let s = inform_message rp s;
              s = s\<lparr>sig_procs := sig_procs s - 1\<rparr>
          in bnd (lock_mini_send HARDWARE MM_PROC_NR (m_addr s) s) (\<lambda>(r, s).
             if r \<noteq> OK then Inl (Panic ''can't inform MM'')
             else
               let s = upd_proc rp (p_pending_update (\<lambda>_. 0)) s;
                   s = upd_proc rp (p_flags_update (\<lambda>w. w AND NOT PENDING)) s
               in lock_pick_proc s))"

text \<open>\<open>sigismember\<close> and \<open>sigaddset\<close> of \<^verbatim>\<open>src/src/lib/posix/_sigset.c\<close>.\<close>

definition sigisvalid :: "int \<Rightarrow> bool" where
  "sigisvalid signo \<longleftrightarrow> 0 \<le> signo \<and> signo \<le> NSIG"

definition sigismember :: "u32 \<Rightarrow> int \<Rightarrow> int" where
  "sigismember w signo =
     (if \<not> sigisvalid signo then - 1 else if TEST_BIT w (push_bit (nat signo) 1) then 1 else 0)"

definition sigaddset :: "int \<Rightarrow> u32 \<Rightarrow> u32" where
  "sigaddset signo w = (if \<not> sigisvalid signo then w else w OR push_bit (nat signo) 1)"

definition cause_sig :: "int \<Rightarrow> int \<Rightarrow> kstate \<Rightarrow> kstate res" where
  "cause_sig proc_nr sig_nr s =
     bnd (proc_addr proc_nr) (\<lambda>rp.
     if sigismember (p_pending (procs s rp)) sig_nr \<noteq> 0 then Inr s
     else
       let s = upd_proc rp (p_pending_update (sigaddset sig_nr)) s;
           s = upd_proc rp (p_pendcount_update (\<lambda>n. n + 1)) s
       in if TEST_BIT (p_flags (procs s rp)) PENDING then Inr s
          else
            bnd (if p_flags (procs s rp) = 0 then lock_unready rp s else Inr s) (\<lambda>s.
            let s = upd_proc rp (p_flags_update (\<lambda>w. w OR PENDING OR SIG_PENDING)) s;
                s = s\<lparr>sig_procs := sig_procs s + 1\<rparr>
            in if \<not> TEST_BIT (p_flags (procs s MM_PROC_NR)) RECEIVING \<or> p_getfrom (procs s MM_PROC_NR) \<noteq> ANY
               then Inr s else inform s))"

subsection \<open>Receiving\<close>

text \<open>
  The search of the queue of callers: the first acceptable sender and the process in front of it
  in the queue.
\<close>

fun callerq_find :: "nat \<Rightarrow> int \<Rightarrow> int option \<Rightarrow> int option \<Rightarrow> kstate \<Rightarrow> (int option \<times> int) option res" where
  "callerq_find 0 src prev p s = Inl Diverge"
| "callerq_find (Suc n) src prev p s =
     (case p of
        None \<Rightarrow> Inr None
      | Some q \<Rightarrow>
          if src = ANY \<or> src = q then Inr (Some (prev, q))
          else callerq_find n src (Some q) (p_sendlink (procs s q)) s)"

definition callerq_take :: "int \<Rightarrow> int option \<Rightarrow> int \<Rightarrow> kstate \<Rightarrow> kstate res" where
  "callerq_take caller prev sender s =
     (if p_callerq (procs s caller) = Some sender
      then Inr (upd_proc caller (p_callerq_update (\<lambda>_. p_sendlink (procs s sender))) s)
      else bnd (deref prev) (\<lambda>x. Inr (upd_proc x (p_sendlink_update (\<lambda>_. p_sendlink (procs s sender))) s)))"

definition rec_block :: "int \<Rightarrow> int \<Rightarrow> u32 \<Rightarrow> kstate \<Rightarrow> (int \<times> kstate) res" where
  "rec_block caller src m_ptr s =
     (let s = upd_proc caller (\<lambda>p. p\<lparr>p_getfrom := src, p_messbuf := m_ptr\<rparr>) s
      in bnd (if p_flags (procs s caller) = 0 then unready caller s else Inr s) (\<lambda>s.
         let s = upd_proc caller (p_flags_update (\<lambda>w. w OR RECEIVING)) s
         in bnd (if sig_procs s > 0 \<and> caller = MM_PROC_NR \<and> src = ANY then inform s else Inr s) (\<lambda>s. ret OK s)))"

definition mini_rec :: "int \<Rightarrow> int \<Rightarrow> u32 \<Rightarrow> kstate \<Rightarrow> (int \<times> kstate) res" where
  "mini_rec caller src m_ptr s =
     (if TEST_BIT (p_flags (procs s caller)) SENDING then rec_block caller src m_ptr s
      else
        bnd (callerq_find proc_fuel src None (p_callerq (procs s caller)) s) (\<lambda>found.
        case found of
          Some (prev, sender) \<Rightarrow>
            let s = CopyMess sender sender (p_messbuf (procs s sender)) caller m_ptr s
            in bnd (callerq_take caller prev sender s) (\<lambda>s.
               let s = upd_proc sender (p_flags_update (\<lambda>w. w AND NOT SENDING)) s
               in bnd (if p_flags (procs s sender) = 0 then ready sender s else Inr s) (\<lambda>s. ret OK s))
        | None \<Rightarrow>
            if p_int_blocked (procs s caller) \<and> isrxhardware src
            then ret OK (upd_proc caller (p_int_blocked_update (\<lambda>_. False)) (hard_int_message m_ptr s))
            else rec_block caller src m_ptr s))"

text \<open>The parity of \<open>function\<close> is its bit \<open>SEND\<close>.\<close>

definition sys_call :: "int \<Rightarrow> int \<Rightarrow> u32 \<Rightarrow> kstate \<Rightarrow> (int \<times> kstate) res" where
  "sys_call fnc src_dest m_ptr s =
     (let rp = proc_ptr s
      in if \<not> isoksrc_dest src_dest then ret E_BAD_SRC s
         else if isuserp rp \<and> fnc \<noteq> F_BOTH then ret E_NO_PERM s
         else if odd fnc
         then
           bnd (mini_send rp src_dest m_ptr s) (\<lambda>(n, s).
           if fnc = F_SEND \<or> n \<noteq> OK then ret n s else mini_rec rp src_dest m_ptr s)
         else mini_rec rp src_dest m_ptr s)"

end
