(* ===== verification/Rendezvous.thy ===== *)
theory Rendezvous
  imports Minix_Ipc
begin

text \<open>
  The correctness of the message passing of MINIX, whose model is in \<open>Minix_Ipc\<close>.

  The invariant \<open>ipc_inv\<close> joins the run queues of \<open>Sched\<close> with the queues of blocked senders: the
  queue of a process holds exactly the processes that are blocked sending to it, linked by \<open>p_sendlink\<close>
  in the order of their calls, a queued runnable process has no flag set, and the graph of blocked senders
  has no cycle. The lemmas \<open>mini_send_spec\<close>, \<open>mini_rec_spec\<close> and \<open>inform_spec\<close> describe every
  branch of the calls and show that the invariant is kept; the walk of \<open>mini_send\<close> along the blocked senders
  ends within \<open>proc_fuel\<close> steps and decides reachability in this graph.
\<close>

subsection \<open>What scheduling leaves alone\<close>

text \<open>
  Scheduling writes the links of the run queues and the statistics of a process. The view is
  the rest of what message passing reads.
\<close>

definition sched_view :: "kstate \<Rightarrow> (int \<Rightarrow> proc_t) \<times> heap \<times> plist_t \<times> umem_t \<times> int \<times> u32" where
  "sched_view s = (\<lambda>p. (procs s p)\<lparr>p_nextready := None, st := st proc0\<rparr>, links s, rdyQ s, um s, sig_procs s, m_addr s)"

lemma sched_viewD:
  assumes "sched_view s' = sched_view s"
  shows "p_flags (procs s' p) = p_flags (procs s p)" "p_callerq (procs s' p) = p_callerq (procs s p)"
    "p_sendlink (procs s' p) = p_sendlink (procs s p)" "p_sendto (procs s' p) = p_sendto (procs s p)"
    "p_messbuf (procs s' p) = p_messbuf (procs s p)" "p_getfrom (procs s' p) = p_getfrom (procs s p)"
    "p_map (procs s' p) = p_map (procs s p)" "rt (procs s' p) = rt (procs s p)"
    "p_stguard (procs s' p) = p_stguard (procs s p)" "p_int_blocked (procs s' p) = p_int_blocked (procs s p)"
    "p_pending (procs s' p) = p_pending (procs s p)"
    "links s' = links s" "rdyQ s' = rdyQ s" "um s' = um s" "sig_procs s' = sig_procs s" "m_addr s' = m_addr s"
proof -
  have e: "(procs s' p)\<lparr>p_nextready := None, st := st proc0\<rparr> = (procs s p)\<lparr>p_nextready := None, st := st proc0\<rparr>"
    using assms by (auto simp: sched_view_def dest: fun_cong)
  note f = arg_cong[OF e]
  show "p_flags (procs s' p) = p_flags (procs s p)" using f[of p_flags] by simp
  show "p_callerq (procs s' p) = p_callerq (procs s p)" using f[of p_callerq] by simp
  show "p_sendlink (procs s' p) = p_sendlink (procs s p)" using f[of p_sendlink] by simp
  show "p_sendto (procs s' p) = p_sendto (procs s p)" using f[of p_sendto] by simp
  show "p_messbuf (procs s' p) = p_messbuf (procs s p)" using f[of p_messbuf] by simp
  show "p_getfrom (procs s' p) = p_getfrom (procs s p)" using f[of p_getfrom] by simp
  show "p_map (procs s' p) = p_map (procs s p)" using f[of p_map] by simp
  show "rt (procs s' p) = rt (procs s p)" using f[of rt] by simp
  show "p_stguard (procs s' p) = p_stguard (procs s p)" using f[of p_stguard] by simp
  show "p_int_blocked (procs s' p) = p_int_blocked (procs s p)" using f[of p_int_blocked] by simp
  show "p_pending (procs s' p) = p_pending (procs s p)" using f[of p_pending] by simp
qed (use assms in \<open>simp_all add: sched_view_def\<close>)

lemma sched_view_simps [simp]:
  "sched_view (set_nextready p n s) = sched_view s" "sched_view (set_rdy_head q x s) = sched_view s"
  "sched_view (set_rdy_tail q x s) = sched_view s" "sched_view (s\<lparr>proc_ptr := p\<rparr>) = sched_view s"
  "sched_view (s\<lparr>bill_ptr := p\<rparr>) = sched_view s" "sched_view (upd_svflags g s) = sched_view s"
  "sched_view (upd_counter c s) = sched_view s" "sched_view (upd_proc p (st_update u) s) = sched_view s"
  "sched_view (sv_update v s) = sched_view s" "sched_view (hw_update w s) = sched_view s"
  "sched_view (s\<lparr>switching := b\<rparr>) = sched_view s"
  by (auto simp: sched_view_def)

lemma MRT_prtylvl_set_view: "MRT_prtylvl_set x s = Inr s' \<Longrightarrow> sched_view s' = sched_view s"
  by (auto simp: MRT_prtylvl_set_def MRT_set_PIC_def hw_emit_def Let_def sched_view_def split: if_splits)

lemma MRT_pick_proc_view: "MRT_pick_proc s = Inr (r, s') \<Longrightarrow> sched_view s' = sched_view s"
  by (auto simp: MRT_pick_proc_def bnd_eq_Inr Let_def dest!: MRT_prtylvl_set_view split: option.splits)
    (auto simp: sched_view_def fun_eq_iff)

lemma pick_proc_view: "pick_proc s = Inr s' \<Longrightarrow> sched_view s' = sched_view s"
  by (auto simp: pick_proc_def pick_minix_def bnd_eq_Inr dest!: MRT_pick_proc_view split: if_splits option.splits)

lemma ready_view: "ready x s = Inr s' \<Longrightarrow> sched_view s' = sched_view s"
  by (auto simp: ready_def ready_tail_def bnd_eq_Inr Let_def split: if_splits) (auto simp: sched_view_def fun_eq_iff)

lemma unready_search_view: "unready_search n q x y s = Inr s' \<Longrightarrow> sched_view s' = sched_view s"
  by (induction n arbitrary: y) (auto simp: unready_unlink_def Let_def split: if_splits option.splits)

lemma unready_view: "unready x s = Inr s' \<Longrightarrow> sched_view s' = sched_view s"
  by (auto simp: unready_def unready_from_def Let_def dest!: unready_search_view pick_proc_view
      split: if_splits option.splits)

subsection \<open>The queues of blocked senders\<close>

text \<open>The senders that wait for \<open>d\<close> are linked by \<open>p_sendlink\<close>, from \<open>p_callerq\<close> on.\<close>

fun caller_chain :: "(int \<Rightarrow> int option) \<Rightarrow> int option \<Rightarrow> int list \<Rightarrow> bool" where
  "caller_chain lk a [] \<longleftrightarrow> a = None"
| "caller_chain lk a (x # xs) \<longleftrightarrow> a = Some x \<and> caller_chain lk (lk x) xs"

abbreviation sendlinks :: "kstate \<Rightarrow> int \<Rightarrow> int option" where
  "sendlinks s \<equiv> \<lambda>p. p_sendlink (procs s p)"

definition send_graph :: "kstate \<Rightarrow> (int \<times> int) set" where
  "send_graph s = {(p, q). isokprocn p \<and> TEST_BIT (p_flags (procs s p)) SENDING \<and> q = p_sendto (procs s p)}"

definition callers_inv :: "kstate \<Rightarrow> (int \<Rightarrow> int list) \<Rightarrow> bool" where
  "callers_inv s cq \<longleftrightarrow>
     (\<forall>d. isokprocn d \<longrightarrow> caller_chain (sendlinks s) (p_callerq (procs s d)) (cq d) \<and> distinct (cq d)
        \<and> (\<forall>x. x \<in> set (cq d) \<longleftrightarrow> (x, d) \<in> send_graph s))
     \<and> (\<forall>p q. (p, q) \<in> send_graph s \<longrightarrow> isokprocn q) \<and> acyclic (send_graph s)"

lemma caller_chain_cong:
  "(\<And>x. x \<in> set xs \<Longrightarrow> lk x = lk' x) \<Longrightarrow> caller_chain lk a xs = caller_chain lk' a xs"
  by (induction xs arbitrary: a) auto

lemma caller_chain_other [simp]: "x \<notin> set xs \<Longrightarrow> caller_chain (lk(x := v)) a xs = caller_chain lk a xs"
  by (rule caller_chain_cong) auto

lemma caller_chain_snoc:
  "caller_chain lk a (ys @ [z]) \<Longrightarrow> distinct (ys @ [z, x]) \<Longrightarrow> caller_chain (lk(z := Some x, x := None)) a (ys @ [z, x])"
proof (induction ys arbitrary: a)
  case (Cons y ys)
  then show ?case by (cases ys) auto
qed auto

lemma caller_chain_drop:
  "caller_chain lk a (us @ y # vs) \<Longrightarrow> distinct (us @ y # vs) \<Longrightarrow> us \<noteq> [] \<Longrightarrow>
   caller_chain (lk(last us := lk y)) a (us @ vs)"
proof (induction us arbitrary: a)
  case (Cons u us)
  show ?case
  proof (cases us)
    case Nil
    with Cons.prems show ?thesis by (simp del: fun_upd_apply) (simp add: fun_upd_def)
  next
    case C: (Cons w ws)
    with Cons.prems have "u \<noteq> last us" by auto
    with C Cons.IH[of "lk u"] Cons.prems show ?thesis by simp
  qed
qed auto

lemma callerq_last_ok:
  "caller_chain (sendlinks s) (Some y) (y # ys) \<Longrightarrow> length ys < n \<Longrightarrow> callerq_last n y s = Inr (last (y # ys))"
proof (induction n arbitrary: y ys)
  case (Suc n)
  show ?case
  proof (cases ys)
    case (Cons w ws)
    with Suc show ?thesis using Suc.IH[of w ws] by simp
  qed (use Suc in simp)
qed simp

definition accepts :: "int \<Rightarrow> int \<Rightarrow> bool" where
  "accepts src q \<longleftrightarrow> src = ANY \<or> src = q"

lemma callerq_find_None:
  "caller_chain (sendlinks s) a xs \<Longrightarrow> length xs < n \<Longrightarrow> \<forall>x\<in>set xs. \<not> accepts src x \<Longrightarrow>
   callerq_find n src prev a s = Inr None"
proof (induction n arbitrary: a xs prev)
  case (Suc n)
  then show ?case by (cases xs) (auto simp: accepts_def)
qed auto

lemma callerq_find_Some:
  "caller_chain (sendlinks s) a (us @ y # vs) \<Longrightarrow> length us < n \<Longrightarrow> \<forall>x\<in>set us. \<not> accepts src x \<Longrightarrow> accepts src y \<Longrightarrow>
   callerq_find n src prev a s = Inr (Some (if us = [] then prev else Some (last us), y))"
proof (induction n arbitrary: a us prev)
  case (Suc n)
  show ?case
  proof (cases us)
    case (Cons u us')
    with Suc.prems have "callerq_find n src (Some u) (sendlinks s u) s =
        Inr (Some (if us' = [] then Some u else Some (last us'), y))"
      by (intro Suc.IH) auto
    with Cons Suc.prems show ?thesis by (auto simp: accepts_def)
  qed (use Suc in \<open>simp add: accepts_def\<close>)
qed simp

subsection \<open>The walk that detects deadlock\<close>

lemma send_graph_fun: "(p, q) \<in> send_graph s \<Longrightarrow> (p, r) \<in> send_graph s \<Longrightarrow> q = r"
  by (simp add: send_graph_def)

lemma send_chain_ok:
  assumes ac: "acyclic (send_graph s)" and ok: "\<And>p q. (p, q) \<in> send_graph s \<Longrightarrow> isokprocn q"
  shows "isokprocn p \<Longrightarrow> card ((send_graph s)\<^sup>* `` {p}) \<le> n \<Longrightarrow>
    send_chain n caller p s = Inr ((p, caller) \<in> (send_graph s)\<^sup>*)"
proof (induction n arbitrary: p)
  let ?G = "send_graph s"
  have sub: "?G\<^sup>* `` {p} \<subseteq> {x. isokprocn x \<and> True}" if "isokprocn p" for p
    using that ok by (auto elim: rtrancl_induct)
  have fin: "finite (?G\<^sup>* `` {p})" if "isokprocn p" for p
    using sub[OF that] isokprocn_finite by (rule finite_subset)
  {
    case 0
    have "p \<in> ?G\<^sup>* `` {p}" by simp
    with 0 fin[of p] show ?case by (metis card_0_eq empty_iff le_zero_eq)
  next
    case (Suc n)
    show ?case
    proof (cases "TEST_BIT (p_flags (procs s p)) SENDING")
      case False
      then have "(p, q) \<notin> ?G" for q by (simp add: send_graph_def)
      then have "(p, caller) \<in> ?G\<^sup>* \<longleftrightarrow> p = caller" by (meson converse_rtranclE rtrancl.rtrancl_refl)
      with False show ?thesis by simp
    next
      case True
      define q where "q = p_sendto (procs s p)"
      have e: "(p, q) \<in> ?G" using True Suc.prems by (simp add: send_graph_def q_def)
      have step: "(p, x) \<in> ?G\<^sup>* \<longleftrightarrow> x = p \<or> (q, x) \<in> ?G\<^sup>*" for x
        using e send_graph_fun[OF e] by (metis converse_rtranclE converse_rtrancl_into_rtrancl rtrancl.rtrancl_refl)
      have "(q, p) \<notin> ?G\<^sup>*" using ac e by (metis acyclic_def rtrancl_into_trancl2)
      moreover have "?G\<^sup>* `` {p} = insert p (?G\<^sup>* `` {q})" using step by auto
      ultimately have "card (?G\<^sup>* `` {q}) \<le> n" using Suc.prems(2) fin[OF ok[OF e]] by simp
      from Suc.IH[OF ok[OF e] this] show ?thesis
        using True ok[OF e] step[of caller] by (auto simp: proc_addr_def q_def)
    qed
  }
qed

lemma isokprocn_card: "A \<subseteq> {x. isokprocn x} \<Longrightarrow> card A \<le> 43"
proof -
  assume "A \<subseteq> {x. isokprocn x}"
  then have "A \<subseteq> {- 11..31}" by (auto simp: isokprocn_def)
  then have "card A \<le> card {- 11..31 :: int}" by (intro card_mono) auto
  then show ?thesis by simp
qed

lemma deadlock_walk:
  assumes "callers_inv s cq" and "isokprocn p"
  shows "send_chain proc_fuel caller p s = Inr ((p, caller) \<in> (send_graph s)\<^sup>*)"
proof (rule send_chain_ok)
  show ok: "\<And>p q. (p, q) \<in> send_graph s \<Longrightarrow> isokprocn q" using assms(1) by (simp add: callers_inv_def)
  have "(send_graph s)\<^sup>* `` {p} \<subseteq> {x. isokprocn x}" using assms(2) ok by (auto elim: rtrancl_induct)
  from isokprocn_card[OF this] show "card ((send_graph s)\<^sup>* `` {p}) \<le> proc_fuel" by simp
qed (use assms in \<open>simp_all add: callers_inv_def\<close>)

subsection \<open>The invariant of message passing\<close>

definition base_inv :: "kstate \<Rightarrow> (nat \<Rightarrow> lref list) \<Rightarrow> (int \<Rightarrow> int list) \<Rightarrow> bool" where
  "base_inv s qs cq \<longleftrightarrow> rdyQ_inv s qs \<and> wf_links (links s)
     \<and> (\<forall>p. istaskp p \<longrightarrow> p_stguard (procs s p) = STACK_GUARD) \<and> callers_inv s cq"

definition ipc_inv :: "kstate \<Rightarrow> (nat \<Rightarrow> int list) \<Rightarrow> (nat \<Rightarrow> lref list) \<Rightarrow> (int \<Rightarrow> int list) \<Rightarrow> bool" where
  "ipc_inv s f qs cq \<longleftrightarrow> minix_ok s f \<and> (\<forall>q. \<forall>p\<in>set (f q). p_flags (procs s p) = 0) \<and> base_inv s qs cq"

lemma minix_ok_cong:
  assumes "rdy_head s' = rdy_head s" and "rdy_tail s' = rdy_tail s" and "\<And>p. p_nextready (procs s' p) = p_nextready (procs s p)"
  shows "minix_ok s' f = minix_ok s f"
  using assms rq_chain_cong[of _ "procs s'" "procs s"] by (auto simp: minix_ok_def minix_inv_def rq_rep_def)

lemma callers_inv_cong:
  assumes "\<And>p. TEST_BIT (p_flags (procs s' p)) SENDING = TEST_BIT (p_flags (procs s p)) SENDING"
    and "\<And>p. p_callerq (procs s' p) = p_callerq (procs s p)" and "\<And>p. p_sendlink (procs s' p) = p_sendlink (procs s p)"
    and "\<And>p. p_sendto (procs s' p) = p_sendto (procs s p)"
  shows "callers_inv s' cq = callers_inv s cq"
  using assms by (simp add: callers_inv_def send_graph_def)

text \<open>Taking a process off its run queue before it blocks, and queueing one that became ready.\<close>

abbreviation rq_remove :: "int \<Rightarrow> (nat \<Rightarrow> int list) \<Rightarrow> nat \<Rightarrow> int list" where
  "rq_remove c f \<equiv> f(qclass c := remove1 c (f (qclass c)))"

abbreviation rq_add :: "int \<Rightarrow> (nat \<Rightarrow> int list) \<Rightarrow> nat \<Rightarrow> int list" where
  "rq_add x f \<equiv> f(qclass x := if isuserp x then x # f (qclass x) else f (qclass x) @ [x])"

lemma rq_remove_notin: "minix_ok s f \<Longrightarrow> c \<notin> set (rq_remove c f q)"
  by (auto simp: minix_ok_def minix_inv_def rq_rep_def)

lemma rq_remove_flags:
  assumes inv: "ipc_inv s f qs cq" and fl: "\<And>p. p \<noteq> c \<Longrightarrow> p_flags (procs s' p) = p_flags (procs s p)"
  shows "\<forall>q. \<forall>p\<in>set (rq_remove c f q). p_flags (procs s' p) = 0"
proof (intro allI ballI)
  fix q p assume p: "p \<in> set (rq_remove c f q)"
  have "p \<noteq> c" using p rq_remove_notin[of s f c q] inv by (auto simp: ipc_inv_def simp del: fun_upd_apply)
  moreover have "p \<in> set (f q)" using p set_remove1_subset by (fastforce split: if_splits)
  ultimately show "p_flags (procs s' p) = 0" using fl inv by (simp add: ipc_inv_def)
qed

lemma block_ok:
  assumes "ipc_inv s f qs cq"
  shows "\<exists>s1. (if p_flags (procs s c) = 0 then unready c s else Inr s) = Inr s1 \<and> sched_view s1 = sched_view s
     \<and> minix_ok s1 (rq_remove c f)"
proof (cases "p_flags (procs s c) = 0")
  case True
  have i: "minix_ok s f" "rdyQ_inv s qs" "wf_links (links s)" "istaskp c \<longrightarrow> p_stguard (procs s c) = STACK_GUARD"
    using assms by (auto simp: ipc_inv_def base_inv_def)
  from unready_total[OF i] obtain s1 where "unready c s = Inr s1" ..
  with True unready_view rq.unrdy_law[OF i(1)] show ?thesis by auto
next
  case False
  then have "c \<notin> set (f (qclass c))" using assms by (auto simp: ipc_inv_def)
  then show ?thesis using False assms by (auto simp: ipc_inv_def remove1_idem fun_upd_idem)
qed

lemma base_inv_cong:
  assumes "base_inv s qs cq" and "callers_inv s' cq'" and "links s' = links s" and "rdyQ s' = rdyQ s"
    and "\<And>p. rt (procs s' p) = rt (procs s p)" and "\<And>p. p_stguard (procs s' p) = p_stguard (procs s p)"
  shows "base_inv s' qs cq'"
  using assms by (simp add: base_inv_def rdyQ_inv_def)

lemma base_inv_view:
  assumes "base_inv s qs cq" and "sched_view s' = sched_view s"
  shows "base_inv s' qs cq"
  using assms(1) sched_viewD[OF assms(2)] callers_inv_cong[of s' s]
  by (simp add: base_inv_def rdyQ_inv_def)

lemma unblock_ok:
  assumes inv: "ipc_inv s f qs cq" and ok: "isokprocn d" and out: "d \<notin> set (f (qclass d))"
  shows "\<exists>s'. (if p_flags (procs s d) = 0 then ready d s else Inr s) = Inr s' \<and> sched_view s' = sched_view s
     \<and> ipc_inv s' (if p_flags (procs s d) = 0 then rq_add d f else f) qs cq"
proof (cases "p_flags (procs s d) = 0")
  case True
  from inv have m: "minix_ok s f" by (simp add: ipc_inv_def)
  from rq.rdy_law[OF m ok out] obtain s' where s': "ready d s = Inr s'" "minix_ok s' (rq_add d f)" by blast
  have v: "sched_view s' = sched_view s" using ready_view[OF s'(1)] .
  have "ipc_inv s' (rq_add d f) qs cq"
    using s'(2) inv True base_inv_view[OF _ v] by (auto simp: ipc_inv_def sched_viewD[OF v])
  with s'(1) v True show ?thesis by auto
qed (use inv in auto)

subsection \<open>Joining and leaving a queue of senders\<close>

definition appended :: "int list \<Rightarrow> int \<Rightarrow> int \<Rightarrow> kstate \<Rightarrow> kstate" where
  "appended xs d c s = upd_proc c (p_sendlink_update (\<lambda>_. None))
     (if xs = [] then upd_proc d (p_callerq_update (\<lambda>_. Some c)) s
      else upd_proc (last xs) (p_sendlink_update (\<lambda>_. Some c)) s)"

lemma appended_procs [simp]:
  "p_flags (procs (appended xs d c s) p) = p_flags (procs s p)" "p_sendto (procs (appended xs d c s) p) = p_sendto (procs s p)"
  "p_stguard (procs (appended xs d c s) p) = p_stguard (procs s p)" "rt (procs (appended xs d c s) p) = rt (procs s p)"
  "p_nextready (procs (appended xs d c s) p) = p_nextready (procs s p)" "links (appended xs d c s) = links s"
  "p_messbuf (procs (appended xs d c s) p) = p_messbuf (procs s p)" "p_getfrom (procs (appended xs d c s) p) = p_getfrom (procs s p)"
  "p_map (procs (appended xs d c s) p) = p_map (procs s p)" "p_int_blocked (procs (appended xs d c s) p) = p_int_blocked (procs s p)"
  "rdyQ (appended xs d c s) = rdyQ s" "rdy_head (appended xs d c s) = rdy_head s" "rdy_tail (appended xs d c s) = rdy_tail s"
  "um (appended xs d c s) = um s"
  by (simp_all add: appended_def)

lemma callers_invD:
  assumes "callers_inv s cq" and "isokprocn e"
  shows "x \<in> set (cq e) \<longleftrightarrow> (x, e) \<in> send_graph s" and "distinct (cq e)"
    and "caller_chain (sendlinks s) (p_callerq (procs s e)) (cq e)"
  using assms by (simp_all add: callers_inv_def)

lemma callers_inv_length:
  assumes "callers_inv s cq" and "isokprocn d"
  shows "length (cq d) \<le> 43"
proof -
  have "distinct (cq d)" "set (cq d) \<subseteq> {x. isokprocn x}"
    using assms by (auto simp: callers_inv_def send_graph_def)
  then show ?thesis using isokprocn_card distinct_card by metis
qed

lemma callerq_app_eq:
  assumes inv: "callers_inv s cq" and d: "isokprocn d"
    and same: "\<And>p. p_sendlink (procs s0 p) = p_sendlink (procs s p)" "\<And>p. p_callerq (procs s0 p) = p_callerq (procs s p)"
  shows "callerq_app d c s0 = Inr (appended (cq d) d c s0)"
proof -
  have ch: "caller_chain (sendlinks s0) (p_callerq (procs s0 d)) (cq d)"
    using inv d same by (simp add: callers_inv_def)
  show ?thesis
  proof (cases "cq d")
    case Nil
    then show ?thesis using ch by (simp add: callerq_app_def appended_def)
  next
    case (Cons y ys)
    then have "callerq_last proc_fuel y s0 = Inr (last (y # ys))"
      using ch callers_inv_length[OF inv d] by (intro callerq_last_ok) auto
    then show ?thesis using ch Cons by (simp add: callerq_app_def appended_def)
  qed
qed

lemma callers_block:
  assumes inv: "callers_inv s cq" and d: "isokprocn d" and c: "isokprocn c" "\<not> TEST_BIT (p_flags (procs s c)) SENDING"
    and ne: "c \<noteq> d" and free: "(d, c) \<notin> (send_graph s)\<^sup>+"
    and same: "\<And>p. p_sendlink (procs s0 p) = p_sendlink (procs s p)" "\<And>p. p_callerq (procs s0 p) = p_callerq (procs s p)"
    and flags: "\<And>p. TEST_BIT (p_flags (procs s0 p)) SENDING \<longleftrightarrow> p = c \<or> TEST_BIT (p_flags (procs s p)) SENDING"
    and sendto: "\<And>p. p_sendto (procs s0 p) = (if p = c then d else p_sendto (procs s p))"
  shows "callers_inv (appended (cq d) d c s0) (cq(d := cq d @ [c]))"
proof -
  let ?s' = "appended (cq d) d c s0"
  have G: "send_graph ?s' = insert (c, d) (send_graph s)"
    using c flags sendto by (auto simp: send_graph_def)
  have cn: "(c, q) \<notin> send_graph s" for q using c(2) by (simp add: send_graph_def)
  note mem = callers_invD[OF inv]
  have out: "c \<notin> set (cq e)" "e \<noteq> d \<Longrightarrow> cq d \<noteq> [] \<Longrightarrow> last (cq d) \<notin> set (cq e)" if "isokprocn e" for e
    using mem(1)[OF that] mem(1)[OF d] cn send_graph_fun[of _ e s d] last_in_set[of "cq d"] by auto
  have lk: "sendlinks s0 = sendlinks s" using same(1) by (intro ext)
  have chain: "caller_chain (sendlinks ?s') (p_callerq (procs ?s' e)) ((cq(d := cq d @ [c])) e)" if e: "isokprocn e" for e
  proof (cases "cq d" rule: rev_cases)
    case Nil
    have "sendlinks ?s' = (sendlinks s)(c := None)" using Nil ne same by (auto simp: appended_def fun_eq_iff)
    moreover have "p_callerq (procs ?s' e) = (if e = d then Some c else p_callerq (procs s e))"
      using Nil ne same by (auto simp: appended_def)
    ultimately show ?thesis using mem(3)[OF e] out(1)[OF e] Nil
      by (cases "e = d") (simp_all del: fun_upd_apply add: fun_upd_same fun_upd_other)
  next
    case (snoc ys z)
    have "sendlinks ?s' = (sendlinks s)(z := Some c, c := None)" using snoc same by (auto simp: appended_def fun_eq_iff)
    moreover have "p_callerq (procs ?s' e) = p_callerq (procs s e)" using snoc same by (simp add: appended_def)
    ultimately show ?thesis
      using mem(2,3)[OF e] out[OF e] snoc caller_chain_snoc[of "sendlinks s" _ ys z c] by (cases "e = d") (auto simp del: fun_upd_apply simp add: fun_upd_same fun_upd_other)
  qed
  have "acyclic (send_graph ?s')"
    using inv ne free unfolding G acyclic_insert by (auto simp: callers_inv_def rtrancl_eq_or_trancl)
  moreover have "distinct ((cq(d := cq d @ [c])) e)" if "isokprocn e" for e using mem(2)[OF that] out(1)[OF that] by (cases "e = d") simp_all
  moreover have "x \<in> set ((cq(d := cq d @ [c])) e) \<longleftrightarrow> (x, e) \<in> send_graph ?s'" if "isokprocn e" for x e
    using mem(1)[OF that] cn by (auto simp: G)
  moreover have "\<forall>p q. (p, q) \<in> send_graph ?s' \<longrightarrow> isokprocn q" using inv d by (auto simp: G callers_inv_def)
  ultimately show ?thesis using chain by (simp add: callers_inv_def)
qed

subsection \<open>Sending\<close>

definition waits_for :: "kstate \<Rightarrow> int \<Rightarrow> int \<Rightarrow> bool" where
  "waits_for s d c \<longleftrightarrow> p_flags (procs s d) AND (RECEIVING OR SENDING) = RECEIVING
     \<and> (p_getfrom (procs s d) = ANY \<or> p_getfrom (procs s d) = c)"

lemma waits_for_flags:
  assumes "waits_for s d c"
  shows "\<not> TEST_BIT (p_flags (procs s d)) SENDING" and "p_flags (procs s d) \<noteq> 0"
proof -
  let ?w = "p_flags (procs s d)"
  have e: "?w AND (RECEIVING OR SENDING) = RECEIVING" using assms by (simp add: waits_for_def)
  have "?w AND SENDING = (?w AND (RECEIVING OR SENDING)) AND SENDING" by (simp add: and.assoc)
  also have "\<dots> = 0" unfolding e by simp
  finally show "\<not> TEST_BIT ?w SENDING" by (simp add: TEST_BIT_def)
  show "?w \<noteq> 0" using e by auto
qed

lemma clr_receiving: "TEST_BIT (w AND NOT RECEIVING) SENDING = TEST_BIT w SENDING"
  using TEST_CLR_other[of RECEIVING SENDING w] by (simp add: CLR_BIT_def)

lemmas clr_receiving_num [simp] = clr_receiving[simplified]

lemma set_sending [simp]: "TEST_BIT (w OR SENDING) SENDING"
  using TEST_SET_same[of SENDING w] by (simp add: SET_BIT_def)

lemma set_sending_nonzero [simp]: "w OR SENDING \<noteq> 0"
  using set_sending[of w] unfolding TEST_BIT_def by (metis and_zero_eq zero_and_eq)

lemma mini_send_locked:
  assumes "callers_inv s cq" and "isokprocn d"
  shows "(if TEST_BIT (p_flags (procs s d)) SENDING
          then bnd (proc_addr (p_sendto (procs s d))) (\<lambda>p. send_chain proc_fuel c p s)
          else Inr False) = Inr ((d, c) \<in> (send_graph s)\<^sup>+)"
proof (cases "TEST_BIT (p_flags (procs s d)) SENDING")
  case True
  define q where "q = p_sendto (procs s d)"
  have e: "(d, q) \<in> send_graph s" using True assms(2) by (simp add: send_graph_def q_def)
  then have "isokprocn q" using assms(1) by (simp add: callers_inv_def)
  moreover have "(d, c) \<in> (send_graph s)\<^sup>+ \<longleftrightarrow> (q, c) \<in> (send_graph s)\<^sup>*"
    using e send_graph_fun[OF e] by (blast intro: rtrancl_into_trancl2 dest: tranclD)
  ultimately show ?thesis using True deadlock_walk[OF assms(1)] by (simp add: proc_addr_def q_def)
next
  case False
  then have "(d, q) \<notin> send_graph s" for q by (simp add: send_graph_def)
  then have "(d, c) \<notin> (send_graph s)\<^sup>+" by (blast dest: tranclD)
  then show ?thesis using False by simp
qed

definition may_send :: "int \<Rightarrow> int \<Rightarrow> kstate \<Rightarrow> bool" where
  "may_send c d s \<longleftrightarrow> (isuserp c \<longrightarrow> issysmrt d) \<and> \<not> TEST_BIT (p_flags (procs s d)) P_SLOT_FREE"

text \<open>The message is handed over.\<close>

definition delivered :: "int \<Rightarrow> u32 \<Rightarrow> int \<Rightarrow> u32 \<Rightarrow> kstate \<Rightarrow> kstate \<Rightarrow> bool" where
  "delivered c m d b s s' \<longleftrightarrow> um_message (um s') =
     (um_message (um s))(mess_phys s d b := (um_message (um s) (mess_phys s c m))\<lparr>m_source := c\<rparr>)"

lemma mini_send_deliver:
  assumes inv: "ipc_inv s f qs cq" and d: "isokprocn d" and w: "waits_for s d c"
    and s1: "s1 = upd_proc d (p_flags_update (\<lambda>w. w AND NOT RECEIVING)) (CopyMess c c m d (p_messbuf (procs s d)) s)"
  shows "\<exists>s'. (if p_flags (procs s1 d) = 0 then ready d s1 else Inr s1) = Inr s' \<and> sched_view s' = sched_view s1
     \<and> delivered c m d (p_messbuf (procs s d)) s s'
     \<and> p_flags (procs s' d) = p_flags (procs s d) AND NOT RECEIVING
     \<and> ipc_inv s' (if p_flags (procs s d) AND NOT RECEIVING = 0 then rq_add d f else f) qs cq"
proof -
  have out: "d \<notin> set (f q)" for q using inv waits_for_flags(2)[OF w] by (auto simp: ipc_inv_def)
  have "minix_ok s1 f" using inv minix_ok_cong[of s1 s f]
    by (simp add: ipc_inv_def s1 CopyMess_def upd_message_def)
  moreover have "callers_inv s1 cq" using inv callers_inv_cong[of s1 s cq]
    by (simp add: ipc_inv_def base_inv_def s1 CopyMess_def upd_message_def)
  then have "base_inv s1 qs cq" using inv
    by (intro base_inv_cong[of s qs cq s1 cq]) (simp_all add: ipc_inv_def s1 CopyMess_def upd_message_def)
  moreover have "\<forall>q. \<forall>p\<in>set (f q). p_flags (procs s1 p) = 0"
    using inv out by (auto simp: ipc_inv_def s1 CopyMess_def upd_message_def)
  ultimately have i: "ipc_inv s1 f qs cq" by (simp add: ipc_inv_def)
  from unblock_ok[OF i d out] obtain s' where
    s': "(if p_flags (procs s1 d) = 0 then ready d s1 else Inr s1) = Inr s'" "sched_view s' = sched_view s1"
      "ipc_inv s' (if p_flags (procs s1 d) = 0 then rq_add d f else f) qs cq" by blast
  have fl: "p_flags (procs s1 d) = p_flags (procs s d) AND NOT RECEIVING"
    by (simp add: s1 CopyMess_def upd_message_def)
  have "delivered c m d (p_messbuf (procs s d)) s s'"
    using sched_viewD(14)[OF s'(2)] by (simp add: delivered_def s1 CopyMess_def upd_message_def)
  then show ?thesis using s' fl sched_viewD(1)[OF s'(2)] by auto
qed

lemma mini_send_blocks:
  assumes inv: "ipc_inv s f qs cq" and c: "isokprocn c" "\<not> TEST_BIT (p_flags (procs s c)) SENDING"
    and d: "isokprocn d" and ne: "c \<noteq> d" and free: "(d, c) \<notin> (send_graph s)\<^sup>+"
  shows "\<exists>s1 s'. (let s = upd_proc c (p_messbuf_update (\<lambda>_. m)) s
             in if p_flags (procs s c) = 0 then unready c s else Inr s) = Inr s1
     \<and> callerq_app d c (upd_proc c (p_sendto_update (\<lambda>_. d)) (upd_proc c (p_flags_update (\<lambda>w. w OR SENDING)) s1)) = Inr s'
     \<and> um s' = um s \<and> p_messbuf (procs s' c) = m \<and> (\<forall>p. p_map (procs s' p) = p_map (procs s p))
     \<and> (\<forall>p. p_flags (procs s' p) = (if p = c then p_flags (procs s c) OR SENDING else p_flags (procs s p)))
     \<and> ipc_inv s' (rq_remove c f) qs (cq(d := cq d @ [c]))"
proof -
  let ?a = "upd_proc c (p_messbuf_update (\<lambda>_. m)) s"
  have i: "ipc_inv ?a f qs cq"
    using inv minix_ok_cong[of ?a s f] callers_inv_cong[of ?a s cq] base_inv_cong[of s qs cq ?a cq]
    by (simp add: ipc_inv_def base_inv_def)
  from block_ok[OF i, of c] obtain s1 where
    s1: "(if p_flags (procs ?a c) = 0 then unready c ?a else Inr ?a) = Inr s1" "sched_view s1 = sched_view ?a"
      "minix_ok s1 (rq_remove c f)" by blast
  note v = sched_viewD[OF s1(2)]
  let ?b = "upd_proc c (p_sendto_update (\<lambda>_. d)) (upd_proc c (p_flags_update (\<lambda>w. w OR SENDING)) s1)"
  let ?s' = "appended (cq d) d c ?b"
  have ca: "callers_inv s cq" using inv by (simp add: ipc_inv_def base_inv_def)
  have app: "callerq_app d c ?b = Inr ?s'" by (rule callerq_app_eq[OF ca d]) (simp_all add: v)
  have cb: "callers_inv ?s' (cq(d := cq d @ [c]))" by (rule callers_block[OF ca d c ne free]) (auto simp: v)
  have b: "base_inv s qs cq" using inv by (simp add: ipc_inv_def)
  have base: "base_inv ?s' qs (cq(d := cq d @ [c]))" by (rule base_inv_cong[OF b cb]) (simp_all add: v)
  have fl: "p_flags (procs ?s' p) = (if p = c then p_flags (procs s c) OR SENDING else p_flags (procs s p))" for p
    by (simp add: v)
  have "\<forall>q. \<forall>p\<in>set (rq_remove c f q). p_flags (procs ?s' p) = 0"
    by (rule rq_remove_flags[OF inv]) (simp only: fl if_False)
  moreover have "minix_ok ?s' (rq_remove c f)" using s1(3) minix_ok_cong[of ?s' s1] by simp
  ultimately have "ipc_inv ?s' (rq_remove c f) qs (cq(d := cq d @ [c]))" using base by (simp add: ipc_inv_def)
  then show ?thesis using s1(1) app fl by (intro exI[of _ s1] exI[of _ ?s']) (simp add: v)
qed

lemma if_refused: "(if a \<and> \<not> b then x else if c then x else y) = (if \<not> ((a \<longrightarrow> b) \<and> \<not> c) then x else y)"
  by simp

lemma mini_send_unfold:
  assumes ca: "callers_inv s cq" and d: "isokprocn d"
  shows "mini_send c d m s =
    (if \<not> may_send c d s then ret E_BAD_DEST s
     else if message_outside (procs s c) m then ret EFAULT s
     else if (d, c) \<in> (send_graph s)\<^sup>+ then ret ELOCKED s
     else if waits_for s d c
     then let s = upd_proc d (p_flags_update (\<lambda>w. w AND NOT RECEIVING)) (CopyMess c c m d (p_messbuf (procs s d)) s)
          in bnd (if p_flags (procs s d) = 0 then ready d s else Inr s) (ret OK)
     else bnd (let s = upd_proc c (p_messbuf_update (\<lambda>_. m)) s
               in if p_flags (procs s c) = 0 then unready c s else Inr s) (\<lambda>s.
          bnd (callerq_app d c (upd_proc c (p_sendto_update (\<lambda>_. d)) (upd_proc c (p_flags_update (\<lambda>w. w OR SENDING)) s))) (ret OK)))"
proof -
  have pd: "proc_addr d = Inr d" using d by (simp add: proc_addr_def)
  show ?thesis
    unfolding mini_send_def pd bnd.simps mini_send_locked[OF ca d] waits_for_def may_send_def if_refused Let_def
    by (rule refl)
qed

text \<open>The effect of a call of \<open>mini_send\<close>, with its return code.\<close>

definition send_effect :: "int \<Rightarrow> int \<Rightarrow> u32 \<Rightarrow> (nat \<Rightarrow> int list) \<Rightarrow> (nat \<Rightarrow> lref list) \<Rightarrow> (int \<Rightarrow> int list) \<Rightarrow> kstate \<Rightarrow> int \<Rightarrow> kstate \<Rightarrow> bool" where
  "send_effect c d m f qs cq s r s' \<longleftrightarrow>
    (if \<not> may_send c d s then r = E_BAD_DEST \<and> s' = s
     else if message_outside (procs s c) m then r = EFAULT \<and> s' = s
     else if (d, c) \<in> (send_graph s)\<^sup>+ then r = ELOCKED \<and> s' = s
     else if waits_for s d c
     then r = OK \<and> delivered c m d (p_messbuf (procs s d)) s s'
       \<and> p_flags (procs s' d) = p_flags (procs s d) AND NOT RECEIVING
       \<and> ipc_inv s' (if p_flags (procs s' d) = 0 then rq_add d f else f) qs cq
     else r = OK \<and> um s' = um s \<and> p_messbuf (procs s' c) = m \<and> (\<forall>p. p_map (procs s' p) = p_map (procs s p))
       \<and> (\<forall>p. p_flags (procs s' p) = (if p = c then p_flags (procs s c) OR SENDING else p_flags (procs s p)))
       \<and> ipc_inv s' (rq_remove c f) qs (cq(d := cq d @ [c])))"

lemma mini_send_spec:
  assumes inv: "ipc_inv s f qs cq" and c: "isokprocn c" "\<not> TEST_BIT (p_flags (procs s c)) SENDING"
    and d: "isokprocn d" and ne: "c \<noteq> d"
  shows "\<exists>r s'. mini_send c d m s = Inr (r, s') \<and> send_effect c d m f qs cq s r s'"
proof -
  have ca: "callers_inv s cq" using inv by (simp add: ipc_inv_def base_inv_def)
  consider "\<not> may_send c d s \<or> message_outside (procs s c) m \<or> (d, c) \<in> (send_graph s)\<^sup>+"
    | "may_send c d s" "\<not> message_outside (procs s c) m" "(d, c) \<notin> (send_graph s)\<^sup>+" "waits_for s d c"
    | "may_send c d s" "\<not> message_outside (procs s c) m" "(d, c) \<notin> (send_graph s)\<^sup>+" "\<not> waits_for s d c" by blast
  then show ?thesis
  proof cases
    case 1
    then show ?thesis unfolding mini_send_unfold[OF ca d] send_effect_def by auto
  next
    case 2
    from mini_send_deliver[OF inv d 2(4) refl, of m] show ?thesis
      unfolding mini_send_unfold[OF ca d] send_effect_def Let_def using 2 by auto
  next
    case 3
    from mini_send_blocks[OF inv c d ne 3(3), of m] show ?thesis
      unfolding mini_send_unfold[OF ca d] send_effect_def using 3 by auto
  qed
qed

subsection \<open>Receiving\<close>

lemma clr_sending: "\<not> TEST_BIT (w AND NOT SENDING) SENDING"
  using TEST_CLR_same[of w SENDING] by (simp add: CLR_BIT_def)

lemmas clr_sending_num [simp] = clr_sending[simplified]

lemma callers_unlink:
  assumes inv: "callers_inv s cq" and c: "isokprocn c" and cq: "cq c = us @ y # vs"
    and lk: "sendlinks s' = (if us = [] then sendlinks s else (sendlinks s)(last us := sendlinks s y))"
    and q: "\<And>e. p_callerq (procs s' e) = (if us = [] \<and> e = c then sendlinks s y else p_callerq (procs s e))"
    and flags: "\<And>p. TEST_BIT (p_flags (procs s' p)) SENDING \<longleftrightarrow> p \<noteq> y \<and> TEST_BIT (p_flags (procs s p)) SENDING"
    and sendto: "\<And>p. p_sendto (procs s' p) = p_sendto (procs s p)"
  shows "callers_inv s' (cq(c := us @ vs))"
proof -
  note mem = callers_invD[OF inv]
  have y: "(y, c) \<in> send_graph s" using mem(1)[OF c, of y] cq by simp
  have G: "send_graph s' = send_graph s - {(y, c)}"
    using flags sendto y by (auto simp: send_graph_def)
  have chain: "caller_chain (sendlinks s') (p_callerq (procs s' e)) ((cq(c := us @ vs)) e)" if e: "isokprocn e" for e
  proof (cases "e = c")
    case True
    have ch: "caller_chain (sendlinks s) (p_callerq (procs s c)) (us @ y # vs)" and ds: "distinct (us @ y # vs)"
      using mem(2,3)[OF c] cq by simp_all
    show ?thesis
    proof (cases "us = []")
      case True
      then show ?thesis using ch q[of c] lk \<open>e = c\<close> by simp
    next
      case False
      then show ?thesis using caller_chain_drop[OF ch ds] q[of c] lk \<open>e = c\<close> by simp
    qed
  next
    case False
    have "last us \<notin> set (cq e)" if "us \<noteq> []"
      using mem(1)[OF e, of "last us"] mem(1)[OF c, of "last us"] cq that False send_graph_fun[of "last us" e s c] by auto
    then show ?thesis using mem(3)[OF e] q[of e] lk False by (cases "us = []") simp_all
  qed
  have "acyclic (send_graph s')" using inv unfolding G by (auto simp: callers_inv_def intro: acyclic_subset)
  moreover have "distinct ((cq(c := us @ vs)) e)" if "isokprocn e" for e using mem(2)[OF that] cq by (cases "e = c") auto
  moreover have "x \<in> set ((cq(c := us @ vs)) e) \<longleftrightarrow> (x, e) \<in> send_graph s'" if "isokprocn e" for x e
    using mem(1,2)[OF that] cq by (cases "e = c") (auto simp: G)
  moreover have "\<forall>p q. (p, q) \<in> send_graph s' \<longrightarrow> isokprocn q" using inv by (auto simp: G callers_inv_def)
  ultimately show ?thesis using chain by (simp add: callers_inv_def)
qed

lemma find_split:
  assumes "List.find P xs = Some y" and "distinct xs"
  shows "\<exists>us vs. xs = us @ y # vs \<and> (\<forall>x\<in>set us. \<not> P x) \<and> P y \<and> remove1 y xs = us @ vs"
proof -
  from assms(1) obtain i where i: "i < length xs" "P (xs ! i)" "y = xs ! i" "\<forall>j<i. \<not> P (xs ! j)"
    by (auto simp: find_Some_iff)
  have xs: "xs = take i xs @ y # drop (Suc i) xs" using i by (simp add: id_take_nth_drop)
  moreover have "\<forall>x\<in>set (take i xs). \<not> P x" using i by (auto simp: in_set_conv_nth)
  moreover have "remove1 y xs = take i xs @ drop (Suc i) xs"
    using assms(2) xs by (metis distinct_append distinct.simps(2) disjoint_iff list.set_intros(1) remove1.simps(2) remove1_append)
  ultimately show ?thesis using i by blast
qed

definition rec_take :: "int \<Rightarrow> int option \<Rightarrow> int \<Rightarrow> kstate \<Rightarrow> kstate res" where
  "rec_take c prev y s = bnd (callerq_take c prev y s) (\<lambda>s. Inr (upd_proc y (p_flags_update (\<lambda>w. w AND NOT SENDING)) s))"

lemma rec_take_ok:
  assumes inv: "ipc_inv s f qs cq" and c: "isokprocn c" and cq: "cq c = us @ y # vs"
  shows "\<exists>s'. rec_take c (if us = [] then None else Some (last us)) y s = Inr s'
     \<and> um s' = um s \<and> (\<forall>p. p_flags (procs s' p) = (if p = y then p_flags (procs s y) AND NOT SENDING else p_flags (procs s p)))
     \<and> ipc_inv s' f qs (cq(c := us @ vs)) \<and> y \<notin> set (f (qclass y)) \<and> isokprocn y"
proof -
  have ca: "callers_inv s cq" and b: "base_inv s qs cq" using inv by (simp_all add: ipc_inv_def base_inv_def)
  have ch: "caller_chain (sendlinks s) (p_callerq (procs s c)) (us @ y # vs)" and ds: "distinct (us @ y # vs)"
    and ys: "(y, c) \<in> send_graph s"
    using callers_invD[OF ca c] cq by auto
  have y: "isokprocn y" "TEST_BIT (p_flags (procs s y)) SENDING" using ys by (simp_all add: send_graph_def)
  have out: "y \<notin> set (f q)" for q using inv y(2) by (auto simp: ipc_inv_def TEST_BIT_def)
  let ?t = "if us = [] then upd_proc c (p_callerq_update (\<lambda>_. sendlinks s y)) s
            else upd_proc (last us) (p_sendlink_update (\<lambda>_. sendlinks s y)) s"
  let ?s' = "upd_proc y (p_flags_update (\<lambda>w. w AND NOT SENDING)) ?t"
  have "p_callerq (procs s c) = Some y \<longleftrightarrow> us = []" using ch ds by (cases us) auto
  then have "rec_take c (if us = [] then None else Some (last us)) y s = Inr ?s'"
    by (simp add: rec_take_def callerq_take_def)
  moreover have fl: "p_flags (procs ?s' p) = (if p = y then p_flags (procs s y) AND NOT SENDING else p_flags (procs s p))" for p
    by simp
  moreover have "ipc_inv ?s' f qs (cq(c := us @ vs))"
  proof -
    have "callers_inv ?s' (cq(c := us @ vs))"
      by (rule callers_unlink[OF ca c cq]) (auto simp: fun_eq_iff)
    from base_inv_cong[OF b this] have "base_inv ?s' qs (cq(c := us @ vs))" by simp
    moreover have "minix_ok ?s' f" using inv minix_ok_cong[of ?s' s f] by (simp add: ipc_inv_def)
    moreover have "\<forall>q. \<forall>p\<in>set (f q). p_flags (procs ?s' p) = 0" unfolding fl using inv out by (auto simp: ipc_inv_def)
    ultimately show ?thesis by (simp add: ipc_inv_def)
  qed
  moreover have "um ?s' = um s" by simp
  ultimately show ?thesis using out y(1) by blast
qed

lemma ipc_inv_um:
  assumes "ipc_inv s f qs cq"
  shows "ipc_inv (um_update g s) f qs cq"
  using assms minix_ok_cong[of "um_update g s" s f] callers_inv_cong[of "um_update g s" s cq]
    base_inv_cong[of s qs cq "um_update g s" cq] by (simp add: ipc_inv_def base_inv_def)

definition blocked_rec :: "int \<Rightarrow> int \<Rightarrow> u32 \<Rightarrow> kstate \<Rightarrow> kstate \<Rightarrow> bool" where
  "blocked_rec c src m s s' \<longleftrightarrow> um s' = um s \<and> p_getfrom (procs s' c) = src \<and> p_messbuf (procs s' c) = m
     \<and> (\<forall>p. p_flags (procs s' p) = (if p = c then p_flags (procs s c) OR RECEIVING else p_flags (procs s p)))"

lemma set_receiving: "TEST_BIT (w OR RECEIVING) SENDING = TEST_BIT w SENDING"
  using TEST_SET_other[of RECEIVING SENDING w] by (simp add: SET_BIT_def)

lemma rec_blocks:
  assumes inv: "ipc_inv s f qs cq"
  shows "\<exists>s1. (let s = upd_proc c (\<lambda>p. p\<lparr>p_getfrom := src, p_messbuf := m\<rparr>) s
             in if p_flags (procs s c) = 0 then unready c s else Inr s) = Inr s1
     \<and> sig_procs s1 = sig_procs s \<and> m_addr s1 = m_addr s \<and> (\<forall>p. p_map (procs s1 p) = p_map (procs s p))
     \<and> (\<forall>p. p_pending (procs s1 p) = p_pending (procs s p))
     \<and> blocked_rec c src m s (upd_proc c (p_flags_update (\<lambda>w. w OR RECEIVING)) s1)
     \<and> ipc_inv (upd_proc c (p_flags_update (\<lambda>w. w OR RECEIVING)) s1) (rq_remove c f) qs cq"
proof -
  let ?a = "upd_proc c (\<lambda>p. p\<lparr>p_getfrom := src, p_messbuf := m\<rparr>) s"
  have b: "base_inv s qs cq" and ca: "callers_inv s cq" using inv by (simp_all add: ipc_inv_def base_inv_def)
  have i: "ipc_inv ?a f qs cq"
    using inv minix_ok_cong[of ?a s f] callers_inv_cong[of ?a s cq] base_inv_cong[of s qs cq ?a cq]
    by (simp add: ipc_inv_def base_inv_def)
  from block_ok[OF i, of c] obtain s1 where
    s1: "(if p_flags (procs ?a c) = 0 then unready c ?a else Inr ?a) = Inr s1" "sched_view s1 = sched_view ?a"
      "minix_ok s1 (rq_remove c f)" by blast
  note v = sched_viewD[OF s1(2)]
  let ?s' = "upd_proc c (p_flags_update (\<lambda>w. w OR RECEIVING)) s1"
  have fl: "p_flags (procs ?s' p) = (if p = c then p_flags (procs s c) OR RECEIVING else p_flags (procs s p))" for p
    by (simp add: v)
  have cb: "callers_inv ?s' cq" using ca callers_inv_cong[of ?s' s cq] by (simp add: v set_receiving)
  have base: "base_inv ?s' qs cq" by (rule base_inv_cong[OF b cb]) (simp_all add: v)
  have "\<forall>q. \<forall>p\<in>set (rq_remove c f q). p_flags (procs ?s' p) = 0"
    by (rule rq_remove_flags[OF inv]) (simp only: fl if_False)
  moreover have "minix_ok ?s' (rq_remove c f)" using s1(3) minix_ok_cong[of ?s' s1] by simp
  ultimately have "ipc_inv ?s' (rq_remove c f) qs cq" using base by (simp add: ipc_inv_def)
  moreover have "blocked_rec c src m s ?s'" using fl by (simp add: blocked_rec_def v)
  ultimately show ?thesis using s1(1) by (intro exI[of _ s1]) (simp add: v)
qed

text \<open>The effect of a call of \<open>mini_rec\<close> that does not make the kernel report a signal.\<close>

definition rec_effect :: "int \<Rightarrow> int \<Rightarrow> u32 \<Rightarrow> (nat \<Rightarrow> int list) \<Rightarrow> (nat \<Rightarrow> lref list) \<Rightarrow> (int \<Rightarrow> int list) \<Rightarrow> kstate \<Rightarrow> kstate \<Rightarrow> bool" where
  "rec_effect c src m f qs cq s s' \<longleftrightarrow>
    (case List.find (accepts src) (cq c) of
       Some y \<Rightarrow> delivered y (p_messbuf (procs s y)) c m s s'
         \<and> p_flags (procs s' y) = p_flags (procs s y) AND NOT SENDING
         \<and> ipc_inv s' (if p_flags (procs s' y) = 0 then rq_add y f else f) qs (cq(c := remove1 y (cq c)))
     | None \<Rightarrow>
         if p_int_blocked (procs s c) \<and> isrxhardware src
         then s' = upd_proc c (p_int_blocked_update (\<lambda>_. False)) (hard_int_message m s) \<and> ipc_inv s' f qs cq
         else blocked_rec c src m s s' \<and> ipc_inv s' (rq_remove c f) qs cq)"

lemma mini_rec_found:
  assumes inv: "ipc_inv s f qs cq" and c: "isokprocn c" "\<not> TEST_BIT (p_flags (procs s c)) SENDING"
    and y: "List.find (accepts src) (cq c) = Some y"
  shows "\<exists>s'. mini_rec c src m s = Inr (OK, s') \<and> rec_effect c src m f qs cq s s'"
proof -
  have ca: "callers_inv s cq" using inv by (simp add: ipc_inv_def base_inv_def)
  note cc = callers_invD[OF ca c(1)]
  from find_split[OF y cc(2)] obtain us vs where
    uv: "cq c = us @ y # vs" "\<forall>x\<in>set us. \<not> accepts src x" "accepts src y" "remove1 y (cq c) = us @ vs" by blast
  let ?pv = "if us = [] then None else Some (last us)"
  have find: "callerq_find proc_fuel src None (p_callerq (procs s c)) s = Inr (Some (?pv, y))"
    using cc(3) uv callers_inv_length[OF ca c(1)] by (intro callerq_find_Some) auto
  let ?a = "CopyMess y y (p_messbuf (procs s y)) c m s"
  have a: "ipc_inv ?a f qs cq" using ipc_inv_um[OF inv] by (simp add: CopyMess_def upd_message_def)
  from rec_take_ok[OF a c(1) uv(1)] obtain s1 where
    s1: "rec_take c ?pv y ?a = Inr s1" "um s1 = um ?a"
      "\<forall>p. p_flags (procs s1 p) = (if p = y then p_flags (procs ?a y) AND NOT SENDING else p_flags (procs ?a p))"
      "ipc_inv s1 f qs (cq(c := us @ vs))" "y \<notin> set (f (qclass y))" "isokprocn y" by blast
  from unblock_ok[OF s1(4,6,5)] obtain s' where
    s': "(if p_flags (procs s1 y) = 0 then ready y s1 else Inr s1) = Inr s'" "sched_view s' = sched_view s1"
      "ipc_inv s' (if p_flags (procs s1 y) = 0 then rq_add y f else f) qs (cq(c := us @ vs))" by blast
  note v = sched_viewD[OF s'(2)]
  have "mini_rec c src m s = bnd (rec_take c ?pv y ?a) (\<lambda>s. bnd (if p_flags (procs s y) = 0 then ready y s else Inr s) (ret OK))"
    using c(2) find by (simp add: mini_rec_def rec_take_def bnd_assoc Let_def)
  then have "mini_rec c src m s = ret OK s'" using s1(1) s'(1) by simp
  moreover have "delivered y (p_messbuf (procs s y)) c m s s'"
    using s1(2) v(14) by (simp add: delivered_def CopyMess_def upd_message_def)
  moreover have "p_flags (procs s' y) = p_flags (procs s y) AND NOT SENDING"
    using s1(3) v(1) by (simp add: CopyMess_def upd_message_def)
  ultimately show ?thesis using y s'(3) uv(4) v(1)[of y] by (simp add: rec_effect_def)
qed

lemma mini_rec_none:
  assumes inv: "ipc_inv s f qs cq" and c: "isokprocn c" "\<not> TEST_BIT (p_flags (procs s c)) SENDING"
    and n: "List.find (accepts src) (cq c) = None"
  shows "mini_rec c src m s =
    (if p_int_blocked (procs s c) \<and> isrxhardware src
     then ret OK (upd_proc c (p_int_blocked_update (\<lambda>_. False)) (hard_int_message m s)) else rec_block c src m s)"
proof -
  have ca: "callers_inv s cq" using inv by (simp add: ipc_inv_def base_inv_def)
  have "length (cq c) < proc_fuel" using callers_inv_length[OF ca c(1)] by simp
  from callerq_find_None[OF callers_invD(3)[OF ca c(1)] this, of src None] show ?thesis
    using n c(2) by (simp add: mini_rec_def find_None_iff)
qed

lemma rec_block_spec:
  assumes inv: "ipc_inv s f qs cq" and quiet: "sig_procs s \<le> 0 \<or> c \<noteq> MM_PROC_NR \<or> src \<noteq> ANY"
  shows "\<exists>s'. rec_block c src m s = Inr (OK, s') \<and> blocked_rec c src m s s' \<and> ipc_inv s' (rq_remove c f) qs cq"
proof -
  from rec_blocks[OF inv, where c = c and src = src and m = m] obtain s1 where
    s1: "(let s = upd_proc c (\<lambda>p. p\<lparr>p_getfrom := src, p_messbuf := m\<rparr>) s
         in if p_flags (procs s c) = 0 then unready c s else Inr s) = Inr s1" "sig_procs s1 = sig_procs s"
    "blocked_rec c src m s (upd_proc c (p_flags_update (\<lambda>w. w OR RECEIVING)) s1)"
    "ipc_inv (upd_proc c (p_flags_update (\<lambda>w. w OR RECEIVING)) s1) (rq_remove c f) qs cq" by blast
  have "rec_block c src m s = ret OK (upd_proc c (p_flags_update (\<lambda>w. w OR RECEIVING)) s1)"
    using s1(1,2) quiet by (auto simp: rec_block_def Let_def)
  then show ?thesis using s1(3,4) by blast
qed

lemma mini_rec_spec:
  assumes inv: "ipc_inv s f qs cq" and c: "isokprocn c" "\<not> TEST_BIT (p_flags (procs s c)) SENDING"
    and quiet: "sig_procs s \<le> 0 \<or> c \<noteq> MM_PROC_NR \<or> src \<noteq> ANY"
  shows "\<exists>s'. mini_rec c src m s = Inr (OK, s') \<and> rec_effect c src m f qs cq s s'"
proof (cases "List.find (accepts src) (cq c)")
  case None
  note eq = mini_rec_none[OF inv c None]
  show ?thesis
  proof (cases "p_int_blocked (procs s c) \<and> isrxhardware src")
    case True
    let ?s' = "upd_proc c (p_int_blocked_update (\<lambda>_. False)) (hard_int_message m s)"
    have "ipc_inv ?s' f qs cq"
      using inv minix_ok_cong[of ?s' s f] callers_inv_cong[of ?s' s cq] base_inv_cong[of s qs cq ?s' cq]
      by (simp add: ipc_inv_def base_inv_def hard_int_message_def upd_message_def)
    then show ?thesis using eq None True by (simp add: rec_effect_def)
  next
    case False
    then show ?thesis using rec_block_spec[OF inv quiet] eq None by (auto simp: rec_effect_def)
  qed
qed (rule mini_rec_found[OF inv c])

subsection \<open>Reporting signals\<close>

lemma ipc_inv_cong:
  assumes inv: "ipc_inv s f qs cq" and "rdy_head s' = rdy_head s" and "rdy_tail s' = rdy_tail s"
    and "\<And>p. p_nextready (procs s' p) = p_nextready (procs s p)"
    and "\<And>p. TEST_BIT (p_flags (procs s' p)) SENDING = TEST_BIT (p_flags (procs s p)) SENDING"
    and "\<And>p. p_flags (procs s p) = 0 \<Longrightarrow> p_flags (procs s' p) = 0"
    and "\<And>p. p_callerq (procs s' p) = p_callerq (procs s p)" and "\<And>p. p_sendlink (procs s' p) = p_sendlink (procs s p)"
    and "\<And>p. p_sendto (procs s' p) = p_sendto (procs s p)" and "links s' = links s" and "rdyQ s' = rdyQ s"
    and "\<And>p. rt (procs s' p) = rt (procs s p)" and "\<And>p. p_stguard (procs s' p) = p_stguard (procs s p)"
  shows "ipc_inv s' f qs cq"
proof -
  have "callers_inv s' cq" using inv assms callers_inv_cong[of s' s cq] by (simp add: ipc_inv_def base_inv_def)
  then have "base_inv s' qs cq" using inv assms by (intro base_inv_cong[of s qs cq s' cq]) (simp_all add: ipc_inv_def)
  then show ?thesis using inv assms minix_ok_cong[of s' s f] by (simp add: ipc_inv_def)
qed

lemma lock_pick_proc_ipc:
  assumes inv: "ipc_inv s f qs cq"
  shows "\<exists>s'. lock_pick_proc s = Inr s' \<and> sched_view s' = sched_view s \<and> ipc_inv s' f qs cq"
proof -
  let ?a = "s\<lparr>switching := True\<rparr>"
  have a: "ipc_inv ?a f qs cq" by (rule ipc_inv_cong[OF inv]) simp_all
  then have r: "rdyQ_inv ?a qs" "wf_links (links ?a)" by (simp_all add: ipc_inv_def base_inv_def)
  from pick_proc_total[OF r] obtain s1 where s1: "pick_proc ?a = Inr s1" ..
  note v = pick_proc_view[OF s1]
  have "minix_ok s1 f" using pick_proc_inv[OF _ s1] a by (auto simp: ipc_inv_def minix_ok_def)
  moreover have "base_inv s1 qs cq" using base_inv_view[OF _ v] a by (simp add: ipc_inv_def)
  ultimately have i: "ipc_inv s1 f qs cq" using a by (simp add: ipc_inv_def sched_viewD[OF v])
  have "ipc_inv (s1\<lparr>switching := False\<rparr>) f qs cq" by (rule ipc_inv_cong[OF i]) simp_all
  then show ?thesis using s1 v by (simp add: lock_pick_proc_def locked_def)
qed

definition first_pending :: "kstate \<Rightarrow> int option" where
  "first_pending s = List.find (\<lambda>p. TEST_BIT (p_flags (procs s p)) PENDING) [0..NR_PROCS - 1]"

lemma not_sending_no_path: "\<not> TEST_BIT (p_flags (procs s d)) SENDING \<Longrightarrow> (d, c) \<notin> (send_graph s)\<^sup>+"
  by (auto simp: send_graph_def dest!: tranclD)

lemma clr_pending: "TEST_BIT (w AND NOT PENDING) SENDING = TEST_BIT w SENDING" "\<not> TEST_BIT (w AND NOT PENDING) PENDING"
  using TEST_CLR_other[of PENDING SENDING w] TEST_CLR_same[of w PENDING] by (simp_all add: CLR_BIT_def)

lemmas clr_pending_num [simp] = clr_pending[simplified]

lemma inform_spec:
  assumes inv: "ipc_inv s f qs cq" and mm: "waits_for s MM_PROC_NR HARDWARE" "\<not> TEST_BIT (p_flags (procs s MM_PROC_NR)) P_SLOT_FREE"
    and buf: "\<not> message_outside (procs s HARDWARE) (m_addr s)" and rp: "first_pending s = Some rp"
  shows "\<exists>s' f'. inform s = Inr s' \<and> ipc_inv s' f' qs cq \<and> sig_procs s' = sig_procs s - 1
     \<and> p_pending (procs s' rp) = 0 \<and> \<not> TEST_BIT (p_flags (procs s' rp)) PENDING
     \<and> (let x = um_message (um s') (mess_phys s MM_PROC_NR (p_messbuf (procs s MM_PROC_NR)))
        in m_source x = HARDWARE \<and> m_type x = KSIG \<and> m_u x 0 = word_of_int rp \<and> m_u x 3 = p_pending (procs s rp))"
proof -
  let ?a = "(inform_message rp s)\<lparr>sig_procs := sig_procs s - 1, switching := True\<rparr>"
  have ia: "ipc_inv ?a f qs cq" by (rule ipc_inv_cong[OF inv]) (simp_all add: inform_message_def upd_message_def)
  have ca: "callers_inv ?a cq" using ia by (simp add: ipc_inv_def base_inv_def)
  have 0: "isokprocn MM_PROC_NR" by (simp add: isokprocn_def)
  have same: "procs ?a = procs s" "m_addr ?a = m_addr s" by (simp_all add: inform_message_def upd_message_def)
  have wa: "waits_for ?a MM_PROC_NR HARDWARE" using mm(1) by (simp add: waits_for_def inform_message_def upd_message_def)
  define b where "b = upd_proc MM_PROC_NR (p_flags_update (\<lambda>w. w AND NOT RECEIVING))
      (CopyMess HARDWARE HARDWARE (m_addr s) MM_PROC_NR (p_messbuf (procs ?a MM_PROC_NR)) ?a)"
  from mini_send_deliver[OF ia 0 wa b_def] obtain s1 where
    s1: "(if p_flags (procs b MM_PROC_NR) = 0 then ready MM_PROC_NR b else Inr b) = Inr s1" "sched_view s1 = sched_view b"
      "delivered HARDWARE (m_addr s) MM_PROC_NR (p_messbuf (procs ?a MM_PROC_NR)) ?a s1"
      "ipc_inv s1 (if p_flags (procs ?a MM_PROC_NR) AND NOT RECEIVING = 0 then rq_add MM_PROC_NR f else f) qs cq"
    by blast
  note v = sched_viewD[OF s1(2)]
  have b: "sig_procs b = sig_procs s - 1"
    by (simp add: b_def CopyMess_def inform_message_def upd_message_def)
  have "mini_send HARDWARE MM_PROC_NR (m_addr s) ?a = ret OK s1"
    unfolding mini_send_unfold[OF ca 0] Let_def b_def[symmetric] s1(1)
    using mm(2) buf wa not_sending_no_path[OF waits_for_flags(1)[OF wa]]
    by (simp add: same may_send_def isuserp_def)
  then have send: "lock_mini_send HARDWARE MM_PROC_NR (m_addr s) ((inform_message rp s)\<lparr>sig_procs := sig_procs s - 1\<rparr>)
      = ret OK (s1\<lparr>switching := False\<rparr>)" by (simp add: lock_mini_send_def)
  let ?c = "upd_proc rp (p_flags_update (\<lambda>w. w AND NOT PENDING)) (upd_proc rp (p_pending_update (\<lambda>_. 0)) (s1\<lparr>switching := False\<rparr>))"
  have ic: "ipc_inv ?c (if p_flags (procs ?a MM_PROC_NR) AND NOT RECEIVING = 0 then rq_add MM_PROC_NR f else f) qs cq"
    by (rule ipc_inv_cong[OF s1(4)]) auto
  from lock_pick_proc_ipc[OF ic] obtain s' where
    s': "lock_pick_proc ?c = Inr s'" "sched_view s' = sched_view ?c"
      "ipc_inv s' (if p_flags (procs ?a MM_PROC_NR) AND NOT RECEIVING = 0 then rq_add MM_PROC_NR f else f) qs cq" by blast
  note v' = sched_viewD[OF s'(2)]
  have "inform s = Inr s'"
    using rp send s'(1) by (simp add: inform_def first_pending_def inform_message_def upd_message_def)
  moreover have "um s' = um s1" "sig_procs s' = sig_procs s - 1" "p_pending (procs s' rp) = 0" "\<not> TEST_BIT (p_flags (procs s' rp)) PENDING"
    by (simp_all add: v' v b)
  ultimately show ?thesis using s'(3) s1(3) by (auto simp: delivered_def same mess_phys_def inform_message_def upd_message_def)
qed

subsection \<open>Any sequence of calls\<close>

text \<open>
  The states that the message calls of running processes lead to. A running process has no flag set. The
  destination of a message is another process of the table: a process that sends to itself, or to \<open>ANY\<close>, is outside this relation.
  So are calls that make the kernel report a signal, which are left to \<open>inform_spec\<close>.
\<close>

inductive ipc_reach :: "kstate \<Rightarrow> kstate \<Rightarrow> bool" for s0 :: kstate where
  ipc_start: "ipc_reach s0 s0"
| ipc_send: "ipc_reach s0 s \<Longrightarrow> isokprocn c \<Longrightarrow> p_flags (procs s c) = 0 \<Longrightarrow> isokprocn d \<Longrightarrow> c \<noteq> d \<Longrightarrow>
    mini_send c d m s = Inr (r, s') \<Longrightarrow> ipc_reach s0 s'"
| ipc_rec: "ipc_reach s0 s \<Longrightarrow> isokprocn c \<Longrightarrow> p_flags (procs s c) = 0 \<Longrightarrow>
    sig_procs s \<le> 0 \<or> c \<noteq> MM_PROC_NR \<or> src \<noteq> ANY \<Longrightarrow> mini_rec c src m s = Inr (r, s') \<Longrightarrow> ipc_reach s0 s'"

lemma send_effect_inv: "ipc_inv s f qs cq \<Longrightarrow> send_effect c d m f qs cq s r s' \<Longrightarrow> \<exists>f' cq'. ipc_inv s' f' qs cq'"
  by (fastforce simp: send_effect_def split: if_splits)

lemma rec_effect_inv: "rec_effect c src m f qs cq s s' \<Longrightarrow> \<exists>f' cq'. ipc_inv s' f' qs cq'"
  by (fastforce simp: rec_effect_def split: if_splits option.splits)

lemma not_sending_0 [simp]: "\<not> TEST_BIT 0 SENDING"
  by (simp add: TEST_BIT_def)

lemma ipc_reach_inv:
  assumes "ipc_reach s0 s" and "ipc_inv s0 f qs cq"
  shows "\<exists>f' cq'. ipc_inv s f' qs cq'"
  using assms
proof (induction rule: ipc_reach.induct)
  case (ipc_send s c d m r s')
  then obtain f' cq' where i: "ipc_inv s f' qs cq'" by blast
  from mini_send_spec[OF i ipc_send.hyps(2) _ ipc_send.hyps(4,5), of m] ipc_send.hyps(3,6)
  show ?case using send_effect_inv[OF i] by auto
next
  case (ipc_rec s c src m r s')
  then obtain f' cq' where i: "ipc_inv s f' qs cq'" by blast
  from mini_rec_spec[OF i ipc_rec.hyps(2) _ ipc_rec.hyps(4), of m] ipc_rec.hyps(3,5)
  show ?case using rec_effect_inv by auto
qed blast

subsection \<open>Interrupts\<close>

definition hard_int_at :: "u32 \<Rightarrow> kstate \<Rightarrow> bool" where
  "hard_int_at a s \<longleftrightarrow> (let x = um_message (um s) (mess_phys s HARDWARE a) in m_source x = HARDWARE \<and> m_type x = HARD_INT)"

text \<open>An interrupt competes when the kernel itself was interrupted, or is switching processes.\<close>

abbreviation competing :: "kstate \<Rightarrow> bool" where
  "competing s \<equiv> k_reenter s \<noteq> 0 \<or> switching s"

text \<open>The task waits for a message and accepts one from the hardware.\<close>

definition awaits_int :: "kstate \<Rightarrow> int \<Rightarrow> bool" where
  "awaits_int s t \<longleftrightarrow> p_flags (procs s t) AND (RECEIVING OR SENDING) = RECEIVING \<and> isrxhardware (p_getfrom (procs s t))"

text \<open>The tasks with a held interrupt are linked by \<open>p_nextheld\<close> from \<open>held_head\<close> to \<open>held_tail\<close>.\<close>

definition held_rep :: "kstate \<Rightarrow> int list \<Rightarrow> bool" where
  "held_rep s ts \<longleftrightarrow> caller_chain (\<lambda>p. p_nextheld (procs s p)) (held_head s) ts \<and> distinct ts
     \<and> held_tail s = (if ts = [] then None else Some (last ts)) \<and> (\<forall>p. p_int_held (procs s p) \<longleftrightarrow> p \<in> set ts)"

text \<open>
  No interrupt of MINIX was deferred by the real-time kernel, so that \<open>unlock\<close> calls no handler. With fuel \<open>n\<close> it returns.
\<close>

definition no_minix_irq :: "nat \<Rightarrow> kstate \<Rightarrow> bool" where
  "no_minix_irq n s \<longleftrightarrow> svflag s MRT_RTMODE \<longrightarrow> 0 < n \<and> ls_first (mnxQ (si s)) = None"

definition int_woken :: "int \<Rightarrow> kstate \<Rightarrow> kstate" where
  "int_woken t s = upd_proc t (p_int_blocked_update (\<lambda>_. False)) (upd_proc t (p_flags_update (\<lambda>w. w AND NOT RECEIVING))
     (hard_int_message (p_messbuf (procs s t)) s))"

lemma interrupt_waiting:
  assumes inv: "ipc_inv s f qs cq" and t: "istaskp t" "isokprocn t" and idle: "\<not> competing s"
    and w: "p_flags (procs s t) = RECEIVING" "isrxhardware (p_getfrom (procs s t))"
  shows "\<exists>s'. interrupt n hnd t s = Inr s' \<and> ready t (int_woken t s) = Inr s' \<and> hard_int_at (p_messbuf (procs s t)) s'
    \<and> p_flags (procs s' t) = 0 \<and> ipc_inv s' (f(TASK_Q := f TASK_Q @ [t])) qs cq"
proof -
  define a where "a = int_woken t s"
  have fl: "p_flags (procs a t) = 0" using w by (simp add: a_def int_woken_def hard_int_message_def upd_message_def)
  have out: "t \<notin> set (f (qclass t))" using inv w by (auto simp: ipc_inv_def)
  have ia: "ipc_inv a f qs cq"
    by (rule ipc_inv_cong[OF inv]) (auto simp: a_def int_woken_def hard_int_message_def upd_message_def TEST_BIT_def w(1))
  from unblock_ok[OF ia t(2) out] fl obtain s' where
    s': "ready t a = Inr s'" "sched_view s' = sched_view a" "ipc_inv s' (rq_add t f) qs cq" by auto
  have q: "\<not> isuserp t" "qclass t = TASK_Q" using t(1) by (auto simp: istaskp_def isuserp_def qclass_def)
  note v = sched_viewD[OF s'(2)]
  have "interrupt n hnd t s = Inr s'"
    using s'(1) t idle w by (simp add: interrupt_def proc_addr_def ready_def a_def int_woken_def)
  moreover have "hard_int_at (p_messbuf (procs s t)) s'"
    by (simp add: hard_int_at_def mess_phys_def v) (simp add: a_def int_woken_def hard_int_message_def upd_message_def mess_phys_def)
  ultimately show ?thesis using s'(1,3) q fl v(1)[of t] by (simp add: a_def)
qed

lemma interrupt_pending:
  assumes t: "isokprocn t" and idle: "\<not> competing s" and w: "\<not> awaits_int s t"
  shows "interrupt n hnd t s = Inr (upd_proc t (p_int_blocked_update (\<lambda>_. True)) s)"
  using assms by (auto simp: interrupt_def proc_addr_def awaits_int_def)

lemma unlock_quiet:
  assumes "no_minix_irq n s"
  shows "unlock n hnd s = Inr (clr_svflag MRT_MINIXCLI s)"
  using assms by (cases n) (auto simp: unlock_def no_minix_irq_def Let_def TEST_BIT_def CLR_BIT_def SET_BIT_def and.assoc)

lemma no_minix_irq_lock [simp]: "no_minix_irq n (lock s) = no_minix_irq n s"
  by (simp add: no_minix_irq_def lock_def TEST_BIT_def SET_BIT_def bit.conj_disj_distrib2)

lemma held_rep_cong:
  assumes "held_head s' = held_head s" "held_tail s' = held_tail s" "\<And>p. p_nextheld (procs s' p) = p_nextheld (procs s p)"
    "\<And>p. p_int_held (procs s' p) = p_int_held (procs s p)"
  shows "held_rep s' ts = held_rep s ts"
  by (simp add: held_rep_def assms)

lemma hold_interrupt_ok:
  assumes "held_rep s ts"
  shows "\<exists>s'. hold_interrupt t s = Inr s' \<and> held_rep s' (if t \<in> set ts then ts else ts @ [t])"
proof (cases "t \<in> set ts")
  case True
  then show ?thesis using assms by (auto simp: hold_interrupt_def held_rep_def)
next
  case out: False
  show ?thesis
  proof (cases ts rule: rev_cases)
    case Nil
    then show ?thesis using assms by (auto simp: hold_interrupt_def held_rep_def Let_def)
  next
    case (snoc ys z)
    let ?f = "\<lambda>p. p_nextheld (procs s p)"
    have z: "held_head s \<noteq> None" "held_tail s = Some z" "t \<noteq> z" "\<not> p_int_held (procs s t)"
      using assms snoc out by (cases ys; auto simp: held_rep_def)+
    have c: "caller_chain (?f(z := Some t, t := None)) (held_head s) (ys @ [z, t])"
      by (rule caller_chain_snoc) (use assms snoc out in \<open>auto simp: held_rep_def\<close>)
    have "caller_chain (\<lambda>p. p_nextheld (((procs s)(t := (procs s t)\<lparr>p_int_held := True\<rparr>, z := (procs s z)\<lparr>p_nextheld := Some t\<rparr>,
        t := (procs s t)\<lparr>p_int_held := True, p_nextheld := None\<rparr>)) p)) (held_head s) (ys @ [z, t])
      = caller_chain (?f(z := Some t, t := None)) (held_head s) (ys @ [z, t])"
      by (rule caller_chain_cong) (use z in auto)
    with c show ?thesis using z assms out snoc by (auto simp: hold_interrupt_def held_rep_def Let_def)
  qed
qed

lemma hold_interrupt_ipc:
  assumes "hold_interrupt t s = Inr s'" and "ipc_inv s f qs cq"
  shows "ipc_inv s' f qs cq"
  using assms by (auto simp: hold_interrupt_def bnd_eq_Inr Let_def split: if_splits intro!: ipc_inv_cong[OF assms(2)])

lemma hold_interrupt_quiet: "hold_interrupt t s = Inr s' \<Longrightarrow> no_minix_irq n s' = no_minix_irq n s"
  by (auto simp: hold_interrupt_def no_minix_irq_def bnd_eq_Inr Let_def split: if_splits)

lemma interrupt_held:
  assumes inv: "ipc_inv s f qs cq" and t: "isokprocn t" and c: "competing s" and h: "held_rep s ts" and q: "no_minix_irq n s"
  shows "\<exists>s'. interrupt n hnd t s = Inr s' \<and> held_rep s' (if t \<in> set ts then ts else ts @ [t]) \<and> ipc_inv s' f qs cq"
proof -
  have "held_rep (lock s) ts" using h by (simp add: held_rep_def lock_def)
  from hold_interrupt_ok[OF this] obtain s1 where
    s1: "hold_interrupt t (lock s) = Inr s1" "held_rep s1 (if t \<in> set ts then ts else ts @ [t])" by blast
  have "ipc_inv (lock s) f qs cq" by (rule ipc_inv_cong[OF inv]) (auto simp: lock_def)
  from hold_interrupt_ipc[OF s1(1) this] have "ipc_inv (clr_svflag MRT_MINIXCLI s1) f qs cq"
    by (rule ipc_inv_cong) auto
  moreover have "held_rep (clr_svflag MRT_MINIXCLI s1) (if t \<in> set ts then ts else ts @ [t])"
    using s1(2) by (simp add: held_rep_def)
  moreover have "unlock n hnd s1 = Inr (clr_svflag MRT_MINIXCLI s1)"
    using q hold_interrupt_quiet[OF s1(1)] by (simp add: unlock_quiet)
  ultimately show ?thesis using s1(1) c t by (auto simp: interrupt_def proc_addr_def)
qed

text \<open>
  The message calls keep a remembered interrupt, until the task takes it: it receives, accepts a message from the
  hardware, and no process it accepts a message from is blocked sending to it.
\<close>

definition takes_int :: "int \<Rightarrow> int \<Rightarrow> kstate \<Rightarrow> bool" where
  "takes_int t src s \<longleftrightarrow> isrxhardware src \<and> (\<forall>q. (q, t) \<in> send_graph s \<longrightarrow> \<not> accepts src q)"

lemma callerq_app_int: "callerq_app d c s = Inr s' \<Longrightarrow> p_int_blocked (procs s' t) = p_int_blocked (procs s t)"
  by (auto simp: callerq_app_def bnd_eq_Inr split: option.splits if_splits)

lemma mini_send_int:
  assumes "mini_send c d m s = Inr (r, s')"
  shows "p_int_blocked (procs s' t) = p_int_blocked (procs s t)"
  using assms
  by (auto simp: mini_send_def bnd_eq_Inr Let_def CopyMess_def upd_message_def split: if_splits
      dest!: callerq_app_int[where t = t] ready_view unready_view sched_viewD(10)[where p = t])

lemma callerq_take_int: "callerq_take c x y s = Inr s' \<Longrightarrow> p_int_blocked (procs s' t) = p_int_blocked (procs s t)"
  by (auto simp: callerq_take_def bnd_eq_Inr split: option.splits if_splits)

lemma rec_block_int:
  assumes "rec_block c src m s = Inr (r, s')" "sig_procs s \<le> 0 \<or> c \<noteq> MM_PROC_NR \<or> src \<noteq> ANY"
  shows "p_int_blocked (procs s' t) = p_int_blocked (procs s t)"
  using assms by (auto simp: rec_block_def bnd_eq_Inr Let_def split: if_splits
      dest!: unready_view dest: sched_viewD(10)[where p = t] sched_viewD(15))

lemma takes_int_find:
  "callers_inv s cq \<Longrightarrow> isokprocn t \<Longrightarrow> takes_int t src s \<longleftrightarrow> isrxhardware src \<and> List.find (accepts src) (cq t) = None"
  by (auto simp: takes_int_def find_None_iff callers_inv_def)

lemma mini_rec_int:
  assumes inv: "ipc_inv s f qs cq" and c: "isokprocn c" "\<not> TEST_BIT (p_flags (procs s c)) SENDING"
    and quiet: "sig_procs s \<le> 0 \<or> c \<noteq> MM_PROC_NR \<or> src \<noteq> ANY" and t: "c \<noteq> t \<or> \<not> takes_int t src s"
    and r: "mini_rec c src m s = Inr (r, s')"
  shows "p_int_blocked (procs s' t) = p_int_blocked (procs s t)"
proof (cases "List.find (accepts src) (cq c)")
  case None
  then have "\<not> isrxhardware src" if "c = t" using that t c(1) inv takes_int_find by (auto simp: ipc_inv_def base_inv_def)
  then show ?thesis using r rec_block_int[OF _ quiet] unfolding mini_rec_none[OF inv c None]
    by (auto simp: hard_int_message_def upd_message_def split: if_splits)
next
  case (Some y)
  have ca: "callers_inv s cq" using inv by (simp add: ipc_inv_def base_inv_def)
  note cc = callers_invD[OF ca c(1)]
  from find_split[OF Some cc(2)] obtain us vs where
    uv: "cq c = us @ y # vs" "\<forall>x\<in>set us. \<not> accepts src x" "accepts src y" by blast
  then have "callerq_find proc_fuel src None (p_callerq (procs s c)) s = Inr (Some (if us = [] then None else Some (last us), y))"
    using cc(3) callers_inv_length[OF ca c(1)] by (intro callerq_find_Some) auto
  then show ?thesis using r c(2)
    by (auto simp: mini_rec_def bnd_eq_Inr Let_def CopyMess_def upd_message_def split: if_splits
        dest!: callerq_take_int[where t = t] ready_view sched_viewD(10)[where p = t])
qed

text \<open>
  The states that message calls lead to, of other processes or of \<open>t\<close> itself, in which \<open>t\<close> does not take its interrupt.
\<close>

inductive pend_reach :: "int \<Rightarrow> kstate \<Rightarrow> kstate \<Rightarrow> bool" for t :: int and s0 :: kstate where
  pend_start: "pend_reach t s0 s0"
| pend_send: "pend_reach t s0 s \<Longrightarrow> isokprocn c \<Longrightarrow> p_flags (procs s c) = 0 \<Longrightarrow> isokprocn d \<Longrightarrow> c \<noteq> d \<Longrightarrow>
    mini_send c d m s = Inr (r, s') \<Longrightarrow> pend_reach t s0 s'"
| pend_rec: "pend_reach t s0 s \<Longrightarrow> isokprocn c \<Longrightarrow> p_flags (procs s c) = 0 \<Longrightarrow>
    sig_procs s \<le> 0 \<or> c \<noteq> MM_PROC_NR \<or> src \<noteq> ANY \<Longrightarrow> c \<noteq> t \<or> \<not> takes_int t src s \<Longrightarrow>
    mini_rec c src m s = Inr (r, s') \<Longrightarrow> pend_reach t s0 s'"

lemma pend_reach_ipc: "pend_reach t s0 s \<Longrightarrow> ipc_reach s0 s"
  by (induction rule: pend_reach.induct) (auto intro: ipc_reach.intros)

lemma pend_reach_int:
  assumes "pend_reach t s0 s" and "ipc_inv s0 f qs cq"
  shows "p_int_blocked (procs s t) = p_int_blocked (procs s0 t)"
  using assms
proof (induction rule: pend_reach.induct)
  case (pend_rec s c src m r s')
  from ipc_reach_inv[OF pend_reach_ipc[OF pend_rec.hyps(1)] pend_rec.prems] obtain f' cq' where "ipc_inv s f' qs cq'" by blast
  from mini_rec_int[OF this pend_rec.hyps(2) _ pend_rec.hyps(4-6)] pend_rec show ?case by simp
qed (simp_all add: mini_send_int)

text \<open>The first receive that takes the interrupt reports it.\<close>

lemma interrupt_reported:
  assumes inv: "ipc_inv s0 f qs cq" and b: "p_int_blocked (procs s0 t)" and r: "pend_reach t s0 s" and t: "isokprocn t"
    and "p_flags (procs s t) = 0" and "takes_int t src s"
  shows "\<exists>s'. mini_rec t src m s = Inr (OK, s') \<and> hard_int_at m s' \<and> p_flags (procs s' t) = 0 \<and> \<not> p_int_blocked (procs s' t)"
proof -
  from ipc_reach_inv[OF pend_reach_ipc[OF r] inv] obtain f' cq' where i: "ipc_inv s f' qs cq'" by blast
  then have "List.find (accepts src) (cq' t) = None" "isrxhardware src"
    using takes_int_find[of s cq' t src] assms by (auto simp: ipc_inv_def base_inv_def)
  with mini_rec_none[OF i t, of src m] show ?thesis using assms pend_reach_int[OF r inv]
    by (auto simp: hard_int_at_def hard_int_message_def upd_message_def mess_phys_def Let_def)
qed

subsection \<open>Interrupts that were held\<close>

text \<open>The interrupt of \<open>t\<close> was handed over, or is remembered.\<close>

definition int_done :: "kstate \<Rightarrow> int \<Rightarrow> kstate \<Rightarrow> bool" where
  "int_done s t s' \<longleftrightarrow> (if awaits_int s t then hard_int_at (p_messbuf (procs s t)) s' \<and> p_flags (procs s' t) = 0
     else p_int_blocked (procs s' t))"

definition int_frame :: "int set \<Rightarrow> kstate \<Rightarrow> kstate \<Rightarrow> bool" where
  "int_frame T s s' \<longleftrightarrow> (\<forall>p. p \<notin> T \<longrightarrow> p_flags (procs s' p) = p_flags (procs s p) \<and> p_getfrom (procs s' p) = p_getfrom (procs s p)
     \<and> p_messbuf (procs s' p) = p_messbuf (procs s p) \<and> p_int_blocked (procs s' p) = p_int_blocked (procs s p))
     \<and> (\<forall>a. hard_int_at a s \<longrightarrow> hard_int_at a s') \<and> competing s' = competing s \<and> (\<forall>n. no_minix_irq n s' = no_minix_irq n s)"

lemma int_frame_done: "int_frame T s s' \<Longrightarrow> t \<notin> T \<Longrightarrow> int_done s0 t s \<Longrightarrow> int_done s0 t s'"
  by (auto simp: int_frame_def int_done_def split: if_splits)

lemma int_done_frame: "int_frame T s0 s \<Longrightarrow> t \<notin> T \<Longrightarrow> int_done s t s' = int_done s0 t s'"
  by (auto simp: int_frame_def int_done_def awaits_int_def)

lemma int_frame_trans: "int_frame T s1 s2 \<Longrightarrow> int_frame U s2 s3 \<Longrightarrow> int_frame (T \<union> U) s1 s3"
  by (auto simp: int_frame_def)

lemma ready_task_frame:
  assumes "ready t s = Inr s'" and "istaskp t"
  shows "held_head s' = held_head s" "held_tail s' = held_tail s" "k_reenter s' = k_reenter s" "switching s' = switching s"
    "sv s' = sv s" "si s' = si s" "p_nextheld (procs s' p) = p_nextheld (procs s p)" "p_int_held (procs s' p) = p_int_held (procs s p)"
  using assms by (auto simp: ready_def ready_tail_def bnd_eq_Inr split: if_splits)

lemma int_woken_frame:
  assumes "istaskp t" and "ready t (int_woken t s) = Inr s'"
  shows "int_frame {t} s s'" and "held_rep s ts \<Longrightarrow> held_rep s' ts"
proof -
  note v = sched_viewD[OF ready_view[OF assms(2)]] and r = ready_task_frame[OF assms(2,1)]
  show "int_frame {t} s s'"
    by (simp add: int_frame_def no_minix_irq_def r v hard_int_at_def mess_phys_def)
      (auto simp: int_woken_def hard_int_message_def upd_message_def mess_phys_def Let_def)
  have "held_rep s' ts = held_rep s ts"
    by (rule held_rep_cong) (simp_all add: r int_woken_def hard_int_message_def upd_message_def)
  then show "held_rep s ts \<Longrightarrow> held_rep s' ts" by simp
qed

lemma interrupt_served:
  assumes inv: "ipc_inv s f qs cq" and t: "istaskp t" "isokprocn t" and idle: "\<not> competing s"
    and w: "awaits_int s t \<Longrightarrow> p_flags (procs s t) = RECEIVING"
  shows "\<exists>s' f'. interrupt n hnd t s = Inr s' \<and> ipc_inv s' f' qs cq \<and> int_done s t s' \<and> int_frame {t} s s'
    \<and> (\<forall>ts. held_rep s ts \<longrightarrow> held_rep s' ts)"
proof (cases "awaits_int s t")
  case True
  with interrupt_waiting[OF inv t idle w[OF True], of n hnd] obtain s' where
    s': "interrupt n hnd t s = Inr s'" "ready t (int_woken t s) = Inr s'" "hard_int_at (p_messbuf (procs s t)) s'"
      "p_flags (procs s' t) = 0" "ipc_inv s' (f(TASK_Q := f TASK_Q @ [t])) qs cq" by (auto simp: awaits_int_def)
  then show ?thesis using int_woken_frame[OF t(1) s'(2)] True by (auto simp: int_done_def)
next
  case False
  let ?s = "upd_proc t (p_int_blocked_update (\<lambda>_. True)) s"
  have "interrupt n hnd t s = Inr ?s" by (rule interrupt_pending[OF t(2) idle False])
  moreover have "ipc_inv ?s f qs cq" by (rule ipc_inv_cong[OF inv]) auto
  moreover have "int_frame {t} s ?s" by (auto simp: int_frame_def no_minix_irq_def hard_int_at_def mess_phys_def Let_def)
  moreover have "held_rep ?s ts = held_rep s ts" for ts by (rule held_rep_cong) auto
  ultimately show ?thesis using False by (auto simp: int_done_def)
qed

lemma held_rep_next:
  assumes "held_rep s (t # ts)" and "h = s\<lparr>held_head := p_nextheld (procs s t)\<rparr>"
  shows "held_rep (upd_proc t (p_int_held_update (\<lambda>_. False)) (if held_head h = None then h\<lparr>held_tail := None\<rparr> else h)) ts"
proof -
  let ?u = "upd_proc t (p_int_held_update (\<lambda>_. False)) (if held_head h = None then h\<lparr>held_tail := None\<rparr> else h)"
  have c: "caller_chain (\<lambda>p. p_nextheld (procs s p)) (held_head ?u) ts" and n: "held_head ?u = None \<longleftrightarrow> ts = []"
    using assms by (cases ts; auto simp: held_rep_def)+
  have "caller_chain (\<lambda>p. p_nextheld (procs ?u p)) (held_head ?u) ts = caller_chain (\<lambda>p. p_nextheld (procs s p)) (held_head ?u) ts"
    by (rule caller_chain_cong) (simp add: assms(2))
  with c n show ?thesis using assms by (auto simp: held_rep_def)
qed

lemma unhold_step:
  assumes h: "held_rep s (t # ts)" and inv: "ipc_inv s f qs cq" and idle: "\<not> competing s" and q: "no_minix_irq m s"
    and t: "istaskp t" "isokprocn t" "awaits_int s t \<longrightarrow> p_flags (procs s t) = RECEIVING"
  shows "\<exists>s' f'. unhold_loop (Suc n) m hnd t s = (case held_head s' of None \<Rightarrow> Inr s' | Some p \<Rightarrow> unhold_loop n m hnd p s')
    \<and> ipc_inv s' f' qs cq \<and> held_rep s' ts \<and> int_done s t s' \<and> int_frame {t} s s'"
proof -
  define h where "h = s\<lparr>held_head := p_nextheld (procs s t)\<rparr>"
  define u where "u = upd_proc t (p_int_held_update (\<lambda>_. False)) (if held_head h = None then h\<lparr>held_tail := None\<rparr> else h)"
  let ?v = "clr_svflag MRT_MINIXCLI u"
  have qu: "no_minix_irq m u" using q by (simp add: u_def h_def no_minix_irq_def)
  have fr: "int_frame {} s ?v"
    by (auto simp: int_frame_def u_def h_def hard_int_at_def mess_phys_def no_minix_irq_def Let_def TEST_BIT_def CLR_BIT_def and.assoc)
  have "held_rep u ts" using held_rep_next[OF h h_def] by (simp add: u_def)
  then have hv: "held_rep ?v ts" using held_rep_cong[of ?v u ts] by simp
  have iv: "ipc_inv ?v f qs cq" by (rule ipc_inv_cong[OF inv]) (auto simp: u_def h_def)
  have "\<not> competing ?v" "awaits_int ?v t \<Longrightarrow> p_flags (procs ?v t) = RECEIVING"
    using fr idle t(3) by (auto simp: int_frame_def awaits_int_def)
  from interrupt_served[OF iv t(1,2) this, of m hnd] hv obtain w g where
    w: "interrupt m hnd t ?v = Inr w" "ipc_inv w g qs cq" "int_done ?v t w" "int_frame {t} ?v w" "held_rep w ts" by blast
  have l: "int_frame {} w (lock w)" by (auto simp: int_frame_def hard_int_at_def mess_phys_def Let_def) (auto simp: lock_def)
  have "unhold_loop (Suc n) m hnd t s = bnd (unlock m hnd u) (\<lambda>s. bnd (interrupt m hnd t s) (\<lambda>s.
      case held_head (lock s) of None \<Rightarrow> Inr (lock s) | Some p \<Rightarrow> unhold_loop n m hnd p (lock s)))"
    by (simp only: unhold_loop.simps Let_def u_def h_def)
  then have "unhold_loop (Suc n) m hnd t s = (case held_head (lock w) of None \<Rightarrow> Inr (lock w) | Some p \<Rightarrow> unhold_loop n m hnd p (lock w))"
    using w(1) unlock_quiet[OF qu, of hnd] by simp
  moreover have "ipc_inv (lock w) g qs cq" by (rule ipc_inv_cong[OF w(2)]) (auto simp: lock_def)
  moreover have "held_rep (lock w) ts" using w(5) held_rep_cong[of "lock w" w ts] by (simp add: lock_def)
  moreover have "int_done s t (lock w)" using w(3) int_done_frame[OF fr] int_frame_done[OF l] by simp
  moreover have "int_frame {t} s (lock w)" using int_frame_trans[OF int_frame_trans[OF fr w(4)] l] by simp
  ultimately show ?thesis by blast
qed

lemma unhold_loop_ok:
  assumes "held_rep s (t # ts)" and "ipc_inv s f qs cq" and "\<not> competing s" and "no_minix_irq m s" and "length ts < n"
    and "\<forall>p\<in>set (t # ts). istaskp p \<and> isokprocn p \<and> (awaits_int s p \<longrightarrow> p_flags (procs s p) = RECEIVING)"
  shows "\<exists>s' f'. unhold_loop n m hnd t s = Inr s' \<and> ipc_inv s' f' qs cq \<and> held_rep s' []
    \<and> (\<forall>p\<in>set (t # ts). int_done s p s') \<and> int_frame (set (t # ts)) s s'"
  using assms
proof (induction ts arbitrary: n t s f)
  case Nil
  then obtain n' where n: "n = Suc n'" by (cases n) auto
  from unhold_step[OF Nil.prems(1-4), of n' hnd] Nil.prems(6) n obtain s' f' where
    "unhold_loop n m hnd t s = (case held_head s' of None \<Rightarrow> Inr s' | Some p \<Rightarrow> unhold_loop n' m hnd p s')"
    "ipc_inv s' f' qs cq" "held_rep s' []" "int_done s t s'" "int_frame {t} s s'" by auto
  then show ?case by (auto simp: held_rep_def)
next
  case (Cons u ts)
  then obtain n' where n: "n = Suc n'" "length ts < n'" by (cases n) auto
  from unhold_step[OF Cons.prems(1-4), of n' hnd] Cons.prems(6) n obtain s1 f1 where
    s1: "unhold_loop n m hnd t s = (case held_head s1 of None \<Rightarrow> Inr s1 | Some p \<Rightarrow> unhold_loop n' m hnd p s1)"
      "ipc_inv s1 f1 qs cq" "held_rep s1 (u # ts)" "int_done s t s1" "int_frame {t} s s1" by auto
  have out: "t \<notin> set (u # ts)" using Cons.prems(1) by (simp add: held_rep_def)
  have pre: "\<not> competing s1" "no_minix_irq m s1"
    "\<forall>p\<in>set (u # ts). istaskp p \<and> isokprocn p \<and> (awaits_int s1 p \<longrightarrow> p_flags (procs s1 p) = RECEIVING)"
    using s1(5) Cons.prems(3,4,6) out by (auto simp: int_frame_def awaits_int_def)
  from Cons.IH[OF s1(3,2) pre(1,2) n(2) pre(3)] obtain s' f' where
    s': "unhold_loop n' m hnd u s1 = Inr s'" "ipc_inv s' f' qs cq" "held_rep s' []"
      "\<forall>p\<in>set (u # ts). int_done s1 p s'" "int_frame (set (u # ts)) s1 s'" by blast
  have "held_head s1 = Some u" using s1(3) by (simp add: held_rep_def)
  moreover have "int_done s p s'" if "p \<in> set (u # ts)" for p
    using s'(4) that int_done_frame[OF s1(5), of p] out by auto
  moreover have "int_done s t s'" using int_frame_done[OF s'(5) out s1(4)] .
  moreover have "int_frame (set (t # u # ts)) s s'" using int_frame_trans[OF s1(5) s'(5)] by (simp add: insert_commute)
  ultimately show ?case using s1(1) s' by auto
qed

text \<open>An idle system: every process is runnable, nobody sends.\<close>

definition ipc0 :: kstate where
  "ipc0 = kstate0\<lparr>procs := \<lambda>_. proc0\<lparr>p_stguard := STACK_GUARD, p_map := \<lambda>_. \<lparr>mem_vir = 0, mem_phys = 0, mem_len = 100\<rparr>\<rparr>\<rparr>"

lemma ipc0_inv: "ipc_inv ipc0 (\<lambda>_. []) (\<lambda>_. []) (\<lambda>_. [])"
proof -
  have "minix_ok ipc0 (\<lambda>_. [])" by (simp add: minix_ok_def minix_inv_def rq_rep_def ipc0_def zero_defs)
  moreover have "rdyQ_inv ipc0 (\<lambda>_. [])" using plist0_rep by (simp add: rdyQ_inv_def ipc0_def kstate0_def)
  moreover have g: "send_graph ipc0 = {}" by (simp add: send_graph_def ipc0_def proc0_def)
  have "callers_inv ipc0 (\<lambda>_. [])" unfolding callers_inv_def g by (simp add: ipc0_def proc0_def acyclic_def)
  ultimately show ?thesis by (simp add: ipc_inv_def base_inv_def ipc0_def)
qed

lemma ipc0_flags [simp]: "p_flags (procs ipc0 p) = 0"
  by (simp add: ipc0_def proc0_def)

lemma ipc0_free:
  "may_send 5 0 ipc0" "\<not> message_outside (procs ipc0 p) 64" "\<not> waits_for ipc0 d c" "(d, c) \<notin> (send_graph ipc0)\<^sup>+"
  by (simp_all add: may_send_def issysmrt_def TEST_BIT_def message_outside_def ipc0_def proc0_def waits_for_def not_sending_no_path)

subsection \<open>Message passing is correct\<close>

text \<open>
  C3. \<open>mini_send\<close> to another process of the table, of a caller that is not blocked sending, returns, and its return code and
  effect are these. It refuses a dead
  destination, or one that a user process may not use, with \<open>E_BAD_DEST\<close>, a message outside the memory
  of the sender with \<open>EFAULT\<close>, and a message that would close a cycle of processes waiting to send to
  each other with \<open>ELOCKED\<close>, and then changes nothing. Otherwise, if the destination waits for the
  message, it is copied, with the number of the sender in it, and the destination becomes runnable
  unless something else blocks it; if not, the sender leaves its run queue and joins the end of the
  queue of the destination. The invariant of message passing is kept: the queues of senders hold exactly the
  processes blocked on them, and there is no circular wait.
\<close>

theorem mini_send_correct:
  assumes "ipc_inv s f qs cq" and "isokprocn c" and "\<not> TEST_BIT (p_flags (procs s c)) SENDING" and "isokprocn d" and "c \<noteq> d"
  shows "\<exists>r s'. mini_send c d m s = Inr (r, s') \<and> send_effect c d m f qs cq s r s'"
  by (rule mini_send_spec[OF assms])

theorem mini_send_correct_witness:
  "\<exists>s'. mini_send 5 0 64 ipc0 = Inr (OK, s') \<and> ipc_inv s' (\<lambda>_. []) (\<lambda>_. []) ((\<lambda>_. [])(0 := [5]))"
  using mini_send_correct[OF ipc0_inv, of 5 0 64] ipc0_free by (auto simp: send_effect_def isokprocn_def fun_upd_idem)

text \<open>
  C5. \<open>mini_rec\<close> of a caller that is not blocked sending returns \<open>OK\<close>, unless the memory manager receives from \<open>ANY\<close> while
  signals are pending, which is left to \<open>inform_reports\<close>. It takes the message of the sender that has waited longest among the
  acceptable ones, copies it with the number of its sender, and the sender leaves the queue and
  becomes runnable unless something else blocks it. Without such a sender it reports a pending
  interrupt if the caller accepts one, and otherwise the caller leaves its run queue and waits.
\<close>

theorem mini_rec_correct:
  assumes "ipc_inv s f qs cq" and "isokprocn c" and "\<not> TEST_BIT (p_flags (procs s c)) SENDING"
    and "sig_procs s \<le> 0 \<or> c \<noteq> MM_PROC_NR \<or> src \<noteq> ANY"
  shows "\<exists>s'. mini_rec c src m s = Inr (OK, s') \<and> rec_effect c src m f qs cq s s'"
  by (rule mini_rec_spec[OF assms])

theorem mini_rec_correct_witness:
  "\<exists>s'. mini_rec 0 5 64 ipc0 = Inr (OK, s') \<and> blocked_rec 0 5 64 ipc0 s'"
  using mini_rec_correct[OF ipc0_inv, of 0 5 64] by (auto simp: rec_effect_def isokprocn_def isrxhardware_def)

text \<open>
  C6. A message is not lost while its sender waits: when \<open>c\<close> sends to \<open>d\<close>, which is not waiting
  for it, and \<open>d\<close> later receives from \<open>c\<close>, the buffer of \<open>d\<close> holds the message of \<open>c\<close> with the
  number of \<open>c\<close> as its source, no other message has changed, and \<open>c\<close> is no longer blocked.
\<close>

theorem send_receive_roundtrip:
  assumes inv: "ipc_inv s f qs cq" and c: "isokprocn c" "\<not> TEST_BIT (p_flags (procs s c)) SENDING"
    and d: "isokprocn d" "\<not> TEST_BIT (p_flags (procs s d)) SENDING" and ne: "c \<noteq> d"
    and ok: "may_send c d s" "\<not> message_outside (procs s c) m" "\<not> waits_for s d c"
  shows "\<exists>s1 s2. mini_send c d m s = Inr (OK, s1) \<and> TEST_BIT (p_flags (procs s1 c)) SENDING
     \<and> mini_rec d c m' s1 = Inr (OK, s2) \<and> \<not> TEST_BIT (p_flags (procs s2 c)) SENDING \<and> delivered c m d m' s s2"
proof -
  have np: "(d, c) \<notin> (send_graph s)\<^sup>+" using not_sending_no_path d(2) .
  from mini_send_spec[OF inv c d(1) ne, of m] ok np obtain s1 where
    s1: "mini_send c d m s = Inr (OK, s1)" "um s1 = um s" "p_messbuf (procs s1 c) = m" "\<forall>p. p_map (procs s1 p) = p_map (procs s p)"
      "\<forall>p. p_flags (procs s1 p) = (if p = c then p_flags (procs s c) OR SENDING else p_flags (procs s p))"
      "ipc_inv s1 (rq_remove c f) qs (cq(d := cq d @ [c]))"
    unfolding send_effect_def by auto
  have "c \<notin> set (cq d)" using inv c(2) d(1) by (auto simp: ipc_inv_def base_inv_def callers_inv_def send_graph_def)
  moreover have "c \<noteq> ANY" using c(1) by (simp add: isokprocn_def)
  ultimately have find: "List.find (accepts c) ((cq(d := cq d @ [c])) d) = Some c"
    by (auto simp: accepts_def find_append find_None_iff find_Some_iff split: option.splits)
  have "\<not> TEST_BIT (p_flags (procs s1 d)) SENDING" using s1(5) d(2) ne by simp
  from mini_rec_found[OF s1(6) d(1) this find, of m'] obtain s2 where
    "mini_rec d c m' s1 = Inr (OK, s2)" "rec_effect d c m' (rq_remove c f) qs (cq(d := cq d @ [c])) s1 s2" by blast
  then show ?thesis using find s1 by (intro exI[of _ s1] exI[of _ s2]) (simp add: rec_effect_def delivered_def mess_phys_def)
qed

theorem send_receive_roundtrip_witness:
  "\<exists>s1 s2. mini_send 5 0 64 ipc0 = Inr (OK, s1) \<and> mini_rec 0 5 128 s1 = Inr (OK, s2) \<and> delivered 5 64 0 128 ipc0 s2"
  using send_receive_roundtrip[OF ipc0_inv, of 5 0 64 128] ipc0_free by (auto simp: isokprocn_def)

text \<open>
  C4. Messages between different processes lead neither to a circular wait nor to a fault. Take any sequence of calls of \<open>mini_send\<close>
  and \<open>mini_rec\<close> of running processes from a state with the invariant, in which a process sends to a process of the table
  other than itself (\<open>self_send_deadlocks\<close> and \<open>send_to_any_faults\<close> show what the kernel does otherwise) and the memory manager does
  not receive from \<open>ANY\<close> while signals are pending (see \<open>inform_reports\<close>). In every state that is reached the graph of blocked senders is
  acyclic, and every further such call returns, a receive with \<open>OK\<close>.
\<close>

theorem no_circular_wait:
  assumes "ipc_inv s0 f qs cq" and "ipc_reach s0 s"
  shows "acyclic (send_graph s)
     \<and> (\<forall>c d m. isokprocn c \<and> isokprocn d \<and> c \<noteq> d \<and> p_flags (procs s c) = 0 \<longrightarrow> (\<exists>r s'. mini_send c d m s = Inr (r, s')))
     \<and> (\<forall>c src m. isokprocn c \<and> p_flags (procs s c) = 0 \<and> (sig_procs s \<le> 0 \<or> c \<noteq> MM_PROC_NR \<or> src \<noteq> ANY) \<longrightarrow>
         (\<exists>s'. mini_rec c src m s = Inr (OK, s')))"
proof -
  from ipc_reach_inv[OF assms(2,1)] obtain f' cq' where i: "ipc_inv s f' qs cq'" by blast
  then have "acyclic (send_graph s)" by (simp add: ipc_inv_def base_inv_def callers_inv_def)
  moreover have "\<exists>r s'. mini_send c d m s = Inr (r, s')"
    if "isokprocn c" "isokprocn d" "c \<noteq> d" "p_flags (procs s c) = 0" for c d m
    using mini_send_spec[OF i that(1) _ that(2,3), of m] that(4) by auto
  moreover have "\<exists>s'. mini_rec c src m s = Inr (OK, s')"
    if "isokprocn c" "p_flags (procs s c) = 0" "sig_procs s \<le> 0 \<or> c \<noteq> MM_PROC_NR \<or> src \<noteq> ANY" for c src m
    using mini_rec_spec[OF i that(1) _ that(3), of m] that(2) by auto
  ultimately show ?thesis by blast
qed

theorem no_circular_wait_witness: "\<exists>s. ipc_reach ipc0 s \<and> (5, 0) \<in> send_graph s \<and> acyclic (send_graph s)"
proof -
  from mini_send_spec[OF ipc0_inv, of 5 0 64] ipc0_free obtain s where
    s: "mini_send 5 0 64 ipc0 = Inr (OK, s)" "ipc_inv s (\<lambda>_. []) (\<lambda>_. []) ((\<lambda>_. [])(0 := [5]))"
    by (auto simp: send_effect_def isokprocn_def fun_upd_idem)
  have r: "ipc_reach ipc0 s" by (rule ipc_send[OF ipc_start _ _ _ _ s(1)]) (simp_all add: isokprocn_def)
  moreover have "(5, 0) \<in> send_graph s"
    using s(2) callers_invD(1)[of s "(\<lambda>_. [])(0 := [5])" 0 5] by (simp add: ipc_inv_def base_inv_def isokprocn_def)
  ultimately show ?thesis using no_circular_wait[OF ipc0_inv r] by blast
qed

text \<open>
  C9. The check for deadlock does not see a process that sends to itself: the call returns \<open>OK\<close>, and the
  process is blocked sending to itself, a cycle of length one.
\<close>

theorem self_send_deadlocks:
  assumes inv: "ipc_inv s f qs cq" and c: "isokprocn c" "p_flags (procs s c) = 0" "\<not> isuserp c" "\<not> message_outside (procs s c) m"
  shows "\<exists>s'. mini_send c c m s = Inr (OK, s') \<and> (c, c) \<in> send_graph s'"
proof -
  have ca: "callers_inv s cq" using inv by (simp add: ipc_inv_def base_inv_def)
  have np: "(c, c) \<notin> (send_graph s)\<^sup>+" by (rule not_sending_no_path) (simp add: c(2))
  let ?a = "upd_proc c (p_messbuf_update (\<lambda>_. m)) s"
  have i: "ipc_inv ?a f qs cq" by (rule ipc_inv_cong[OF inv]) auto
  from block_ok[OF i, of c] c(2) obtain s1 where s1: "unready c ?a = Inr s1" "sched_view s1 = sched_view ?a" by auto
  note v = sched_viewD[OF s1(2)]
  let ?b = "upd_proc c (p_sendto_update (\<lambda>_. c)) (upd_proc c (p_flags_update (\<lambda>w. w OR SENDING)) s1)"
  have "callerq_app c c ?b = Inr (appended (cq c) c c ?b)" by (rule callerq_app_eq[OF ca c(1)]) (simp_all add: v)
  then have "mini_send c c m s = Inr (OK, appended (cq c) c c ?b)"
    unfolding mini_send_unfold[OF ca c(1)] using c np s1(1) by (simp add: may_send_def waits_for_def TEST_BIT_def)
  moreover have "(c, c) \<in> send_graph (appended (cq c) c c ?b)" using c(1) by (simp add: send_graph_def)
  ultimately show ?thesis by blast
qed

theorem self_send_deadlocks_witness: "\<exists>s'. mini_send 0 0 64 ipc0 = Inr (OK, s') \<and> (0, 0) \<in> send_graph s'"
  using self_send_deadlocks[OF ipc0_inv, of 0 64] ipc0_free by (simp add: isokprocn_def isuserp_def)

text \<open>
  The system call refuses what it must, without touching the state: a number that is no process
  with \<open>E_BAD_SRC\<close>, anything but \<open>BOTH\<close> from a user process with \<open>E_NO_PERM\<close>, and a message of a
  user process to anybody but the file system, the memory manager and the real-time task with \<open>E_BAD_DEST\<close>.
\<close>

lemma sys_call_rejects:
  "(\<not> isoksrc_dest x \<longrightarrow> sys_call fnc x m s = Inr (E_BAD_SRC, s))
   \<and> (isoksrc_dest x \<and> isuserp (proc_ptr s) \<and> fnc \<noteq> F_BOTH \<longrightarrow> sys_call fnc x m s = Inr (E_NO_PERM, s))
   \<and> (isoksrc_dest x \<and> isuserp (proc_ptr s) \<and> x \<notin> {FS_PROC_NR, MM_PROC_NR, MRTTASK} \<longrightarrow>
        sys_call F_BOTH x m s = Inr (E_BAD_DEST, s))"
  by (simp add: sys_call_def mini_send_def issysmrt_def)

text \<open>
  \<open>sys_call\<close> accepts \<open>ANY\<close> as the destination of a message, although only a receiver may use it: when a
  task or a server sends to \<open>ANY\<close>, the kernel addresses the process table outside its bounds.
\<close>

lemma send_to_any_faults:
  assumes "\<not> isuserp (proc_ptr s)"
  shows "sys_call F_SEND ANY m s = Inl OutOfBounds"
  using assms by (simp add: sys_call_def isoksrc_dest_def mini_send_def proc_addr_def isokprocn_def)

text \<open>
  C8. When the memory manager waits for a message, \<open>inform\<close> tells it about the first process with a pending
  signal: the buffer of the memory manager holds a \<open>KSIG\<close> message from the hardware with the number
  of that process and its set of signals, the process has nothing pending any more, the count of such
  processes is one less, and the invariant of message passing is kept.
\<close>

theorem inform_reports:
  assumes "ipc_inv s f qs cq" and "waits_for s MM_PROC_NR HARDWARE" and "\<not> TEST_BIT (p_flags (procs s MM_PROC_NR)) P_SLOT_FREE"
    and "\<not> message_outside (procs s HARDWARE) (m_addr s)" and "first_pending s = Some rp"
  shows "\<exists>s' f'. inform s = Inr s' \<and> ipc_inv s' f' qs cq \<and> sig_procs s' = sig_procs s - 1
     \<and> p_pending (procs s' rp) = 0 \<and> \<not> TEST_BIT (p_flags (procs s' rp)) PENDING
     \<and> (let x = um_message (um s') (mess_phys s MM_PROC_NR (p_messbuf (procs s MM_PROC_NR)))
        in m_source x = HARDWARE \<and> m_type x = KSIG \<and> m_u x 0 = word_of_int rp \<and> m_u x 3 = p_pending (procs s rp))"
  by (rule inform_spec[OF assms])

theorem inform_reports_witness:
  "\<exists>s s'. first_pending s = Some 5 \<and> inform s = Inr s' \<and> m_type (um_message (um s') 128) = KSIG
     \<and> m_u (um_message (um s') 128) 3 = 4 \<and> p_pending (procs s' 5) = 0"
proof -
  let ?s = "upd_proc 5 (\<lambda>p. p\<lparr>p_flags := PENDING, p_pending := 4\<rparr>)
      (upd_proc MM_PROC_NR (\<lambda>p. p\<lparr>p_flags := RECEIVING, p_getfrom := ANY, p_messbuf := 128\<rparr>) (ipc0\<lparr>m_addr := 64\<rparr>))"
  have b: "base_inv ipc0 (\<lambda>_. []) (\<lambda>_. [])" "minix_ok ipc0 (\<lambda>_. [])" "callers_inv ipc0 (\<lambda>_. [])"
    using ipc0_inv by (simp_all add: ipc_inv_def base_inv_def)
  have "callers_inv ?s (\<lambda>_. [])" using b(3) callers_inv_cong[of ?s ipc0] by (simp add: TEST_BIT_def)
  from base_inv_cong[OF b(1) this] have i: "ipc_inv ?s (\<lambda>_. []) (\<lambda>_. []) (\<lambda>_. [])"
    using b(2) minix_ok_cong[of ?s ipc0] by (simp add: ipc_inv_def)
  have p: "first_pending ?s = Some 5" by (simp add: first_pending_def upto_rec1 TEST_BIT_def)
  have "waits_for ?s MM_PROC_NR HARDWARE" "\<not> TEST_BIT (p_flags (procs ?s MM_PROC_NR)) P_SLOT_FREE"
    "\<not> message_outside (procs ?s HARDWARE) (m_addr ?s)" "mess_phys ?s MM_PROC_NR (p_messbuf (procs ?s MM_PROC_NR)) = 128"
    using ipc0_free(2)[of HARDWARE] by (simp_all add: waits_for_def TEST_BIT_def mess_phys_def ipc0_def)
  from inform_reports[OF i this(1-3) p] this(4) p show ?thesis by - (rule exI[of _ ?s], auto simp: Let_def)
qed

text \<open>
  C7. An interrupt for a task \<open>t\<close> is not lost, in a state with the invariant of message passing. (1) If it competes,
  which means that \<open>k_reenter\<close> is not 0 or the kernel is switching, the task joins the end of the queue of held interrupts,
  unless it is there already; this is stated for a state in which \<open>unlock\<close> has no deferred interrupt to serve. (2) If not, and the
  task waits for a message that may come from the hardware and nothing else blocks it, it gets a \<open>HARD_INT\<close> message and becomes
  runnable at the end of the queue of the tasks. (3) In every other case, also when the task is blocked sending,
  the interrupt is remembered. It stays remembered over every sequence of message calls (as in \<open>no_circular_wait\<close>) in which the task
  does not take it, and when the task, running, receives with a source that includes the hardware and no acceptable sender
  waits, \<open>mini_rec\<close> returns at once with the \<open>HARD_INT\<close> message and forgets the interrupt. A receive that finds an acceptable
  sender takes the message of this sender and leaves the interrupt remembered.
\<close>

theorem interrupt_not_lost:
  assumes inv: "ipc_inv s f qs cq" and t: "istaskp t" "isokprocn t"
  shows "(competing s \<and> held_rep s ts \<and> no_minix_irq n s \<longrightarrow>
       (\<exists>s'. interrupt n hnd t s = Inr s' \<and> held_rep s' (if t \<in> set ts then ts else ts @ [t]) \<and> ipc_inv s' f qs cq))
     \<and> (\<not> competing s \<and> awaits_int s t \<and> p_flags (procs s t) = RECEIVING \<longrightarrow>
       (\<exists>s'. interrupt n hnd t s = Inr s' \<and> hard_int_at (p_messbuf (procs s t)) s' \<and> p_flags (procs s' t) = 0
          \<and> ipc_inv s' (f(TASK_Q := f TASK_Q @ [t])) qs cq))
     \<and> (\<not> competing s \<and> \<not> awaits_int s t \<longrightarrow>
       (\<exists>s1. interrupt n hnd t s = Inr s1 \<and> ipc_inv s1 f qs cq \<and> (\<forall>s2. pend_reach t s1 s2 \<longrightarrow> p_int_blocked (procs s2 t)
          \<and> (\<forall>src m. p_flags (procs s2 t) = 0 \<and> takes_int t src s2 \<longrightarrow>
              (\<exists>s3. mini_rec t src m s2 = Inr (OK, s3) \<and> hard_int_at m s3 \<and> p_flags (procs s3 t) = 0 \<and> \<not> p_int_blocked (procs s3 t))))))"
proof (intro conjI impI)
  assume "competing s \<and> held_rep s ts \<and> no_minix_irq n s"
  then show "\<exists>s'. interrupt n hnd t s = Inr s' \<and> held_rep s' (if t \<in> set ts then ts else ts @ [t]) \<and> ipc_inv s' f qs cq"
    using interrupt_held[OF inv t(2)] by blast
next
  assume "\<not> competing s \<and> awaits_int s t \<and> p_flags (procs s t) = RECEIVING"
  then show "\<exists>s'. interrupt n hnd t s = Inr s' \<and> hard_int_at (p_messbuf (procs s t)) s' \<and> p_flags (procs s' t) = 0
      \<and> ipc_inv s' (f(TASK_Q := f TASK_Q @ [t])) qs cq"
    using interrupt_waiting[OF inv t, of n hnd] by (auto simp: awaits_int_def)
next
  assume a: "\<not> competing s \<and> \<not> awaits_int s t"
  let ?s1 = "upd_proc t (p_int_blocked_update (\<lambda>_. True)) s"
  have i: "ipc_inv ?s1 f qs cq" by (rule ipc_inv_cong[OF inv]) auto
  have b: "p_int_blocked (procs ?s1 t)" by simp
  show "\<exists>s1. interrupt n hnd t s = Inr s1 \<and> ipc_inv s1 f qs cq \<and> (\<forall>s2. pend_reach t s1 s2 \<longrightarrow> p_int_blocked (procs s2 t)
      \<and> (\<forall>src m. p_flags (procs s2 t) = 0 \<and> takes_int t src s2 \<longrightarrow>
          (\<exists>s3. mini_rec t src m s2 = Inr (OK, s3) \<and> hard_int_at m s3 \<and> p_flags (procs s3 t) = 0 \<and> \<not> p_int_blocked (procs s3 t))))"
    using interrupt_pending[OF t(2)] a i interrupt_reported[OF i b _ t(2)] pend_reach_int[OF _ i, of t] b by blast
qed

theorem interrupt_not_lost_witness:
  "\<forall>hnd. \<exists>s1 s2. interrupt 1 hnd (- 3) ipc0 = Inr s1 \<and> mini_rec (- 3) HARDWARE 64 s1 = Inr (OK, s2) \<and> hard_int_at 64 s2"
proof
  fix hnd
  have "\<not> competing ipc0 \<and> \<not> awaits_int ipc0 (- 3)" by (simp add: ipc0_def kstate0_def proc0_def awaits_int_def)
  with interrupt_not_lost[OF ipc0_inv, of "- 3" "[]" 1 hnd] obtain s1 where
    s1: "interrupt 1 hnd (- 3) ipc0 = Inr s1" "\<forall>s2. pend_reach (- 3) s1 s2 \<longrightarrow> p_int_blocked (procs s2 (- 3))
      \<and> (\<forall>src m. p_flags (procs s2 (- 3)) = 0 \<and> takes_int (- 3) src s2 \<longrightarrow> (\<exists>s3. mini_rec (- 3) src m s2 = Inr (OK, s3)
        \<and> hard_int_at m s3 \<and> p_flags (procs s3 (- 3)) = 0 \<and> \<not> p_int_blocked (procs s3 (- 3))))"
    by (auto simp: istaskp_def isokprocn_def)
  note rep = conjunct2[OF mp[OF spec[OF s1(2), of s1] pend_start]]
  have "s1 = upd_proc (- 3) (p_int_blocked_update (\<lambda>_. True)) ipc0"
    using s1(1) interrupt_pending[of "- 3" ipc0 1 hnd] by (simp add: isokprocn_def ipc0_def kstate0_def proc0_def awaits_int_def)
  then have "p_flags (procs s1 (- 3)) = 0 \<and> takes_int (- 3) HARDWARE s1"
    by (simp add: takes_int_def isrxhardware_def send_graph_def)
  with s1(1) rep show "\<exists>s1 s2. interrupt 1 hnd (- 3) ipc0 = Inr s1 \<and> mini_rec (- 3) HARDWARE 64 s1 = Inr (OK, s2) \<and> hard_int_at 64 s2"
    by blast
qed



end
