(* ===== verification/Mailbox.thy ===== *)
theory Mailbox
  imports Proc
begin

text \<open>
  The real-time messages of \<^verbatim>\<open>src/src/kernel/mrtmsg.c\<close> and \<^verbatim>\<open>mrtproc.c\<close> as the processes see them: a message
  queue together with the pool of message entries as one invariant (\<open>mbox\<close>) that every step of a
  call keeps, the round trip of an asynchronous request, and what becomes of the messages of a process that
  leaves real time.
\<close>

subsection \<open>A mailbox and the pool of entries\<close>

text \<open>
  The queue \<open>q\<close> holds the entries \<open>qs\<close>, by level and in order, the pool has the entries \<open>es\<close>, and
  no entry is in both.
\<close>

definition mbox :: "kstate \<Rightarrow> nat \<Rightarrow> (nat \<Rightarrow> nat list) \<Rightarrow> nat list \<Rightarrow> bool" where
  "mbox s q qs es \<longleftrightarrow> pl_rep (links s) (mq_plist (MSGQ s q)) (\<lambda>p. map LMqe (qs p)) \<and> mqe_pool s es
     \<and> set es \<inter> members qs = {} \<and> members qs \<union> set es \<subseteq> {..<NR_MESSAGES}
     \<and> (\<forall>l. \<forall>e\<in>set (qs l). mqe_level s q e = l)"

lemma members_LMqe: "members (\<lambda>p. map LMqe (qs p)) = LMqe ` members qs"
  by (auto simp: members_def)

lemma mq_map_upd: "(\<lambda>p. map LMqe ((qs(l := xs)) p)) = (\<lambda>p. map LMqe (qs p))(l := map LMqe xs)"
  by auto

lemma map_remove1_LMqe: "map LMqe (remove1 x xs) = remove1 (LMqe x) (map LMqe xs)"
  by (induction xs) auto

lemma mbox_cong:
  assumes "mbox s q qs es" and "links s' = links s" "mqeL (sm s') = mqeL (sm s)"
    and "mq_plist (MSGQ s' q) = mq_plist (MSGQ s q)" "mq_flags (MSGQ s' q) = mq_flags (MSGQ s q)"
    and "\<And>e. e \<in> members qs \<Longrightarrow> mh_priority (me_hdr (MQE s' e)) = mh_priority (me_hdr (MQE s e))"
  shows "mbox s' q qs es"
proof -
  have "mqe_level s' q e = l" if "e \<in> set (qs l)" for l e
  proof -
    have "e \<in> members qs" using that set_members[of qs l] by blast
    then have "mqe_level s' q e = mqe_level s q e" using assms(5,6) by (simp add: mqe_level_def)
    then show ?thesis using that assms(1) by (simp add: mbox_def)
  qed
  then show ?thesis using assms(1-4) by (simp add: mbox_def mqe_pool_def)
qed

lemma mbox_mq_rep:
  assumes "mbox s q qs es"
  shows "mq_rep s q qs"
proof -
  have rep: "pl_rep (links s) (mq_plist (MSGQ s q)) (\<lambda>p. map LMqe (qs p))" using assms by (simp add: mbox_def)
  have "length (qs p) \<le> NR_MESSAGES" for p
  proof -
    have "distinct (map LMqe (qs p))" using pl_rep_distinct[OF rep, of p] by simp
    then have "length (qs p) = card (set (qs p))" by (simp add: distinct_map distinct_card)
    also have "\<dots> \<le> card {..<NR_MESSAGES}"
      using assms set_members[of qs p] by (intro card_mono) (auto simp: mbox_def)
    finally show ?thesis by simp
  qed
  then show ?thesis using assms by (simp add: mbox_def mq_rep_def mqe_pool_def)
qed

lemma mbox_alloc:
  assumes M: "mbox s q qs (e # es)"
  shows "\<exists>h l. MRT_mqe_alloc s = Inr (Some e, sm_update (mqeL_update (\<lambda>_. l)) (s\<lparr>links := h\<rparr>))
    \<and> mbox (sm_update (mqeL_update (\<lambda>_. l)) (s\<lparr>links := h\<rparr>)) q qs es \<and> e \<notin> members qs \<union> set es \<and> e < NR_MESSAGES"
proof -
  have pool: "mqe_pool s (e # es)" and dis: "set (e # es) \<inter> members qs = {}" using M by (simp_all add: mbox_def)
  obtain h l where hl: "MRT_mqe_alloc s = Inr (Some e, sm_update (mqeL_update (\<lambda>_. l)) (s\<lparr>links := h\<rparr>))"
    "mqe_pool (sm_update (mqeL_update (\<lambda>_. l)) (s\<lparr>links := h\<rparr>)) es" "heap_frame (LMqe ` set (e # es)) (links s) h"
    using MRT_mqe_alloc_Cons[OF pool] by blast
  have "pl_rep h (mq_plist (MSGQ s q)) (\<lambda>p. map LMqe (qs p))"
    using M by (intro pl_rep_frame[OF _ hl(3)]) (use dis in \<open>auto simp: mbox_def members_LMqe\<close>)
  moreover have "distinct (e # es)" using pool by (auto simp: mqe_pool_def dest!: dll_distinct simp: distinct_map)
  moreover have "mqe_level (sm_update (mqeL_update (\<lambda>_. l)) (s\<lparr>links := h\<rparr>)) q x = mqe_level s q x" for x by (simp add: mqe_level_def)
  ultimately show ?thesis using hl M by (intro exI[of _ h] exI[of _ l]) (auto simp: mbox_def)
qed

lemma mbox_app:
  assumes M: "mbox s q qs es" and e: "e \<notin> members qs \<union> set es" "e < NR_MESSAGES"
    and room: "pl_inQ (mq_plist (MSGQ s q)) \<noteq> mq_size (MSGQ s q)" and l: "l = mqe_level s q e" "l < MRT_NR_PRTY"
  shows "\<exists>h X. MRT_mqe_app q e s = ret OK (upd_msgQ q (mq_enqueued_update (\<lambda>n. n + 1)) (upd_msgQ q (mq_plist_update (\<lambda>_. X)) (s\<lparr>links := h\<rparr>)))
    \<and> mbox (upd_msgQ q (mq_enqueued_update (\<lambda>n. n + 1)) (upd_msgQ q (mq_plist_update (\<lambda>_. X)) (s\<lparr>links := h\<rparr>))) q
        (qs(l := qs l @ [e])) es"
proof -
  have rep: "pl_rep (links s) (mq_plist (MSGQ s q)) (\<lambda>p. map LMqe (qs p))" and pool: "mqe_pool s es" using M by (simp_all add: mbox_def)
  have "LMqe e \<notin> members (\<lambda>p. map LMqe (qs p))" using e(1) by (auto simp: members_LMqe)
  from MRT_plist_app_ok[OF rep l(2) this] obtain h X where
    hX: "MRT_plist_app (links s) (mq_plist (MSGQ s q)) (LMqe e) l = Inr (h, X)"
      "pl_rep h X ((\<lambda>p. map LMqe (qs p))(l := map LMqe (qs l) @ [LMqe e]))"
      "heap_frame (insert (LMqe e) (set (map LMqe (qs l)))) (links s) h" by blast
  have "set (map LMqe es) \<inter> insert (LMqe e) (set (map LMqe (qs l))) = {}"
    using M e(1) set_members[of qs l] by (auto simp: mbox_def)
  then have d: "dll h (mqeL (sm s)) (map LMqe es)" using pool dll_frame[OF _ hX(3)] by (auto simp: mqe_pool_def)
  have wf: "wf_links h" using pool wf_links_frame[OF hX(3)] by (simp add: mqe_pool_def)
  define s' where "s' = upd_msgQ q (mq_enqueued_update (\<lambda>n. n + 1)) (upd_msgQ q (mq_plist_update (\<lambda>_. X)) (s\<lparr>links := h\<rparr>))"
  have F: "links s' = h" "mqeL (sm s') = mqeL (sm s)" "mq_plist (MSGQ s' q) = X" "mqe_level s' q x = mqe_level s q x" for x
    by (simp_all add: s'_def mqe_level_def)
  have lv: "mqe_level s q x = r" if "x \<in> set ((qs(l := qs l @ [e])) r)" for x r
    using that M l(1) by (cases "r = l") (auto simp: mbox_def)
  have "mbox s' q (qs(l := qs l @ [e])) es"
    using M e hX(2) d wf lv unfolding mbox_def mqe_pool_def F mq_map_upd members_app by auto
  moreover have "MRT_mqe_app q e s = ret OK s'"
    using room hX(1) l(1) by (simp add: MRT_mqe_app_def with_mq_plist_def s'_def)
  ultimately show ?thesis unfolding s'_def by blast
qed

lemma mbox_rmv:
  assumes M: "mbox s q qs es" and e: "e \<in> set (qs l)"
  shows "\<exists>h X. MRT_mqe_rmv q e s = Inr (upd_msgQ q (mq_delivered_update (\<lambda>n. n + 1)) (upd_msgQ q (mq_plist_update (\<lambda>_. X)) (s\<lparr>links := h\<rparr>)))
    \<and> mbox (upd_msgQ q (mq_delivered_update (\<lambda>n. n + 1)) (upd_msgQ q (mq_plist_update (\<lambda>_. X)) (s\<lparr>links := h\<rparr>))) q
        (qs(l := remove1 e (qs l))) es \<and> e \<notin> members (qs(l := remove1 e (qs l))) \<union> set es"
proof -
  have rep: "pl_rep (links s) (mq_plist (MSGQ s q)) (\<lambda>p. map LMqe (qs p))" and pool: "mqe_pool s es" and lv: "mqe_level s q e = l"
    using M e by (auto simp: mbox_def)
  have e': "LMqe e \<in> set (map LMqe (qs l))" using e by simp
  from MRT_plist_rmv_ok[OF rep e'] obtain h X where
    hX: "MRT_plist_rmv (links s) (mq_plist (MSGQ s q)) (LMqe e) l = Inr (h, X)"
      "pl_rep h X ((\<lambda>p. map LMqe (qs p))(l := remove1 (LMqe e) (map LMqe (qs l))))"
      "heap_frame (set (map LMqe (qs l))) (links s) h" by blast
  have "set (map LMqe es) \<inter> set (map LMqe (qs l)) = {}" using M set_members[of qs l] by (auto simp: mbox_def)
  then have d: "dll h (mqeL (sm s)) (map LMqe es)" using pool dll_frame[OF _ hX(3)] by (auto simp: mqe_pool_def)
  have wf: "wf_links h" using pool wf_links_frame[OF hX(3)] by (simp add: mqe_pool_def)
  define s' where "s' = upd_msgQ q (mq_delivered_update (\<lambda>n. n + 1)) (upd_msgQ q (mq_plist_update (\<lambda>_. X)) (s\<lparr>links := h\<rparr>))"
  have F: "links s' = h" "mqeL (sm s') = mqeL (sm s)" "mq_plist (MSGQ s' q) = X" "mqe_level s' q x = mqe_level s q x" for x
    by (simp_all add: s'_def mqe_level_def)
  have lv': "mqe_level s q x = r" if "x \<in> set ((qs(l := remove1 e (qs l))) r)" for x r
    using that M set_remove1_subset[of e "qs l"] by (cases "r = l") (auto simp: mbox_def)
  have sub: "members (qs(l := remove1 e (qs l))) \<subseteq> members qs" by (rule members_remove_sub)
  have gone: "e \<notin> members (qs(l := remove1 e (qs l)))"
    using rmv_not_member[OF rep e'] members_LMqe[of "qs(l := remove1 e (qs l))"] unfolding mq_map_upd map_remove1_LMqe by auto
  have "mbox s' q (qs(l := remove1 e (qs l))) es"
    using M hX(2) d wf lv' sub unfolding mbox_def mqe_pool_def F mq_map_upd map_remove1_LMqe by blast
  moreover have "MRT_mqe_rmv q e s = Inr s'"
    using hX(1) lv by (simp add: MRT_mqe_rmv_def with_mq_plist_def s'_def)
  moreover have "e \<notin> set es" using M e set_members[of qs l] by (auto simp: mbox_def)
  ultimately show ?thesis using gone unfolding s'_def by blast
qed

lemma mbox_free:
  assumes M: "mbox s q qs es" and e: "e \<notin> members qs \<union> set es" "e < NR_MESSAGES"
  shows "\<exists>s'. MRT_mqe_free e (MRT_mqe_rst e s) = Inr s' \<and> mbox s' q qs (es @ [e]) \<and> um s' = um s \<and> procs s' = procs s"
proof -
  define s0 where "s0 = MRT_mqe_rst e (MRT_mqe_rst e s)"
  let ?h = "MRT_link_rst (LMqe e) (OMqe e) MRT_OBJMQE (links s)"
  have F0: "links s0 = ?h" "mqeL (sm s0) = mqeL (sm s)" "MSGQ s0 = MSGQ s" "um s0 = um s" "procs s0 = procs s"
      "MQE s0 x = (if x = e then MQE s0 e else MQE s x)" for x
    by (simp_all add: s0_def MRT_mqe_rst_def Let_def MRT_link_rst_def)
  have pool: "mqe_pool s es" and rep: "pl_rep (links s) (mq_plist (MSGQ s q)) (\<lambda>p. map LMqe (qs p))" using M by (simp_all add: mbox_def)
  have wf: "wf_links ?h" using pool by (intro wf_links_rst) (auto simp: mqe_pool_def wf_links_mqe)
  have "dll ?h (mqeL (sm s)) (map LMqe es)" using pool e(1) by (auto simp: mqe_pool_def intro: dll_rst_other)
  from MRT_list_app_ok[OF this, of "LMqe e"] e(1) obtain h l where
    hl: "MRT_list_app ?h (mqeL (sm s)) (LMqe e) = Inr (h, l)" "dll h l (map LMqe es @ [LMqe e])"
      "heap_frame (insert (LMqe e) (set (map LMqe es))) ?h h" by auto
  define s' where "s' = sm_update (mqeL_update (\<lambda>_. l)) (s0\<lparr>links := h\<rparr>)"
  have run: "MRT_mqe_free e (MRT_mqe_rst e s) = Inr s'"
    using hl(1) by (simp add: MRT_mqe_free_def with_mqeL_def s0_def[symmetric] F0 s'_def)
  have "h k = links s k" if "k \<in> members (\<lambda>p. map LMqe (qs p))" for k
  proof -
    have "k \<notin> insert (LMqe e) (set (map LMqe es))" using that M e(1) by (auto simp: mbox_def members_LMqe)
    then show ?thesis using hl(3) by (auto simp: heap_frame_def MRT_link_rst_def)
  qed
  then have rep': "pl_rep h (mq_plist (MSGQ s q)) (\<lambda>p. map LMqe (qs p))" by (rule pl_rep_cong[OF _ rep])
  have lv: "mqe_level s' q x = r" if "x \<in> set (qs r)" for x r
  proof -
    have "x \<noteq> e" using that e(1) set_members[of qs r] by auto
    then have "mqe_level s' q x = mqe_level s q x" using F0(6)[of x] by (simp add: mqe_level_def s'_def F0)
    then show ?thesis using that M by (simp add: mbox_def)
  qed
  have "mqe_pool s' (es @ [e])" using hl(2) wf wf_links_frame[OF hl(3)] by (simp add: mqe_pool_def s'_def)
  then have "mbox s' q qs (es @ [e])" using M e lv rep' by (auto simp: mbox_def s'_def F0)
  then show ?thesis using run by (auto simp: s'_def F0)
qed

subsection \<open>Sending without waiting, and receiving\<close>

lemma numap_cong: "p_map (procs s' n) = p_map (procs s n) \<Longrightarrow> numap s' n a b = numap s n a b"
  by (simp add: numap_def umap_def)

text \<open>The destination of the asynchronous request \<open>ipc\<close> accepts it into its queue \<open>q\<close>, and the message maps.\<close>

definition arqst_ok :: "mrt_ipc_t \<Rightarrow> nat \<Rightarrow> kstate \<Rightarrow> bool" where
  "arqst_ok ipc q s = (let d = ipc_p_nr ipc in
     isokprocn d \<and> MRT_is_process (procs s d) \<and> p_pid (procs s d) = ipc_pid ipc \<and> MRT_is_realtime (procs s d)
     \<and> pmq (procs s d) = Some q \<and> pl_inQ (mq_plist (MSGQ s q)) \<noteq> mq_size (MSGQ s q) \<and> \<not> is_waiting d s
     \<and> \<not> TEST_BIT (mq_flags (MSGQ s q)) MQ_PRTYINHERIT \<and> prio s (proc_ptr s) < MRT_NR_PRTY
     \<and> numap s (proc_ptr s) (ipc_msg ipc) sizeof_msg \<noteq> 0)"

lemma arqst_enqueues:
  assumes M: "mbox s q qs (e # es)" and ok: "arqst_ok ipc q s" and me: "me = proc_ptr s" and d: "d = ipc_p_nr ipc"
    and l: "l = (if TEST_BIT (mq_flags (MSGQ s q)) MQ_PRTYORDER then prio s me else 0)"
  shows "\<exists>s1. rtk_arqst ipc s = ret OK s1 \<and> mbox s1 q (qs(l := qs l @ [e])) es
    \<and> me_m_u (MQE s1 e) = um_msg (um s) (numap s me (ipc_msg ipc) sizeof_msg)
    \<and> mh_src (me_hdr (MQE s1 e)) = \<lparr>pid_pid = p_pid (procs s me), pid_p_nr = me\<rparr>
    \<and> mh_dst (me_hdr (MQE s1 e)) = \<lparr>pid_pid = p_pid (procs s d), pid_p_nr = d\<rparr>
    \<and> mh_mtype (me_hdr (MQE s1 e)) = MT_AREQUEST \<and> mh_priority (me_hdr (MQE s1 e)) = rt_priority (rt (procs s me))
    \<and> mh_deadline (me_hdr (MQE s1 e)) = rt_deadline (rt (procs s me))
    \<and> (\<forall>x. x \<noteq> e \<longrightarrow> MQE s1 x = MQE s x) \<and> um s1 = um s
    \<and> procs s1 = (procs s)(me := st_update (st_msgsent_update (\<lambda>n. n + 1)) (procs s me))"
proof -
  note O = ok[unfolded arqst_ok_def Let_def d[symmetric] me[symmetric]]
  obtain h0 l0 where al: "MRT_mqe_alloc s = Inr (Some e, sm_update (mqeL_update (\<lambda>_. l0)) (s\<lparr>links := h0\<rparr>))"
    "mbox (sm_update (mqeL_update (\<lambda>_. l0)) (s\<lparr>links := h0\<rparr>)) q qs es" "e \<notin> members qs \<union> set es" "e < NR_MESSAGES"
    using mbox_alloc[OF M] by blast
  define sa where "sa = sm_update (mqeL_update (\<lambda>_. l0)) (s\<lparr>links := h0\<rparr>)"
  have Fa: "MQE sa = MQE s" "MSGQ sa = MSGQ s" "procs sa = procs s" "um sa = um s" "proc_ptr sa = me" by (simp_all add: sa_def me)
  let ?f = "fill_hdr (proc_ptr sa) d MT_AREQUEST (rt_priority (rt (procs s me))) (rt_deadline (rt (procs s me))) (me_hdr (MQE sa e)) sa"
  define h1 where "h1 = fst ?f"
  define sb where "sb = snd ?f"
  have fh: "?f = (h1, sb)" by (simp add: h1_def sb_def)
  have Fb: "mh_src h1 = \<lparr>pid_pid = p_pid (procs s me), pid_p_nr = me\<rparr>" "mh_dst h1 = \<lparr>pid_pid = p_pid (procs s d), pid_p_nr = d\<rparr>"
      "mh_mtype h1 = MT_AREQUEST" "mh_priority h1 = rt_priority (rt (procs s me))" "mh_deadline h1 = rt_deadline (rt (procs s me))"
      "links sb = links sa" "sm sb = sm sa" "um sb = um s" "procs sb = (procs s)(me := st_update (st_msgsent_update (\<lambda>n. n + 1)) (procs s me))"
      "proc_ptr sb = me"
    by (simp_all add: h1_def sb_def fill_hdr_def Let_def Fa)
  define u where "u = um_msg (um s) (numap s me (ipc_msg ipc) sizeof_msg)"
  define sc where "sc = upd_mqe e (me_m_u_update (\<lambda>_. u)) (upd_mqe e (me_hdr_update (\<lambda>_. h1)) sb)"
  have Fc: "links sc = links sa" "mqeL (sm sc) = mqeL (sm sa)" "MSGQ sc = MSGQ s" "x \<noteq> e \<Longrightarrow> MQE sc x = MQE s x"
      "me_hdr (MQE sc e) = h1" "me_m_u (MQE sc e) = u" "um sc = um s" "procs sc = procs sb" for x
    using Fa Fb by (simp_all add: sc_def)
  have "MQE sc x = MQE s x" if "x \<in> members qs" for x using that al(3) by (intro Fc(4)) auto
  then have Mc: "mbox sc q qs es"
    by (intro mbox_cong[OF al(2)[folded sa_def]]) (simp_all add: Fa Fc)
  have lv: "l = mqe_level sc q e" "l < MRT_NR_PRTY" using l O Fb by (auto simp: mqe_level_def Fc MRT_NR_PRTY_def)
  have "pl_inQ (mq_plist (MSGQ sc q)) \<noteq> mq_size (MSGQ sc q)" using O Fc by simp
  from mbox_app[OF Mc al(3,4) this lv] obtain h X where
    ap: "MRT_mqe_app q e sc = ret OK (upd_msgQ q (mq_enqueued_update (\<lambda>n. n + 1)) (upd_msgQ q (mq_plist_update (\<lambda>_. X)) (sc\<lparr>links := h\<rparr>)))"
      "mbox (upd_msgQ q (mq_enqueued_update (\<lambda>n. n + 1)) (upd_msgQ q (mq_plist_update (\<lambda>_. X)) (sc\<lparr>links := h\<rparr>))) q (qs(l := qs l @ [e])) es" by blast
  define s1 where "s1 = upd_msgQ q (mq_enqueued_update (\<lambda>n. n + 1)) (upd_msgQ q (mq_plist_update (\<lambda>_. X)) (sc\<lparr>links := h\<rparr>))"
  have F1: "MQE s1 = MQE sc" "um s1 = um s" "procs s1 = procs sb" "mq_flags (MSGQ s1 q) = mq_flags (MSGQ s q)"
    using Fc by (simp_all add: s1_def)
  have cd: "check_dest d (Some (ipc_pid ipc)) s = Inr OK" "proc_addr (ipc_p_nr ipc) = Inr d"
    using O by (simp_all add: check_dest_def proc_addr_def d)
  have cp: "USR2KRN um_msg sizeof_msg (upd_mqe e (me_hdr_update (\<lambda>_. h1)) sb) (proc_ptr (upd_mqe e (me_hdr_update (\<lambda>_. h1)) sb)) (ipc_msg ipc) = Some u"
    using O Fb numap_cong[of sb me s] numap_cong[of "upd_mqe e (me_hdr_update (\<lambda>_. h1)) sb" me s]
    by (simp add: USR2KRN_def u_def Let_def)
  have en: "enqueue q e (ipc_msg ipc) err (upd_mqe e (me_hdr_update (\<lambda>_. h1)) sb) k = k s1" for err k
    unfolding enqueue_def cp copy_or_einval_def option.case sc_def[symmetric] ap(1)[folded s1_def] by simp
  have ih: "inherit_if q p d s1 = ret OK s1" for p using O F1(4) by (simp add: inherit_if_def)
  have "rtk_arqst ipc s = ret OK s1"
    unfolding rtk_arqst_def cd bnd.simps Let_def me[symmetric]
    using O al(1)[folded sa_def] by (simp add: send_msg_def fh en ih)
  moreover have "\<forall>x. x \<noteq> e \<longrightarrow> MQE s1 x = MQE s x" using Fc(4) by (simp add: F1)
  ultimately show ?thesis using ap(2)[folded s1_def] by (simp add: F1 Fc Fb u_def)
qed

text \<open>The running process may receive from its queue \<open>q\<close> into buffers that map.\<close>

definition receive_ok :: "mrt_ipc_t \<Rightarrow> nat \<Rightarrow> kstate \<Rightarrow> bool" where
  "receive_ok ipc q s = (let me = proc_ptr s; sp = ipc_p_nr ipc in
     (sp = MRT_ANYPROC \<or> (isokprocn sp \<and> MRT_is_process (procs s sp) \<and> p_pid (procs s sp) = ipc_pid ipc))
     \<and> pmq (procs s me) = Some q \<and> numap s me (ipc_msg ipc) sizeof_msg \<noteq> 0 \<and> numap s me (ipc_hdr ipc) sizeof_mhdr \<noteq> 0)"

lemma receive_takes:
  assumes M: "mbox s q qs es" and ok: "receive_ok ipc q s" and me: "me = proc_ptr s"
    and find: "List.find (mqe_match s (ipc_p_nr ipc)) (concat (map qs [0..<MRT_NR_PRTY])) = Some e" and l: "e \<in> set (qs l)"
    and hdr: "isokprocn (pid_p_nr (mh_src (me_hdr (MQE s e))))" "mh_mtype (me_hdr (MQE s e)) \<noteq> MT_REQUEST"
      "mh_mtype (me_hdr (MQE s e)) \<noteq> MT_RQRCV"
  shows "\<exists>s'. rtk_receive ipc s = ret OK s' \<and> mbox s' q (qs(l := remove1 e (qs l))) (es @ [e])
    \<and> um_msg (um s') (numap s me (ipc_msg ipc) sizeof_msg) = me_m_u (MQE s e)
    \<and> um_hdr (um s') (numap s me (ipc_hdr ipc) sizeof_mhdr) = me_hdr (MQE s e)"
proof -
  note O = ok[unfolded receive_ok_def Let_def me[symmetric]]
  define sx where "sx = um_update (um_msg_update (\<lambda>m. m(numap s me (ipc_msg ipc) sizeof_msg := me_m_u (MQE s e)))) s"
  define sy where "sy = um_update (um_hdr_update (\<lambda>m. m(numap s me (ipc_hdr ipc) sizeof_mhdr := me_hdr (MQE s e)))) sx"
  have Fy: "links sy = links s" "sm sy = sm s" "procs sy = procs s" "proc_ptr sy = me" "sm sx = sm s"
      "um_msg (um sy) (numap s me (ipc_msg ipc) sizeof_msg) = me_m_u (MQE s e)"
      "um_hdr (um sy) (numap s me (ipc_hdr ipc) sizeof_mhdr) = me_hdr (MQE s e)"
    by (simp_all add: sy_def sx_def me)
  have c1: "KRN2USR_msg s me (ipc_msg ipc) (me_m_u (MQE s e)) = Some sx"
    using O by (simp add: KRN2USR_msg_def sx_def Let_def)
  have c2: "KRN2USR_hdr sx me (ipc_hdr ipc) (me_hdr (MQE sx e)) = Some sy"
    using O numap_cong[of sx me s "ipc_hdr ipc" sizeof_mhdr] by (simp add: KRN2USR_hdr_def sy_def Let_def sx_def)
  have pick: "MRT_mqe_pick q (ipc_p_nr ipc) s = Inr (Some e)"
    using MRT_mqe_pick_ok[OF mbox_mq_rep[OF M]] find by simp
  have "mbox sy q qs es" by (rule mbox_cong[OF M]) (simp_all add: Fy)
  from mbox_rmv[OF this l] obtain sz where
    z: "MRT_mqe_rmv q e sy = Inr sz" "mbox sz q (qs(l := remove1 e (qs l))) es" "e \<notin> members (qs(l := remove1 e (qs l))) \<union> set es"
      "um sz = um sy" "procs sz = procs s" by (auto simp: Fy)
  have "e < NR_MESSAGES" using M l set_members[of qs l] by (auto simp: mbox_def)
  from mbox_free[OF z(2,3) this] obtain sf where
    f: "MRT_mqe_free e (MRT_mqe_rst e sz) = Inr sf" "mbox sf q (qs(l := remove1 e (qs l))) (es @ [e])" "um sf = um sz" by blast
  define s' where "s' = upd_proc me (st_update (st_msgrcvd_update (\<lambda>n. n + 1))) sf"
  have cd: "(if ipc_p_nr ipc \<noteq> MRT_ANYPROC
          then bnd (proc_addr (ipc_p_nr ipc)) (\<lambda>sp.
               Inr (if \<not> MRT_is_process (procs s sp) then E_BAD_PROC
                    else if p_pid (procs s sp) \<noteq> ipc_pid ipc then E_MRT_BADPTYPE else OK))
          else Inr OK) = Inr OK" using O by (auto simp: proc_addr_def)
  have run: "rtk_receive ipc s = ret OK s'"
    unfolding rtk_receive_def cd bnd.simps Let_def me[symmetric]
    using O pick c1 c2 hdr z(1) f(1) by (simp add: copy_or_einval_def proc_addr_def Fy s'_def)
  have "mbox s' q (qs(l := remove1 e (qs l))) (es @ [e])" by (rule mbox_cong[OF f(2)]) (simp_all add: s'_def)
  then show ?thesis using run f(3) z(4) Fy(6,7) by (simp add: s'_def)
qed

lemma find_unique:
  assumes "e \<in> set xs" "P e" "\<And>x. x \<in> set xs \<Longrightarrow> P x \<Longrightarrow> x = e"
  shows "List.find P xs = Some e"
proof (cases "List.find P xs")
  case None
  then show ?thesis using assms(1,2) by (auto simp: find_None_iff)
next
  case (Some x)
  then have "x \<in> set xs" "P x" by (auto simp: find_Some_iff)
  then show ?thesis using Some assms(3) by simp
qed

text \<open>Process 5 sends to the real-time process 6, whose queue 0 is empty; entry 7 is free.\<close>

definition mail_proc :: "u32 \<Rightarrow> proc_t" where
  "mail_proc base = proc0\<lparr>p_flags := MRT_P_REALTIME, p_pid := 42, pmq := Some 0,
     p_map := (\<lambda>_. \<lparr>mem_vir = 0, mem_phys = base, mem_len = 0x10\<rparr>)\<rparr>"

definition mail_state :: "heap \<Rightarrow> list_t \<Rightarrow> kstate" where
  "mail_state h l = kstate0\<lparr>links := h, proc_ptr := 5,
     procs := (\<lambda>_. proc0)(5 := mail_proc 0x100, 6 := mail_proc 0x200),
     um := umem0\<lparr>um_msg := (\<lambda>a. if a = 0x10040 then (\<lambda>i. of_nat i) else (\<lambda>_. 0))\<rparr>,
     sm := (sm kstate0)\<lparr>mqeL := l, msgQ := (\<lambda>_. msgQ0\<lparr>mq_size := 3\<rparr>)\<rparr>\<rparr>"

definition mail_ipc :: "int \<Rightarrow> mrt_ipc_t" where
  "mail_ipc p = \<lparr>ipc_p_nr = p, ipc_pid = 42, ipc_msg = 0x40, ipc_msg2 = 0, ipc_hdr = 0x80, ipc_timeout = 0, ipc_priority = 0\<rparr>"

subsection \<open>Leaving real time with messages in the queue\<close>

text \<open>
  The message \<open>e\<close> of the process \<open>sp\<close> is the first in the queue \<open>q\<close>, the timer \<open>v\<close> of \<open>sp\<close> is not
  running, and the levels of the ready queue end with processes.
\<close>

definition holds_message :: "nat \<Rightarrow> nat \<Rightarrow> int \<Rightarrow> nat \<Rightarrow> (nat \<Rightarrow> nat list) \<Rightarrow> kstate \<Rightarrow> bool" where
  "holds_message q e sp v qs s \<longleftrightarrow> mq_rep s q qs \<and> first_of MRT_NR_PRTY qs = Some e
     \<and> pid_p_nr (mh_src (me_hdr (MQE s e))) = sp \<and> isokprocn sp \<and> ipcvt (procs s sp) = Some v \<and> vt_flags (VT s v) = VT_ALLOC
     \<and> prio s sp < MRT_NR_PRTY
     \<and> (\<forall>l. ls_first (pl_list (rdyQ s) l) = None \<or> (\<exists>p. ls_last (pl_list (rdyQ s) l) = Some (LProc p)))"

lemma holds_message_cong:
  assumes "holds_message q e sp v qs s" and "sm s' = sm s" "\<And>x. links s' (LMqe x) = links s (LMqe x)" "wf_links (links s')"
    and "procs s' sp = (procs s sp)\<lparr>p_retreg := r, rt := (rt (procs s sp))\<lparr>rt_flags := f\<rparr>, pto := t, p_flags := p\<rparr>"
    and "vt_flags (VT s' v) = VT_ALLOC"
    and "\<forall>l. ls_first (pl_list (rdyQ s') l) = None \<or> (\<exists>p. ls_last (pl_list (rdyQ s') l) = Some (LProc p))"
  shows "holds_message q e sp v qs s'"
proof -
  have "pl_rep (links s) (mq_plist (MSGQ s q)) (\<lambda>p. map LMqe (qs p))" "\<forall>p. length (qs p) \<le> NR_MESSAGES"
    using assms(1) by (simp_all add: holds_message_def mq_rep_def)
  then have "mq_rep s' q qs"
    using assms(2-4) by (auto simp: mq_rep_def members_def intro!: pl_rep_cong[where h = "links s"])
  then show ?thesis using assms by (simp add: holds_message_def)
qed

lemma ex_flags_same: "\<exists>f. x = x\<lparr>p_flags := f\<rparr>" for x :: proc_t
  by (rule exI[of _ "p_flags x"]) simp

lemma ready_any:
  assumes "prio s p < MRT_NR_PRTY"
    and "\<forall>l. ls_first (pl_list (rdyQ s) l) = None \<or> (\<exists>p. ls_last (pl_list (rdyQ s) l) = Some (LProc p))"
  shows "\<exists>s'. MRT_ready p s = Inr s' \<and> sm s' = sm s \<and> tm s' = tm s \<and> (\<forall>x. links s' (LMqe x) = links s (LMqe x))
    \<and> (wf_links (links s) \<longrightarrow> wf_links (links s')) \<and> (\<exists>f. procs s' p = (procs s p)\<lparr>p_flags := f\<rparr>)
    \<and> (\<forall>l. ls_first (pl_list (rdyQ s') l) = None \<or> (\<exists>p. ls_last (pl_list (rdyQ s') l) = Some (LProc p)))"
proof (cases "st_scheds (st (procs s p)) > rt_limit (rt (procs s p)) \<and> rt_limit (rt (procs s p)) > 0")
  case True
  then have "MRT_ready p s = Inr (upd_proc (proc_ptr s) (p_flags_update (\<lambda>w. SET_BIT w P_STOP)) s)"
    by (simp add: MRT_rdyQ_app_def)
  moreover have "\<exists>f. procs (upd_proc (proc_ptr s) (p_flags_update (\<lambda>w. SET_BIT w P_STOP)) s) p = (procs s p)\<lparr>p_flags := f\<rparr>"
    by (rule exI[of _ "if p = proc_ptr s then SET_BIT (p_flags (procs s p)) P_STOP else p_flags (procs s p)"]) simp
  ultimately show ?thesis using assms(2) by auto
next
  case False
  let ?l = "pl_list (rdyQ s) (prio s p)"
  have "\<exists>h' l'. MRT_list_app (links s) ?l (LProc p) = Inr (h', l') \<and> ls_last l' = Some (LProc p)
      \<and> (\<forall>x. h' (LMqe x) = links s (LMqe x)) \<and> (\<forall>k. lk_this (h' k) = lk_this (links s k))"
  proof (cases "ls_first ?l")
    case None
    then show ?thesis by (simp add: MRT_list_app_def list_count_up_def Let_def)
  next
    case (Some k)
    then obtain z where "ls_last ?l = Some (LProc z)" using assms(2) by (metis option.distinct(1))
    with Some show ?thesis by (simp add: MRT_list_app_def list_count_up_def Let_def)
  qed
  then obtain h' l' where A: "MRT_list_app (links s) ?l (LProc p) = Inr (h', l')" "ls_last l' = Some (LProc p)"
      "\<forall>x. h' (LMqe x) = links s (LMqe x)" "\<forall>k. lk_this (h' k) = lk_this (links s k)" by blast
  then show ?thesis
    using False A assms ex_flags_same[of "procs s p"] by (auto simp: MRT_rdyQ_app_def with_rdyQ_def MRT_plist_app_def chk_def Let_def wf_links_def plist_count_up_def)
qed

lemma release_step:
  assumes H: "holds_message q e sp v qs s"
  shows "\<exists>s'. holds_message q e sp v qs s' \<and> (\<forall>n. release_senders (Suc n) q s = release_senders n q s')"
proof -
  have mq: "mq_rep s q qs" and wf: "wf_links (links s)" and sp: "isokprocn sp" and iv: "ipcvt (procs s sp) = Some v"
    and al: "vt_flags (VT s v) = VT_ALLOC" and src: "pid_p_nr (mh_src (me_hdr (MQE s e))) = sp" and pr: "prio s sp < MRT_NR_PRTY"
    and rq: "\<forall>l. ls_first (pl_list (rdyQ s) l) = None \<or> (\<exists>p. ls_last (pl_list (rdyQ s) l) = Some (LProc p))"
    using H by (simp_all add: holds_message_def mq_rep_def)
  have "List.find (mqe_match s MRT_ANYPROC) xs = opt_hd xs" for xs by (cases xs) (simp_all add: mqe_match_def)
  then have pick: "MRT_mqe_pick q MRT_ANYPROC s = Inr (Some e)"
    using MRT_mqe_pick_ok[OF mq] H by (simp add: holds_message_def first_of_def)
  define s1 where "s1 = (upd_vt v (\<lambda>t. t\<lparr>vt_nextexp := 0, vt_flags := VT_ALLOC\<rparr>) s)\<lparr>links := MRT_link_rst (LVT v) (OVT v) MRT_OBJVT (links s)\<rparr>"
  have stop: "MRT_vtimer_stop v s = Inr s1" using al by (simp add: MRT_vtimer_stop_def Let_def s1_def)
  define s2 where "s2 = upd_proc sp (pto_update (\<lambda>_. None)) (upd_rtflags sp (\<lambda>w. CLR_BIT w MRT_MBX_SND) s1)"
  have F2: "sm s2 = sm s" "links s2 (LMqe x) = links s (LMqe x)" "wf_links (links s2)" "vt_flags (VT s2 v) = VT_ALLOC"
      "procs s2 sp = (procs s sp)\<lparr>rt := (rt (procs s sp))\<lparr>rt_flags := CLR_BIT (rt_flags (rt (procs s sp))) MRT_MBX_SND\<rparr>, pto := None\<rparr>"
      "rdyQ s2 = rdyQ s" "prio s2 sp = prio s sp" for x
    using wf by (auto simp: s2_def s1_def MRT_link_rst_def wf_links_def)
  have "\<exists>s3. (if MRT_is_rtready (procs s2 sp) then MRT_ready sp s2 else Inr s2) = Inr s3 \<and> sm s3 = sm s \<and> tm s3 = tm s2
      \<and> (\<forall>x. links s3 (LMqe x) = links s (LMqe x)) \<and> wf_links (links s3) \<and> (\<exists>f. procs s3 sp = (procs s2 sp)\<lparr>p_flags := f\<rparr>)
      \<and> (\<forall>l. ls_first (pl_list (rdyQ s3) l) = None \<or> (\<exists>p. ls_last (pl_list (rdyQ s3) l) = Some (LProc p)))"
  proof (cases "MRT_is_rtready (procs s2 sp)")
    case True
    have rq2: "\<forall>l. ls_first (pl_list (rdyQ s2) l) = None \<or> (\<exists>p. ls_last (pl_list (rdyQ s2) l) = Some (LProc p))"
      using rq F2(6) by simp
    from ready_any[of s2 sp, OF _ rq2] True F2 pr show ?thesis by auto
  next
    case False
    then show ?thesis using F2(1-4,6) rq ex_flags_same[of "procs s2 sp"] by auto
  qed
  then obtain s3 f where s3: "(if MRT_is_rtready (procs s2 sp) then MRT_ready sp s2 else Inr s2) = Inr s3" "sm s3 = sm s" "tm s3 = tm s2"
      "\<forall>x. links s3 (LMqe x) = links s (LMqe x)" "wf_links (links s3)" "procs s3 sp = (procs s2 sp)\<lparr>p_flags := f\<rparr>"
      "\<forall>l. ls_first (pl_list (rdyQ s3) l) = None \<or> (\<exists>p. ls_last (pl_list (rdyQ s3) l) = Some (LProc p))" by blast
  let ?s' = "set_retreg sp E_MRT_EXITING s3"
  have "holds_message q e sp v qs ?s'"
    by (rule holds_message_cong[OF H, where r = E_MRT_EXITING and f = "CLR_BIT (rt_flags (rt (procs s sp))) MRT_MBX_SND" and t = None and p = f])
      (use s3 F2 in simp_all)
  moreover have pa: "proc_addr sp = Inr sp" using sp by (simp add: proc_addr_def)
  have "release_senders (Suc n) q s = release_senders n q ?s'" for n
    unfolding release_senders.simps pick bnd.simps option.case src pa iv stop Let_def s2_def[symmetric] s3(1) ..
  ultimately show ?thesis by blast
qed

subsection \<open>Properties of the mailbox\<close>

text \<open>
  C25. A real-time message arrives as it was sent. An asynchronous request to a process that is not
  waiting is queued by priority; when that process receives from the sender, it gets the bytes of the
  message and a header that names the sender, the destination, the kind, and the priority and deadline of the
  sender. The other messages stay queued as they were, and the entry is bk in the pool.
\<close>

theorem rt_message_roundtrip:
  assumes "mbox s q qs (e # es)" "arqst_ok ipc q s" "isokprocn (proc_ptr s)"
    and "\<forall>x\<in>members qs. pid_p_nr (mh_src (me_hdr (MQE s x))) \<noteq> proc_ptr s"
    and "receive_ok rcv q (s\<lparr>proc_ptr := ipc_p_nr ipc\<rparr>)" "ipc_p_nr rcv = proc_ptr s"
  shows "\<exists>s1 s2. rtk_arqst ipc s = ret OK s1 \<and> rtk_receive rcv (s1\<lparr>proc_ptr := ipc_p_nr ipc\<rparr>) = ret OK s2
    \<and> um_msg (um s2) (numap s (ipc_p_nr ipc) (ipc_msg rcv) sizeof_msg) = um_msg (um s) (numap s (proc_ptr s) (ipc_msg ipc) sizeof_msg)
    \<and> (let h = um_hdr (um s2) (numap s (ipc_p_nr ipc) (ipc_hdr rcv) sizeof_mhdr) in
        mh_src h = \<lparr>pid_pid = p_pid (procs s (proc_ptr s)), pid_p_nr = proc_ptr s\<rparr>
        \<and> mh_dst h = \<lparr>pid_pid = ipc_pid ipc, pid_p_nr = ipc_p_nr ipc\<rparr> \<and> mh_mtype h = MT_AREQUEST
        \<and> mh_priority h = rt_priority (rt (procs s (proc_ptr s))) \<and> mh_deadline h = rt_deadline (rt (procs s (proc_ptr s))))
    \<and> mbox s2 q qs (es @ [e])"
proof -
  define me d where "me = proc_ptr s" and "d = ipc_p_nr ipc"
  define l where "l = (if TEST_BIT (mq_flags (MSGQ s q)) MQ_PRTYORDER then prio s me else 0)"
  obtain s1 where s1: "rtk_arqst ipc s = ret OK s1" "mbox s1 q (qs(l := qs l @ [e])) es"
    "me_m_u (MQE s1 e) = um_msg (um s) (numap s me (ipc_msg ipc) sizeof_msg)"
    "mh_src (me_hdr (MQE s1 e)) = \<lparr>pid_pid = p_pid (procs s me), pid_p_nr = me\<rparr>"
    "mh_dst (me_hdr (MQE s1 e)) = \<lparr>pid_pid = p_pid (procs s d), pid_p_nr = d\<rparr>"
    "mh_mtype (me_hdr (MQE s1 e)) = MT_AREQUEST" "mh_priority (me_hdr (MQE s1 e)) = rt_priority (rt (procs s me))"
    "mh_deadline (me_hdr (MQE s1 e)) = rt_deadline (rt (procs s me))"
    "\<forall>x. x \<noteq> e \<longrightarrow> MQE s1 x = MQE s x" "procs s1 = (procs s)(me := st_update (st_msgsent_update (\<lambda>n. n + 1)) (procs s me))"
    using arqst_enqueues[OF assms(1,2) me_def d_def l_def] by blast
  let ?t = "s1\<lparr>proc_ptr := d\<rparr>"
  have pm: "p_map (procs s1 x) = p_map (procs s x)" for x by (simp add: s1(10))
  have nm: "numap ?t x a b = numap s x a b" "numap (s\<lparr>proc_ptr := d\<rparr>) x a b = numap s x a b" for x a b
    by (rule numap_cong, simp add: pm)+
  have ro: "receive_ok rcv q ?t"
    using assms(5,6) nm by (auto simp: receive_ok_def Let_def s1(10) MRT_is_process_def d_def[symmetric])
  have M: "mbox ?t q (qs(l := qs l @ [e])) es" by (rule mbox_cong[OF s1(2)]) simp_all
  have e: "e \<in> set ((qs(l := qs l @ [e])) l)" by simp
  have rep: "pl_rep (links ?t) (mq_plist (MSGQ ?t q)) (\<lambda>p. map LMqe ((qs(l := qs l @ [e])) p))" using M by (simp add: mbox_def)
  have lv: "l < MRT_NR_PRTY" using pl_rep_level[OF rep, of "LMqe e" l] by simp
  have "List.find (mqe_match ?t me) (concat (map (qs(l := qs l @ [e])) [0..<MRT_NR_PRTY])) = Some e"
  proof (rule find_unique)
    show "e \<in> set (concat (map (qs(l := qs l @ [e])) [0..<MRT_NR_PRTY]))" using lv e by force
    show "mqe_match ?t me e" using s1(4) by (simp add: mqe_match_def)
    show "x = e" if "x \<in> set (concat (map (qs(l := qs l @ [e])) [0..<MRT_NR_PRTY]))" "mqe_match ?t me x" for x
    proof (rule ccontr)
      assume x: "x \<noteq> e"
      with that(1) have "x \<in> members qs" by (auto simp: members_iff split: if_splits)
      then have "pid_p_nr (mh_src (me_hdr (MQE s x))) \<noteq> me" using assms(4) by (simp add: me_def)
      moreover have "me \<noteq> MRT_ANYPROC" using assms(3) by (auto simp: isokprocn_def me_def)
      ultimately show False using that(2) x s1(9) by (simp add: mqe_match_def)
    qed
  qed
  then have f: "List.find (mqe_match ?t (ipc_p_nr rcv)) (concat (map (qs(l := qs l @ [e])) [0..<MRT_NR_PRTY])) = Some e"
    using assms(6) by (simp only: me_def)
  have "e \<notin> set (qs l)" using mbox_alloc[OF assms(1)] set_members[of qs l] by auto
  then have bk: "(qs(l := qs l @ [e]))(l := remove1 e ((qs(l := qs l @ [e])) l)) = qs" by (auto simp: remove1_append)
  have h: "isokprocn (pid_p_nr (mh_src (me_hdr (MQE ?t e))))" "mh_mtype (me_hdr (MQE ?t e)) \<noteq> MT_REQUEST"
      "mh_mtype (me_hdr (MQE ?t e)) \<noteq> MT_RQRCV"
    using s1(4,6) assms(3) by (simp_all add: me_def)
  have dt: "d = proc_ptr ?t" and mt: "MQE ?t = MQE s1" by simp_all
  obtain s2 where
    s2: "rtk_receive rcv ?t = ret OK s2" "mbox s2 q qs (es @ [e])"
      "um_msg (um s2) (numap s d (ipc_msg rcv) sizeof_msg) = me_m_u (MQE s1 e)"
      "um_hdr (um s2) (numap s d (ipc_hdr rcv) sizeof_mhdr) = me_hdr (MQE s1 e)"
    using receive_takes[OF M ro dt f e h] unfolding bk nm mt by blast
  have pid: "p_pid (procs s d) = ipc_pid ipc" using assms(2) by (simp add: arqst_ok_def Let_def d_def)
  show ?thesis
    unfolding me_def[symmetric] d_def[symmetric] Let_def
    by (rule exI[of _ s1], rule exI[of _ s2]) (simp only: s1(1,3-8) s2 pid simp_thms)
qed

theorem rt_message_roundtrip_witness:
  "\<exists>h l s1 s2. rtk_arqst (mail_ipc 6) (mail_state h l) = ret OK s1 \<and> rtk_receive (mail_ipc 5) (s1\<lparr>proc_ptr := 6\<rparr>) = ret OK s2
     \<and> um_msg (um s2) 0x20040 = (\<lambda>i. of_nat i) \<and> mh_src (um_hdr (um s2) 0x20080) = \<lparr>pid_pid = 42, pid_p_nr = 5\<rparr>"
proof -
  have "dll heap0 list0 []" by (simp add: dll_def list0_def)
  from MRT_list_app_ok[OF this, of "LMqe 7"] obtain h l where
    hl: "dll h l [LMqe 7]" "heap_frame {LMqe 7} heap0 h" by auto
  let ?s = "mail_state h l"
  have wf: "wf_links h" using wf_links_frame[OF hl(2)] by simp
  have "pl_rep h plist0 (\<lambda>_. [])" by (rule pl_rep_frame[OF plist0_rep hl(2)]) (simp add: members_def)
  then have M: "mbox ?s 0 (\<lambda>_. []) [7]"
    using hl wf by (simp add: mbox_def mqe_pool_def mail_state_def msgQ0_def members_def)
  have nm: "numap ?s 5 0x40 sizeof_msg = 0x10040" "numap ?s 6 0x40 sizeof_msg = 0x20040" "numap ?s 6 0x80 sizeof_mhdr = 0x20080"
      "numap (?s\<lparr>proc_ptr := 6\<rparr>) 6 0x40 sizeof_msg = 0x20040" "numap (?s\<lparr>proc_ptr := 6\<rparr>) 6 0x80 sizeof_mhdr = 0x20080"
    by (simp_all add: numap_def umap_def mail_state_def mail_proc_def Let_def)
  have F: "procs ?s 5 = mail_proc 0x100" "procs ?s 6 = mail_proc 0x200" "proc_ptr ?s = 5" "MSGQ ?s 0 = msgQ0\<lparr>mq_size := 3\<rparr>"
    by (simp_all add: mail_state_def)
  have a: "arqst_ok (mail_ipc 6) 0 ?s"
    by (simp add: arqst_ok_def mail_ipc_def nm F isokprocn_def is_waiting_def mail_proc_def MRT_is_process_def MRT_is_realtime_def
        zero_defs TEST_BIT_def MRT_NR_PRTY_def)
  have r: "receive_ok (mail_ipc 5) 0 (?s\<lparr>proc_ptr := ipc_p_nr (mail_ipc 6)\<rparr>)"
    using nm F by (simp add: receive_ok_def mail_ipc_def isokprocn_def mail_proc_def MRT_is_process_def zero_defs TEST_BIT_def)
  from rt_message_roundtrip[OF M a _ _ r] obtain s1 s2 where
    "rtk_arqst (mail_ipc 6) ?s = ret OK s1" "rtk_receive (mail_ipc 5) (s1\<lparr>proc_ptr := 6\<rparr>) = ret OK s2"
    "um_msg (um s2) (numap ?s 6 0x40 sizeof_msg) = um_msg (um ?s) (numap ?s 5 0x40 sizeof_msg)"
    "mh_src (um_hdr (um s2) (numap ?s 6 0x80 sizeof_mhdr)) = \<lparr>pid_pid = p_pid (procs ?s 5), pid_p_nr = 5\<rparr>"
    by (auto simp: mail_ipc_def F isokprocn_def members_def Let_def)
  then have "rtk_arqst (mail_ipc 6) ?s = ret OK s1 \<and> rtk_receive (mail_ipc 5) (s1\<lparr>proc_ptr := 6\<rparr>) = ret OK s2
     \<and> um_msg (um s2) 0x20040 = (\<lambda>i. of_nat i) \<and> mh_src (um_hdr (um s2) 0x20080) = \<lparr>pid_pid = 42, pid_p_nr = 5\<rparr>"
    unfolding nm F by (simp add: mail_state_def mail_proc_def)
  then show ?thesis by blast
qed

text \<open>
  C31. The loop of \<open>MRT_set2nrt\<close> over the messages of the ending process does not end: it picks the first message of
  the queue, releases its sender and never removes it, so with a message in the queue no number of
  iterations is enough.
\<close>

theorem release_senders_diverges:
  assumes "holds_message q e sp v qs s"
  shows "release_senders n q s = Inl Diverge"
  using assms
proof (induction n arbitrary: s)
  case (Suc n)
  then show ?case using release_step[OF Suc.prems] by auto
qed simp

theorem release_senders_diverges_witness:
  "\<exists>s. pl_inQ (mq_plist (MSGQ s 0)) = 1 \<and> (\<forall>n. release_senders n 0 s = Inl Diverge)"
proof -
  from MRT_plist_app_ok[OF plist0_rep, of 0 "LMqe 7"] obtain h q where
    hq: "pl_rep h q ((\<lambda>_. [])(0 := [LMqe 7]))" "heap_frame {LMqe 7} heap0 h" by (auto simp: MRT_NR_PRTY_def members_def)
  let ?s = "kstate0\<lparr>links := h, procs := (\<lambda>_. proc0\<lparr>ipcvt := Some 2\<rparr>),
      sm := (sm kstate0)\<lparr>msgQ := (\<lambda>_. msgQ0\<lparr>mq_plist := q\<rparr>)\<rparr>\<rparr>"
  have e: "(\<lambda>p. map LMqe (((\<lambda>_. [])(0 := [7])) p)) = (\<lambda>_. [])(0 := [LMqe 7])" by auto
  have "mq_rep ?s 0 ((\<lambda>_. [])(0 := [7]))"
    unfolding mq_rep_def e using hq(1) wf_links_frame[OF hq(2)] by simp
  moreover have "first_of MRT_NR_PRTY ((\<lambda>_. [])(0 := [7 :: nat])) = Some 7"
    by (rule first_of_hit[of 0]) (simp_all add: MRT_NR_PRTY_def)
  ultimately have "holds_message 0 7 0 2 ((\<lambda>_. [])(0 := [7])) ?s"
    by (simp add: holds_message_def zero_defs isokprocn_def MRT_NR_PRTY_def)
  then have "release_senders n 0 ?s = Inl Diverge" for n using release_senders_diverges by blast
  moreover have "pl_total (\<lambda>_. [] :: lref list) = 0" "0 < MRT_NR_PRTY" by (simp_all add: pl_total_def MRT_NR_PRTY_def)
  then have "pl_inQ (mq_plist (MSGQ ?s 0)) = 1"
    using hq(1) pl_total_app[of 0 "\<lambda>_. []" "LMqe 7"] by (simp add: pl_rep_def)
  ultimately show ?thesis by blast
qed

end
