(* ===== verification/Task.thy ===== *)
theory Task
  imports Mailbox Vtact
begin

text \<open>
  The real-time system task (\<^verbatim>\<open>mrttask.c\<close>): the service by which user programs read and
  set the attributes and statistics of interrupts, processes, semaphores and message queues, and
  switch the system into and out of real-time mode. The 28 requests, the tables that guard them, the
  dispatch of one request, and what the requests guarantee.

  A request is a message whose words are numbered from 0: \<open>CALLER\<close> is \<open>m1_i1\<close>, the arguments are
  \<open>m1_i2\<close> and \<open>m1_i3\<close>, and \<open>m1_p1\<close> is the address of a structure of the caller.
\<close>

subsection \<open>Constants and the fields of a request\<close>

abbreviation (input) EPERM :: int where "EPERM \<equiv> - 1"
abbreviation (input) EBADCALL :: int where "EBADCALL \<equiv> - 102"
abbreviation (input) E_MRT_BADIRQ :: int where "E_MRT_BADIRQ \<equiv> - 2001"
abbreviation (input) E_MRT_BADTASK :: int where "E_MRT_BADTASK \<equiv> - 2002"
abbreviation (input) E_MRT_BADPRTY :: int where "E_MRT_BADPRTY \<equiv> - 2003"
abbreviation (input) E_MRT_BADHARM :: int where "E_MRT_BADHARM \<equiv> - 2005"
abbreviation (input) E_MRT_RTACTIVE :: int where "E_MRT_RTACTIVE \<equiv> - 2006"
abbreviation (input) E_MRT_BADWDOG :: int where "E_MRT_BADWDOG \<equiv> - 2010"
abbreviation (input) E_MRT_RTMODE :: int where "E_MRT_RTMODE \<equiv> - 2022"
abbreviation (input) E_MRT_BADRFSH :: int where "E_MRT_BADRFSH \<equiv> - 2023"
abbreviation (input) E_MRT_NOSEM :: int where "E_MRT_NOSEM \<equiv> - 2025"
abbreviation (input) E_MRT_FREESEM :: int where "E_MRT_FREESEM \<equiv> - 2027"
abbreviation (input) E_MRT_BADNAME :: int where "E_MRT_BADNAME \<equiv> - 2028"
abbreviation (input) E_MRT_BADVALUE :: int where "E_MRT_BADVALUE \<equiv> - 2029"
abbreviation (input) E_MRT_BADFLAGS :: int where "E_MRT_BADFLAGS \<equiv> - 2030"
abbreviation (input) E_MRT_BADMSGQ :: int where "E_MRT_BADMSGQ \<equiv> - 2031"
abbreviation (input) E_MRT_FREEMSGQ :: int where "E_MRT_FREEMSGQ \<equiv> - 2032"
abbreviation (input) MRT_DBG232 :: u32 where "MRT_DBG232 \<equiv> 0x100"
abbreviation (input) MRT_RELATPER :: u8 where "MRT_RELATPER \<equiv> 0x10"
abbreviation (input) MAXHARMONIC :: int where "MAXHARMONIC \<equiv> 10000"
abbreviation (input) MAXREFRESH :: int where "MAXREFRESH \<equiv> 10000"
abbreviation (input) MRTMSGQFREE :: int where "MRTMSGQFREE \<equiv> - 1"
abbreviation (input) CASCADE_IRQ :: nat where "CASCADE_IRQ \<equiv> 2"
abbreviation (input) MRT_ACT_IRQTRIG :: int where "MRT_ACT_IRQTRIG \<equiv> 4"
abbreviation (input) MRT_FIRSTCALL :: int where "MRT_FIRSTCALL \<equiv> 100"
abbreviation (input) MRT_NCALLS :: int where "MRT_NCALLS \<equiv> 28"

definition m1_i1 :: "message \<Rightarrow> int" where "m1_i1 m = sint (m_u m 0)"
definition m1_i2 :: "message \<Rightarrow> int" where "m1_i2 m = sint (m_u m 1)"
definition m1_i3 :: "message \<Rightarrow> int" where "m1_i3 m = sint (m_u m 2)"
definition m1_p1 :: "message \<Rightarrow> u32" where "m1_p1 m = m_u m 3"

lemmas m1_defs = m1_i1_def m1_i2_def m1_i3_def m1_p1_def

definition msgQ_addr :: "int \<Rightarrow> nat res" where "msgQ_addr = tab_addr NR_MSGQ"

text \<open>
  The names of semaphores: \<open>strcmp\<close> reads past the arrays when both have no terminating NUL and
  all 16 characters agree.
\<close>

definition strcmp_eq :: "string \<Rightarrow> string \<Rightarrow> bool res" where
  "strcmp_eq a b =
     (if length a \<ge> MAXPNAME \<and> length b \<ge> MAXPNAME \<and> take MAXPNAME a = take MAXPNAME b then Inl OutOfBounds
      else Inr (take MAXPNAME a = take MAXPNAME b))"

text \<open>The copies between the task and its caller: \<open>caller->p_nr\<close> reads through the pointer.\<close>

definition put_user :: "(((u32 \<Rightarrow> 'a) \<Rightarrow> u32 \<Rightarrow> 'a) \<Rightarrow> umem_t \<Rightarrow> umem_t) \<Rightarrow> u32 \<Rightarrow> message \<Rightarrow> 'a \<Rightarrow> kstate
    \<Rightarrow> (int \<times> kstate) res" where
  "put_user store len m x s =
     bnd (deref (MRT_pid2pptr (m1_i1 m) s)) (\<lambda>caller.
     copy_or_einval (KRN2USR store len s caller (m1_p1 m) x) s (\<lambda>s. ret OK s))"

definition get_user :: "(umem_t \<Rightarrow> u32 \<Rightarrow> 'a) \<Rightarrow> u32 \<Rightarrow> message \<Rightarrow> kstate
    \<Rightarrow> (int \<Rightarrow> 'a \<Rightarrow> (int \<times> kstate) res) \<Rightarrow> (int \<times> kstate) res" where
  "get_user store len m s k =
     bnd (deref (MRT_pid2pptr (m1_i1 m) s)) (\<lambda>caller.
     copy_or_einval (USR2KRN store len s caller (m1_p1 m)) s (k caller))"

text \<open>The checks of an index that several requests share.\<close>

definition with_irqd :: "message \<Rightarrow> kstate \<Rightarrow> (nat \<Rightarrow> (int \<times> kstate) res) \<Rightarrow> (int \<times> kstate) res" where
  "with_irqd m s k =
     (if m1_i2 m < 0 \<or> m1_i2 m \<ge> int (NR_IRQ_VECTORS + NR_IRQ_SOFT) then ret E_MRT_BADIRQ s
      else bnd (irqd_addr (m1_i2 m)) k)"

definition with_sem :: "message \<Rightarrow> kstate \<Rightarrow> (nat \<Rightarrow> (int \<times> kstate) res) \<Rightarrow> (int \<times> kstate) res" where
  "with_sem m s k =
     (if m1_i2 m < 0 \<or> m1_i2 m \<ge> int NR_SEM then ret E_MRT_BADSEM s else bnd (sem_addr (m1_i2 m)) k)"

definition with_msgQ :: "message \<Rightarrow> kstate \<Rightarrow> (nat \<Rightarrow> (int \<times> kstate) res) \<Rightarrow> (int \<times> kstate) res" where
  "with_msgQ m s k =
     (if m1_i2 m < 0 \<or> m1_i2 m \<ge> int NR_MSGQ then ret E_MRT_BADMSGQ s else bnd (msgQ_addr (m1_i2 m)) k)"

definition with_proc :: "message \<Rightarrow> kstate \<Rightarrow> (int \<Rightarrow> (int \<times> kstate) res) \<Rightarrow> (int \<times> kstate) res" where
  "with_proc m s k = (case MRT_pid2pptr (m1_i2 m) s of None \<Rightarrow> ret E_BAD_PROC s | Some p \<Rightarrow> k p)"

subsection \<open>Interrupt descriptors\<close>

definition MRT_getiattr :: "message \<Rightarrow> kstate \<Rightarrow> (int \<times> kstate) res" where
  "MRT_getiattr m s =
     with_irqd m s (\<lambda>d.
     let p = IRQD s d
     in put_user um_irqattr_update sizeof_irqattr m
          \<lparr>ia_period = iq_period p, ia_task = iq_task p, ia_watchdog = iq_watchdog p,
           ia_priority = iq_priority p, ia_irqtype = iq_irqtype p, ia_name = take MAXPNAME (iq_name p)\<rparr> s)"

definition MRT_getistat :: "message \<Rightarrow> kstate \<Rightarrow> (int \<times> kstate) res" where
  "MRT_getistat m s =
     with_irqd m s (\<lambda>d.
     let p = IRQD s d
     in put_user um_irqstat_update sizeof_irqstat m
          \<lparr>is_count = iq_count p, is_maxshower = iq_maxshower p, is_mdl = iq_mdl p,
           is_timestamp = iq_timestamp p, is_maxlat = iq_maxlat p, is_reenter = iq_reenter p\<rparr> s)"

definition MRT_getiint :: "message \<Rightarrow> kstate \<Rightarrow> (int \<times> kstate) res" where
  "MRT_getiint m s =
     with_irqd m s (\<lambda>d.
     let p = IRQD s d
     in bnd (deref (iq_pvt p)) (\<lambda>v.
        put_user um_irqint_update sizeof_irqint m
          \<lparr>ii_irq = iq_irq p, ii_harmonic = iq_harmonic p, ii_vtimer = vt_index (VT s v),
           ii_flags = iq_flags p\<rparr> s))"

text \<open>
  The task number is compared with the first one only, the watchdog not at all: the process table is
  indexed with the numbers of the caller.
\<close>

definition MRT_setiattr :: "message \<Rightarrow> kstate \<Rightarrow> (int \<times> kstate) res" where
  "MRT_setiattr m s =
     (if m1_i2 m < 0 \<or> m1_i2 m \<ge> int NR_IRQ_VECTORS then ret E_MRT_BADIRQ s
      else get_user um_irqattr sizeof_irqattr m s (\<lambda>caller attr.
        if ia_task attr < - NR_TASKS then ret E_MRT_BADTASK s
        else
          bnd (proc_addr (ia_task attr)) (\<lambda>rp.
          if p_flags (procs s rp) = P_SLOT_FREE then ret E_MRT_BADTASK s
          else if ia_priority attr > MRT_PRILOWEST \<or> ia_priority attr \<le> MRT_PRIHIGHEST then ret E_MRT_BADPRTY s
          else
            bnd (if ia_watchdog attr \<noteq> HARDWARE
                 then bnd (proc_addr (ia_watchdog attr)) (\<lambda>rp. Inr (p_flags (procs s rp) = P_SLOT_FREE))
                 else Inr False) (\<lambda>bad.
            if bad then ret E_MRT_BADWDOG s
            else
              bnd (irqd_addr (m1_i2 m)) (\<lambda>d.
              ret OK (upd_irqd d (\<lambda>q. q\<lparr>
                iq_irqtype := ia_irqtype attr AND (MRT_RTIRQ OR MRT_TDIRQ OR MRT_SOFTIRQ OR MRT_ISTMSG),
                iq_period := ia_period attr, iq_task := ia_task attr, iq_watchdog := ia_watchdog attr,
                iq_priority := ia_priority attr, iq_name := take MAXPNAME (ia_name attr)\<rparr>) s))))))"

definition MRT_clristat :: "message \<Rightarrow> kstate \<Rightarrow> (int \<times> kstate) res" where
  "MRT_clristat m s = with_irqd m s (\<lambda>d. ret OK (irqd_clrstat d s))"

subsection \<open>System-wide values\<close>

definition MRT_sstat_init :: "kstate \<Rightarrow> kstate" where
  "MRT_sstat_init = upd_counter (\<lambda>c. c\<lparr>ct_scheds := 0, ct_messages := 0, ct_interrupts := 0, ct_ticks := 0,
     ct_highticks := 0, ct_oneshots := 0\<rparr>)"

definition MRT_getsstat :: "message \<Rightarrow> kstate \<Rightarrow> (int \<times> kstate) res" where
  "MRT_getsstat m s =
     (let c = counter (sv s)
      in put_user um_sysstat_update sizeof_sysstat m
           \<lparr>us_scheds = ct_scheds c, us_messages = ct_messages c, us_interrupts = ct_interrupts c,
            us_ticks = ct_ticks c, us_highticks = ct_highticks c, us_idlemax = ct_idlemax c,
            us_idlelast = ct_idlelast c\<rparr> s)"

definition MRT_getsval :: "message \<Rightarrow> kstate \<Rightarrow> (int \<times> kstate) res" where
  "MRT_getsval m s =
     put_user um_sysval_update sizeof_sysval m
       \<lparr>uv_flags = sv_flags (sv s), uv_virtual_PIC = virtual_PIC (sv s), uv_PIT_latency = PIT_latency (sv s),
        uv_PIT_latch = PIT_latch (sv s), uv_tickrate = tickrate (sv s), uv_harmonic = harmonic (sv s),
        uv_refresh = refresh (sv s)\<rparr> s"

definition MRT_setsval :: "message \<Rightarrow> kstate \<Rightarrow> (int \<times> kstate) res" where
  "MRT_setsval m s =
     ret OK (upd_svflags (\<lambda>_. m_u m 1 AND
       (MRT_DBG232 OR MRT_LATENCY OR MRT_BPIP OR MRT_ONESHOT OR MRT_PRTYMASK)) s)"

definition MRT_clrsstat :: "message \<Rightarrow> kstate \<Rightarrow> (int \<times> kstate) res" where
  "MRT_clrsstat m s = ret OK (MRT_sstat_init s)"

subsection \<open>Starting and stopping the real-time mode\<close>

definition rt_active :: "kstate \<Rightarrow> bool" where
  "rt_active s \<longleftrightarrow> list_ex (\<lambda>p. MRT_is_realtime (procs s p)) proc_slots"

text \<open>
  \<open>MRT_get_PIC\<close>: the mask of the slave controller is read first. The upper half of the register that
  it returns is what it held before; it is never used, and 0 here.
\<close>

definition MRT_get_PIC :: "kstate \<Rightarrow> u32 \<times> kstate" where
  "MRT_get_PIC s =
     (let (hi, s) = in_byte s;
          (lo, s) = in_byte s
      in (push_bit 8 hi OR lo, s))"

definition restart_idle :: "message \<Rightarrow> kstate \<Rightarrow> kstate res" where
  "restart_idle m s =
     bnd (irqd_addr (IDLE_soft (sv s))) (\<lambda>d.
     bnd (if refresh (sv s) \<noteq> m_u m 2
          then chk (m_u m 1 \<noteq> 0) DivZero
                 (Inr (upd_irqd d (iq_period_update (\<lambda>_. m_u m 2 * harmonic (sv s) div m_u m 1)) s))
          else Inr s) (\<lambda>s.
     Inr (MRT_idle_init (sv_update (refresh_update (\<lambda>_. m_u m 2)) s))))"

definition restart_masks :: "nat \<Rightarrow> nat \<Rightarrow> (nat \<Rightarrow> u32) \<Rightarrow> nat \<Rightarrow> u32" where
  "restart_masks i prty msk =
     (let msk = fold (\<lambda>p msk. msk(prty := msk prty OR msk p)) [0..<prty] msk
      in fold (\<lambda>p msk. msk(p := SET_BIT (SET_BIT (msk p) (push_bit i 1)) (push_bit CASCADE_IRQ 1)))
           [prty..<MRT_NR_PRTY] msk)"

definition restart_timed :: "message \<Rightarrow> nat \<Rightarrow> kstate \<Rightarrow> kstate res" where
  "restart_timed m i s =
     (let d = IRQD s i
      in bnd (if \<not> TEST_BIT (iq_irqtype d) MRT_RELATPER
              then chk (iq_harmonic d \<noteq> 0) DivZero (Inr (iq_period d * m_u m 1 div iq_harmonic d))
              else Inr (iq_period d)) (\<lambda>period.
         let s = upd_irqd i (\<lambda>q. q\<lparr>iq_period := period, iq_harmonic := m_u m 1\<rparr>) s
         in bnd (VTALLOC period 0 MRT_ACT_IRQTRIG (int i) HARDWARE (iq_priority d) s) (\<lambda>(v, s).
            case v of
              None \<Rightarrow> Inl (Panic ''MRT_restart: cannot create a VT for TD IRQ '')
            | Some v \<Rightarrow>
                bnd (MRT_vtimer_ins v s) (\<lambda>s.
                Inr (upd_irqd i (iq_pvt_update (\<lambda>_. Some v)) s)))))"

definition restart_irqd :: "message \<Rightarrow> nat \<Rightarrow> kstate \<Rightarrow> kstate res" where
  "restart_irqd m i s =
     (if i < NR_IRQ_VECTORS \<and> \<not> TEST_BIT (NOT (real_PIC (sv s))) (push_bit i 1) then Inr s
      else
        bnd (if i < NR_IRQ_VECTORS
             then let prty = unat (iq_priority (IRQD s i))
                  in chk (prty < MRT_NR_PRTY) OutOfBounds
                       (Inr (si_update (irqmask_update (restart_masks i prty)) s))
             else Inr s) (\<lambda>s.
        if i \<ge> NR_IRQ_VECTORS \<and> \<not> TEST_BIT (soft_use (si s)) (push_bit (i - NR_IRQ_VECTORS) 1) then Inr s
        else
          let s = MRT_irqd_clr i s
          in if TEST_BIT (iq_irqtype (IRQD s i)) MRT_TDIRQ then restart_timed m i s else Inr s))"

definition restart_clock :: "message \<Rightarrow> kstate \<Rightarrow> kstate res" where
  "restart_clock m s =
     (let s = MRT_reset_irq CLOCK_IRQ s
      in bnd (if svflag s MRT_ONESHOT
              then let s = sv_update (harmonic_update (\<lambda>_. m_u m 1)) s
                   in chk (harmonic (sv s) \<noteq> 0) DivZero
                        (Inr (sv_update (tick2Hz_update (\<lambda>_. TIMER_FREQ div HZ div harmonic (sv s))) s))
              else bnd (MRT_timer_set (m_u m 1) s) (\<lambda>s. Inr (MRT_timer2_set 0xFFFF s))) (\<lambda>s.
         Inr (MRT_set_irq CLOCK_IRQ s)))"

definition restart_queues :: "message \<Rightarrow> kstate \<Rightarrow> kstate res" where
  "restart_queues m s =
     (let s = MRT_proc_init (MRT_sstat_init s)
      in bnd (restart_idle m s) (\<lambda>s.
         let s = MRT_timerQ_init (MRT_rdyQ_init s)
         in bnd (MRT_vtimer_init s) (\<lambda>s.
            let s = MRT_irqQ_init s;
                (pic, s) = MRT_get_PIC s;
                s = sv_update (real_PIC_update (\<lambda>_. pic)) s
            in Inr (sv_update (virtual_PIC_update (\<lambda>_. real_PIC (sv s))) s))))"

definition restart_finish :: "message \<Rightarrow> kstate \<Rightarrow> (int \<times> kstate) res" where
  "restart_finish m s =
     (let (before, s) = MRT_read_timer2 s;
          (after, s) = MRT_read_timer2 s;
          s = sv_update (PIT_latency_update (\<lambda>_. before - after)) s;
          s = set_svflag MRT_RTMODE s
      in bnd (MRT_prtylvl_set MRT_PRILOWEST s) (\<lambda>s.
         bnd (restart_clock m s) (\<lambda>s.
         bnd (MRT_msgQ_init s) (\<lambda>s.
         bnd (MRT_mpool_init s) (\<lambda>s.
         bnd (MRT_spool_init s) (\<lambda>s.
         ret OK s))))))"

definition MRT_restart :: "message \<Rightarrow> kstate \<Rightarrow> (int \<times> kstate) res" where
  "MRT_restart m s =
     (if m1_i2 m \<le> 0 \<or> m1_i2 m > MAXHARMONIC then ret E_MRT_BADHARM s
      else if m1_i3 m \<le> 0 \<or> m1_i3 m > MAXREFRESH then ret E_MRT_BADRFSH s
      else if rt_active s then ret E_MRT_RTACTIVE s
      else
        bnd (restart_queues m s) (\<lambda>s.
        bnd (foldM (restart_irqd m) [0..<NR_IRQ_VECTORS + NR_IRQ_SOFT] s)
        (restart_finish m)))"

definition MRT_RTstart :: "message \<Rightarrow> kstate \<Rightarrow> (int \<times> kstate) res" where
  "MRT_RTstart m s = MRT_restart m s"

definition MRT_RTstop :: "message \<Rightarrow> kstate \<Rightarrow> (int \<times> kstate) res" where
  "MRT_RTstop m s =
     (if rt_active s then ret E_MRT_RTACTIVE s
      else bnd (MRT_timer_set 1 s) (\<lambda>s. ret OK (clr_svflag MRT_RTMODE s)))"

subsection \<open>Processes\<close>

definition MRT_getpattr :: "message \<Rightarrow> kstate \<Rightarrow> (int \<times> kstate) res" where
  "MRT_getpattr m s =
     with_proc m s (\<lambda>p.
     let r = rt (procs s p)
     in bnd (deref (pmq (procs s p))) (\<lambda>q.
        put_user um_pattr_update sizeof_pattr m
          \<lparr>pa_flags = rt_flags r, pa_baseprty = rt_baseprty r, pa_period = rt_period r, pa_limit = rt_limit r,
           pa_deadline = rt_deadline r, pa_watchdog = rt_watchdog r,
           pa_mq_size = word_of_int (mq_size (MSGQ s q)), pa_mq_flags = mq_flags (MSGQ s q)\<rparr> s))"

definition bad_watchdog :: "int \<Rightarrow> mrt_pattr_t \<Rightarrow> kstate \<Rightarrow> bool" where
  "bad_watchdog caller a s \<longleftrightarrow>
     pa_watchdog a \<noteq> HARDWARE \<and>
     (case MRT_pid2pptr (pa_watchdog a) s of
        None \<Rightarrow> True
      | Some wd \<Rightarrow> \<not> MRT_is_realtime (procs s wd) \<or> wd = caller)"

definition MRT_setpattr :: "message \<Rightarrow> kstate \<Rightarrow> (int \<times> kstate) res" where
  "MRT_setpattr m s =
     get_user um_pattr sizeof_pattr m s (\<lambda>caller a.
     if TEST_BIT (pa_flags a) MRT_P_REALTIME
     then
       if pa_baseprty a \<le> MRT_PRIHIGHEST \<or> pa_baseprty a > MRT_PRILOWEST then ret E_MRT_BADPRTY s
       else if bad_watchdog caller a s then ret E_MRT_BADWDOG s
       else
         let s = upd_proc caller (rt_update (\<lambda>r. r\<lparr>rt_priority := pa_baseprty a,
                   rt_flags := pa_flags a AND (MRT_P_PERIODIC OR MRT_P_REALTIME), rt_baseprty := pa_baseprty a,
                   rt_period := pa_period a, rt_limit := pa_limit a, rt_deadline := pa_deadline a,
                   rt_watchdog := pa_watchdog a\<rparr>)) s;
             s = upd_proc caller (mq_update (\<lambda>q. q\<lparr>mqa_size := pa_mq_size a, mqa_flags := pa_mq_flags a\<rparr>)) s;
             s = upd_proc caller (rt_update (rt_limit_update (\<lambda>_.
                   if TEST_BIT (pa_flags a) MRT_P_PERIODIC then 0 else pa_limit a))) s
         in ret OK (s\<lparr>links := MRT_link_rst (LProc caller) (OProc caller) MRT_OBJPROC (links s)\<rparr>)
     else ret OK s)"

text \<open>The statistics copied to the caller include \<open>mdl\<close>, which the function never assigns.\<close>

definition MRT_getpstat :: "message \<Rightarrow> kstate \<Rightarrow> (int \<times> kstate) res" where
  "MRT_getpstat m s =
     with_proc m s (\<lambda>p.
     let t = st (procs s p)
     in put_user um_pstat_update sizeof_pstat m
          \<lparr>ps_scheds = st_scheds t, ps_mdl = stk_long s, ps_timestamp = st_timestamp t, ps_maxlat = st_maxlat t,
           ps_minlax = st_minlax t, ps_msgsent = st_msgsent t, ps_msgrcvd = st_msgrcvd t\<rparr> s)"

definition MRT_getpint :: "message \<Rightarrow> kstate \<Rightarrow> (int \<times> kstate) res" where
  "MRT_getpint m s =
     with_proc m s (\<lambda>p.
     bnd (deref (pvt (procs s p))) (\<lambda>v.
     bnd (deref (pmq (procs s p))) (\<lambda>q.
     put_user um_pint_update sizeof_pint m
       \<lparr>pi_vt = vt_index (VT s v), pi_priority = rt_priority (rt (procs s p)), pi_mqID = mq_index (MSGQ s q),
        pi_p_nr = p\<rparr> s)))"

definition MRT_clrpstat :: "message \<Rightarrow> kstate \<Rightarrow> (int \<times> kstate) res" where
  "MRT_clrpstat m s =
     with_proc m s (\<lambda>p.
     ret OK (upd_proc p (st_update (\<lambda>t. t\<lparr>st_scheds := 0, st_timestamp := 0, st_maxlat := 0, st_minlax := 0,
       st_msgsent := 0, st_msgrcvd := 0\<rparr>)) s))"

text \<open>
  Freeing the semaphores of a process that exits. Each step takes one semaphore from the list, so
  \<open>NR_SEM + 1\<close> steps are enough.
\<close>

abbreviation (input) sem_fuel :: nat where "sem_fuel \<equiv> 17"

fun free_sems :: "nat \<Rightarrow> int \<Rightarrow> kstate \<Rightarrow> kstate res" where
  "free_sems 0 rp s = Inl Diverge"
| "free_sems (Suc n) rp s =
     (case ls_first (sallocL (procs s rp)) of
        None \<Rightarrow> Inr s
      | Some lk \<Rightarrow>
          bnd (as_sem (lk_this (links s lk))) (\<lambda>psem.
          bnd (MRT_sem_free rp psem s) (free_sems n rp)))"

definition MRT_exit :: "message \<Rightarrow> kstate \<Rightarrow> (int \<times> kstate) res" where
  "MRT_exit m s =
     bnd (proc_addr (m1_i1 m)) (\<lambda>rp.
     bnd (MRT_set2nrt rp s) (\<lambda>(_, s).
     bnd (free_sems sem_fuel rp s) (\<lambda>s.
     ret OK (MRT_proc_rst rp s))))"

definition MRT_stdsignal :: "message \<Rightarrow> kstate \<Rightarrow> (int \<times> kstate) res" where
  "MRT_stdsignal m s = with_proc m s (\<lambda>rp. MRT_set2nrt rp s)"

subsection \<open>Semaphores and message queues\<close>

fun sem_by_name :: "nat list \<Rightarrow> string \<Rightarrow> kstate \<Rightarrow> nat option res" where
  "sem_by_name [] name s = Inr None"
| "sem_by_name (i # is) name s =
     bnd (strcmp_eq (sm_name (SEM s i)) name) (\<lambda>eq. if eq then Inr (Some i) else sem_by_name is name s)"

text \<open>
  The policy of a semaphore. The second test accepts inheritance together with any one of the two
  other flags. The error paths restore CPU flags that were not saved, which has no counterpart here.
\<close>

definition semalloc_check :: "mrt_semattr_t \<Rightarrow> int" where
  "semalloc_check a =
     (if TEST_BIT (sa_flags a) SEM_MUTEX \<and> sa_value a > 1 then E_MRT_BADVALUE
      else if TEST_BIT (sa_flags a) SEM_PRTYINHERIT \<and> \<not> TEST_BIT (sa_flags a) (SEM_MUTEX OR SEM_PRTYORDER)
      then E_MRT_BADFLAGS
      else if sa_priority a > MRT_PRILOWEST \<or> sa_priority a < MRT_PRIHIGHEST then E_MRT_BADPRTY
      else OK)"

definition MRT_semalloc :: "message \<Rightarrow> kstate \<Rightarrow> (int \<times> kstate) res" where
  "MRT_semalloc m s =
     get_user um_semattr sizeof_semattr m s (\<lambda>caller a.
     bnd (sem_by_name [0..<NR_SEM] (sa_name a) s) (\<lambda>found.
     if found \<noteq> None then ret E_MRT_BADNAME s
     else if semalloc_check a \<noteq> OK then ret (semalloc_check a) s
     else
       bnd (MRT_sem_alloc caller s) (\<lambda>(psem, s).
       case psem of
         None \<Rightarrow> ret E_MRT_NOSEM s
       | Some i \<Rightarrow>
           let s = upd_sem i (\<lambda>x. x\<lparr>sm_flags := sa_flags a AND (SEM_PRTYORDER OR SEM_PRTYINHERIT OR SEM_MUTEX),
                     sm_value := sa_value a, sm_priority := sa_priority a,
                     sm_name := take MAXPNAME (sa_name a)\<rparr>) s
           in ret (sm_index (SEM s i)) s)))"

definition MRT_semfree :: "message \<Rightarrow> kstate \<Rightarrow> (int \<times> kstate) res" where
  "MRT_semfree m s =
     with_sem m s (\<lambda>psem.
     if sm_owner (SEM s psem) = HARDWARE then ret E_MRT_FREESEM s
     else
       bnd (deref (MRT_pid2pptr (m1_i1 m) s)) (\<lambda>caller.
       if sm_owner (SEM s psem) \<noteq> caller then ret EPERM s
       else bnd (MRT_sem_free caller psem s) (\<lambda>s. ret OK s)))"

definition MRT_getsemstat :: "message \<Rightarrow> kstate \<Rightarrow> (int \<times> kstate) res" where
  "MRT_getsemstat m s =
     with_sem m s (\<lambda>psem.
     put_user um_semstat_update sizeof_semstat m
       \<lparr>sst_ups = sm_ups (SEM s psem), sst_downs = sm_downs (SEM s psem),
        sst_maxinQ = pl_maxinQ (sm_plist (SEM s psem))\<rparr> s)"

definition MRT_getsemint :: "message \<Rightarrow> kstate \<Rightarrow> (int \<times> kstate) res" where
  "MRT_getsemint m s =
     with_sem m s (\<lambda>psem.
     put_user um_semint_update sizeof_semint m
       \<lparr>sin_index = sm_index (SEM s psem), sin_owner = sm_owner (SEM s psem),
        sin_inQ = pl_inQ (sm_plist (SEM s psem))\<rparr> s)"

definition MRT_getsemid :: "message \<Rightarrow> kstate \<Rightarrow> (int \<times> kstate) res" where
  "MRT_getsemid m s =
     get_user um_name (word_of_nat MAXPNAME) m s (\<lambda>caller sname.
     bnd (sem_by_name [0..<NR_SEM] sname s) (\<lambda>found.
     case found of None \<Rightarrow> ret E_MRT_BADSEM s | Some i \<Rightarrow> ret (sm_index (SEM s i)) s))"

definition MRT_getsemattr :: "message \<Rightarrow> kstate \<Rightarrow> (int \<times> kstate) res" where
  "MRT_getsemattr m s =
     with_sem m s (\<lambda>psem.
     if sm_owner (SEM s psem) = HARDWARE then ret E_MRT_FREESEM s
     else
       put_user um_semattr_update sizeof_semattr m
         \<lparr>sa_value = sm_value (SEM s psem), sa_flags = sm_flags (SEM s psem),
          sa_priority = sm_priority (SEM s psem), sa_name = take MAXPNAME (sm_name (SEM s psem))\<rparr> s)"

definition MRT_clrsemstat :: "message \<Rightarrow> kstate \<Rightarrow> (int \<times> kstate) res" where
  "MRT_clrsemstat m s =
     with_sem m s (\<lambda>psem.
     if sm_owner (SEM s psem) = HARDWARE then ret E_MRT_FREESEM s
     else ret OK (upd_sem psem (\<lambda>x. x\<lparr>sm_ups := 0, sm_downs := 0,
            sm_plist := (sm_plist x)\<lparr>pl_maxinQ := 0\<rparr>\<rparr>) s))"

definition MRT_getmqstat :: "message \<Rightarrow> kstate \<Rightarrow> (int \<times> kstate) res" where
  "MRT_getmqstat m s =
     with_msgQ m s (\<lambda>q.
     put_user um_msgqstat_update sizeof_msgqstat m
       \<lparr>qs_delivered = mq_delivered (MSGQ s q), qs_enqueued = mq_enqueued (MSGQ s q),
        qs_maxinQ = pl_maxinQ (mq_plist (MSGQ s q))\<rparr> s)"

definition MRT_clrmqstat :: "message \<Rightarrow> kstate \<Rightarrow> (int \<times> kstate) res" where
  "MRT_clrmqstat m s =
     with_msgQ m s (\<lambda>q.
     if mq_owner (MSGQ s q) = MRTMSGQFREE then ret E_MRT_FREEMSGQ s
     else ret OK (upd_msgQ q (\<lambda>x. x\<lparr>mq_delivered := 0, mq_enqueued := 0,
            mq_plist := (mq_plist x)\<lparr>pl_maxinQ := 0\<rparr>\<rparr>) s))"

subsection \<open>The task\<close>

definition MRT_vector :: "(message \<Rightarrow> kstate \<Rightarrow> (int \<times> kstate) res) list" where
  "MRT_vector =
     [MRT_getiattr, MRT_getistat, MRT_getiint, MRT_setiattr, MRT_getsstat, MRT_getsval, MRT_setsval, MRT_restart,
      MRT_getpattr, MRT_setpattr, MRT_getpstat, MRT_getpint, MRT_clrpstat, MRT_RTstart, MRT_RTstop, MRT_exit,
      MRT_stdsignal, MRT_semalloc, MRT_semfree, MRT_getsemstat, MRT_getsemint, MRT_getsemid, MRT_getsemattr,
      MRT_getmqstat, MRT_clrsstat, MRT_clristat, MRT_clrsemstat, MRT_clrmqstat]"

definition sys_run_mode :: "u32 list" where
  "sys_run_mode =
     [MRT_RTMODE, MRT_RTMODE, MRT_RTMODE, MRT_RTMODE, MRT_RTMODE, MRT_RTMODE, 0, MRT_RTMODE,
      MRT_RTMODE, MRT_RTMODE, MRT_RTMODE, MRT_RTMODE, MRT_RTMODE, 0, MRT_RTMODE, MRT_RTMODE,
      MRT_RTMODE, MRT_RTMODE, MRT_RTMODE, MRT_RTMODE, MRT_RTMODE, MRT_RTMODE, MRT_RTMODE,
      MRT_RTMODE, MRT_RTMODE, MRT_RTMODE, MRT_RTMODE, MRT_RTMODE]"

definition proc_run_mode :: "u32 list" where
  "proc_run_mode = replicate 15 0 @ [MRT_P_REALTIME] @ replicate 12 0"

definition MRT_sys_task_init :: "kstate \<Rightarrow> kstate res" where
  "MRT_sys_task_init s =
     (let s = MRT_sstat_init s;
          s = sv_update (refresh_update (\<lambda>_. HZ)) s;
          s = MRT_idle_init s;
          s = si_update (irqmask_update (\<lambda>msk r. if r < NR_IRQ_VECTORS then 0 else msk r)) s;
          s = MRT_rdyQ_init s
      in bnd (MRT_msgQ_init s) (\<lambda>s.
         bnd (MRT_mpool_init s) MRT_spool_init))"

text \<open>
  One round of the endless loop, between the receive of the request and the send of the reply. Both are
  calls of \<^verbatim>\<open>proc.c\<close>.
\<close>

definition MRT_sys_task_step :: "message \<Rightarrow> kstate \<Rightarrow> (message \<times> kstate) res" where
  "MRT_sys_task_step msg s =
     (let mrt_call = m_type msg - MRT_FIRSTCALL;
          caller = MRT_pid2pptr (m1_i1 msg) s
      in bnd (if mrt_call < 0 \<or> mrt_call \<ge> MRT_NCALLS then ret EBADCALL s
              else if sv_flags (sv s) AND MRT_RTMODE \<noteq> sys_run_mode ! nat mrt_call
              then ret (if sys_run_mode ! nat mrt_call = MRT_RTMODE then E_MRT_NORTMODE else E_MRT_RTMODE) s
              else
                bnd (deref caller) (\<lambda>caller.
                if p_flags (procs s caller) AND MRT_P_REALTIME \<noteq> proc_run_mode ! nat mrt_call
                then ret E_MRT_BADPTYPE s
                else (MRT_vector ! nat mrt_call) msg s)) (\<lambda>(error, s).
         Inr (msg\<lparr>m_type := error\<rparr>, s)))"

end
