(* ===== verification/Restart.thy ===== *)
theory Restart
  imports Task
begin

text \<open>
  Restarting the real-time system (\<open>MRT_restart\<close> of \<^verbatim>\<open>mrttask.c\<close>): what the
  initialisation of each pool leaves, how a timer is taken and started, the loop over the interrupt
  descriptors with its invariant \<open>restarted\<close>, and the state that a restart establishes.
\<close>

subsection \<open>What the initialisation of a pool leaves\<close>

text \<open>One step of the loop that fills a free list: reset the link of the next entry and append it.\<close>

lemma fill_step:
  assumes d: "dll h l (map lk [0..<i])" and inj: "inj lk" and wf: "wf_links h"
    and own: "lk_this (h (lk i)) = Some obj"
  shows "\<exists>h' l'. MRT_list_app (MRT_link_rst (lk i) obj t h) l (lk i) = Inr (h', l')
    \<and> dll h' l' (map lk [0..<Suc i]) \<and> wf_links h' \<and> (\<forall>k. k \<notin> range lk \<longrightarrow> h' k = h k)"
proof -
  let ?h = "MRT_link_rst (lk i) obj t h"
  have new: "lk i \<notin> set (map lk [0..<i])" using inj by (auto dest: injD)
  have w: "wf_links ?h" using wf_links_rst[OF wf own] .
  obtain h' l' where a: "MRT_list_app ?h l (lk i) = Inr (h', l')" "dll h' l' (map lk [0..<i] @ [lk i])"
    "heap_frame (insert (lk i) (set (map lk [0..<i]))) ?h h'"
    using MRT_list_app_ok[OF dll_rst_other[OF d new] new] by blast
  have "h' k = h k" if "k \<notin> range lk" for k
    using a(3) that by (auto simp: heap_frame_def link_rst_frame_other)
  with a w wf_links_frame[OF a(3)] show ?thesis by auto
qed

lemma inj_links [simp]: "inj LMqe" "inj LMsgQ" "inj LVT" "inj LSemA"
  by (auto intro: injI)

lemma pool_dll: "(\<And>k. k \<notin> range lk \<Longrightarrow> h' k = h k) \<Longrightarrow> set xs \<inter> range lk = {} \<Longrightarrow> dll h l xs \<Longrightarrow> dll h' l xs"
  by (rule dll_cong) auto

lemma msgQ_init_fills:
  assumes "wf_links (links s)"
  shows "\<exists>h x. MRT_msgQ_init s = Inr (s\<lparr>links := h, sm := x\<rparr>) \<and> wf_links h \<and> dll h (msgQL x) (map LMsgQ [0..<NR_MSGQ])
    \<and> (\<forall>k. k \<notin> range LMsgQ \<longrightarrow> h k = links s k) \<and> mqeL x = MRT_list_rst (mqeL (sm s))"
proof -
  let ?P = "\<lambda>s' i. \<exists>h x. s' = s\<lparr>links := h, sm := x\<rparr> \<and> wf_links h \<and> dll h (msgQL x) (map LMsgQ [0..<i])
    \<and> (\<forall>k. k \<notin> range LMsgQ \<longrightarrow> h k = links s k) \<and> mqeL x = MRT_list_rst (mqeL (sm s))"
  have "\<exists>s'. foldM (\<lambda>i s. MRT_msgQ_free i (upd_msgQ i (mq_index_update (\<lambda>_. int i)) s)) [0..<NR_MSGQ]
      (sm_update (msgQL_update MRT_list_rst) (sm_update (mqeL_update MRT_list_rst) s)) = Inr s' \<and> ?P s' NR_MSGQ"
  proof (rule foldM_upt[where P = ?P])
    show "?P (sm_update (msgQL_update MRT_list_rst) (sm_update (mqeL_update MRT_list_rst) s)) 0"
      using assms
      by - (rule exI[of _ "links s"], rule exI[of _ "msgQL_update MRT_list_rst (mqeL_update MRT_list_rst (sm s))"], simp add: dll_rst)
  next
    fix i s' assume "?P s' i"
    then obtain h x where e: "s' = s\<lparr>links := h, sm := x\<rparr>" and r: "wf_links h" "dll h (msgQL x) (map LMsgQ [0..<i])"
      "\<forall>k. k \<notin> range LMsgQ \<longrightarrow> h k = links s k" "mqeL x = MRT_list_rst (mqeL (sm s))" by blast
    obtain h' l' where "MRT_list_app (MRT_link_rst (LMsgQ i) (OMsgQ i) MRT_OBJMQ h) (msgQL x) (LMsgQ i) = Inr (h', l')"
      "dll h' l' (map LMsgQ [0..<Suc i])" "wf_links h'" "\<forall>k. k \<notin> range LMsgQ \<longrightarrow> h' k = h k"
      using fill_step[OF r(2) inj_links(2) r(1) wf_links_msgQ[OF r(1)]] by blast
    with r e show "\<exists>s''. MRT_msgQ_free i (upd_msgQ i (mq_index_update (\<lambda>_. int i)) s') = Inr s'' \<and> ?P s'' (Suc i)"
      by (simp add: MRT_msgQ_free_def with_msgQL_def MRT_msgQ_rst_def Let_def comp_def) (intro exI conjI, rule refl, simp_all)
  qed
  then show ?thesis by (auto simp: MRT_msgQ_init_def Let_def)
qed

lemma mpool_init_fills:
  assumes "wf_links (links s)" "dll (links s) (mqeL (sm s)) []"
  shows "\<exists>h x. MRT_mpool_init s = Inr (s\<lparr>links := h, sm := x\<rparr>) \<and> wf_links h \<and> dll h (mqeL x) (map LMqe [0..<NR_MESSAGES])
    \<and> (\<forall>k. k \<notin> range LMqe \<longrightarrow> h k = links s k) \<and> msgQL x = msgQL (sm s)"
proof -
  let ?P = "\<lambda>s' i. \<exists>h x. s' = s\<lparr>links := h, sm := x\<rparr> \<and> wf_links h \<and> dll h (mqeL x) (map LMqe [0..<i])
    \<and> (\<forall>k. k \<notin> range LMqe \<longrightarrow> h k = links s k) \<and> msgQL x = msgQL (sm s)"
  have "\<exists>s'. MRT_mpool_init s = Inr s' \<and> ?P s' NR_MESSAGES"
    unfolding MRT_mpool_init_def
  proof (rule foldM_upt[where P = ?P])
    show "?P s 0" using assms by - (rule exI[of _ "links s"], rule exI[of _ "sm s"], simp)
  next
    fix i s' assume "?P s' i"
    then obtain h x where e: "s' = s\<lparr>links := h, sm := x\<rparr>" and r: "wf_links h" "dll h (mqeL x) (map LMqe [0..<i])"
      "\<forall>k. k \<notin> range LMqe \<longrightarrow> h k = links s k" "msgQL x = msgQL (sm s)" by blast
    obtain h' l' where "MRT_list_app (MRT_link_rst (LMqe i) (OMqe i) MRT_OBJMQE h) (mqeL x) (LMqe i) = Inr (h', l')"
      "dll h' l' (map LMqe [0..<Suc i])" "wf_links h'" "\<forall>k. k \<notin> range LMqe \<longrightarrow> h' k = h k"
      using fill_step[OF r(2) inj_links(1) r(1) wf_links_mqe[OF r(1)]] by blast
    with r e show "\<exists>s''. (let s = upd_mqe i (me_index_update (\<lambda>_. int i)) s'; s = MRT_mqe_rst i s
        in with_mqeL (\<lambda>h l. MRT_list_app h l (LMqe i)) s) = Inr s'' \<and> ?P s'' (Suc i)"
      by (simp add: with_mqeL_def MRT_mqe_rst_def Let_def comp_def) (intro exI conjI, rule refl, simp_all)
  qed
  then show ?thesis by auto
qed

lemma vtimer_init_fills:
  assumes "wf_links (links s)" "dll (links s) (freeQ (tm s)) []"
  shows "\<exists>h x. MRT_vtimer_init s = Inr (s\<lparr>links := h, tm := x\<rparr>) \<and> wf_links h \<and> dll h (freeQ x) (map LVT [0..<NR_VTIMERS])
    \<and> (\<forall>k. k \<notin> range LVT \<longrightarrow> h k = links s k) \<and> actQ x = actQ (tm s) \<and> expQ x = expQ (tm s)"
proof -
  let ?P = "\<lambda>s' i. \<exists>h x. s' = s\<lparr>links := h, tm := x\<rparr> \<and> wf_links h \<and> dll h (freeQ x) (map LVT [0..<i])
    \<and> (\<forall>k. k \<notin> range LVT \<longrightarrow> h k = links s k) \<and> actQ x = actQ (tm s) \<and> expQ x = expQ (tm s)"
  have "\<exists>s'. MRT_vtimer_init s = Inr s' \<and> ?P s' NR_VTIMERS"
    unfolding MRT_vtimer_init_def
  proof (rule foldM_upt[where P = ?P])
    show "?P s 0" using assms by - (rule exI[of _ "links s"], rule exI[of _ "tm s"], simp)
  next
    fix i s' assume "?P s' i"
    then obtain h x where e: "s' = s\<lparr>links := h, tm := x\<rparr>" and r: "wf_links h" "dll h (freeQ x) (map LVT [0..<i])"
      "\<forall>k. k \<notin> range LVT \<longrightarrow> h k = links s k" "actQ x = actQ (tm s)" "expQ x = expQ (tm s)" by blast
    have "lk_this (h (LVT i)) = Some (OVT i)" using r(1) by (simp add: wf_links_def)
    then obtain h' l' where "MRT_list_app (MRT_link_rst (LVT i) (OVT i) MRT_OBJVT h) (freeQ x) (LVT i) = Inr (h', l')"
      "dll h' l' (map LVT [0..<Suc i])" "wf_links h'" "\<forall>k. k \<notin> range LVT \<longrightarrow> h' k = h k"
      using fill_step[OF r(2) inj_links(3) r(1)] by blast
    with r e show "\<exists>s''. (let s = upd_vt i (vt_index_update (\<lambda>_. int i)) s'; s = MRT_vtimer_rst i s
        in with_freeQ (\<lambda>h l. MRT_list_app h l (LVT i)) s) = Inr s'' \<and> ?P s'' (Suc i)"
      by (simp add: with_freeQ_def MRT_vtimer_rst_def Let_def comp_def) (intro exI conjI, rule refl, simp_all)
  qed
  then show ?thesis by auto
qed

lemma spool_init_fills:
  assumes "wf_links (links s)"
  shows "\<exists>h x. MRT_spool_init s = Inr (s\<lparr>links := h, ss := x\<rparr>) \<and> wf_links h \<and> dll h (sfreeL x) (map LSemA [0..<NR_SEM])
    \<and> (\<forall>k. k \<notin> range LSemA \<union> range LSemL \<longrightarrow> h k = links s k)
    \<and> (\<forall>i<NR_SEM. sm_index (sem x i) = int i \<and> sm_owner (sem x i) = HARDWARE \<and> sm_name (sem x i) = ''FREE'')"
proof -
  let ?P = "\<lambda>s' i. \<exists>h x. s' = s\<lparr>links := h, ss := x\<rparr> \<and> wf_links h \<and> dll h (sfreeL x) (map LSemA [0..<i])
    \<and> (\<forall>k. k \<notin> range LSemA \<union> range LSemL \<longrightarrow> h k = links s k)
    \<and> (\<forall>j<i. sm_index (sem x j) = int j \<and> sm_owner (sem x j) = HARDWARE \<and> sm_name (sem x j) = ''FREE'')"
  have "\<exists>s'. MRT_spool_init s = Inr s' \<and> ?P s' NR_SEM"
    unfolding MRT_spool_init_def
  proof (rule foldM_upt[where P = ?P])
    show "?P (ss_update (sfreeL_update MRT_list_rst) s) 0"
      using assms by - (rule exI[of _ "links s"], rule exI[of _ "sfreeL_update MRT_list_rst (ss s)"], simp add: dll_rst)
  next
    fix i s' assume "?P s' i"
    then obtain h x where e: "s' = s\<lparr>links := h, ss := x\<rparr>" and r: "wf_links h" "dll h (sfreeL x) (map LSemA [0..<i])"
      "\<forall>k. k \<notin> range LSemA \<union> range LSemL \<longrightarrow> h k = links s k"
      "\<forall>j<i. sm_index (sem x j) = int j \<and> sm_owner (sem x j) = HARDWARE \<and> sm_name (sem x j) = ''FREE''" by blast
    let ?h = "MRT_link_rst (LSemL i) (OSem i) MRT_OBJSEM (MRT_link_rst (LSemA i) (OSem i) MRT_OBJSEM h)"
    have com: "?h = MRT_link_rst (LSemA i) (OSem i) MRT_OBJSEM (MRT_link_rst (LSemL i) (OSem i) MRT_OBJSEM h)"
      by (simp add: MRT_link_rst_def fun_upd_twist)
    let ?g = "MRT_link_rst (LSemL i) (OSem i) MRT_OBJSEM h"
    have g: "wf_links ?g" "lk_this (?g (LSemA i)) = Some (OSem i)"
      using r(1) by (auto simp: wf_links_def MRT_link_rst_def)
    have "dll ?g (sfreeL x) (map LSemA [0..<i])" using r(2) by (rule dll_rst_other) auto
    then obtain h' l' where "MRT_list_app ?h (sfreeL x) (LSemA i) = Inr (h', l')"
      "dll h' l' (map LSemA [0..<Suc i])" "wf_links h'" "\<forall>k. k \<notin> range LSemA \<longrightarrow> h' k = ?g k"
      unfolding com using fill_step[OF _ inj_links(4) g] by blast
    moreover have "?g k = h k" if "k \<notin> range LSemL" for k
      using that by (intro link_rst_frame_other) auto
    ultimately show "\<exists>s''. (let s = upd_sem i (sm_index_update (\<lambda>_. int i)) s'; s = MRT_sem_rst i s
        in with_sfreeL (\<lambda>h l. MRT_list_app h l (LSemA i)) s) = Inr s'' \<and> ?P s'' (Suc i)"
      using r e
      by (simp add: with_sfreeL_def MRT_sem_rst_def Let_def comp_def) (intro exI conjI, rule refl, simp_all add: less_Suc_eq)
  qed
  then show ?thesis by auto
qed

subsection \<open>Allocating and starting a timer\<close>

lemma VTALLOC_ok:
  assumes d: "dll (links s) (freeQ (tm s)) (map LVT (v # fs))" and wf: "wf_links (links s)"
    and per: "0 < per" "per \<le> MRT_MAXPER" and act: "0 \<le> act" "act \<le> 13"
  shows "\<exists>h x. VTALLOC per lim act par own pty s = Inr (Some v, s\<lparr>links := h, tm := x\<rparr>) \<and> dll h (freeQ x) (map LVT fs)
    \<and> heap_frame (LVT ` set (v # fs)) (links s) h \<and> actQ x = actQ (tm s) \<and> expQ x = expQ (tm s)
    \<and> (\<forall>w. w \<noteq> v \<longrightarrow> vtimer x w = VT s w)
    \<and> vt_period (vtimer x v) = per \<and> vt_action (vtimer x v) = act \<and> vt_param (vtimer x v) = par
    \<and> vt_priority (vtimer x v) = pty"
proof -
  obtain h l where hl: "MRT_list_rmv (links s) (freeQ (tm s)) (LVT v) = Inr (h, l)" "dll h l (map LVT fs)"
    "heap_frame (LVT ` set (v # fs)) (links s) h" using MRT_list_rmv_ok[OF d, of "LVT v"] by auto
  have "lk_this (h (LVT v)) = Some (OVT v)"
    using wf wf_links_frame[OF hl(3)] by (simp add: wf_links_def)
  moreover have "ls_inQ (freeQ (tm s)) \<noteq> 0" "ls_first (freeQ (tm s)) = Some (LVT v)"
    using dll_inQ[OF d] d by (auto simp: dll_def)
  ultimately show ?thesis
    using hl per act
    by - (rule exI[of _ h], rule exI[of _ "vtimer_update (\<lambda>m. m(v := (m v)\<lparr>vt_owner := own, vt_priority := pty,
        vt_period := per, vt_limit := lim, vt_action := act, vt_param := par, vt_flags := VT_ALLOC\<rparr>)) ((tm s)\<lparr>freeQ := l\<rparr>)"],
      simp add: VTALLOC_def MRT_vtimer_alloc_def with_freeQ_def word_neq_0_conv not_less comp_def)
qed

lemma VTALLOC_refuses: "per = 0 \<or> per > MRT_MAXPER \<Longrightarrow> VTALLOC per lim act par own pty s = Inr (None, s)"
  by (auto simp: VTALLOC_def MRT_vtimer_alloc_def)

text \<open>Starting a timer changes the links and the timers only, and of the timers only their place in the queue.\<close>

lemma vtimer_ins_frame:
  assumes "MRT_vtimer_ins v s = Inr s'"
  shows "\<exists>h x. s' = s\<lparr>links := h, tm := x\<rparr> \<and> freeQ x = freeQ (tm s) \<and> expQ x = expQ (tm s)
    \<and> (\<forall>w. vt_param (vtimer x w) = vt_param (VT s w) \<and> vt_action (vtimer x w) = vt_action (VT s w)
        \<and> vt_period (vtimer x w) = vt_period (VT s w) \<and> vt_priority (vtimer x w) = vt_priority (VT s w))"
proof -
  have "s' = s\<lparr>links := links s', tm := tm s'\<rparr> \<and> freeQ (tm s') = freeQ (tm s) \<and> expQ (tm s') = expQ (tm s)
    \<and> (\<forall>w. vt_param (VT s' w) = vt_param (VT s w) \<and> vt_action (VT s' w) = vt_action (VT s w)
        \<and> vt_period (VT s' w) = vt_period (VT s w) \<and> vt_priority (VT s' w) = vt_priority (VT s w))"
    using assms
    by (auto simp: MRT_vtimer_ins_def vtimer_ins_middle_def with_actQ_def Let_def bnd_eq_Inr comp_def split: if_splits)
  then show ?thesis by blast
qed

subsection \<open>The loop over the interrupt descriptors\<close>

lemma fold_set2_above:
  "bit (fold (\<lambda>r m. m(r := SET_BIT (SET_BIT (m r) (push_bit irq 1)) (push_bit c 1))) [p..<n] m q) i
     \<longleftrightarrow> bit (m q :: u32) i \<or> (p \<le> q \<and> q < n \<and> (i = irq \<or> i = c))" if "irq < 32" "c < 32"
proof (induction n)
  case (Suc n)
  then show ?case
    using that by (cases "p \<le> n") (auto simp: push_bit_of_1 bit_SET_BIT_pow less_Suc_eq)
qed simp

lemma bit_restart_masks:
  assumes "irq < 32"
  shows "bit (restart_masks irq p m q) i
     \<longleftrightarrow> bit (m q) i \<or> (q = p \<and> (\<exists>r<p. bit (m r) i)) \<or> (p \<le> q \<and> q < MRT_NR_PRTY \<and> (i = irq \<or> i = CASCADE_IRQ))"
proof -
  have c: "CASCADE_IRQ < 32" by simp
  show ?thesis
    by (simp only: restart_masks_def Let_def fold_set2_above[OF assms c] fold_or_below[OF order_refl] disj_assoc)
qed

text \<open>
  The descriptors in use, those of them that a timer drives, the period such a descriptor gets, and the
  condition under which a restart can serve a descriptor.
\<close>

definition irq_used :: "kstate \<Rightarrow> nat \<Rightarrow> bool" where
  "irq_used s i \<longleftrightarrow> (if i < NR_IRQ_VECTORS then \<not> bit (real_PIC (sv s)) i else bit (soft_use (si s)) (i - NR_IRQ_VECTORS))"

definition irq_timed :: "kstate \<Rightarrow> nat \<Rightarrow> bool" where
  "irq_timed s i \<longleftrightarrow> irq_used s i \<and> TEST_BIT (iq_irqtype (IRQD s i)) MRT_TDIRQ"

definition new_period :: "u32 \<Rightarrow> irqd_t \<Rightarrow> u32" where
  "new_period h d = (if TEST_BIT (iq_irqtype d) MRT_RELATPER then iq_period d else iq_period d * h div iq_harmonic d)"

definition restartable :: "u32 \<Rightarrow> kstate \<Rightarrow> nat \<Rightarrow> bool" where
  "restartable h s i \<longleftrightarrow>
     (irq_used s i \<longrightarrow> i < NR_IRQ_VECTORS \<longrightarrow> unat (iq_priority (IRQD s i)) < MRT_NR_PRTY) \<and>
     (irq_timed s i \<longrightarrow> iq_harmonic (IRQD s i) \<noteq> 0 \<and> 0 < new_period h (IRQD s i) \<and> new_period h (IRQD s i) \<le> MRT_MAXPER)"

text \<open>What the loop has established after \<open>n\<close> descriptors, when it started from \<open>s0\<close>.\<close>

definition line_enabled :: "kstate \<Rightarrow> nat \<Rightarrow> nat \<Rightarrow> nat \<Rightarrow> bool" where
  "line_enabled s n q i \<longleftrightarrow>
     (\<exists>j<n. j < NR_IRQ_VECTORS \<and> irq_used s j \<and> unat (iq_priority (IRQD s j)) \<le> q \<and> (i = j \<or> i = CASCADE_IRQ))"

definition has_timer :: "u32 \<Rightarrow> kstate \<Rightarrow> kstate \<Rightarrow> (nat \<times> nat) list \<Rightarrow> nat \<Rightarrow> bool" where
  "has_timer h s0 s xs j \<longleftrightarrow>
     (\<exists>v. iq_pvt (IRQD s j) = Some v \<and> (v, unat (new_period h (IRQD s0 j))) \<in> set xs
        \<and> vt_action (VT s v) = MRT_ACT_IRQTRIG \<and> vt_param (VT s v) = int j
        \<and> vt_priority (VT s v) = iq_priority (IRQD s0 j))"

definition timers_set :: "u32 \<Rightarrow> kstate \<Rightarrow> nat \<Rightarrow> kstate \<Rightarrow> bool" where
  "timers_set h s0 n s \<longleftrightarrow>
     (\<exists>xs fs. act_rep s xs \<and> dll (links s) (freeQ (tm s)) (map LVT fs) \<and> set fs \<inter> fst ` set xs = {}
        \<and> length xs + length fs = NR_VTIMERS \<and> length xs = length (filter (irq_timed s0) [0..<n])
        \<and> (\<forall>j<n. irq_timed s0 j \<longrightarrow> has_timer h s0 s xs j))"

definition same_but :: "kstate \<Rightarrow> kstate \<Rightarrow> bool" where
  "same_but s0 s \<longleftrightarrow> s = s0\<lparr>links := links s, tm := tm s, si := si s\<rparr> \<and> soft_use (si s) = soft_use (si s0)
     \<and> hard_use (si s) = hard_use (si s0) \<and> irqQ (si s) = irqQ (si s0) \<and> mnxQ (si s) = mnxQ (si s0)
     \<and> expQ (tm s) = expQ (tm s0) \<and> wf_links (links s)"

definition restarted :: "u32 \<Rightarrow> kstate \<Rightarrow> nat \<Rightarrow> kstate \<Rightarrow> bool" where
  "restarted h s0 n s \<longleftrightarrow> same_but s0 s \<and> (\<forall>j\<ge>n. IRQD s j = IRQD s0 j) \<and> timers_set h s0 n s
     \<and> (\<forall>q<MRT_NR_PRTY. \<forall>i. bit (irqmask (si s) q) i \<longleftrightarrow> line_enabled s0 n q i)"

lemma same_butD:
  assumes "same_but s0 s"
  shows "sv s = sv s0" "soft_use (si s) = soft_use (si s0)" "wf_links (links s)"
  using assms by (cases s, cases s0, auto simp: same_but_def)+

lemma irq_used_same: "same_but s0 s \<Longrightarrow> irq_used s i = irq_used s0 i"
  by (simp add: irq_used_def same_butD)

lemma line_enabled_mono: "line_enabled s n q i \<Longrightarrow> q \<le> q' \<Longrightarrow> line_enabled s n q' i"
  unfolding line_enabled_def by (blast intro: order_trans)

lemma line_enabled_Suc:
  "line_enabled s (Suc n) q i \<longleftrightarrow> line_enabled s n q i
     \<or> (n < NR_IRQ_VECTORS \<and> irq_used s n \<and> unat (iq_priority (IRQD s n)) \<le> q \<and> (i = n \<or> i = CASCADE_IRQ))"
  unfolding line_enabled_def less_Suc_eq by blast

lemma exp_ins_set: "set (exp_ins v p xs) = insert (v, p) (set xs)"
proof -
  have "set xs = set (takeWhile (\<lambda>x. snd x \<le> p) xs @ dropWhile (\<lambda>x. snd x \<le> p) xs)" by simp
  then show ?thesis by (simp add: exp_ins_def del: takeWhile_dropWhile_id)
qed

lemma exp_ins_length: "length (exp_ins v p xs) = Suc (length xs)"
proof -
  have "length xs = length (takeWhile (\<lambda>x. snd x \<le> p) xs @ dropWhile (\<lambda>x. snd x \<le> p) xs)" by simp
  then show ?thesis by (simp add: exp_ins_def del: takeWhile_dropWhile_id)
qed

lemma same_but_trans: "same_but s0 s \<Longrightarrow> same_but s s' \<Longrightarrow> same_but s0 s'"
  by (cases s0, cases s, cases s') (auto simp: same_but_def)

lemma act_rep_cong:
  assumes "act_rep s xs" "actQ (tm s') = actQ (tm s)"
    and eq: "\<And>v. v \<in> fst ` set xs \<Longrightarrow> VT s' v = VT s v \<and> links s' (LVT v) = links s (LVT v)"
  shows "act_rep s' xs"
proof -
  have "dll (links s') (aq_list (actQ (tm s))) (vlinks xs)"
    using assms(1) eq by (intro dll_cong[of "vlinks xs" "links s'" "links s"]) (auto simp: act_rep_def)
  moreover have "vt_nextexp (VT s' (fst x)) = vt_nextexp (VT s (fst x))" if "x \<in> set (butlast xs)" for x
    using eq[of "fst x"] in_set_butlastD[OF that] by simp
  then have "dq (vtimer (tm s')) xs"
    using assms(1) dq_cong[of xs "vtimer (tm s')" "vtimer (tm s)"] by (simp add: act_rep_def)
  ultimately show ?thesis using assms(1,2) by (simp add: act_rep_def)
qed

lemma timers_set_cong:
  assumes t: "timers_set h s0 n s" and tm: "tm s' = tm s" and lk: "\<And>v. links s' (LVT v) = links s (LVT v)"
    and p: "\<And>j. j < n \<Longrightarrow> iq_pvt (IRQD s' j) = iq_pvt (IRQD s j)"
  shows "timers_set h s0 n s'"
proof -
  obtain xs fs where x: "act_rep s xs" "dll (links s) (freeQ (tm s)) (map LVT fs)" "set fs \<inter> fst ` set xs = {}"
    "length xs + length fs = NR_VTIMERS" "length xs = length (filter (irq_timed s0) [0..<n])"
    "\<forall>j<n. irq_timed s0 j \<longrightarrow> has_timer h s0 s xs j"
    using t unfolding timers_set_def by blast
  have "dll (links s') (freeQ (tm s')) (map LVT fs)"
    unfolding tm by (rule dll_cong[OF _ x(2)]) (auto simp: lk)
  moreover have "has_timer h s0 s' xs j" if "j < n" "irq_timed s0 j" for j
    using x(6) that p[of j] tm unfolding has_timer_def by simp
  ultimately show ?thesis
    unfolding timers_set_def using act_rep_cong[OF x(1)] tm lk x(3-5) by metis
qed

lemma timers_set_skip: "\<not> irq_timed s0 n \<Longrightarrow> timers_set h s0 n s \<Longrightarrow> timers_set h s0 (Suc n) s"
  unfolding timers_set_def less_Suc_eq by auto

text \<open>Taking a timer from the free list and starting it.\<close>

lemma start_timer_ok:
  assumes rep: "act_rep s xs" and d: "dll (links s) (freeQ (tm s)) (map LVT (v # vs))" and wf: "wf_links (links s)"
    and disj: "set (v # vs) \<inter> fst ` set xs = {}" and len: "length xs \<le> NR_VTIMERS"
    and per: "0 < per" "per \<le> MRT_MAXPER" and act: "0 \<le> act" "act \<le> 13"
  shows "\<exists>s1 h x. VTALLOC per lim act par own pty s = Inr (Some v, s1) \<and> MRT_vtimer_ins v s1 = Inr (s\<lparr>links := h, tm := x\<rparr>)
    \<and> act_rep (s\<lparr>links := h, tm := x\<rparr>) (exp_ins v (unat per) xs) \<and> wf_links h \<and> dll h (freeQ x) (map LVT vs) \<and> expQ x = expQ (tm s)
    \<and> vt_action (vtimer x v) = act \<and> vt_param (vtimer x v) = par \<and> vt_priority (vtimer x v) = pty
    \<and> (\<forall>w. w \<noteq> v \<longrightarrow> vt_action (vtimer x w) = vt_action (VT s w) \<and> vt_param (vtimer x w) = vt_param (VT s w)
          \<and> vt_priority (vtimer x w) = vt_priority (VT s w))"
proof -
  obtain h2 x2 where a: "VTALLOC per lim act par own pty s = Inr (Some v, s\<lparr>links := h2, tm := x2\<rparr>)" "dll h2 (freeQ x2) (map LVT vs)"
      "heap_frame (LVT ` set (v # vs)) (links s) h2" "actQ x2 = actQ (tm s)" "expQ x2 = expQ (tm s)"
      "\<forall>w. w \<noteq> v \<longrightarrow> vtimer x2 w = VT s w" "vt_period (vtimer x2 v) = per" "vt_action (vtimer x2 v) = act"
      "vt_param (vtimer x2 v) = par" "vt_priority (vtimer x2 v) = pty"
    using VTALLOC_ok[OF d wf per act] by blast
  let ?s2 = "s\<lparr>links := h2, tm := x2\<rparr>"
  have wf2: "wf_links (links ?s2)" using wf_links_frame[OF a(3)] wf by simp
  have v: "v \<notin> set vs" "v \<notin> fst ` set xs" using dll_distinct[OF d] disj by (auto simp: distinct_map)
  have old: "w \<noteq> v \<and> w \<notin> set vs" if "w \<in> fst ` set xs" for w using that disj by auto
  have h2: "h2 (LVT w) = links s (LVT w)" if "w \<in> fst ` set xs" for w
    using a(3) old[OF that] by (auto simp: heap_frame_def)
  have rep2: "act_rep ?s2 xs" by (rule act_rep_cong[OF rep]) (use a(4,6) h2 old in auto)
  obtain s3 where i: "MRT_vtimer_ins v ?s2 = Inr s3" "act_rep s3 (exp_ins v (unat per) xs)"
    "heap_frame (insert (LVT v) (set (vlinks xs))) h2 (links s3)"
    using MRT_vtimer_ins_ok[OF rep2 v(2) wf2 len] a(7) by auto
  obtain h3 x3 where s3: "s3 = s\<lparr>links := h3, tm := x3\<rparr>" "freeQ x3 = freeQ x2" "expQ x3 = expQ x2"
    "\<forall>w. vt_param (vtimer x3 w) = vt_param (vtimer x2 w) \<and> vt_action (vtimer x3 w) = vt_action (vtimer x2 w)
        \<and> vt_period (vtimer x3 w) = vt_period (vtimer x2 w) \<and> vt_priority (vtimer x3 w) = vt_priority (vtimer x2 w)"
    using vtimer_ins_frame[OF i(1)] by auto
  have h3: "heap_frame (insert (LVT v) (set (vlinks xs))) h2 h3" using i(3) s3(1) by simp
  have "set (map LVT vs) \<inter> insert (LVT v) (set (vlinks xs)) = {}" using v disj by auto
  then have free: "dll h3 (freeQ x3) (map LVT vs)" using dll_frame[OF a(2) h3] s3(2) by simp
  have "wf_links h3" using wf_links_frame[OF h3] wf2 by simp
  then show ?thesis using a(1,5,6,8-10) i(1,2) s3 free by (metis (no_types))
qed

lemma restart_timed_ok:
  assumes t: "timers_set h s0 n s" and wf: "wf_links (links s)" and timed: "irq_timed s0 n" and ok: "restartable h s0 n"
    and same: "iq_period (IRQD s n) = iq_period (IRQD s0 n)" "iq_harmonic (IRQD s n) = iq_harmonic (IRQD s0 n)"
      "iq_irqtype (IRQD s n) = iq_irqtype (IRQD s0 n)" "iq_priority (IRQD s n) = iq_priority (IRQD s0 n)"
    and h: "m_u m 1 = h" and room: "length (filter (irq_timed s0) [0..<n]) < NR_VTIMERS"
  shows "\<exists>s'. restart_timed m n s = Inr s' \<and> timers_set h s0 (Suc n) s' \<and> same_but s s'
    \<and> irqmask (si s') = irqmask (si s) \<and> (\<forall>j. j \<noteq> n \<longrightarrow> IRQD s' j = IRQD s j)"
proof -
  obtain xs fs where x: "act_rep s xs" "dll (links s) (freeQ (tm s)) (map LVT fs)" "set fs \<inter> fst ` set xs = {}"
    "length xs + length fs = NR_VTIMERS" "length xs = length (filter (irq_timed s0) [0..<n])"
    "\<forall>j<n. irq_timed s0 j \<longrightarrow> has_timer h s0 s xs j"
    using t unfolding timers_set_def by blast
  obtain v vs where fs: "fs = v # vs" using x(4,5) room by (cases fs) auto
  let ?per = "new_period h (IRQD s0 n)"
  let ?s1 = "upd_irqd n (\<lambda>q. q\<lparr>iq_period := ?per, iq_harmonic := h\<rparr>) s"
  have per: "0 < ?per" "?per \<le> MRT_MAXPER" and hz: "iq_harmonic (IRQD s0 n) \<noteq> 0"
    using ok timed by (auto simp: restartable_def)
  have v: "v \<notin> fst ` set xs" "length xs \<le> NR_VTIMERS" using x(3,4) fs by auto
  have "act_rep ?s1 xs" by (rule act_rep_cong[OF x(1)]) auto
  then obtain s2 h3 x3 where a: "VTALLOC ?per 0 MRT_ACT_IRQTRIG (int n) HARDWARE (iq_priority (IRQD s0 n)) ?s1 = Inr (Some v, s2)"
    "MRT_vtimer_ins v s2 = Inr (?s1\<lparr>links := h3, tm := x3\<rparr>)" "act_rep (?s1\<lparr>links := h3, tm := x3\<rparr>) (exp_ins v (unat ?per) xs)"
    "wf_links h3" "dll h3 (freeQ x3) (map LVT vs)" "expQ x3 = expQ (tm s)" "vt_action (vtimer x3 v) = MRT_ACT_IRQTRIG"
    "vt_param (vtimer x3 v) = int n" "vt_priority (vtimer x3 v) = iq_priority (IRQD s0 n)"
    "\<forall>w. w \<noteq> v \<longrightarrow> vt_action (vtimer x3 w) = vt_action (VT s w) \<and> vt_param (vtimer x3 w) = vt_param (VT s w)
          \<and> vt_priority (vtimer x3 w) = vt_priority (VT s w)"
    using start_timer_ok[of ?s1 xs v vs ?per MRT_ACT_IRQTRIG 0 "int n" HARDWARE "iq_priority (IRQD s0 n)"] x(2,3) fs wf v(2) per by auto
  let ?s4 = "upd_irqd n (iq_pvt_update (\<lambda>_. Some v)) (?s1\<lparr>links := h3, tm := x3\<rparr>)"
  have run: "restart_timed m n s = Inr ?s4"
    using a(1,2) hz same h by (simp add: restart_timed_def Let_def new_period_def split: if_splits)
  have rep4: "act_rep ?s4 (exp_ins v (unat ?per) xs)" by (rule act_rep_cong[OF a(3)]) auto
  have keep: "has_timer h s0 ?s4 (exp_ins v (unat ?per) xs) j" if "j < n" "irq_timed s0 j" for j
  proof -
    obtain w where w: "iq_pvt (IRQD s j) = Some w" "(w, unat (new_period h (IRQD s0 j))) \<in> set xs"
      "vt_action (VT s w) = MRT_ACT_IRQTRIG" "vt_param (VT s w) = int j" "vt_priority (VT s w) = iq_priority (IRQD s0 j)"
      using x(6) \<open>j < n\<close> \<open>irq_timed s0 j\<close> unfolding has_timer_def by blast
    moreover have "w \<noteq> v" using w(2) v(1) by force
    ultimately show ?thesis using a(10) \<open>j < n\<close> unfolding has_timer_def by (simp add: exp_ins_set)
  qed
  have own: "has_timer h s0 ?s4 (exp_ins v (unat ?per) xs) n"
    unfolding has_timer_def using a(7-9) by (simp add: exp_ins_set)
  have "timers_set h s0 (Suc n) ?s4"
    unfolding timers_set_def
    by (rule exI[of _ "exp_ins v (unat ?per) xs"], rule exI[of _ vs])
       (use rep4 a(5) x(2-5) fs timed keep own v dll_distinct[OF x(2)] in \<open>auto simp: exp_ins_set exp_ins_length less_Suc_eq distinct_map\<close>)
  moreover have "same_but s ?s4" using a(4,6) by (cases s) (simp add: same_but_def)
  ultimately show ?thesis using run by (intro exI[of _ ?s4]) simp
qed

lemma irqd_clr_keeps:
  assumes "wf_links (links s)"
  shows "same_but s (MRT_irqd_clr d s)" "irqmask (si (MRT_irqd_clr d s)) = irqmask (si s)"
    "tm (MRT_irqd_clr d s) = tm s" "links (MRT_irqd_clr d s) (LVT v) = links s (LVT v)"
    "j \<noteq> d \<Longrightarrow> IRQD (MRT_irqd_clr d s) j = IRQD s j"
    "iq_period (IRQD (MRT_irqd_clr d s) d) = iq_period (IRQD s d)"
    "iq_harmonic (IRQD (MRT_irqd_clr d s) d) = iq_harmonic (IRQD s d)"
    "iq_irqtype (IRQD (MRT_irqd_clr d s) d) = iq_irqtype (IRQD s d)"
    "iq_priority (IRQD (MRT_irqd_clr d s) d) = iq_priority (IRQD s d)"
    "iq_pvt (IRQD (MRT_irqd_clr d s) j) = iq_pvt (IRQD s j)"
proof -
  have "wf_links (MRT_link_rst (LIrqd d) (OIrqd d) MRT_OBJIRQD (links s))"
    using assms by (intro wf_links_rst) (auto simp: wf_links_def)
  then show "same_but s (MRT_irqd_clr d s)"
    by (cases s) (simp add: same_but_def MRT_irqd_clr_def irqd_clrstat_def)
qed (simp_all add: MRT_irqd_clr_def irqd_clrstat_def Let_def link_rst_frame_other)

lemma masks_restarted:
  assumes m: "\<forall>q<MRT_NR_PRTY. \<forall>i. bit (msk q) i \<longleftrightarrow> line_enabled s n q i"
    and n: "n < NR_IRQ_VECTORS" "irq_used s n" "unat (iq_priority (IRQD s n)) < MRT_NR_PRTY" and q: "q < MRT_NR_PRTY"
  shows "bit (restart_masks n (unat (iq_priority (IRQD s n))) msk q) i \<longleftrightarrow> line_enabled s (Suc n) q i"
proof -
  let ?p = "unat (iq_priority (IRQD s n))"
  have "n < 32" using n(1) by simp
  have low: "bit (msk r) i \<Longrightarrow> r < ?p \<Longrightarrow> line_enabled s n ?p i" for r
    using m n(3) by (meson line_enabled_mono less_imp_le less_trans)
  show ?thesis
    unfolding bit_restart_masks[OF \<open>n < 32\<close>] line_enabled_Suc using m q n low by (metis)
qed

lemma restart_irqd_skip:
  assumes "restarted h s0 n s" "\<not> irq_used s0 n" "n < NR_IRQ_VECTORS + NR_IRQ_SOFT"
  shows "restart_irqd m n s = Inr s \<and> restarted h s0 (Suc n) s"
proof -
  have sb: "same_but s0 s" and r: "timers_set h s0 n s" "\<forall>j\<ge>n. IRQD s j = IRQD s0 j"
    "\<forall>q<MRT_NR_PRTY. \<forall>i. bit (irqmask (si s) q) i \<longleftrightarrow> line_enabled s0 n q i"
    using assms(1) by (auto simp: restarted_def)
  have "restart_irqd m n s = Inr s"
    using assms(2,3) same_butD[OF sb]
    by (simp add: restart_irqd_def irq_used_def push_bit_of_1 TEST_BIT_pow bit_not_iff split: if_splits)
  moreover have "\<not> irq_timed s0 n" using assms(2) by (simp add: irq_timed_def)
  ultimately show ?thesis
    using sb r timers_set_skip assms(2) by (simp add: restarted_def line_enabled_Suc)
qed

lemma restart_irqd_ok:
  assumes st: "restarted h s0 n s" and used: "irq_used s0 n" and n: "n < NR_IRQ_VECTORS + NR_IRQ_SOFT"
    and ok: "restartable h s0 n" and h: "m_u m 1 = h"
    and room: "length (filter (irq_timed s0) [0..<Suc n]) \<le> NR_VTIMERS"
  shows "\<exists>s'. restart_irqd m n s = Inr s' \<and> restarted h s0 (Suc n) s'"
proof -
  have sb: "same_but s0 s" and r: "timers_set h s0 n s" "\<forall>j\<ge>n. IRQD s j = IRQD s0 j"
    "\<forall>q<MRT_NR_PRTY. \<forall>i. bit (irqmask (si s) q) i \<longleftrightarrow> line_enabled s0 n q i"
    using st by (auto simp: restarted_def)
  define s1 where "s1 = (if n < NR_IRQ_VECTORS
     then si_update (irqmask_update (restart_masks n (unat (iq_priority (IRQD s0 n))))) s else s)"
  define s2 where "s2 = MRT_irqd_clr n s1"
  have s1: "same_but s s1" "tm s1 = tm s" "links s1 = links s" "irqtab (si s1) = irqtab (si s)"
    using same_butD(3)[OF sb] by (cases s; simp add: s1_def same_but_def)+
  have wf1: "wf_links (links s1)" using same_butD(3)[OF s1(1)] .
  note c = irqd_clr_keeps[OF wf1, where d = n, folded s2_def]
  have sb2: "same_but s0 s2" using same_but_trans[OF same_but_trans[OF sb s1(1)] c(1)] .
  have tab: "j \<noteq> n \<Longrightarrow> IRQD s2 j = IRQD s j" for j using c(5) s1(4) by simp
  have masks: "bit (irqmask (si s2) q) i \<longleftrightarrow> line_enabled s0 (Suc n) q i" if "q < MRT_NR_PRTY" for q i
  proof (cases "n < NR_IRQ_VECTORS")
    case True
    then have "unat (iq_priority (IRQD s0 n)) < MRT_NR_PRTY" using ok used by (simp add: restartable_def)
    with masks_restarted[OF r(3) True used _ that] True show ?thesis by (simp add: c(2) s1_def)
  next
    case False
    then show ?thesis using r(3) that by (simp add: c(2) s1_def line_enabled_Suc)
  qed
  have t2: "timers_set h s0 n s2"
    by (rule timers_set_cong[OF r(1)]) (use c(3,4) s1 tab in auto)
  have same: "iq_period (IRQD s2 n) = iq_period (IRQD s0 n)" "iq_harmonic (IRQD s2 n) = iq_harmonic (IRQD s0 n)"
    "iq_irqtype (IRQD s2 n) = iq_irqtype (IRQD s0 n)" "iq_priority (IRQD s2 n) = iq_priority (IRQD s0 n)"
    using c(6-9) s1(4) r(2) by simp_all
  have prio: "n < NR_IRQ_VECTORS \<Longrightarrow> unat (iq_priority (IRQD s0 n)) < MRT_NR_PRTY"
    using ok used by (simp add: restartable_def)
  have s2: "n < NR_IRQ_VECTORS \<Longrightarrow> MRT_irqd_clr n (si_update (irqmask_update (restart_masks n (unat (iq_priority (IRQD s0 n))))) s) = s2"
    "\<not> n < NR_IRQ_VECTORS \<Longrightarrow> MRT_irqd_clr n s = s2"
    by (simp_all add: s2_def s1_def)
  have run: "restart_irqd m n s = (if irq_timed s0 n then restart_timed m n s2 else Inr s2)"
    using used n prio same_butD(1,2)[OF sb] same(3) r(2)
    by (simp add: restart_irqd_def irq_used_def irq_timed_def push_bit_of_1 TEST_BIT_pow bit_not_iff Let_def s2
        split: if_splits)
  show ?thesis
  proof (cases "irq_timed s0 n")
    case True
    have "length (filter (irq_timed s0) [0..<n]) < NR_VTIMERS" using room True by simp
    from restart_timed_ok[OF t2 same_butD(3)[OF sb2] True ok same h this] obtain s' where
      s': "restart_timed m n s2 = Inr s'" "timers_set h s0 (Suc n) s'" "same_but s2 s'"
        "irqmask (si s') = irqmask (si s2)" "\<forall>j. j \<noteq> n \<longrightarrow> IRQD s' j = IRQD s2 j" by blast
    then show ?thesis
      using run True masks tab r(2) same_but_trans[OF sb2 s'(3)] by (auto simp: restarted_def)
  next
    case False
    then show ?thesis
      using run masks tab r(2) sb2 timers_set_skip[OF False t2] by (auto simp: restarted_def)
  qed
qed

lemma restart_loop_ok:
  assumes start: "restarted h s0 0 s0" and ok: "\<forall>i<n. restartable h s0 i" and h: "m_u m 1 = h"
    and room: "length (filter (irq_timed s0) [0..<n]) \<le> NR_VTIMERS" and n: "n \<le> NR_IRQ_VECTORS + NR_IRQ_SOFT"
  shows "\<exists>s. foldM (restart_irqd m) [0..<n] s0 = Inr s \<and> restarted h s0 n s"
proof (rule foldM_upt[where P = "\<lambda>s i. restarted h s0 i s"])
  fix i s assume s: "restarted h s0 i s" and i: "i < n"
  have "[0..<n] = [0..<Suc i] @ [Suc i..<n]" using upt_add_eq_append[of 0 "Suc i" "n - Suc i"] i by simp
  then have "length (filter (irq_timed s0) [0..<Suc i]) \<le> length (filter (irq_timed s0) [0..<n])" by simp
  then have room': "length (filter (irq_timed s0) [0..<Suc i]) \<le> NR_VTIMERS" using room by linarith
  have i32: "i < NR_IRQ_VECTORS + NR_IRQ_SOFT" using i n by simp
  show "\<exists>s'. restart_irqd m i s = Inr s' \<and> restarted h s0 (Suc i) s'"
  proof (cases "irq_used s0 i")
    case True
    show ?thesis using restart_irqd_ok[OF s True i32 _ h room'] ok i by blast
  next
    case False
    show ?thesis using restart_irqd_skip[OF s False i32] by blast
  qed
qed (rule start)

subsection \<open>The steps around the loop\<close>

lemma proc_rsts_frame:
  assumes "wf_links (links s)"
  shows "\<exists>h f. fold MRT_proc_rst ps s = s\<lparr>links := h, procs := f\<rparr> \<and> wf_links h \<and> (\<forall>k. k \<notin> range LProc \<longrightarrow> h k = links s k)"
  using assms
proof (induction ps arbitrary: s)
  case Nil
  show ?case using Nil by - (rule exI[of _ "links s"], rule exI[of _ "procs s"], simp)
next
  case (Cons p ps)
  let ?s = "MRT_proc_rst p s"
  have wf: "wf_links (links ?s)"
    using Cons.prems by (simp add: MRT_proc_rst_def MRT_pstat_rst_def MRT_pattr_rst_def Let_def) (intro wf_links_rst, auto simp: wf_links_def)
  have fr: "?s = s\<lparr>links := links ?s, procs := procs ?s\<rparr>" "\<forall>k. k \<notin> range LProc \<longrightarrow> links ?s k = links s k"
    by (cases s, simp add: MRT_proc_rst_def MRT_pstat_rst_def MRT_pattr_rst_def Let_def)
       (auto simp: MRT_proc_rst_def MRT_pstat_rst_def MRT_pattr_rst_def Let_def MRT_link_rst_def)
  from Cons.IH[OF wf] obtain h f where hf: "fold MRT_proc_rst ps ?s = ?s\<lparr>links := h, procs := f\<rparr>" "wf_links h"
    "\<forall>k. k \<notin> range LProc \<longrightarrow> h k = links ?s k" by blast
  have "?s\<lparr>links := h, procs := f\<rparr> = s\<lparr>links := h, procs := f\<rparr>" by (subst fr(1)) simp
  with hf fr(2) show ?case by auto
qed

text \<open>
  What the loop over the descriptors sees of the state before the request: the mask that the interrupt
  controller reports and the period of the idle timer, which follows a changed refresh count.
\<close>

definition restart_view :: "message \<Rightarrow> kstate \<Rightarrow> kstate" where
  "restart_view m s = sv_update (real_PIC_update (\<lambda>_. fst (MRT_get_PIC s)))
     (if refresh (sv s) \<noteq> m_u m 2
      then upd_irqd (nat (IDLE_soft (sv s))) (iq_period_update (\<lambda>_. m_u m 2 * harmonic (sv s) div m_u m 1)) s else s)"

definition irq_same :: "kstate \<Rightarrow> kstate \<Rightarrow> bool" where
  "irq_same s t \<longleftrightarrow> real_PIC (sv s) = real_PIC (sv t) \<and> soft_use (si s) = soft_use (si t) \<and> irqtab (si s) = irqtab (si t)"

lemma irq_same_cong:
  assumes "irq_same s t"
  shows "irq_used s = irq_used t" "irq_timed s = irq_timed t" "restartable h s = restartable h t"
    "line_enabled s = line_enabled t" "timers_set h s = timers_set h t"
proof -
  show u: "irq_used s = irq_used t" using assms by (auto simp: irq_used_def irq_same_def fun_eq_iff)
  show tm: "irq_timed s = irq_timed t" using assms u by (auto simp: irq_timed_def irq_same_def fun_eq_iff)
  show "restartable h s = restartable h t" using assms u tm by (auto simp: restartable_def irq_same_def fun_eq_iff)
  show "line_enabled s = line_enabled t" using assms u by (auto simp: line_enabled_def irq_same_def fun_eq_iff)
  show "timers_set h s = timers_set h t"
    using assms tm by (intro ext) (simp add: timers_set_def has_timer_def irq_same_def)
qed

lemma restart_queues_ok:
  assumes wf: "wf_links (links s)" and idle: "0 \<le> IDLE_soft (sv s)" "IDLE_soft (sv s) < 32" and h: "m_u m 1 \<noteq> 0"
  shows "\<exists>s0. restart_queues m s = Inr s0 \<and> restarted (m_u m 1) s0 0 s0 \<and> irq_same s0 (restart_view m s)
    \<and> rdyQ s0 = MRT_plist_rst (rdyQ s) \<and> expQ (tm s0) = MRT_plist_rst (expQ (tm s))"
proof -
  let ?s1 = "set_svflag MRT_NEEDSCHED (MRT_sstat_init s)"
  have "links ?s1 = links s" by (simp add: MRT_sstat_init_def)
  then obtain h1 f where p: "MRT_proc_init (MRT_sstat_init s) = ?s1\<lparr>links := h1, procs := f\<rparr>" "wf_links h1"
    using proc_rsts_frame[of ?s1] wf unfolding MRT_proc_init_def by metis
  let ?s2 = "?s1\<lparr>links := h1, procs := f\<rparr>"
  have idl: "\<exists>s3. restart_idle m ?s2 = Inr s3 \<and> links s3 = h1 \<and> irqtab (si s3) = irqtab (si (restart_view m s))
      \<and> soft_use (si s3) = soft_use (si s) \<and> rdyQ s3 = rdyQ s \<and> tm s3 = tm s \<and> hw s3 = hw s"
    using idle h by (auto simp: restart_idle_def irqd_addr_def tab_addr_def MRT_sstat_init_def MRT_idle_init_def restart_view_def)
  then obtain s3 where s3: "restart_idle m ?s2 = Inr s3" "links s3 = h1" "irqtab (si s3) = irqtab (si (restart_view m s))"
      "soft_use (si s3) = soft_use (si s)" "rdyQ s3 = rdyQ s" "tm s3 = tm s" "hw s3 = hw s" by blast
  let ?s4 = "MRT_timerQ_init (MRT_rdyQ_init s3)"
  have s4: "links ?s4 = h1" "dll h1 (freeQ (tm ?s4)) []" "dll k (aq_list (actQ (tm ?s4))) []"
    "expQ (tm ?s4) = MRT_plist_rst (expQ (tm s))" "rdyQ ?s4 = MRT_plist_rst (rdyQ s)" "si ?s4 = si s3" "hw ?s4 = hw s" for k
    using s3 by (simp_all add: MRT_timerQ_init_def MRT_rdyQ_init_def dll_rst Let_def)
  obtain h5 x5 where v: "MRT_vtimer_init ?s4 = Inr (?s4\<lparr>links := h5, tm := x5\<rparr>)" "wf_links h5"
    "dll h5 (freeQ x5) (map LVT [0..<NR_VTIMERS])" "actQ x5 = actQ (tm ?s4)" "expQ x5 = expQ (tm ?s4)"
    using vtimer_init_fills[of ?s4] s4 p(2) by auto
  let ?s5 = "MRT_irqQ_init (?s4\<lparr>links := h5, tm := x5\<rparr>)"
  obtain pic s6 where g: "MRT_get_PIC ?s5 = (pic, s6)" by force
  have pic: "pic = fst (MRT_get_PIC s)" "s6 = ?s5\<lparr>hw := hw s6\<rparr>"
    using g s4(7) by (auto simp: MRT_get_PIC_def in_byte_def MRT_irqQ_init_def)
  define s0 where "s0 = sv_update (virtual_PIC_update (\<lambda>_. pic)) (sv_update (real_PIC_update (\<lambda>_. pic)) s6)"
  have run: "restart_queues m s = Inr s0"
    using p s3 v(1) g by (simp add: restart_queues_def s0_def Let_def)
  have F: "links s0 = h5" "tm s0 = x5" "irqtab (si s0) = irqtab (si (restart_view m s))" "soft_use (si s0) = soft_use (si s)"
    "real_PIC (sv s0) = fst (MRT_get_PIC s)" "rdyQ s0 = MRT_plist_rst (rdyQ s)" "q < MRT_NR_PRTY \<Longrightarrow> irqmask (si s0) q = 0" for q
    unfolding s0_def by (subst pic(2), use s3 s4 pic(1) in \<open>simp add: MRT_irqQ_init_def\<close>)+
  have "act_rep s0 []" using F(1,2) v(4) s4(3) by (simp add: act_rep_def)
  then have "timers_set (m_u m 1) s0 0 s0"
    unfolding timers_set_def by - (rule exI[of _ "[]"], rule exI[of _ "[0..<NR_VTIMERS]"], use F(1,2) v(3) in simp)
  then have "restarted (m_u m 1) s0 0 s0"
    using F(1,7) v(2) by (simp add: restarted_def same_but_def line_enabled_def)
  moreover have "irq_same s0 (restart_view m s)" using F(3-5) by (simp add: irq_same_def restart_view_def)
  ultimately show ?thesis using run F(2,6) v(5) s4(4) by auto
qed

lemma restart_clock_ok:
  assumes "m_u m 1 * HZ \<noteq> 0"
  shows "\<exists>v w. restart_clock m s = Inr (s\<lparr>sv := v, hw := w\<rparr>) \<and> harmonic v = m_u m 1 \<and> sv_flags v = sv_flags (sv s)
    \<and> prtylvl v = prtylvl (sv s)"
proof -
  have "m_u m 1 \<noteq> 0" using assms by auto
  then have "\<exists>s'. restart_clock m s = Inr s' \<and> s' = s\<lparr>sv := sv s', hw := hw s'\<rparr> \<and> harmonic (sv s') = m_u m 1
    \<and> sv_flags (sv s') = sv_flags (sv s) \<and> prtylvl (sv s') = prtylvl (sv s)"
    using assms by (simp add: restart_clock_def MRT_timer_set_def MRT_timer2_set_def MRT_set_irq_def MRT_reset_irq_def
        hw_emit_def out_byte_def Let_def)
  then show ?thesis by metis
qed

lemma prtylvl_set_frame:
  assumes "unat p < MRT_NR_PRTY"
  shows "\<exists>s'. MRT_prtylvl_set p s = Inr s' \<and> s' = s\<lparr>sv := sv s', hw := hw s'\<rparr> \<and> prtylvl (sv s') = p
    \<and> sv_flags (sv s') = sv_flags (sv s)"
  using assms by (simp add: MRT_prtylvl_set_def MRT_set_PIC_def hw_emit_def Let_def)

lemma restart_finish_ok:
  assumes wf: "wf_links (links s)" and h: "m_u m 1 * HZ \<noteq> 0"
  shows "\<exists>s'. restart_finish m s = Inr (OK, s') \<and> tm s' = tm s \<and> si s' = si s \<and> rdyQ s' = rdyQ s
    \<and> svflag s' MRT_RTMODE \<and> prtylvl (sv s') = MRT_PRILOWEST \<and> harmonic (sv s') = m_u m 1
    \<and> msgQ_pool s' [0..<NR_MSGQ] \<and> mqe_pool s' [0..<NR_MESSAGES] \<and> dll (links s') (sfreeL (ss s')) (map LSemA [0..<NR_SEM])
    \<and> (\<forall>i<NR_SEM. sm_index (SEM s' i) = int i \<and> sm_owner (SEM s' i) = HARDWARE)
    \<and> (\<forall>v. links s' (LVT v) = links s (LVT v))"
proof -
  obtain b s1 where r1: "MRT_read_timer2 s = (b, s1)" by force
  obtain a s2 where r2: "MRT_read_timer2 s1 = (a, s2)" by force
  have s2: "s2 = s\<lparr>hw := hw s2\<rparr>" using r1 r2 by (auto simp: MRT_read_timer2_def in_byte_def out_byte_def hw_emit_def)
  let ?s3 = "set_svflag MRT_RTMODE (sv_update (PIT_latency_update (\<lambda>_. b - a)) s2)"
  have "unat MRT_PRILOWEST < MRT_NR_PRTY" by (simp add: MRT_NR_PRTY_def)
  then obtain s4 where s4: "MRT_prtylvl_set MRT_PRILOWEST ?s3 = Inr s4" "s4 = ?s3\<lparr>sv := sv s4, hw := hw s4\<rparr>"
    "prtylvl (sv s4) = MRT_PRILOWEST" "sv_flags (sv s4) = sv_flags (sv ?s3)" using prtylvl_set_frame by blast
  obtain v5 w5 where s5: "restart_clock m s4 = Inr (s4\<lparr>sv := v5, hw := w5\<rparr>)" "harmonic v5 = m_u m 1"
    "sv_flags v5 = sv_flags (sv s4)" "prtylvl v5 = prtylvl (sv s4)" using restart_clock_ok[OF h] by blast
  let ?s5 = "s4\<lparr>sv := v5, hw := w5\<rparr>"
  have f2: "links s2 = links s" "tm s2 = tm s" "si s2 = si s" "rdyQ s2 = rdyQ s" by (subst s2, simp)+
  have f4: "links s4 = links s2" "tm s4 = tm s2" "si s4 = si s2" "rdyQ s4 = rdyQ s2" by (subst s4(2), simp)+
  have F: "links ?s5 = links s" "tm ?s5 = tm s" "si ?s5 = si s" "rdyQ ?s5 = rdyQ s" "svflag ?s5 MRT_RTMODE"
    using f2 f4 s5(3) s4(4) by (simp_all add: TEST_SET_same)
  obtain h6 x6 where q: "MRT_msgQ_init ?s5 = Inr (?s5\<lparr>links := h6, sm := x6\<rparr>)" "wf_links h6"
    "dll h6 (msgQL x6) (map LMsgQ [0..<NR_MSGQ])" "\<forall>k. k \<notin> range LMsgQ \<longrightarrow> h6 k = links s k" "mqeL x6 = MRT_list_rst (mqeL (sm ?s5))"
    using msgQ_init_fills[of ?s5] wf F(1) by auto
  let ?s6 = "?s5\<lparr>links := h6, sm := x6\<rparr>"
  have "dll (links ?s6) (mqeL (sm ?s6)) []" using q(5) by (simp add: dll_rst)
  then obtain h7 x7 where p: "MRT_mpool_init ?s6 = Inr (?s6\<lparr>links := h7, sm := x7\<rparr>)" "wf_links h7"
    "dll h7 (mqeL x7) (map LMqe [0..<NR_MESSAGES])" "\<forall>k. k \<notin> range LMqe \<longrightarrow> h7 k = h6 k" "msgQL x7 = msgQL x6"
    using mpool_init_fills[of ?s6] q(2) by auto
  let ?s7 = "?s6\<lparr>links := h7, sm := x7\<rparr>"
  obtain h8 x8 where e: "MRT_spool_init ?s7 = Inr (?s7\<lparr>links := h8, ss := x8\<rparr>)" "wf_links h8"
    "dll h8 (sfreeL x8) (map LSemA [0..<NR_SEM])" "\<forall>k. k \<notin> range LSemA \<union> range LSemL \<longrightarrow> h8 k = h7 k"
    "\<forall>i<NR_SEM. sm_index (sem x8 i) = int i \<and> sm_owner (sem x8 i) = HARDWARE \<and> sm_name (sem x8 i) = ''FREE''"
    using spool_init_fills[of ?s7] p(2) by auto
  let ?s8 = "?s7\<lparr>links := h8, ss := x8\<rparr>"
  have run: "restart_finish m s = Inr (OK, ?s8)"
    using r1 r2 s4(1) s5(1) q(1) p(1) e(1) by (simp add: restart_finish_def Let_def)
  have k7: "h7 (LMsgQ i) = h6 (LMsgQ i)" and k8: "h8 (LMsgQ i) = h7 (LMsgQ i)" "h8 (LMqe i) = h7 (LMqe i)" for i
    using p(4) e(4) by (auto simp: image_iff)
  have mq: "dll h8 (msgQL x7) (map LMsgQ [0..<NR_MSGQ])"
    unfolding p(5) by (rule dll_cong[OF _ q(3)]) (auto simp only: set_map k7 k8)
  have mp: "dll h8 (mqeL x7) (map LMqe [0..<NR_MESSAGES])" by (rule dll_cong[OF _ p(3)]) (auto simp only: set_map k8)
  have "h8 (LVT v) = links s (LVT v)" for v using e(4) p(4) q(4) by (simp add: image_iff)
  with run show ?thesis
    using F mq mp e(2,3,5) s5 s4(3) by (auto simp: msgQ_pool_def mqe_pool_def)
qed

lemma harmonic_nonzero:
  assumes "1 \<le> sint (w :: u32)" "sint w \<le> 10000"
  shows "w \<noteq> 0" "w * 50 \<noteq> 0"
proof -
  define k where "k = sint w"
  have k: "w = word_of_int k" "1 \<le> k" "k \<le> 10000" using assms by (simp_all add: k_def)
  have u: "uint (w * 50) = k * 50"
    using k by (simp add: uint_word_of_int uint_word_ariths)
  show "w * 50 \<noteq> 0"
  proof
    assume "w * 50 = 0"
    with u k(2) show False by simp
  qed
  then show "w \<noteq> 0" by auto
qed

lemma restart_begins:
  assumes ok: "wf_links (links s)" "0 \<le> IDLE_soft (sv s)" "IDLE_soft (sv s) < 32" "\<not> rt_active s"
    and arg: "1 \<le> m1_i2 m" "m1_i2 m \<le> MAXHARMONIC" "1 \<le> m1_i3 m" "m1_i3 m \<le> MAXREFRESH"
  obtains s0 where "restarted (m_u m 1) s0 0 s0" "irq_same s0 (restart_view m s)" "rdyQ s0 = MRT_plist_rst (rdyQ s)"
    "expQ (tm s0) = MRT_plist_rst (expQ (tm s))"
    "MRT_restart m s = bnd (foldM (restart_irqd m) [0..<NR_IRQ_VECTORS + NR_IRQ_SOFT] s0) (restart_finish m)"
proof -
  have "m_u m 1 \<noteq> 0" using harmonic_nonzero(1)[of "m_u m 1"] arg(1,2) by (simp add: m1_i2_def)
  from restart_queues_ok[OF ok(1-3) this] obtain s0 where
    "restart_queues m s = Inr s0" "restarted (m_u m 1) s0 0 s0" "irq_same s0 (restart_view m s)"
    "rdyQ s0 = MRT_plist_rst (rdyQ s)" "expQ (tm s0) = MRT_plist_rst (expQ (tm s))" by blast
  then show ?thesis using that arg ok(4) by (simp add: MRT_restart_def)
qed

lemma irqd_panics:
  assumes st: "restarted h s0 n s" and n: "n < NR_IRQ_VECTORS + NR_IRQ_SOFT" and timed: "irq_timed s0 n"
    and prio: "n < NR_IRQ_VECTORS \<Longrightarrow> unat (iq_priority (IRQD s0 n)) < MRT_NR_PRTY"
    and h: "m_u m 1 = h" "iq_harmonic (IRQD s0 n) \<noteq> 0"
    and per: "new_period h (IRQD s0 n) = 0 \<or> new_period h (IRQD s0 n) > MRT_MAXPER"
  shows "restart_irqd m n s = Inl (Panic ''MRT_restart: cannot create a VT for TD IRQ '')"
proof -
  have sb: "same_but s0 s" and tab: "IRQD s n = IRQD s0 n" using st by (auto simp: restarted_def)
  define s1 where "s1 = (if n < NR_IRQ_VECTORS
     then si_update (irqmask_update (restart_masks n (unat (iq_priority (IRQD s0 n))))) s else s)"
  have s1: "links s1 = links s" "IRQD s1 n = IRQD s0 n" using tab by (auto simp: s1_def)
  have used: "irq_used s0 n" using timed by (simp add: irq_timed_def)
  note c = irqd_clr_keeps(6-9)[where d = n and s = s1, unfolded s1(1), OF same_butD(3)[OF sb], unfolded s1(2)]
  let ?s2 = "MRT_irqd_clr n s1"
  have p: "new_period h (IRQD ?s2 n) = new_period h (IRQD s0 n)" using c by (simp add: new_period_def)
  have "restart_timed m n ?s2 = Inl (Panic ''MRT_restart: cannot create a VT for TD IRQ '')"
    using VTALLOC_refuses[OF per] c h p
    by (simp add: restart_timed_def Let_def new_period_def split: if_splits)
  moreover have "restart_irqd m n s = restart_timed m n ?s2"
    using used n prio same_butD(1,2)[OF sb] c(3) tab timed
    by (simp add: restart_irqd_def irq_used_def irq_timed_def push_bit_of_1 TEST_BIT_pow bit_not_iff Let_def s1_def
        split: if_splits)
  ultimately show ?thesis by simp
qed

text \<open>A system with the idle timer as its only descriptor in use, and a request to restart it.\<close>

definition idle_state :: kstate where
  "idle_state = kstate0\<lparr>sv := sysval0\<lparr>IDLE_soft := 17, refresh := 50, harmonic := 1\<rparr>,
     si := (si kstate0)\<lparr>soft_use := 2, irqtab := (\<lambda>_. irqd0)(17 := irqd0\<lparr>iq_irqtype := MRT_TDIRQ OR MRT_SOFTIRQ, iq_period := 50,
       iq_harmonic := 1, iq_priority := MRT_PRILOWEST\<rparr>)\<rparr>,
     hw := \<lparr>hw_log = [], hw_in = (\<lambda>_. 0xFF), hw_pos = 0\<rparr>\<rparr>"

definition restart_msg :: "u32 \<Rightarrow> u32 \<Rightarrow> message" where
  "restart_msg h r = \<lparr>m_source = 5, m_type = 113, m_u = (\<lambda>_. 0)(1 := h, 2 := r)\<rparr>"

lemma restart_msg_words [simp]: "m_u (restart_msg h r) (Suc 0) = h" "m_u (restart_msg h r) 2 = r"
  by (simp_all add: restart_msg_def)

lemma idle_state_view:
  "real_PIC (sv (restart_view (restart_msg h 50) idle_state)) = mask 16"
  "soft_use (si (restart_view (restart_msg h 50) idle_state)) = 2"
  "IRQD (restart_view (restart_msg h 50) idle_state) i = IRQD idle_state i"
  by (simp_all add: restart_view_def idle_state_def restart_msg_def MRT_get_PIC_def in_byte_def mask_eq_exp_minus_1
      kstate0_def sysval0_def)

lemma idle_state_used:
  "i < 32 \<Longrightarrow> irq_used (restart_view (restart_msg h 50) idle_state) i \<longleftrightarrow> i = 17"
  by (auto simp: irq_used_def idle_state_view bit_mask_iff bit_2_iff)

lemma idle_state_timed:
  "i < 32 \<Longrightarrow> irq_timed (restart_view (restart_msg h 50) idle_state) i \<longleftrightarrow> i = 17"
  by (auto simp: irq_timed_def idle_state_used idle_state_view) (simp add: idle_state_def TEST_BIT_def)

lemma idle_state_period: "new_period h (IRQD idle_state 17) = 50 * h" "iq_harmonic (IRQD idle_state 17) = 1"
  by (simp_all add: new_period_def idle_state_def TEST_BIT_def)

lemma idle_state_ok:
  "wf_links (links idle_state)" "0 \<le> IDLE_soft (sv idle_state)" "IDLE_soft (sv idle_state) < 32" "\<not> rt_active idle_state"
  by (simp_all add: idle_state_def rt_active_def MRT_is_realtime_def kstate0_def proc0_def TEST_BIT_def list_ex_iff)

lemma filter_timed: "n \<le> 32 \<Longrightarrow> length (filter (irq_timed (restart_view (restart_msg h 50) idle_state)) [0..<n]) \<le> NR_VTIMERS"
proof -
  assume n: "n \<le> 32"
  let ?xs = "filter (irq_timed (restart_view (restart_msg h 50) idle_state)) [0..<n]"
  have "length ?xs = card (set ?xs)" by (rule distinct_card[symmetric]) simp
  also have "\<dots> \<le> card {17 :: nat}" using n by (intro card_mono) (auto simp: idle_state_timed)
  finally show ?thesis by simp
qed

subsection \<open>Properties of a restart\<close>

text \<open>
  C34. A restart with a harmonic and a refresh rate in their ranges, without real-time processes, brings the system into
  real-time mode. The conditions on the state: the links name their objects, the idle timer has a descriptor, the descriptors in use
  are restartable (the priority of a line is a level of the masks, and a timer-driven one has a harmonic other than 0 and a period that, converted
  to the new tick, a timer can have; \<open>restart_panics\<close> shows that the kernel panics otherwise), and at most as many
  descriptors are timer-driven as there are timers. Nothing is asked of the old queues, pools and masks. Then it returns \<open>OK\<close>, all pools are full, the ready queue is empty, every timer-driven
  interrupt in use has its own running timer with the converted period, and the mask of each priority level enables exactly
  the used lines of at least that urgency and the cascade line.
\<close>

theorem restart_establishes:
  assumes ok: "wf_links (links s)" "0 \<le> IDLE_soft (sv s)" "IDLE_soft (sv s) < 32" "\<not> rt_active s"
    and arg: "1 \<le> m1_i2 m" "m1_i2 m \<le> MAXHARMONIC" "1 \<le> m1_i3 m" "m1_i3 m \<le> MAXREFRESH"
    and irq: "\<forall>i<NR_IRQ_VECTORS + NR_IRQ_SOFT. restartable (m_u m 1) (restart_view m s) i"
    and room: "length (filter (irq_timed (restart_view m s)) [0..<NR_IRQ_VECTORS + NR_IRQ_SOFT]) \<le> NR_VTIMERS"
  shows "\<exists>s'. MRT_restart m s = Inr (OK, s') \<and> svflag s' MRT_RTMODE \<and> harmonic (sv s') = m_u m 1
    \<and> rdyQ_inv s' (\<lambda>_. []) \<and> pl_rep (links s') (expQ (tm s')) (\<lambda>_. [])
    \<and> msgQ_pool s' [0..<NR_MSGQ] \<and> mqe_pool s' [0..<NR_MESSAGES] \<and> dll (links s') (sfreeL (ss s')) (map LSemA [0..<NR_SEM])
    \<and> timers_set (m_u m 1) (restart_view m s) (NR_IRQ_VECTORS + NR_IRQ_SOFT) s'
    \<and> (\<forall>q<MRT_NR_PRTY. \<forall>i. bit (irqmask (si s') q) i
         \<longleftrightarrow> line_enabled (restart_view m s) (NR_IRQ_VECTORS + NR_IRQ_SOFT) q i)"
proof -
  let ?n = "NR_IRQ_VECTORS + NR_IRQ_SOFT"
  obtain s0 where s0: "restarted (m_u m 1) s0 0 s0" "irq_same s0 (restart_view m s)" "rdyQ s0 = MRT_plist_rst (rdyQ s)"
    "expQ (tm s0) = MRT_plist_rst (expQ (tm s))"
    "MRT_restart m s = bnd (foldM (restart_irqd m) [0..<?n] s0) (restart_finish m)"
    using restart_begins[OF ok arg] .
  note eq = irq_same_cong[OF s0(2)]
  obtain s1 where s1: "foldM (restart_irqd m) [0..<?n] s0 = Inr s1" "restarted (m_u m 1) s0 ?n s1"
    using restart_loop_ok[OF s0(1) _ refl, of ?n] irq room eq by auto
  have sb: "same_but s0 s1" and t: "timers_set (m_u m 1) (restart_view m s) ?n s1"
    and masks: "\<forall>q<MRT_NR_PRTY. \<forall>i. bit (irqmask (si s1) q) i \<longleftrightarrow> line_enabled (restart_view m s) ?n q i"
    using s1(2) unfolding restarted_def eq by auto
  have q1: "rdyQ s1 = MRT_plist_rst (rdyQ s)" "expQ (tm s1) = MRT_plist_rst (expQ (tm s))"
    using sb s0(3,4) by (cases s0, cases s1, auto simp: same_but_def)+
  have h: "m_u m 1 * HZ \<noteq> 0" using harmonic_nonzero(2)[of "m_u m 1"] arg(1,2) by (simp add: m1_i2_def)
  from restart_finish_ok[OF same_butD(3)[OF sb] h] obtain s' where f: "restart_finish m s1 = Inr (OK, s')" "tm s' = tm s1"
    "si s' = si s1" "rdyQ s' = rdyQ s1" "svflag s' MRT_RTMODE" "harmonic (sv s') = m_u m 1" "msgQ_pool s' [0..<NR_MSGQ]"
    "mqe_pool s' [0..<NR_MESSAGES]" "dll (links s') (sfreeL (ss s')) (map LSemA [0..<NR_SEM])"
    "\<forall>v. links s' (LVT v) = links s1 (LVT v)" by blast
  have t': "timers_set (m_u m 1) (restart_view m s) ?n s'" using timers_set_cong[OF t] f(2,3,10) by simp
  have run: "MRT_restart m s = Inr (OK, s')" using s0(5) s1(1) f(1) by simp
  have r: "rdyQ_inv s' (\<lambda>_. [])" "pl_rep (links s') (expQ (tm s')) (\<lambda>_. [])"
    using q1 f(2,4) by (simp_all add: rdyQ_inv_def pl_rep_rst)
  show ?thesis by (rule exI[of _ s']) (intro conjI run f(5-9) r t' masks[folded f(3)])
qed

theorem restart_establishes_witness:
  "\<exists>s'. MRT_restart (restart_msg 2 50) idle_state = Inr (OK, s') \<and> svflag s' MRT_RTMODE
     \<and> timers_set 2 (restart_view (restart_msg 2 50) idle_state) 32 s'"
proof -
  have "restartable 2 (restart_view (restart_msg 2 50) idle_state) i" if "i < 32" for i
    using that idle_state_period(1)[of 2] idle_state_period(2) by (auto simp: restartable_def idle_state_used idle_state_timed idle_state_view)
  then show ?thesis
    using restart_establishes[OF idle_state_ok, of "restart_msg 2 50"] filter_timed[of 32 2]
    by (auto simp: m1_defs)
qed

text \<open>
  C35. A restart can stop the kernel although its arguments are valid: when the converted period of a
  timer-driven interrupt in use leaves the range of a timer, \<open>MRT_restart\<close> panics. This is the case for
  the idle timer with its initial period of 50 ticks and every harmonic above 200.
\<close>

theorem restart_panics:
  assumes ok: "wf_links (links s)" "0 \<le> IDLE_soft (sv s)" "IDLE_soft (sv s) < 32" "\<not> rt_active s"
    and arg: "1 \<le> m1_i2 m" "m1_i2 m \<le> MAXHARMONIC" "1 \<le> m1_i3 m" "m1_i3 m \<le> MAXREFRESH"
    and before: "\<forall>i<n. restartable (m_u m 1) (restart_view m s) i" "n < NR_IRQ_VECTORS + NR_IRQ_SOFT"
      "length (filter (irq_timed (restart_view m s)) [0..<n]) \<le> NR_VTIMERS"
    and bad: "irq_timed (restart_view m s) n" "n < NR_IRQ_VECTORS \<longrightarrow> unat (iq_priority (IRQD (restart_view m s) n)) < MRT_NR_PRTY"
      "iq_harmonic (IRQD (restart_view m s) n) \<noteq> 0"
      "new_period (m_u m 1) (IRQD (restart_view m s) n) = 0 \<or> new_period (m_u m 1) (IRQD (restart_view m s) n) > MRT_MAXPER"
  shows "MRT_restart m s = Inl (Panic ''MRT_restart: cannot create a VT for TD IRQ '')"
proof -
  let ?n = "NR_IRQ_VECTORS + NR_IRQ_SOFT"
  obtain s0 where s0: "restarted (m_u m 1) s0 0 s0" "irq_same s0 (restart_view m s)"
    "MRT_restart m s = bnd (foldM (restart_irqd m) [0..<?n] s0) (restart_finish m)"
    using restart_begins[OF ok arg] .
  note eq = irq_same_cong[OF s0(2)]
  have tab: "IRQD s0 n = IRQD (restart_view m s) n" using s0(2) by (simp add: irq_same_def)
  obtain s1 where s1: "foldM (restart_irqd m) [0..<n] s0 = Inr s1" "restarted (m_u m 1) s0 n s1"
    using restart_loop_ok[OF s0(1) _ refl, of n] before eq by auto
  have "restart_irqd m n s1 = Inl (Panic ''MRT_restart: cannot create a VT for TD IRQ '')"
    using irqd_panics[OF s1(2) before(2)] bad by (simp add: eq tab)
  moreover have "[0..<?n] = [0..<n] @ n # [Suc n..<?n]"
    using upt_add_eq_append[of 0 n "?n - n"] upt_conv_Cons[OF before(2)] before(2) by simp
  ultimately show ?thesis using s0(3) s1(1) by (simp add: foldM_append)
qed

theorem restart_panics_witness:
  "MRT_restart (restart_msg 201 50) idle_state = Inl (Panic ''MRT_restart: cannot create a VT for TD IRQ '')"
proof (rule restart_panics[OF idle_state_ok, where n = 17])
  have "restartable (m_u (restart_msg 201 50) 1) (restart_view (restart_msg 201 50) idle_state) i" if "i < 17" for i
    using that by (auto simp: restartable_def idle_state_used idle_state_timed)
  then show "\<forall>i<17. restartable (m_u (restart_msg 201 50) 1) (restart_view (restart_msg 201 50) idle_state) i" by blast
  show "new_period (m_u (restart_msg 201 50) 1) (IRQD (restart_view (restart_msg 201 50) idle_state) 17) = 0 \<or>
    MRT_MAXPER < new_period (m_u (restart_msg 201 50) 1) (IRQD (restart_view (restart_msg 201 50) idle_state) 17)"
    using idle_state_period(1)[of 201] by (simp add: idle_state_view)
qed (simp_all add: m1_defs idle_state_timed filter_timed idle_state_view idle_state_period(2) del: upt_Suc)

end
