(* ===== verification/Service.thy ===== *)
theory Service
  imports Restart
begin

text \<open>
  The guards of the real-time system task and its requests on processes and semaphores: which requests
  the task accepts, the confusion of process identifiers and numbers, the ownership of semaphores
  (\<open>sem_lists\<close>) and how they are created, found by name and freed.
\<close>

subsection \<open>The guards of the task\<close>

lemma sys_run_mode_entries: "n < 28 \<Longrightarrow> n \<noteq> 6 \<Longrightarrow> n \<noteq> 13 \<Longrightarrow> sys_run_mode ! n = MRT_RTMODE"
  by (simp add: sys_run_mode_def less_Suc_eq numeral_eq_Suc) (elim disjE; simp)

lemma and_flag: "w AND 2 ^ n = (if TEST_BIT w (2 ^ n) then 2 ^ n else (0 :: u32))" if "n < 32"
proof (cases "bit w n")
  case True
  then have "w AND 2 ^ n = 2 ^ n" by (intro bit_word_eqI) (auto simp: bit_simps bit_exp_iff)
  with True that show ?thesis by (simp add: TEST_BIT_pow)
next
  case False
  then have "w AND 2 ^ n = 0" by (intro bit_word_eqI) (auto simp: bit_simps bit_exp_iff)
  with False that show ?thesis by (simp add: TEST_BIT_pow)
qed

lemma rtmode_word: "svflag s MRT_RTMODE \<Longrightarrow> sv_flags (sv s) AND MRT_RTMODE = MRT_RTMODE"
  using and_flag[of 0 "sv_flags (sv s)"] by simp

lemma realtime_word: "p_flags p AND MRT_P_REALTIME = (if MRT_is_realtime p then MRT_P_REALTIME else 0)"
  using and_flag[of 14 "p_flags p"] by (simp add: MRT_is_realtime_def)

text \<open>A real-time process with identifier 100 in slot 5.\<close>

definition exit_state :: kstate where
  "exit_state = set_svflag MRT_RTMODE (kstate0\<lparr>procs := (\<lambda>_. proc0\<lparr>p_flags := P_SLOT_FREE, p_pid := - 1\<rparr>)
     (5 := proc0\<lparr>p_pid := 100, p_flags := MRT_P_REALTIME\<rparr>)\<rparr>)"

definition exit_msg :: "u32 \<Rightarrow> message" where
  "exit_msg c = \<lparr>m_source = 0, m_type = 115, m_u = (\<lambda>_. 0)(0 := c)\<rparr>"

lemma find_in: "List.find P xs = Some x \<Longrightarrow> x \<in> set xs"
  by (induction xs) (auto split: if_splits)

lemma pid2pptr_ok:
  assumes "MRT_pid2pptr pid s = Some p"
  shows "isokprocn p"
proof -
  have "p \<in> set proc_slots"
    using assms find_in by (fastforce simp: MRT_pid2pptr_def split: option.splits if_splits)
  then show ?thesis unfolding proc_slots_def isokprocn_def set_upto by (simp only: atLeastAtMost_iff) linarith
qed

text \<open>Two user processes, the second of which is real-time and has the identifier 100.\<close>

definition wd_attr :: mrt_pattr_t where
  "wd_attr = \<lparr>pa_flags = MRT_P_REALTIME, pa_baseprty = 3, pa_period = 0, pa_limit = 0, pa_deadline = 0,
     pa_watchdog = 100, pa_mq_size = 0, pa_mq_flags = 0\<rparr>"

definition wd_state :: kstate where
  "wd_state = kstate0\<lparr>procs := (\<lambda>_. proc0\<lparr>p_flags := P_SLOT_FREE, p_pid := - 1\<rparr>)
     (4 := proc_mapped\<lparr>p_pid := 99\<rparr>, 5 := proc0\<lparr>p_pid := 100, p_flags := MRT_P_REALTIME\<rparr>),
     um := umem0\<lparr>um_pattr := (\<lambda>_. wd_attr)\<rparr>\<rparr>"

definition wd_msg :: message where
  "wd_msg = \<lparr>m_source = 4, m_type = 109, m_u = (\<lambda>_. 0)(0 := 99, 3 := 0x100)\<rparr>"

subsection \<open>Who owns the semaphores\<close>

text \<open>
  The free semaphores and those of each process: every semaphore is in exactly one list, that of its
  owner, and a free one carries the name that the reset gives it.
\<close>

definition sem_lists :: "kstate \<Rightarrow> nat list \<Rightarrow> (int \<Rightarrow> nat list) \<Rightarrow> bool" where
  "sem_lists s fs al \<longleftrightarrow> wf_links (links s)
     \<and> dll (links s) (sfreeL (ss s)) (map LSemA fs)
     \<and> (\<forall>p. isokprocn p \<longrightarrow> dll (links s) (sallocL (procs s p)) (map LSemA (al p)))
     \<and> (\<forall>i\<in>set fs. i < NR_SEM \<and> sm_owner (SEM s i) = HARDWARE \<and> sm_name (SEM s i) = ''FREE'')
     \<and> (\<forall>p. \<forall>i\<in>set (al p). i < NR_SEM \<and> sm_owner (SEM s i) = p \<and> p \<noteq> HARDWARE \<and> isokprocn p)
     \<and> (\<forall>i<NR_SEM. sm_index (SEM s i) = int i)"

lemma sem_listsD:
  assumes "sem_lists s fs al"
  shows "wf_links (links s)" "dll (links s) (sfreeL (ss s)) (map LSemA fs)"
    "isokprocn p \<Longrightarrow> dll (links s) (sallocL (procs s p)) (map LSemA (al p))"
    "i \<in> set fs \<Longrightarrow> i < NR_SEM \<and> sm_owner (SEM s i) = HARDWARE \<and> sm_name (SEM s i) = ''FREE''"
    "i \<in> set (al p) \<Longrightarrow> i < NR_SEM \<and> sm_owner (SEM s i) = p \<and> p \<noteq> HARDWARE \<and> isokprocn p"
    "i < NR_SEM \<Longrightarrow> sm_index (SEM s i) = int i"
  using assms by (simp_all add: sem_lists_def)

lemma sem_lists_disj:
  assumes "sem_lists s fs al"
  shows "set fs \<inter> set (al p) = {}" "p \<noteq> q \<Longrightarrow> set (al p) \<inter> set (al q) = {}"
  using sem_listsD(4)[OF assms] sem_listsD(5)[OF assms, of _ p] sem_listsD(5)[OF assms, of _ q] by fastforce+

lemma sem_lists_distinct:
  assumes "sem_lists s fs al"
  shows "distinct fs" "isokprocn p \<Longrightarrow> distinct (al p)" "length (al p) \<le> NR_SEM"
proof -
  show "distinct fs" using dll_distinct[OF sem_listsD(2)[OF assms]] by (simp add: distinct_map)
  show d: "distinct (al p)" if "isokprocn p" using dll_distinct[OF sem_listsD(3)[OF assms that]] by (simp add: distinct_map)
  show "length (al p) \<le> NR_SEM"
  proof (cases "al p = []")
    case False
    then have "isokprocn p" using sem_listsD(5)[OF assms, of "hd (al p)" p] by (cases "al p") auto
    then have "length (al p) = card (set (al p))" using d distinct_card by metis
    also have "\<dots> \<le> card {..<NR_SEM}" using sem_listsD(5)[OF assms] by (intro card_mono) auto
    finally show ?thesis by simp
  qed simp
qed

lemma sem_links_other: "heap_frame A h h' \<Longrightarrow> set xs \<inter> A = {} \<Longrightarrow> dll h l xs \<Longrightarrow> dll h' l xs"
  by (rule dll_frame)

lemma sem_alloc_ok:
  assumes inv: "sem_lists s (i # fs) al" and p: "isokprocn p" "p \<noteq> HARDWARE"
  shows "\<exists>s'. MRT_sem_alloc p s = Inr (Some i, s') \<and> sem_lists s' fs (al(p := al p @ [i])) \<and> um s' = um s
    \<and> (\<forall>j. j \<noteq> i \<longrightarrow> SEM s' j = SEM s j) \<and> SEM s' i = (SEM s i)\<lparr>sm_owner := p\<rparr>
    \<and> (\<forall>q. p_pid (procs s' q) = p_pid (procs s q) \<and> p_flags (procs s' q) = p_flags (procs s q) \<and> p_map (procs s' q) = p_map (procs s q))"
proof -
  note I = sem_listsD[OF inv] and D = sem_lists_disj[OF inv]
  obtain h l where r: "MRT_list_rmv (links s) (sfreeL (ss s)) (LSemA i) = Inr (h, l)" "dll h l (map LSemA fs)"
    "heap_frame (LSemA ` set (i # fs)) (links s) h" using MRT_list_rmv_ok[OF I(2), of "LSemA i"] by auto
  have wf: "wf_links h" using I(1) wf_links_frame[OF r(3)] by simp
  have al1: "dll h (sallocL (procs s q)) (map LSemA (al q))" if "isokprocn q" for q
    by (rule dll_frame[OF I(3)[OF that] r(3)]) (use D(1)[of q] in auto)
  have i: "i \<notin> set (al q)" "i \<notin> set fs" for q using D(1)[of q] sem_lists_distinct(1)[OF inv] by auto
  obtain h' l' where a: "MRT_list_app h (sallocL (procs s p)) (LSemA i) = Inr (h', l')" "dll h' l' (map LSemA (al p @ [i]))"
    "heap_frame (insert (LSemA i) (LSemA ` set (al p))) h h'" using MRT_list_app_ok[OF al1[OF p(1)], of "LSemA i"] i by auto
  have wf': "wf_links h'" using wf wf_links_frame[OF a(3)] by simp
  have fs: "dll h' l (map LSemA fs)" by (rule dll_frame[OF r(2) a(3)]) (use D(1)[of p] i in auto)
  have al2: "dll h' (sallocL (procs s q)) (map LSemA (al q))" if "isokprocn q" "q \<noteq> p" for q
    by (rule dll_frame[OF al1[OF that(1)] a(3)]) (use D(2)[OF that(2)] i in auto)
  let ?s1 = "upd_sem i (sm_owner_update (\<lambda>_. p)) (ss_update (sfreeL_update (\<lambda>_. l)) (s\<lparr>links := h\<rparr>))"
  let ?s' = "upd_proc p (sallocL_update (\<lambda>_. l')) (?s1\<lparr>links := h'\<rparr>)"
  have "lk_this (h (LSemA i)) = Some (OSem i)" using wf by (simp add: wf_links_def)
  then have run: "MRT_sem_alloc p s = Inr (Some i, ?s')"
    using r(1) a(1) dll_first[of _ _ "LSemA i"] I(2) by (simp add: MRT_sem_alloc_def with_sfreeL_def with_sallocL_def)
  have "sem_lists ?s' fs (al(p := al p @ [i]))"
    unfolding sem_lists_def using wf' fs a(2) al2 I(4-6) i p by auto
  with run show ?thesis by (intro exI[of _ ?s']) auto
qed

lemma map_remove1_LSemA: "map LSemA (remove1 x xs) = remove1 (LSemA x) (map LSemA xs)"
  by (induction xs) auto

lemma sem_rst_links:
  assumes "wf_links h"
  shows "wf_links (MRT_link_rst (LSemL i) (OSem i) MRT_OBJSEM (MRT_link_rst (LSemA i) (OSem i) MRT_OBJSEM h))"
    "LSemA i \<notin> set xs \<Longrightarrow> LSemL i \<notin> set xs \<Longrightarrow> dll h l xs
     \<Longrightarrow> dll (MRT_link_rst (LSemL i) (OSem i) MRT_OBJSEM (MRT_link_rst (LSemA i) (OSem i) MRT_OBJSEM h)) l xs"
proof -
  show "wf_links (MRT_link_rst (LSemL i) (OSem i) MRT_OBJSEM (MRT_link_rst (LSemA i) (OSem i) MRT_OBJSEM h))"
    using assms by (simp add: wf_links_def MRT_link_rst_def)
qed (intro dll_rst_other)

lemma sem_free_ok:
  assumes inv: "sem_lists s fs al" and i: "i \<in> set (al p)"
  shows "\<exists>s'. MRT_sem_free p i s = Inr s' \<and> sem_lists s' (fs @ [i]) (al(p := remove1 i (al p)))
    \<and> (\<forall>j. j \<noteq> i \<longrightarrow> SEM s' j = SEM s j)"
proof -
  note I = sem_listsD[OF inv] and D = sem_lists_disj[OF inv]
  have p: "isokprocn p" "i < NR_SEM" using I(5)[OF i] by auto
  obtain h l where r: "MRT_list_rmv (links s) (sallocL (procs s p)) (LSemA i) = Inr (h, l)" "dll h l (map LSemA (remove1 i (al p)))"
    "heap_frame (LSemA ` set (al p)) (links s) h"
    using MRT_list_rmv_ok[OF I(3)[OF p(1)], of "LSemA i"] i by (auto simp: map_remove1_LSemA)
  have wf: "wf_links h" using I(1) wf_links_frame[OF r(3)] by simp
  have i': "i \<notin> set fs" "i \<notin> set (remove1 i (al p))" "q \<noteq> p \<Longrightarrow> i \<notin> set (al q)" for q
    using D(1)[of p] D(2)[of p q] i sem_lists_distinct(2)[OF inv p(1)] by auto
  define g where "g = MRT_link_rst (LSemL i) (OSem i) MRT_OBJSEM (MRT_link_rst (LSemA i) (OSem i) MRT_OBJSEM h)"
  note G = sem_rst_links[OF wf, of i, folded g_def]
  have fs1: "dll g (sfreeL (ss s)) (map LSemA fs)"
    by (rule G(2)[OF _ _ dll_frame[OF I(2) r(3)]]) (use i' D(1)[of p] in auto)
  have own1: "dll g l (map LSemA (remove1 i (al p)))" by (rule G(2)[OF _ _ r(2)]) (use i' in auto)
  have al1: "dll g (sallocL (procs s q)) (map LSemA (al q))" if "isokprocn q" "q \<noteq> p" for q
    by (rule G(2)[OF _ _ dll_frame[OF I(3)[OF that(1)] r(3)]]) (use i'(3)[OF that(2)] D(2)[OF that(2)] in auto)
  obtain h' l' where a: "MRT_list_app g (sfreeL (ss s)) (LSemA i) = Inr (h', l')" "dll h' l' (map LSemA (fs @ [i]))"
    "heap_frame (insert (LSemA i) (LSemA ` set fs)) g h'" using MRT_list_app_ok[OF fs1, of "LSemA i"] i' by auto
  have wf': "wf_links h'" using G(1) wf_links_frame[OF a(3)] by simp
  have own2: "dll h' l (map LSemA (remove1 i (al p)))"
    by (rule dll_frame[OF own1 a(3)]) (use i' D(1)[of p] set_remove1_subset[of i "al p"] in auto)
  have al2: "dll h' (sallocL (procs s q)) (map LSemA (al q))" if "isokprocn q" "q \<noteq> p" for q
    by (rule dll_frame[OF al1[OF that] a(3)]) (use i'(3)[OF that(2)] D(1)[of q] in auto)
  define s' where "s' = ss_update (sfreeL_update (\<lambda>_. l'))
    ((MRT_sem_rst i (upd_proc p (sallocL_update (\<lambda>_. l)) (s\<lparr>links := h\<rparr>)))\<lparr>links := h'\<rparr>)"
  have run: "MRT_sem_free p i s = Inr s'"
    using r(1) a(1) by (simp add: MRT_sem_free_def with_sallocL_def with_sfreeL_def MRT_sem_rst_def Let_def g_def s'_def)
  have F: "links s' = h'" "sfreeL (ss s') = l'" "sallocL (procs s' p) = l" "\<And>q. q \<noteq> p \<Longrightarrow> sallocL (procs s' q) = sallocL (procs s q)"
    "\<And>j. j \<noteq> i \<Longrightarrow> SEM s' j = SEM s j" "sm_owner (SEM s' i) = HARDWARE" "sm_name (SEM s' i) = ''FREE''" "sm_index (SEM s' i) = sm_index (SEM s i)"
    by (simp_all add: s'_def MRT_sem_rst_def Let_def)
  have lists: "isokprocn q \<Longrightarrow> dll h' (sallocL (procs s' q)) (map LSemA ((al(p := remove1 i (al p))) q))" for q
    using own2 al2 F(3,4) by (cases "q = p") auto
  have rest: "j < NR_SEM \<and> sm_owner (SEM s' j) = q \<and> q \<noteq> HARDWARE \<and> isokprocn q" if "j \<in> set ((al(p := remove1 i (al p))) q)" for q j
  proof -
    have "j \<in> set (al q)" "j \<noteq> i" using that i'(2) i'(3)[of q] set_remove1_subset[of i "al p"] by (auto split: if_splits)
    then show ?thesis using I(5)[of j q] F(5)[of j] by simp
  qed
  have free: "j < NR_SEM \<and> sm_owner (SEM s' j) = HARDWARE \<and> sm_name (SEM s' j) = ''FREE''" if "j \<in> set (fs @ [i])" for j
    using that I(4)[of j] F(5)[of j] F(6,7) p(2) by (cases "j = i") auto
  have "sm_index (SEM s' j) = int j" if "j < NR_SEM" for j
    using I(6)[OF that] F(5)[of j] F(8) by (cases "j = i") auto
  then have "sem_lists s' (fs @ [i]) (al(p := remove1 i (al p)))"
    unfolding sem_lists_def using F(1,2) wf' a(2) lists rest free by auto
  with run F(5) show ?thesis by blast
qed

lemma free_sems_ok:
  assumes "sem_lists s fs al" "isokprocn p" "length (al p) < n"
  shows "\<exists>s'. free_sems n p s = Inr s' \<and> sem_lists s' (fs @ al p) (al(p := [])) \<and> (\<forall>j. j \<notin> set (al p) \<longrightarrow> SEM s' j = SEM s j)"
  using assms
proof (induction n arbitrary: s fs al)
  case (Suc n)
  show ?case
  proof (cases "al p")
    case Nil
    then have "ls_first (sallocL (procs s p)) = None" using sem_listsD(3)[OF Suc.prems(1,2)] by (simp add: dll_def)
    moreover have "al(p := []) = al" using Nil by auto
    ultimately show ?thesis using Nil Suc.prems(1) by simp
  next
    case (Cons i js)
    have d: "dll (links s) (sallocL (procs s p)) (LSemA i # map LSemA js)" using sem_listsD(3)[OF Suc.prems(1,2)] Cons by simp
    have own: "lk_this (links s (LSemA i)) = Some (OSem i)" using sem_listsD(1)[OF Suc.prems(1)] by (simp add: wf_links_def)
    obtain s1 where s1: "MRT_sem_free p i s = Inr s1" "sem_lists s1 (fs @ [i]) (al(p := js))" "\<forall>j. j \<noteq> i \<longrightarrow> SEM s1 j = SEM s j"
      using sem_free_ok[OF Suc.prems(1), of i p] Cons by auto
    have "length ((al(p := js)) p) < n" using Suc.prems(3) Cons by simp
    from Suc.IH[OF s1(2) Suc.prems(2) this] obtain s' where s':
      "free_sems n p s1 = Inr s'" "sem_lists s' ((fs @ [i]) @ js) (al(p := []))" "\<forall>j. j \<notin> set js \<longrightarrow> SEM s' j = SEM s1 j"
      unfolding fun_upd_same fun_upd_upd by blast
    have "free_sems (Suc n) p s = Inr s'" using s1(1) s'(1) dll_first[OF d] own by simp
    moreover have "sem_lists s' (fs @ al p) (al(p := []))" using s'(2) unfolding Cons by (simp only: append_assoc append_Cons append_Nil)
    moreover have "\<forall>j. j \<notin> set (al p) \<longrightarrow> SEM s' j = SEM s j" using s'(3) s1(3) unfolding Cons by simp
    ultimately show ?thesis by blast
  qed
qed simp

subsection \<open>Finding a semaphore by its name\<close>

definition short_names :: "kstate \<Rightarrow> bool" where
  "short_names s \<longleftrightarrow> (\<forall>i<NR_SEM. length (sm_name (SEM s i)) < MAXPNAME)"

lemma sem_by_name_find:
  assumes "\<forall>i\<in>set is. length (sm_name (SEM s i)) < MAXPNAME" "length name < MAXPNAME"
  shows "sem_by_name is name s = Inr (List.find (\<lambda>i. sm_name (SEM s i) = name) is)"
  using assms by (induction "is") (auto simp: strcmp_eq_def)

lemma sem_lists_init:
  assumes "wf_links (links s)" "\<And>p. sallocL (procs s p) = list0"
  shows "\<exists>h x. MRT_spool_init s = Inr (s\<lparr>links := h, ss := x\<rparr>) \<and> sem_lists (s\<lparr>links := h, ss := x\<rparr>) [0..<NR_SEM] (\<lambda>_. [])
    \<and> short_names (s\<lparr>links := h, ss := x\<rparr>) \<and> (\<forall>i<NR_SEM. sm_name (sem x i) = ''FREE'')"
proof -
  obtain h x where i: "MRT_spool_init s = Inr (s\<lparr>links := h, ss := x\<rparr>)" "wf_links h" "dll h (sfreeL x) (map LSemA [0..<NR_SEM])"
    "\<forall>i<NR_SEM. sm_index (sem x i) = int i \<and> sm_owner (sem x i) = HARDWARE \<and> sm_name (sem x i) = ''FREE''"
    using spool_init_fills[OF assms(1)] by blast
  have "dll h list0 []" for h by (simp add: dll_def list0_def)
  with i assms(2) have "sem_lists (s\<lparr>links := h, ss := x\<rparr>) [0..<NR_SEM] (\<lambda>_. [])"
    by (simp add: sem_lists_def del: upt_Suc)
  moreover have "short_names (s\<lparr>links := h, ss := x\<rparr>)" using i(4) by (simp add: short_names_def)
  ultimately show ?thesis using i(1,4) by blast
qed

text \<open>A user process that asks for a binary semaphore, in a system without semaphores in use.\<close>

definition sem_attr :: mrt_semattr_t where
  "sem_attr = \<lparr>sa_value = 1, sa_flags = SEM_MUTEX, sa_priority = 3, sa_name = ''lock''\<rparr>"

definition sem_state :: kstate where
  "sem_state = wd_state\<lparr>um := umem0\<lparr>um_semattr := (\<lambda>_. sem_attr), um_name := (\<lambda>_. ''lock'')\<rparr>\<rparr>"

subsection \<open>Properties of the requests\<close>

text \<open>
  While the system is not in real-time mode, the task refuses every request other than setting the
  system flags and starting the real-time mode, without a fault and without any change of the kernel.
\<close>

lemma task_guards_standard_mode:
  assumes "\<not> svflag s MRT_RTMODE" "m_type msg \<noteq> 106" "m_type msg \<noteq> 113"
  shows "MRT_sys_task_step msg s
    = Inr (msg\<lparr>m_type := (if 100 \<le> m_type msg \<and> m_type msg < 128 then E_MRT_NORTMODE else EBADCALL)\<rparr>, s)"
proof (cases "100 \<le> m_type msg \<and> m_type msg < 128")
  case True
  then have "sys_run_mode ! nat (m_type msg - 100) = MRT_RTMODE"
    using assms(2,3) by (intro sys_run_mode_entries) auto
  moreover have "sv_flags (sv s) AND MRT_RTMODE = 0" using assms(1) by (simp add: TEST_BIT_def)
  ultimately show ?thesis using True by (simp add: MRT_sys_task_step_def Let_def)
next
  case False
  then have "m_type msg < 100 \<or> 128 \<le> m_type msg" by linarith
  with False show ?thesis by (auto simp: MRT_sys_task_step_def Let_def)
qed

text \<open>
  C36. In real-time mode the task treats the caller of an exit request first as a process identifier and then as a process
  number. (1) A number that is no identifier of a process makes the task read through a NULL pointer. (2) The identifier of a
  process that is not real-time is refused. (3) The identifier of a real-time process makes the task index the process table
  out of bounds when it is no process number. (4) When it happens to be the number of another process, that is
  not real-time and has no semaphores, the task answers \<open>OK\<close> but the process that exits is untouched and stays real-time.
\<close>

theorem exit_confuses_pid:
  assumes "m_type msg = 115" "svflag s MRT_RTMODE"
  shows "case MRT_pid2pptr (m1_i1 msg) s of
      None \<Rightarrow> MRT_sys_task_step msg s = Inl NullDeref
    | Some p \<Rightarrow>
        if \<not> MRT_is_realtime (procs s p) then MRT_sys_task_step msg s = Inr (msg\<lparr>m_type := E_MRT_BADPTYPE\<rparr>, s)
        else if \<not> isokprocn (m1_i1 msg) then MRT_sys_task_step msg s = Inl OutOfBounds
        else \<not> MRT_is_realtime (procs s (m1_i1 msg)) \<and> ls_first (sallocL (procs s (m1_i1 msg))) = None \<longrightarrow>
          (\<exists>s'. MRT_sys_task_step msg s = Inr (msg\<lparr>m_type := OK\<rparr>, s') \<and> procs s' p = procs s p \<and> MRT_is_realtime (procs s' p))"
proof -
  have "sys_run_mode ! 15 = MRT_RTMODE" "proc_run_mode ! 15 = MRT_P_REALTIME" "MRT_vector ! 15 = MRT_exit"
    by (simp_all add: sys_run_mode_def proc_run_mode_def MRT_vector_def nth_append)
  then have step: "MRT_sys_task_step msg s =
    (case MRT_pid2pptr (m1_i1 msg) s of
       None \<Rightarrow> Inl NullDeref
     | Some p \<Rightarrow>
         if \<not> MRT_is_realtime (procs s p) then Inr (msg\<lparr>m_type := E_MRT_BADPTYPE\<rparr>, s)
         else if \<not> isokprocn (m1_i1 msg) then Inl OutOfBounds
         else bnd (MRT_exit msg s) (\<lambda>(r, s'). Inr (msg\<lparr>m_type := r\<rparr>, s')))"
    using assms rtmode_word[OF assms(2)]
    by (auto simp: MRT_sys_task_step_def Let_def realtime_word MRT_exit_def proc_addr_def split: option.splits)
  have "MRT_exit msg s = Inr (OK, MRT_proc_rst (m1_i1 msg) s)"
    if "isokprocn (m1_i1 msg)" "\<not> MRT_is_realtime (procs s (m1_i1 msg))" "ls_first (sallocL (procs s (m1_i1 msg))) = None"
    using that by (simp add: MRT_exit_def proc_addr_def MRT_set2nrt_def MRT_set2nrt_fuel_def numeral_eq_Suc)
  moreover have "procs (MRT_proc_rst x s) p = procs s p" if "MRT_is_realtime (procs s p)" "\<not> MRT_is_realtime (procs s x)" for p x
  proof -
    have "p \<noteq> x" using that by auto
    then show ?thesis by (simp add: MRT_proc_rst_def MRT_pstat_rst_def MRT_pattr_rst_def)
  qed
  ultimately show ?thesis unfolding step by (auto split: option.splits)
qed

theorem exit_confuses_pid_witness:
  "MRT_sys_task_step (exit_msg 5) exit_state = Inl NullDeref \<and> MRT_sys_task_step (exit_msg 100) exit_state = Inl OutOfBounds
   \<and> (\<exists>s s'. p_pid (procs s 5) = 20 \<and> MRT_sys_task_step (exit_msg 20) s = Inr ((exit_msg 20)\<lparr>m_type := OK\<rparr>, s') \<and> MRT_is_realtime (procs s' 5))"
proof -
  let ?s = "upd_proc 5 (p_pid_update (\<lambda>_. 20)) exit_state"
  have p: "procs exit_state q = (if q = 5 then proc0\<lparr>p_pid := 100, p_flags := MRT_P_REALTIME\<rparr> else proc0\<lparr>p_flags := P_SLOT_FREE, p_pid := - 1\<rparr>)" for q
    by (simp add: exit_state_def)
  have "MRT_pid2pptr 5 exit_state = None" "MRT_pid2pptr 100 exit_state = Some 5" "MRT_pid2pptr 20 ?s = Some 5"
    by (simp_all add: MRT_pid2pptr_def p proc_slots_def upto.simps)
  moreover have m: "svflag exit_state MRT_RTMODE" "svflag ?s MRT_RTMODE" by (simp_all add: exit_state_def TEST_SET_same)
  moreover have "ls_first (sallocL (procs ?s 20)) = None" by (simp add: p zero_defs)
  ultimately have "MRT_sys_task_step (exit_msg 5) exit_state = Inl NullDeref" "MRT_sys_task_step (exit_msg 100) exit_state = Inl OutOfBounds"
    "\<exists>s'. MRT_sys_task_step (exit_msg 20) ?s = Inr ((exit_msg 20)\<lparr>m_type := OK\<rparr>, s') \<and> MRT_is_realtime (procs s' 5)"
    using exit_confuses_pid[of "exit_msg 5" exit_state] exit_confuses_pid[of "exit_msg 100" exit_state] exit_confuses_pid[of "exit_msg 20" ?s]
    by (auto simp: exit_msg_def m1_defs p MRT_is_realtime_def TEST_BIT_def isokprocn_def)
  moreover have "p_pid (procs ?s 5) = 20" by simp
  ultimately show ?thesis by blast
qed

text \<open>
  C39. \<open>MRT_setpattr\<close> accepts as watchdog the identifier of a real-time process and stores it where
  the kernel expects a process number: when the identifier is no process number, as most are, the
  kernel indexes the process table out of bounds as soon as it has to tell the watchdog.
\<close>

theorem watchdog_pid_faults:
  assumes caller: "MRT_pid2pptr (m1_i1 m) s = Some c"
    and attr: "USR2KRN um_pattr sizeof_pattr s c (m1_p1 m) = Some a" "TEST_BIT (pa_flags a) MRT_P_REALTIME"
      "MRT_PRIHIGHEST < pa_baseprty a" "pa_baseprty a \<le> MRT_PRILOWEST"
    and wd: "MRT_pid2pptr (pa_watchdog a) s = Some q" "MRT_is_realtime (procs s q)" "q \<noteq> c" "\<not> isokprocn (pa_watchdog a)"
  shows "\<exists>s'. MRT_setpattr m s = Inr (OK, s') \<and> rt_watchdog (rt (procs s' c)) = pa_watchdog a
    \<and> tell_watchdog c s' = Inl OutOfBounds"
proof -
  have "\<not> bad_watchdog c a s" using wd by (simp add: bad_watchdog_def)
  moreover have "pa_baseprty a \<noteq> 0" "\<not> 15 < pa_baseprty a" using attr(3,4) by (auto simp: not_less)
  ultimately have "\<exists>s'. MRT_setpattr m s = Inr (OK, s') \<and> rt_watchdog (rt (procs s' c)) = pa_watchdog a"
    using caller attr(1,2) by (simp add: MRT_setpattr_def get_user_def copy_or_einval_def Let_def)
  then show ?thesis using wd(4) by (auto simp: tell_watchdog_def proc_addr_def)
qed

theorem watchdog_pid_faults_witness:
  "\<exists>s'. MRT_setpattr wd_msg wd_state = Inr (OK, s') \<and> tell_watchdog 4 s' = Inl OutOfBounds"
proof -
  have p: "procs wd_state q = (if q = 5 then proc0\<lparr>p_pid := 100, p_flags := MRT_P_REALTIME\<rparr>
      else if q = 4 then proc_mapped\<lparr>p_pid := 99\<rparr> else proc0\<lparr>p_flags := P_SLOT_FREE, p_pid := - 1\<rparr>)" for q
    by (simp add: wd_state_def)
  have f: "MRT_pid2pptr 99 wd_state = Some 4" "MRT_pid2pptr 100 wd_state = Some 5"
    by (simp_all add: MRT_pid2pptr_def p proc_slots_def upto.simps proc_mapped_def proc0_def)
  have "m1_i1 wd_msg = 99" "m1_p1 wd_msg = 0x100" by (simp_all add: wd_msg_def m1_defs)
  moreover have "USR2KRN um_pattr sizeof_pattr wd_state 4 0x100 = Some wd_attr"
    by (simp add: USR2KRN_def numap_def umap_def p proc_mapped_def Let_def word_le_nat_alt) (simp add: wd_state_def)
  moreover have "TEST_BIT (pa_flags wd_attr) MRT_P_REALTIME" "MRT_PRIHIGHEST < pa_baseprty wd_attr" "pa_baseprty wd_attr \<le> MRT_PRILOWEST"
    "pa_watchdog wd_attr = 100" by (simp_all add: wd_attr_def TEST_BIT_def)
  moreover have "MRT_is_realtime (procs wd_state 5)" by (simp add: p MRT_is_realtime_def TEST_BIT_def)
  moreover have "\<not> isokprocn 100" by (simp add: isokprocn_def)
  ultimately show ?thesis
    using watchdog_pid_faults[of wd_msg wd_state 4 wd_attr 5] f by auto
qed

text \<open>
  C38. The loop that frees the semaphores of a process that exits ends, whatever the process owns: all of
  them return to the free list unowned, and no semaphore of another process is touched.
\<close>

theorem exit_frees_semaphores:
  assumes "sem_lists s fs al" "isokprocn p"
  shows "\<exists>s'. free_sems sem_fuel p s = Inr s' \<and> sem_lists s' (fs @ al p) (al(p := []))
    \<and> (\<forall>i\<in>set (al p). sm_owner (SEM s' i) = HARDWARE) \<and> (\<forall>j. j \<notin> set (al p) \<longrightarrow> SEM s' j = SEM s j)"
proof -
  have "length (al p) < sem_fuel" using sem_lists_distinct(3)[OF assms(1), of p] by simp
  from free_sems_ok[OF assms this] obtain s' where s': "free_sems sem_fuel p s = Inr s'" "sem_lists s' (fs @ al p) (al(p := []))"
    "\<forall>j. j \<notin> set (al p) \<longrightarrow> SEM s' j = SEM s j" by blast
  have "sm_owner (SEM s' i) = HARDWARE" if "i \<in> set (al p)" for i using sem_listsD(4)[OF s'(2), of i] that by simp
  with s' show ?thesis by blast
qed

theorem exit_frees_semaphores_witness:
  "\<exists>s s'. sem_lists s [2..<NR_SEM] ((\<lambda>_. [])(5 := [0, 1])) \<and> free_sems sem_fuel 5 s = Inr s'
     \<and> sm_owner (SEM s 0) = 5 \<and> sm_owner (SEM s' 0) = HARDWARE"
proof -
  have k: "wf_links (links kstate0)" "\<And>p. sallocL (procs kstate0 p) = list0" by (simp_all add: kstate0_def proc0_def)
  have up: "[0..<NR_SEM] = 0 # 1 # [2..<NR_SEM]" by (simp add: upt_rec)
  obtain s0 where "sem_lists s0 (0 # 1 # [2..<NR_SEM]) (\<lambda>_. [])" using sem_lists_init[OF k] unfolding up by blast
  moreover have ok: "isokprocn 5" "(5 :: int) \<noteq> HARDWARE" by (simp_all add: isokprocn_def)
  ultimately obtain s1 where "sem_lists s1 (1 # [2..<NR_SEM]) ((\<lambda>_. [])(5 := [] @ [0]))" using sem_alloc_ok by blast
  from sem_alloc_ok[OF this ok] obtain s2 where s2: "sem_lists s2 [2..<NR_SEM] ((\<lambda>_. [])(5 := [0, 1]))"
    unfolding fun_upd_same fun_upd_upd by auto
  have "sm_owner (SEM s2 0) = 5" using sem_listsD(5)[OF s2, of 0 5] by simp
  with exit_frees_semaphores[OF s2 ok(1)] s2 show ?thesis by (auto simp del: upt_Suc)
qed

text \<open>
  C37. A semaphore that is created is found by its name: a request with a new name and valid attributes
  takes the first free semaphore for the caller and sets its value, its priority, its policy (the three flags that are allowed) and its name,
  changes no other semaphore, and from then on a search for the name returns the identifier that the creation returned. Valid
  attributes pass the checks of \<open>MRT_semalloc\<close> and have a name that is shorter than its field, as all names in use are.
\<close>

theorem semalloc_then_found:
  assumes inv: "sem_lists s (i # fs) al" "short_names s"
    and caller: "MRT_pid2pptr (m1_i1 m) s = Some c" "c \<noteq> HARDWARE"
    and attr: "USR2KRN um_semattr sizeof_semattr s c (m1_p1 m) = Some a" "semalloc_check a = OK" "length (sa_name a) < MAXPNAME"
    and new: "\<forall>j<NR_SEM. sm_name (SEM s j) \<noteq> sa_name a"
  shows "\<exists>s'. MRT_semalloc m s = Inr (int i, s') \<and> sem_lists s' fs (al(c := al c @ [i])) \<and> short_names s'
    \<and> sm_owner (SEM s' i) = c \<and> sm_value (SEM s' i) = sa_value a \<and> sm_name (SEM s' i) = sa_name a \<and> sm_priority (SEM s' i) = sa_priority a
    \<and> sm_flags (SEM s' i) = sa_flags a AND (SEM_PRTYORDER OR SEM_PRTYINHERIT OR SEM_MUTEX) \<and> (\<forall>j. j \<noteq> i \<longrightarrow> SEM s' j = SEM s j)
    \<and> (\<forall>m2 c2. MRT_pid2pptr (m1_i1 m2) s' = Some c2
         \<and> USR2KRN um_name (word_of_nat MAXPNAME) s' c2 (m1_p1 m2) = Some (sa_name a) \<longrightarrow> MRT_getsemid m2 s' = Inr (int i, s'))"
proof -
  have c: "isokprocn c" using pid2pptr_ok[OF caller(1)] .
  obtain s1 where s1: "MRT_sem_alloc c s = Inr (Some i, s1)" "sem_lists s1 fs (al(c := al c @ [i]))"
    "\<forall>j. j \<noteq> i \<longrightarrow> SEM s1 j = SEM s j" "SEM s1 i = (SEM s i)\<lparr>sm_owner := c\<rparr>" using sem_alloc_ok[OF inv(1) c caller(2)] by blast
  let ?s' = "upd_sem i (\<lambda>x. x\<lparr>sm_flags := sa_flags a AND (SEM_PRTYORDER OR SEM_PRTYINHERIT OR SEM_MUTEX), sm_value := sa_value a,
    sm_priority := sa_priority a, sm_name := sa_name a\<rparr>) s1"
  have "sem_by_name [0..<NR_SEM] (sa_name a) s = Inr None"
    using sem_by_name_find[of "[0..<NR_SEM]" s "sa_name a"] inv(2) attr(3) new by (auto simp: short_names_def find_None_iff simp del: upt_Suc)
  moreover have i: "i < NR_SEM" "i \<notin> set fs" "sm_index (SEM s i) = int i"
    using sem_listsD(4)[OF inv(1), of i] sem_lists_distinct(1)[OF inv(1)] sem_listsD(6)[OF inv(1), of i] by auto
  ultimately have run: "MRT_semalloc m s = Inr (int i, ?s')"
    using caller(1) attr s1(1,4) by (simp add: MRT_semalloc_def get_user_def copy_or_einval_def Let_def del: upt_Suc)
  have inv': "sem_lists ?s' fs (al(c := al c @ [i]))" using s1(2) i(2) unfolding sem_lists_def by (auto simp del: upt_Suc)
  have sn: "short_names ?s'" using inv(2) s1(3) attr(3) by (auto simp: short_names_def)
  have uniq: "sm_name (SEM ?s' j) = sa_name a \<longleftrightarrow> j = i" if "j < NR_SEM" for j using new s1(3) that by auto
  have "List.find (\<lambda>j. sm_name (SEM ?s' j) = sa_name a) [0..<NR_SEM] = Some i"
    by (rule find_unique) (use uniq i(1) in \<open>auto simp only: set_upt atLeastLessThan_iff\<close>)
  then have "sem_by_name [0..<NR_SEM] (sa_name a) ?s' = Inr (Some i)"
    using sem_by_name_find[of "[0..<NR_SEM]" ?s' "sa_name a"] sn attr(3) by (auto simp: short_names_def simp del: upt_Suc)
  then have found: "MRT_getsemid m2 ?s' = Inr (int i, ?s')"
    if "MRT_pid2pptr (m1_i1 m2) ?s' = Some c2" "USR2KRN um_name (word_of_nat MAXPNAME) ?s' c2 (m1_p1 m2) = Some (sa_name a)" for m2 c2
    using that i(3) s1(4) by (simp add: MRT_getsemid_def get_user_def copy_or_einval_def del: upt_Suc)
  show ?thesis
    by (rule exI[of _ ?s']) (intro conjI run inv' sn allI impI, use s1(3,4) found in auto)
qed

theorem semalloc_then_found_witness:
  "\<exists>s s'. MRT_spool_init sem_state = Inr s \<and> MRT_semalloc wd_msg s = Inr (0, s') \<and> sm_name (SEM s' 0) = ''lock''"
proof -
  have p: "procs sem_state q = (if q = 5 then proc0\<lparr>p_pid := 100, p_flags := MRT_P_REALTIME\<rparr>
      else if q = 4 then proc_mapped\<lparr>p_pid := 99\<rparr> else proc0\<lparr>p_flags := P_SLOT_FREE, p_pid := - 1\<rparr>)" for q
    by (simp add: sem_state_def wd_state_def)
  have k: "wf_links (links sem_state)" "\<And>q. sallocL (procs sem_state q) = list0"
    by (simp add: sem_state_def wd_state_def) (simp add: p proc_mapped_def proc0_def)
  obtain h x where i: "MRT_spool_init sem_state = Inr (sem_state\<lparr>links := h, ss := x\<rparr>)"
    "sem_lists (sem_state\<lparr>links := h, ss := x\<rparr>) [0..<NR_SEM] (\<lambda>_. [])" "short_names (sem_state\<lparr>links := h, ss := x\<rparr>)"
    "\<forall>i<NR_SEM. sm_name (sem x i) = ''FREE''" using sem_lists_init[OF k] by blast
  let ?s = "sem_state\<lparr>links := h, ss := x\<rparr>"
  have up: "[0..<NR_SEM] = 0 # [1..<NR_SEM]" by (simp add: upt_rec)
  have "MRT_pid2pptr (m1_i1 wd_msg) ?s = Some 4"
    by (simp add: wd_msg_def m1_defs MRT_pid2pptr_def p proc_slots_def upto.simps proc_mapped_def proc0_def)
  moreover have "USR2KRN um_semattr sizeof_semattr ?s 4 (m1_p1 wd_msg) = Some sem_attr"
    by (simp add: USR2KRN_def numap_def umap_def p proc_mapped_def Let_def word_le_nat_alt wd_msg_def m1_defs) (simp add: sem_state_def)
  moreover have "semalloc_check sem_attr = OK" "length (sa_name sem_attr) < MAXPNAME"
    by (simp_all add: semalloc_check_def sem_attr_def TEST_BIT_def)
  moreover have "\<forall>j<NR_SEM. sm_name (SEM ?s j) \<noteq> sa_name sem_attr" using i(4) by (simp add: sem_attr_def)
  ultimately show ?thesis
    using semalloc_then_found[OF i(2)[unfolded up] i(3), of wd_msg 4 sem_attr] i(1) by (auto simp: sem_attr_def)
qed

end
