(* ===== verification/Mm_Alloc.thy ===== *)
theory Mm_Alloc
  imports Prelude
begin

text \<open>
  The allocator of physical memory of the memory manager, \<^verbatim>\<open>src/src/mm/alloc.c\<close>: a table of
  128 slots threaded by two singly linked lists, the holes in order of address and the unused
  slots. Addresses and lengths are in clicks, in 32-bit words.

  The lemmas show that the table stands for a canonical list of holes (sorted, not empty, never
  adjacent), that allocation is first fit on it, that freeing adds the block and merges it with
  its neighbours, and that the two are inverse to each other.
\<close>

subsection \<open>The table\<close>

abbreviation (input) NR_HOLES :: nat where "NR_HOLES \<equiv> 128"
abbreviation (input) NO_MEM :: u32 where "NO_MEM \<equiv> 0"
abbreviation (input) hole_fuel :: nat where "hole_fuel \<equiv> 129"

record hole_t =
  h_base :: u32
  h_len :: u32
  h_next :: "nat option"

record mem_t =
  hole :: "nat \<Rightarrow> hole_t"
  hole_head :: "nat option"
  free_slots :: "nat option"

abbreviation upd_hole :: "nat \<Rightarrow> (hole_t \<Rightarrow> hole_t) \<Rightarrow> mem_t \<Rightarrow> mem_t" where
  "upd_hole i f \<equiv> hole_update (\<lambda>m. m(i := f (m i)))"

subsection \<open>Operations\<close>

definition del_slot :: "nat option \<Rightarrow> nat \<Rightarrow> mem_t \<Rightarrow> mem_t res" where
  "del_slot prev_ptr hp m =
     bnd (if hole_head m = Some hp then Inr (m\<lparr>hole_head := h_next (hole m hp)\<rparr>)
          else bnd (deref prev_ptr) (\<lambda>p. Inr (upd_hole p (h_next_update (\<lambda>_. h_next (hole m hp))) m)))
       (\<lambda>m. Inr ((upd_hole hp (h_next_update (\<lambda>_. free_slots m)) m)\<lparr>free_slots := Some hp\<rparr>))"

text \<open>The loop of \<open>alloc_mem\<close>; the hole list has at most 128 members.\<close>

fun alloc_loop :: "nat \<Rightarrow> u32 \<Rightarrow> nat option \<Rightarrow> nat option \<Rightarrow> mem_t \<Rightarrow> (u32 \<times> mem_t) res" where
  "alloc_loop 0 clicks prev_ptr hp m = Inl Diverge"
| "alloc_loop (Suc n) clicks prev_ptr hp m =
     (case hp of
        None \<Rightarrow> Inr (NO_MEM, m)
      | Some i \<Rightarrow>
          if h_len (hole m i) \<ge> clicks
          then
            let old_base = h_base (hole m i);
                m = upd_hole i (h_base_update (\<lambda>b. b + clicks)) m;
                m = upd_hole i (h_len_update (\<lambda>l. l - clicks)) m
            in if h_len (hole m i) \<noteq> 0 then Inr (old_base, m)
               else bnd (del_slot prev_ptr i m) (\<lambda>m. Inr (old_base, m))
          else alloc_loop n clicks (Some i) (h_next (hole m i)) m)"

definition alloc_mem :: "u32 \<Rightarrow> mem_t \<Rightarrow> (u32 \<times> mem_t) res" where
  "alloc_mem clicks m = alloc_loop hole_fuel clicks None (hole_head m) m"

text \<open>One test of \<open>merge\<close>: absorb the successor of \<open>hp\<close> if it is contiguous.\<close>

definition absorb :: "nat \<Rightarrow> nat \<Rightarrow> mem_t \<Rightarrow> mem_t res" where
  "absorb hp next_ptr m =
     del_slot (Some hp) next_ptr (upd_hole hp (h_len_update (\<lambda>l. l + h_len (hole m next_ptr))) m)"

definition contiguous :: "nat \<Rightarrow> nat \<Rightarrow> mem_t \<Rightarrow> bool" where
  "contiguous hp next_ptr m \<longleftrightarrow> h_base (hole m hp) + h_len (hole m hp) = h_base (hole m next_ptr)"

definition merge_last :: "nat \<Rightarrow> mem_t \<Rightarrow> mem_t res" where
  "merge_last hp m =
     (case h_next (hole m hp) of
        None \<Rightarrow> Inr m
      | Some next_ptr \<Rightarrow> if contiguous hp next_ptr m then absorb hp next_ptr m else Inr m)"

definition merge :: "nat \<Rightarrow> mem_t \<Rightarrow> mem_t res" where
  "merge hp m =
     (case h_next (hole m hp) of
        None \<Rightarrow> Inr m
      | Some next_ptr \<Rightarrow>
          if contiguous hp next_ptr m then bnd (absorb hp next_ptr m) (merge_last hp)
          else merge_last next_ptr m)"

text \<open>The search of \<open>free_mem\<close>, from a hole that is not the first one: the hole to insert after.\<close>

fun free_search :: "nat \<Rightarrow> u32 \<Rightarrow> nat \<Rightarrow> nat option \<Rightarrow> mem_t \<Rightarrow> nat res" where
  "free_search 0 base prev_ptr hp m = Inl Diverge"
| "free_search (Suc n) base prev_ptr hp m =
     (case hp of
        None \<Rightarrow> Inr prev_ptr
      | Some i \<Rightarrow>
          if base > h_base (hole m i) then free_search n base i (h_next (hole m i)) m else Inr prev_ptr)"

definition free_mem :: "u32 \<Rightarrow> u32 \<Rightarrow> mem_t \<Rightarrow> mem_t res" where
  "free_mem base clicks m =
     (if clicks = 0 then Inr m
      else
        case free_slots m of
          None \<Rightarrow> Inl (Panic ''Hole table full'')
        | Some new \<Rightarrow>
            let m = upd_hole new (\<lambda>h. h\<lparr>h_base := base, h_len := clicks\<rparr>) m;
                m = m\<lparr>free_slots := h_next (hole m new)\<rparr>
            in case hole_head m of
                 None \<Rightarrow> merge new ((upd_hole new (h_next_update (\<lambda>_. None)) m)\<lparr>hole_head := Some new\<rparr>)
               | Some hp \<Rightarrow>
                   if base \<le> h_base (hole m hp)
                   then merge new ((upd_hole new (h_next_update (\<lambda>_. Some hp)) m)\<lparr>hole_head := Some new\<rparr>)
                   else
                     bnd (free_search hole_fuel base hp (h_next (hole m hp)) m) (\<lambda>prev_ptr.
                     let m = upd_hole new (h_next_update (\<lambda>_. h_next (hole m prev_ptr))) m;
                         m = upd_hole prev_ptr (h_next_update (\<lambda>_. Some new)) m
                     in merge prev_ptr m))"

fun max_loop :: "nat \<Rightarrow> u32 \<Rightarrow> nat option \<Rightarrow> mem_t \<Rightarrow> u32 res" where
  "max_loop 0 mx hp m = Inl Diverge"
| "max_loop (Suc n) mx hp m =
     (case hp of
        None \<Rightarrow> Inr mx
      | Some i \<Rightarrow> max_loop n (if h_len (hole m i) > mx then h_len (hole m i) else mx) (h_next (hole m i)) m)"

definition max_hole :: "mem_t \<Rightarrow> u32 res" where
  "max_hole m = max_loop hole_fuel 0 (hole_head m) m"

text \<open>
  The replies of the system task to the successive \<open>SYS_MEM\<close> requests are a parameter: the result
  of \<open>sendrec\<close>, and the base, the size and the total amount of memory of the message. The loop
  ends at the first chunk of size 0.
\<close>

type_synonym sys_mem = "nat \<Rightarrow> int \<times> u32 \<times> u32 \<times> u32"

fun mem_init_loop :: "nat \<Rightarrow> nat \<Rightarrow> sys_mem \<Rightarrow> u32 \<times> u32 \<times> mem_t \<Rightarrow> (u32 \<times> u32 \<times> mem_t) res" where
  "mem_init_loop 0 i replies st0 = Inl Diverge"
| "mem_init_loop (Suc n) i replies (tot0, free, m) =
     (case replies i of (r, base, sz, tot) \<Rightarrow>
        if r \<noteq> 0 then Inl (Panic ''bad SYS_MEM?'')
        else if sz = 0 then Inr (tot0, free, m)
        else bnd (free_mem base sz m) (\<lambda>m. mem_init_loop n (i + 1) replies (tot, free + sz, m)))"

definition mem_init_table :: "mem_t \<Rightarrow> mem_t" where
  "mem_init_table m =
     m\<lparr>hole := (\<lambda>i. if i < NR_HOLES then (hole m i)\<lparr>h_next := (if i = NR_HOLES - 1 then None else Some (i + 1))\<rparr>
                    else hole m i),
       hole_head := None, free_slots := Some 0\<rparr>"

definition mem_init :: "nat \<Rightarrow> sys_mem \<Rightarrow> u32 \<Rightarrow> mem_t \<Rightarrow> (u32 \<times> u32 \<times> mem_t) res" where
  "mem_init n replies tot0 m = mem_init_loop n 0 replies (tot0, 0, mem_init_table m)"

subsection \<open>The lists a table stands for\<close>

fun hseg :: "(nat \<Rightarrow> hole_t) \<Rightarrow> nat option \<Rightarrow> nat list \<Rightarrow> nat option \<Rightarrow> bool" where
  "hseg h p [] q \<longleftrightarrow> p = q"
| "hseg h p (i # is) q \<longleftrightarrow> p = Some i \<and> hseg h (h_next (h i)) is q"

abbreviation hchain :: "(nat \<Rightarrow> hole_t) \<Rightarrow> nat option \<Rightarrow> nat list \<Rightarrow> bool" where
  "hchain h p is \<equiv> hseg h p is None"

definition mm_rep :: "mem_t \<Rightarrow> nat list \<Rightarrow> nat list \<Rightarrow> bool" where
  "mm_rep m hs fs \<longleftrightarrow>
     hchain (hole m) (hole_head m) hs \<and> hchain (hole m) (free_slots m) fs
     \<and> distinct (hs @ fs) \<and> set (hs @ fs) = {..<NR_HOLES}"

type_synonym block = "nat \<times> nat"

definition blk :: "(nat \<Rightarrow> hole_t) \<Rightarrow> nat \<Rightarrow> block" where
  "blk h i = (unat (h_base (h i)), unat (h_len (h i)))"

text \<open>
  A canonical list of blocks above the address \<open>lo\<close>: in order of address, none empty, with a gap
  in front of each.
\<close>

fun canon :: "nat \<Rightarrow> block list \<Rightarrow> bool" where
  "canon lo [] \<longleftrightarrow> True"
| "canon lo ((b, l) # xs) \<longleftrightarrow> lo < b \<and> 0 < l \<and> b + l \<le> 2 ^ 32 \<and> canon (b + l) xs"

definition span :: "block \<Rightarrow> nat set" where
  "span x = {fst x..<fst x + snd x}"

definition spans :: "block list \<Rightarrow> nat set" where
  "spans xs = (\<Union>x\<in>set xs. span x)"

fun last_end :: "nat \<Rightarrow> block list \<Rightarrow> nat" where
  "last_end lo [] = lo"
| "last_end lo ((b, l) # xs) = last_end (b + l) xs"

lemma spans_simps [simp]:
  "spans [] = {}" "spans (x # xs) = span x \<union> spans xs" "spans (xs @ ys) = spans xs \<union> spans ys"
  by (auto simp: spans_def)

lemma canon_append: "canon lo (xs @ ys) \<longleftrightarrow> canon lo xs \<and> canon (last_end lo xs) ys"
  by (induction lo xs rule: canon.induct) auto

lemma canon_mono: "canon lo xs \<Longrightarrow> lo' \<le> lo \<Longrightarrow> canon lo' xs"
  by (cases xs) auto

lemma canon_above: "canon lo xs \<Longrightarrow> x \<in> spans xs \<Longrightarrow> lo < x"
  by (induction lo xs rule: canon.induct) (auto simp: span_def)

lemma canon_below: "canon lo xs \<Longrightarrow> x \<in> spans xs \<Longrightarrow> x < 2 ^ 32"
  by (induction lo xs rule: canon.induct) (auto simp: span_def)

lemma canon_member: "canon lo xs \<Longrightarrow> (b, l) \<in> set xs \<Longrightarrow> lo < b \<and> 0 < l \<and> b + l \<le> 2 ^ 32"
  by (induction lo xs rule: canon.induct) auto

lemma canon_disj: "canon (b + l) xs \<Longrightarrow> span (b, l) \<inter> spans xs = {}"
  using canon_above[of "b + l" xs] by (force simp: span_def)

text \<open>A set of addresses has one canonical list.\<close>

lemma canon_unique_head:
  assumes "canon lo ((b, l) # xs)" and "canon lo ((b', l') # ys)"
    and "spans ((b, l) # xs) = spans ((b', l') # ys)"
  shows "b \<le> b'" and "b = b' \<Longrightarrow> l \<le> l'"
proof -
  have "b' \<in> spans ((b, l) # xs)" using assms(2,3) by (simp add: span_def)
  then show "b \<le> b'" using assms(1) canon_above[of "b + l" xs b'] by (auto simp: span_def)
next
  assume b: "b = b'"
  show "l \<le> l'"
  proof (rule ccontr)
    assume "\<not> l \<le> l'"
    then have "b' + l' \<in> spans ((b', l') # ys)" using assms(3) b by (auto simp: span_def)
    then show False using assms(2) canon_above[of "b' + l'" ys "b' + l'"] by (auto simp: span_def)
  qed
qed

lemma canon_unique: "canon lo xs \<Longrightarrow> canon lo ys \<Longrightarrow> spans xs = spans ys \<Longrightarrow> xs = ys"
proof (induction lo xs arbitrary: ys rule: canon.induct)
  case (1 lo)
  then show ?case by (cases ys) (auto simp: span_def)
next
  case (2 lo b l xs)
  then obtain b' l' ys' where ys: "ys = (b', l') # ys'" by (cases ys) (auto simp: span_def)
  have "b = b'" "l = l'"
    using canon_unique_head[of lo b l xs b' l' ys'] canon_unique_head[of lo b' l' ys' b l xs] 2(2-4) ys
    by (metis order_antisym)+
  moreover have "spans xs = spans ys'"
  proof -
    have "span (b, l) \<inter> spans xs = {}" "span (b, l) \<inter> spans ys' = {}"
      using 2 ys \<open>b = b'\<close> \<open>l = l'\<close> by (simp_all add: canon_disj)
    then show ?thesis using 2(4) ys \<open>b = b'\<close> \<open>l = l'\<close> by auto
  qed
  moreover have "canon (b + l) xs" "canon (b + l) ys'"
    using 2(2,3) ys \<open>b = b'\<close> \<open>l = l'\<close> by simp_all
  ultimately show ?case using 2(1)[of ys'] ys by blast
qed

lemma hseg_append: "hseg h p (xs @ ys) q \<longleftrightarrow> (\<exists>r. hseg h p xs r \<and> hseg h r ys q)"
  by (induction xs arbitrary: p) auto

lemma hseg_cong: "(\<And>i. i \<in> set is \<Longrightarrow> h_next (h' i) = h_next (h i)) \<Longrightarrow> hseg h' p is q = hseg h p is q"
  by (induction "is" arbitrary: p) auto

lemma hseg_upd [simp]: "i \<notin> set is \<Longrightarrow> hseg (h(i := v)) p is q = hseg h p is q"
  by (rule hseg_cong) auto

lemma hseg_first: "hseg h p (i # is) q \<Longrightarrow> p = Some i" by simp

lemma blk_upd [simp]: "i \<notin> set is \<Longrightarrow> map (blk (h(i := v))) is = map (blk h) is"
  by (auto simp: blk_def)

subsection \<open>Slots\<close>

lemma del_slot_ok:
  assumes "mm_rep m (xs @ x # y # ys) fs"
  shows "\<exists>m'. del_slot (Some x) y m = Inr m' \<and> mm_rep m' (xs @ x # ys) (y # fs)
     \<and> (\<forall>i. blk (hole m') i = blk (hole m) i)"
proof -
  have d: "distinct (xs @ x # y # ys)" "hole_head m \<noteq> Some y"
    using assms by (cases xs; auto simp: mm_rep_def)+
  then show ?thesis
    using assms by (auto simp: del_slot_def mm_rep_def hseg_append blk_def)
qed

lemma del_slot_head_ok:
  assumes "mm_rep m (y # ys) fs"
  shows "\<exists>m'. del_slot p y m = Inr m' \<and> mm_rep m' ys (y # fs) \<and> (\<forall>i. blk (hole m') i = blk (hole m) i)"
  using assms by (auto simp: del_slot_def mm_rep_def blk_def)

subsection \<open>Merging\<close>

definition fits :: "block \<Rightarrow> bool" where
  "fits x \<longleftrightarrow> 0 < fst x \<and> fst x + snd x \<le> 2 ^ 32"

text \<open>\<open>merge\<close> on blocks: absorb the successor, then try once more.\<close>

fun glue :: "block \<Rightarrow> block list \<Rightarrow> block list" where
  "glue x [] = [x]"
| "glue x (y # ys) = (if fst x + snd x = fst y then (fst x, snd x + snd y) # ys else x # y # ys)"

fun merge_blocks :: "block list \<Rightarrow> block list" where
  "merge_blocks (x # y # ys) =
     (if fst x + snd x = fst y then glue (fst x, snd x + snd y) ys else x # glue y ys)"
| "merge_blocks xs = xs"

lemma contiguous_iff:
  assumes "fits (blk (hole m) x)" and "fits (blk (hole m) y)"
  shows "contiguous x y m \<longleftrightarrow> fst (blk (hole m) x) + snd (blk (hole m) x) = fst (blk (hole m) y)"
proof (cases "fst (blk (hole m) x) + snd (blk (hole m) x) = 2 ^ 32")
  case True
  then have "h_base (hole m x) + h_len (hole m x) = 0"
    by (simp add: blk_def flip: unat_eq_zero) (simp add: unat_word_ariths)
  moreover have "h_base (hole m y) \<noteq> 0" using assms(2) by (auto simp: fits_def blk_def)
  moreover have "unat (h_base (hole m y)) < 2 ^ 32" using unsigned_less[of "h_base (hole m y)"] by simp
  ultimately show ?thesis using True by (auto simp: contiguous_def blk_def)
next
  case False
  then have "unat (h_base (hole m x) + h_len (hole m x)) = unat (h_base (hole m x)) + unat (h_len (hole m x))"
    using assms(1) by (intro unat_add_lem[THEN iffD1]) (simp add: fits_def blk_def)
  then show ?thesis by (auto simp: contiguous_def blk_def word_unat_eq_iff)
qed

lemma absorb_ok:
  assumes "mm_rep m (xs @ x # y # ys) fs"
    and "snd (blk (hole m) x) + snd (blk (hole m) y) < 2 ^ 32"
  shows "\<exists>m'. absorb x y m = Inr m' \<and> mm_rep m' (xs @ x # ys) (y # fs)
     \<and> blk (hole m') x = (fst (blk (hole m) x), snd (blk (hole m) x) + snd (blk (hole m) y))
     \<and> (\<forall>i. i \<noteq> x \<longrightarrow> blk (hole m') i = blk (hole m) i)"
proof -
  let ?m = "upd_hole x (h_len_update (\<lambda>l. l + h_len (hole m y))) m"
  have "mm_rep ?m (xs @ x # y # ys) fs"
    using assms(1) hseg_cong[of _ "hole ?m" "hole m"] by (simp add: mm_rep_def)
  from del_slot_ok[OF this] obtain m' where m': "del_slot (Some x) y ?m = Inr m'"
      "mm_rep m' (xs @ x # ys) (y # fs)" "\<forall>i. blk (hole m') i = blk (hole ?m) i" by auto
  have "unat (h_len (hole m x) + h_len (hole m y)) = unat (h_len (hole m x)) + unat (h_len (hole m y))"
    using assms(2) by (intro unat_add_lem[THEN iffD1]) (simp add: blk_def)
  with m' show ?thesis by (auto simp: absorb_def blk_def)
qed

lemma fits_glue: "fits x \<Longrightarrow> fits y \<Longrightarrow> fst x + snd x = fst y \<Longrightarrow>
    fits (fst x, snd x + snd y) \<and> snd x + snd y < 2 ^ 32"
  by (auto simp: fits_def)

lemma hseg_next: "hseg h p (xs @ x # ys) q \<Longrightarrow> h_next (h x) = (case ys of [] \<Rightarrow> q | y # _ \<Rightarrow> Some y)"
  by (auto simp: hseg_append split: list.split)

lemma merge_last_ok:
  assumes "mm_rep m (xs @ x # ys) fs" and "\<forall>i\<in>set (x # ys). fits (blk (hole m) i)"
  shows "\<exists>m' zs fs'. merge_last x m = Inr m' \<and> mm_rep m' (xs @ zs) fs'
     \<and> map (blk (hole m')) zs = glue (blk (hole m) x) (map (blk (hole m)) ys)
     \<and> map (blk (hole m')) xs = map (blk (hole m)) xs"
proof (cases ys)
  case Nil
  then have "merge_last x m = Inr m"
    using assms(1) hseg_next[of "hole m" "hole_head m" xs x ys None] by (simp add: merge_last_def mm_rep_def)
  with Nil assms(1) show ?thesis by auto
next
  case (Cons y zs)
  note fit = fits_glue[of "blk (hole m) x" "blk (hole m) y"]
  have nxt: "h_next (hole m x) = Some y"
    using assms(1) Cons hseg_next[of "hole m" "hole_head m" xs x ys None] by (simp add: mm_rep_def)
  have con: "contiguous x y m \<longleftrightarrow> fst (blk (hole m) x) + snd (blk (hole m) x) = fst (blk (hole m) y)"
    using assms(2) Cons by (intro contiguous_iff) auto
  show ?thesis
  proof (cases "contiguous x y m")
    case True
    with absorb_ok[of m xs x y zs fs] assms Cons con fit obtain m' where
      m': "absorb x y m = Inr m'" "mm_rep m' (xs @ x # zs) (y # fs)"
        "blk (hole m') x = (fst (blk (hole m) x), snd (blk (hole m) x) + snd (blk (hole m) y))"
        "\<forall>i. i \<noteq> x \<longrightarrow> blk (hole m') i = blk (hole m) i" by auto
    have "x \<notin> set xs" "x \<notin> set zs" using m'(2) by (auto simp: mm_rep_def)
    then have "map (blk (hole m')) xs = map (blk (hole m)) xs" "map (blk (hole m')) zs = map (blk (hole m)) zs"
      using m'(4) by auto
    with m' nxt True con Cons show ?thesis
      by (intro exI[of _ m'] exI[of _ "y # fs"] exI[of _ "x # zs"]) (simp add: merge_last_def)
  next
    case False
    then have "merge_last x m = Inr m" using nxt by (simp add: merge_last_def)
    with assms(1) False con Cons show ?thesis
      by (intro exI[of _ m] exI[of _ "x # ys"] exI[of _ fs]) simp
  qed
qed

lemma merge_ok:
  assumes "mm_rep m (xs @ x # ys) fs" and "\<forall>i\<in>set (x # ys). fits (blk (hole m) i)"
  shows "\<exists>m' zs fs'. merge x m = Inr m' \<and> mm_rep m' (xs @ zs) fs'
     \<and> map (blk (hole m')) zs = merge_blocks (map (blk (hole m)) (x # ys))
     \<and> map (blk (hole m')) xs = map (blk (hole m)) xs"
proof (cases ys)
  case Nil
  then have "merge x m = Inr m"
    using assms(1) hseg_next[of "hole m" "hole_head m" xs x ys None] by (simp add: merge_def mm_rep_def)
  with Nil assms(1) show ?thesis by (intro exI[of _ m] exI[of _ "[x]"] exI[of _ fs]) simp
next
  case (Cons y zs)
  note fit = fits_glue[of "blk (hole m) x" "blk (hole m) y"]
  have nxt: "h_next (hole m x) = Some y"
    using assms(1) Cons hseg_next[of "hole m" "hole_head m" xs x ys None] by (simp add: mm_rep_def)
  have con: "contiguous x y m \<longleftrightarrow> fst (blk (hole m) x) + snd (blk (hole m) x) = fst (blk (hole m) y)"
    using assms(2) Cons by (intro contiguous_iff) auto
  show ?thesis
  proof (cases "contiguous x y m")
    case True
    with absorb_ok[of m xs x y zs fs] assms Cons con fit obtain m1 where
      m1: "absorb x y m = Inr m1" "mm_rep m1 (xs @ x # zs) (y # fs)"
        "blk (hole m1) x = (fst (blk (hole m) x), snd (blk (hole m) x) + snd (blk (hole m) y))"
        "\<forall>i. i \<noteq> x \<longrightarrow> blk (hole m1) i = blk (hole m) i" by auto
    have "x \<notin> set xs" "x \<notin> set zs" using m1(2) by (auto simp: mm_rep_def)
    then have same: "map (blk (hole m1)) xs = map (blk (hole m)) xs" "map (blk (hole m1)) zs = map (blk (hole m)) zs"
      using m1(4) by auto
    have "\<forall>i\<in>set (x # zs). fits (blk (hole m1) i)"
      using assms(2) Cons True con fit m1(3) same(2) by auto
    from merge_last_ok[OF m1(2) this] True nxt con m1(1,3) same Cons show ?thesis
      by (auto simp: merge_def)
  next
    case False
    have "mm_rep m ((xs @ [x]) @ y # zs) fs" using assms(1) Cons by simp
    from merge_last_ok[OF this] assms(2) Cons obtain m' ws fs' where
      m': "merge_last y m = Inr m'" "mm_rep m' ((xs @ [x]) @ ws) fs'"
        "map (blk (hole m')) ws = glue (blk (hole m) y) (map (blk (hole m)) zs)"
        "map (blk (hole m')) (xs @ [x]) = map (blk (hole m)) (xs @ [x])" by auto
    with False con nxt Cons show ?thesis
      by (intro exI[of _ m'] exI[of _ "x # ws"] exI[of _ fs']) (simp add: merge_def)
  qed
qed

text \<open>What merging does to the set of addresses, in the two places where \<open>free_mem\<close> inserts a block.\<close>

lemma span_split: "span (b, l + l') = span (b, l) \<union> span (b + l, l')"
  by (auto simp: span_def)

lemma merge_blocks_front:
  assumes "canon lo xs" and "lo < b" and "0 < l" and "b + l \<le> 2 ^ 32"
    and "xs = [] \<or> b + l \<le> fst (hd xs)"
  shows "canon lo (merge_blocks ((b, l) # xs)) \<and> spans (merge_blocks ((b, l) # xs)) = span (b, l) \<union> spans xs"
proof (cases xs)
  case (Cons y ys)
  obtain b1 l1 where y: "y = (b1, l1)" by force
  have "glue (b1, l1) ys = (b1, l1) # ys" "glue (b, l + l1) ys = (b, l + l1) # ys" if "b + l = b1"
    using assms(1) Cons y that by (cases ys; auto)+
  moreover have "glue (b1, l1) ys = (b1, l1) # ys" using assms(1) Cons y by (cases ys) auto
  ultimately show ?thesis using assms Cons y by (auto simp: span_split add.assoc)
qed (use assms in simp)

lemma merge_blocks_middle:
  assumes "canon lo (p # xs)" and "fst p + snd p \<le> b" and "0 < l" and "b + l \<le> 2 ^ 32"
    and "xs = [] \<or> b + l \<le> fst (hd xs)"
  shows "canon lo (merge_blocks (p # (b, l) # xs))
     \<and> spans (merge_blocks (p # (b, l) # xs)) = span p \<union> span (b, l) \<union> spans xs"
proof -
  obtain b0 l0 where p: "p = (b0, l0)" by force
  show ?thesis
  proof (cases xs)
    case Nil
    then show ?thesis using assms p by (auto simp: span_split)
  next
    case (Cons y ys)
    obtain b1 l1 where y: "y = (b1, l1)" by force
    show ?thesis using assms Cons y p by (auto simp: span_split add.assoc)
  qed
qed

subsection \<open>The holes of a table\<close>

fun walk :: "nat \<Rightarrow> (nat \<Rightarrow> hole_t) \<Rightarrow> nat option \<Rightarrow> nat list" where
  "walk 0 h p = []"
| "walk (Suc n) h p = (case p of None \<Rightarrow> [] | Some i \<Rightarrow> i # walk n h (h_next (h i)))"

definition holes :: "mem_t \<Rightarrow> block list" where
  "holes m = map (blk (hole m)) (walk hole_fuel (hole m) (hole_head m))"

definition mm_ok :: "mem_t \<Rightarrow> bool" where
  "mm_ok m \<longleftrightarrow> (\<exists>hs fs. mm_rep m hs fs) \<and> canon 0 (holes m)"

definition mm_free :: "mem_t \<Rightarrow> nat set" where
  "mm_free m = spans (holes m)"

lemma walk_hseg: "hchain h p xs \<Longrightarrow> length xs \<le> n \<Longrightarrow> walk n h p = xs"
proof (induction xs arbitrary: p n)
  case Nil
  then show ?case by (cases n) auto
next
  case (Cons x xs)
  then show ?case by (cases n) auto
qed

lemma mm_rep_length:
  assumes "mm_rep m hs fs"
  shows "length hs + length fs = NR_HOLES"
proof -
  have "card (set (hs @ fs)) = length (hs @ fs)" using assms by (intro distinct_card) (simp add: mm_rep_def)
  then show ?thesis using assms by (simp add: mm_rep_def)
qed

lemma holes_rep: "mm_rep m hs fs \<Longrightarrow> holes m = map (blk (hole m)) hs"
  using mm_rep_length[of m hs fs] walk_hseg[of "hole m" "hole_head m" hs hole_fuel]
  by (simp add: holes_def mm_rep_def)

lemma mm_okI: "mm_rep m hs fs \<Longrightarrow> canon 0 (map (blk (hole m)) hs) \<Longrightarrow> mm_ok m"
  by (auto simp: mm_ok_def holes_rep)

lemma mm_okE:
  assumes "mm_ok m"
  obtains hs fs where "mm_rep m hs fs" and "holes m = map (blk (hole m)) hs" and "canon 0 (map (blk (hole m)) hs)"
  using assms holes_rep unfolding mm_ok_def by metis

subsection \<open>Allocation is first fit\<close>

fun first_fit :: "nat \<Rightarrow> block list \<Rightarrow> (nat \<times> block list) option" where
  "first_fit n [] = None"
| "first_fit n ((b, l) # xs) =
     (if n \<le> l then Some (b, if l = n then xs else (b + n, l - n) # xs)
      else map_option (\<lambda>(a, ys). (a, (b, l) # ys)) (first_fit n xs))"

lemma first_fit_None: "first_fit n xs = None \<longleftrightarrow> (\<forall>x\<in>set xs. snd x < n)"
  by (induction n xs rule: first_fit.induct) auto

lemma first_fit_Some:
  assumes "first_fit n xs = Some (a, ys)" and "canon lo xs"
  shows "canon lo ys \<and> {a..<a + n} \<subseteq> spans xs \<and> spans ys = spans xs - {a..<a + n} \<and> lo < a \<and> a < 2 ^ 32"
  using assms
proof (induction n xs arbitrary: lo ys rule: first_fit.induct)
  case (2 n b l xs)
  note up = canon_above[of "b + l" xs]
  show ?case
  proof (cases "n \<le> l")
    case True
    then have ys: "a = b" "ys = (if l = n then xs else (b + n, l - n) # xs)" using 2(2) by auto
    have "{b..<b + n} \<inter> spans xs = {}" using up 2(3) True by fastforce
    then show ?thesis using 2(3) True ys by (auto simp: span_def canon_mono)
  next
    case False
    with 2(2) obtain zs where zs: "first_fit n xs = Some (a, zs)" "ys = (b, l) # zs" by auto
    with 2(1)[OF False zs(1)] 2(3) have IH: "canon (b + l) zs" "{a..<a + n} \<subseteq> spans xs"
        "spans zs = spans xs - {a..<a + n}" "b + l < a" "a < 2 ^ 32" by auto
    then have "span (b, l) \<inter> {a..<a + n} = {}" by (auto simp: span_def)
    then show ?thesis using IH 2(3) zs(2) by auto
  qed
qed simp

lemma take_part:
  assumes "mm_rep m (xs @ i # ys) fs" and "clicks < h_len (hole m i)" and "fits (blk (hole m) i)"
  defines "m' \<equiv> upd_hole i (\<lambda>h. h\<lparr>h_base := h_base h + clicks, h_len := h_len h - clicks\<rparr>) m"
  shows "mm_rep m' (xs @ i # ys) fs"
    and "blk (hole m') i = (fst (blk (hole m) i) + unat clicks, snd (blk (hole m) i) - unat clicks)"
    and "map (blk (hole m')) xs = map (blk (hole m)) xs" and "map (blk (hole m')) ys = map (blk (hole m)) ys"
proof -
  show "mm_rep m' (xs @ i # ys) fs"
    using assms(1) hseg_cong[of _ "hole m'" "hole m"] by (simp add: mm_rep_def m'_def)
  have "unat (h_base (hole m i) + clicks) = unat (h_base (hole m i)) + unat clicks"
    using assms(2,3) by (intro unat_add_lem[THEN iffD1]) (simp add: fits_def blk_def word_less_nat_alt)
  then show "blk (hole m') i = (fst (blk (hole m) i) + unat clicks, snd (blk (hole m) i) - unat clicks)"
    using assms(2) by (simp add: m'_def blk_def unat_sub less_imp_le)
  have "i \<notin> set xs" "i \<notin> set ys" using assms(1) by (auto simp: mm_rep_def)
  then show "map (blk (hole m')) xs = map (blk (hole m)) xs" "map (blk (hole m')) ys = map (blk (hole m)) ys"
    by (simp_all add: m'_def)
qed

lemma take_whole:
  fixes clicks :: u32
  assumes "mm_rep m (xs @ i # ys) fs" and "xs = [] \<or> prev = Some (last xs)"
  defines "m1 \<equiv> upd_hole i (\<lambda>h. h\<lparr>h_base := h_base h + clicks, h_len := h_len h - clicks\<rparr>) m"
  shows "\<exists>m'. del_slot prev i m1 = Inr m' \<and> mm_rep m' (xs @ ys) (i # fs)
     \<and> map (blk (hole m')) (xs @ ys) = map (blk (hole m)) (xs @ ys)"
proof -
  have rep: "mm_rep m1 (xs @ i # ys) fs"
    using assms(1) hseg_cong[of _ "hole m1" "hole m"] by (simp add: mm_rep_def m1_def)
  have "i \<notin> set xs" "i \<notin> set ys" using assms(1) by (auto simp: mm_rep_def)
  then have same: "map (blk (hole m1)) (xs @ ys) = map (blk (hole m)) (xs @ ys)" by (simp add: m1_def)
  show ?thesis
  proof (cases xs rule: rev_cases)
    case Nil
    then have "mm_rep m1 (i # ys) fs" using rep by simp
    from del_slot_head_ok[OF this, of prev] Nil same show ?thesis by fastforce
  next
    case (snoc zs x)
    then have "mm_rep m1 (zs @ x # i # ys) fs" using rep by simp
    from del_slot_ok[OF this] snoc assms(2) same show ?thesis by fastforce
  qed
qed

text \<open>Taking the requested clicks from the hole at \<open>i\<close>, both in part and in whole.\<close>

lemma alloc_loop_ok:
  assumes "mm_rep m (xs @ ys) fs" and "hchain (hole m) hp ys" and "length ys < n"
    and "xs = [] \<or> prev = Some (last xs)" and "\<forall>i\<in>set ys. fits (blk (hole m) i)"
  shows "case first_fit (unat clicks) (map (blk (hole m)) ys) of
       None \<Rightarrow> alloc_loop n clicks prev hp m = Inr (NO_MEM, m)
     | Some (b, zs) \<Rightarrow> \<exists>m' ys' fs'. alloc_loop n clicks prev hp m = Inr (of_nat b, m') \<and> mm_rep m' (xs @ ys') fs'
         \<and> map (blk (hole m')) ys' = zs \<and> map (blk (hole m')) xs = map (blk (hole m)) xs"
  using assms
proof (induction ys arbitrary: xs hp n prev)
  case Nil
  then show ?case by (cases n) auto
next
  case (Cons i ys)
  then obtain k where n: "n = Suc k" and hp: "hp = Some i" by (cases n) auto
  have bl: "blk (hole m) i = (unat (h_base (hole m i)), unat (h_len (hole m i)))" by (simp add: blk_def)
  let ?m = "upd_hole i (\<lambda>h. h\<lparr>h_base := h_base h + clicks, h_len := h_len h - clicks\<rparr>) m"
  have m2: "upd_hole i (h_len_update (\<lambda>l. l - clicks)) (upd_hole i (h_base_update (\<lambda>b. b + clicks)) m) = ?m"
    by (cases m, cases "hole m i") simp
  consider "h_len (hole m i) < clicks" | "h_len (hole m i) = clicks" | "clicks < h_len (hole m i)" by fastforce
  then show ?case
  proof cases
    case 1
    have ih: "case first_fit (unat clicks) (map (blk (hole m)) ys) of
         None \<Rightarrow> alloc_loop k clicks (Some i) (h_next (hole m i)) m = Inr (NO_MEM, m)
       | Some (b, zs) \<Rightarrow> \<exists>m' ys' fs'. alloc_loop k clicks (Some i) (h_next (hole m i)) m = Inr (of_nat b, m')
           \<and> mm_rep m' ((xs @ [i]) @ ys') fs' \<and> map (blk (hole m')) ys' = zs
           \<and> map (blk (hole m')) (xs @ [i]) = map (blk (hole m)) (xs @ [i])"
      using Cons.prems n hp by (intro Cons.IH) auto
    have lt: "\<not> unat clicks \<le> unat (h_len (hole m i))" "\<not> clicks \<le> h_len (hole m i)"
      using 1 by (simp_all add: word_less_nat_alt word_le_nat_alt)
    show ?thesis
    proof (cases "first_fit (unat clicks) (map (blk (hole m)) ys)")
      case None
      with ih lt n hp bl show ?thesis by simp
    next
      case (Some r)
      obtain b' zs where r: "r = (b', zs)" by force
      from ih Some r obtain m' ys' fs' where m': "alloc_loop k clicks (Some i) (h_next (hole m i)) m = Inr (of_nat b', m')"
        "mm_rep m' (xs @ i # ys') fs'" "map (blk (hole m')) ys' = zs" "blk (hole m') i = blk (hole m) i"
        "map (blk (hole m')) xs = map (blk (hole m)) xs" by auto
      with lt n hp bl Some r show ?thesis
        by simp (intro exI[of _ "i # ys'"], auto)
    qed
  next
    case 2
    from take_whole[of m xs i ys fs prev clicks] Cons.prems obtain m' where
      "del_slot prev i ?m = Inr m'" "mm_rep m' (xs @ ys) (i # fs)"
      "map (blk (hole m')) xs = map (blk (hole m)) xs" "map (blk (hole m')) ys = map (blk (hole m)) ys" by auto
    with 2 n hp bl m2 show ?thesis by (auto simp: Let_def)
  next
    case 3
    with take_part[of m xs i ys fs clicks] Cons.prems have
      "mm_rep ?m (xs @ i # ys) fs" "map (blk (hole ?m)) (xs @ ys) = map (blk (hole m)) (xs @ ys)"
      "blk (hole ?m) i = (fst (blk (hole m) i) + unat clicks, snd (blk (hole m) i) - unat clicks)" by auto
    with 3 n hp bl m2 show ?thesis
      by (auto simp: Let_def word_less_nat_alt word_le_nat_alt)
  qed
qed

lemma canon_fits: "canon lo (map (blk h) is) \<Longrightarrow> i \<in> set is \<Longrightarrow> fits (blk h i)"
  using canon_member[of lo "map (blk h) is" "fst (blk h i)" "snd (blk h i)"] by (auto simp: fits_def)

lemma alloc_mem_ok:
  assumes "mm_ok m"
  shows "case first_fit (unat clicks) (holes m) of
       None \<Rightarrow> alloc_mem clicks m = Inr (NO_MEM, m)
     | Some (b, zs) \<Rightarrow> \<exists>m'. alloc_mem clicks m = Inr (of_nat b, m') \<and> mm_ok m' \<and> holes m' = zs"
proof -
  from assms obtain hs fs where rep: "mm_rep m hs fs" "holes m = map (blk (hole m)) hs" "canon 0 (map (blk (hole m)) hs)"
    by (rule mm_okE)
  have len: "length hs < hole_fuel" using mm_rep_length[OF rep(1)] by simp
  have loop: "case first_fit (unat clicks) (map (blk (hole m)) hs) of
       None \<Rightarrow> alloc_loop hole_fuel clicks None (hole_head m) m = Inr (NO_MEM, m)
     | Some (b, zs) \<Rightarrow> \<exists>m' ys' fs'. alloc_loop hole_fuel clicks None (hole_head m) m = Inr (of_nat b, m')
         \<and> mm_rep m' ([] @ ys') fs' \<and> map (blk (hole m')) ys' = zs
         \<and> map (blk (hole m')) [] = map (blk (hole m)) []"
    by (rule alloc_loop_ok[of m "[]" hs fs]) (use rep len canon_fits in \<open>auto simp: mm_rep_def\<close>)
  show ?thesis
  proof (cases "first_fit (unat clicks) (holes m)")
    case None
    with loop rep(2) show ?thesis by (simp add: alloc_mem_def)
  next
    case (Some r)
    obtain b zs where r: "r = (b, zs)" by force
    from loop Some r rep(2) obtain m' ys' fs' where m': "alloc_mem clicks m = Inr (of_nat b, m')"
      "mm_rep m' ys' fs'" "map (blk (hole m')) ys' = zs" by (auto simp: alloc_mem_def)
    have "canon 0 zs" using first_fit_Some[of "unat clicks" "holes m" b zs 0] Some r rep by simp
    with m' Some r show ?thesis using mm_okI[of m' ys' fs'] holes_rep[of m' ys' fs'] by auto
  qed
qed

subsection \<open>Freeing\<close>

lemma free_search_ok:
  assumes "hchain (hole m) hp ys" and "length ys < n"
  shows "\<exists>as bs. ys = as @ bs \<and> free_search n base prev hp m = Inr (last (prev # as))
     \<and> (\<forall>i\<in>set as. h_base (hole m i) < base) \<and> (bs = [] \<or> base \<le> h_base (hole m (hd bs)))"
  using assms
proof (induction ys arbitrary: hp n prev)
  case Nil
  then show ?case by (cases n) auto
next
  case (Cons i ys)
  then obtain k where n: "n = Suc k" and hp: "hp = Some i" by (cases n) auto
  show ?case
  proof (cases "base > h_base (hole m i)")
    case True
    from Cons.prems n hp Cons.IH[of "h_next (hole m i)" k i] obtain as bs where
      "ys = as @ bs" "free_search k base i (h_next (hole m i)) m = Inr (last (i # as))"
      "\<forall>i\<in>set as. h_base (hole m i) < base" "bs = [] \<or> base \<le> h_base (hole m (hd bs))" by auto
    with True n hp show ?thesis by - (rule exI[of _ "i # as"], rule exI[of _ bs], simp)
  next
    case False
    with n hp show ?thesis by - (rule exI[of _ "[]"], rule exI[of _ "i # ys"], auto)
  qed
qed

lemma block_gap:
  assumes "canon lo xs" and "span (b, l) \<inter> spans xs = {}" and "0 < l" and "xs \<noteq> []" and "b \<le> fst (hd xs)"
  shows "b + l \<le> fst (hd xs)"
proof (rule ccontr)
  assume "\<not> b + l \<le> fst (hd xs)"
  then have "fst (hd xs) \<in> span (b, l)" using assms(5) by (simp add: span_def)
  moreover have "fst (hd xs) \<in> spans xs" using assms(1,4) by (cases xs) (auto simp: span_def)
  ultimately show False using assms(2) by blast
qed

lemma block_after:
  assumes "span (b, l) \<inter> span x = {}" and "0 < l" and "fst x < b"
  shows "fst x + snd x \<le> b"
proof (rule ccontr)
  assume "\<not> fst x + snd x \<le> b"
  then have "b \<in> span x" "b \<in> span (b, l)" using assms by (auto simp: span_def)
  then show False using assms(1) by blast
qed

text \<open>The table after \<open>free_mem\<close> has taken the slot \<open>new\<close>, and after it has linked it in.\<close>

definition fill_slot :: "nat \<Rightarrow> u32 \<Rightarrow> u32 \<Rightarrow> mem_t \<Rightarrow> mem_t" where
  "fill_slot new base clicks m =
     (let m = upd_hole new (\<lambda>h. h\<lparr>h_base := base, h_len := clicks\<rparr>) m in m\<lparr>free_slots := h_next (hole m new)\<rparr>)"

definition link_head :: "nat \<Rightarrow> mem_t \<Rightarrow> mem_t" where
  "link_head new m = (upd_hole new (h_next_update (\<lambda>_. hole_head m)) m)\<lparr>hole_head := Some new\<rparr>"

definition link_after :: "nat \<Rightarrow> nat \<Rightarrow> mem_t \<Rightarrow> mem_t" where
  "link_after p new m =
     (let m = upd_hole new (h_next_update (\<lambda>_. h_next (hole m p))) m
      in upd_hole p (h_next_update (\<lambda>_. Some new)) m)"

lemmas link_defs = fill_slot_def link_head_def link_after_def Let_def

lemma link_head_ok:
  fixes base clicks :: u32
  assumes "mm_rep m hs (new # fs)"
  defines "m' \<equiv> link_head new (fill_slot new base clicks m)"
  shows "mm_rep m' ([] @ new # hs) fs" and "blk (hole m') new = (unat base, unat clicks)"
    and "map (blk (hole m')) hs = map (blk (hole m)) hs"
proof -
  have new: "new \<notin> set hs" "new \<notin> set fs" using assms(1) by (auto simp: mm_rep_def)
  then show "mm_rep m' ([] @ new # hs) fs"
    using assms(1) by (auto simp: mm_rep_def m'_def link_defs)
  show "blk (hole m') new = (unat base, unat clicks)" by (simp add: m'_def link_defs blk_def)
  show "map (blk (hole m')) hs = map (blk (hole m)) hs" using new by (auto simp: m'_def link_defs blk_def)
qed

lemma link_after_ok:
  fixes base clicks :: u32
  assumes "mm_rep m (xs @ p # ys) (new # fs)"
  defines "m' \<equiv> link_after p new (fill_slot new base clicks m)"
  shows "mm_rep m' (xs @ p # new # ys) fs" and "blk (hole m') new = (unat base, unat clicks)"
    and "map (blk (hole m')) (xs @ p # ys) = map (blk (hole m)) (xs @ p # ys)"
proof -
  have new: "new \<notin> set (xs @ p # ys)" "new \<notin> set fs" "p \<notin> set xs" "p \<notin> set ys" "p \<notin> set fs"
    using assms(1) by (auto simp: mm_rep_def)
  then show "mm_rep m' (xs @ p # new # ys) fs"
    using assms(1) by (auto simp: mm_rep_def m'_def link_defs hseg_append)
  show "blk (hole m') new = (unat base, unat clicks)" using new by (simp add: m'_def link_defs blk_def)
  show "map (blk (hole m')) (xs @ p # ys) = map (blk (hole m)) (xs @ p # ys)"
    using new by (auto simp: m'_def link_defs blk_def)
qed

lemma free_mem_head:
  assumes "mm_rep m hs (new # fs)" and "clicks \<noteq> 0" and "hs = [] \<or> base \<le> h_base (hole m (hd hs))"
  shows "free_mem base clicks m = merge new (link_head new (fill_slot new base clicks m))"
  using assms by (cases hs) (auto simp: free_mem_def mm_rep_def link_defs)

lemma free_mem_after:
  assumes "mm_rep m (h # hs) (new # fs)" and "clicks \<noteq> 0" and "\<not> base \<le> h_base (hole m h)"
  shows "\<exists>xs p ys. h # hs = xs @ p # ys \<and> h_base (hole m p) < base
     \<and> (ys = [] \<or> base \<le> h_base (hole m (hd ys)))
     \<and> free_mem base clicks m = merge p (link_after p new (fill_slot new base clicks m))"
proof -
  let ?m = "fill_slot new base clicks m"
  have new: "new \<noteq> h" "new \<notin> set hs" using assms(1) by (auto simp: mm_rep_def)
  have "hchain (hole ?m) (h_next (hole ?m h)) hs" using assms(1) new by (simp add: mm_rep_def link_defs)
  moreover have "length hs < hole_fuel" using mm_rep_length[OF assms(1)] by simp
  ultimately obtain as bs where s: "hs = as @ bs" "free_search hole_fuel base h (h_next (hole ?m h)) ?m = Inr (last (h # as))"
    "\<forall>i\<in>set as. h_base (hole ?m i) < base" "bs = [] \<or> base \<le> h_base (hole ?m (hd bs))"
    using free_search_ok[of ?m "h_next (hole ?m h)" hs hole_fuel base h] by blast
  have "free_mem base clicks m = merge (last (h # as)) (link_after (last (h # as)) new ?m)"
    using assms new s(2) by (simp add: free_mem_def mm_rep_def link_defs)
  moreover have "h # hs = butlast (h # as) @ last (h # as) # bs" using s(1) by simp
  moreover have "h_base (hole m (last (h # as))) < base"
  proof (cases as rule: rev_cases)
    case (snoc zs z)
    then show ?thesis using s(1,3) new by (auto simp: link_defs)
  qed (use assms(3) in simp)
  moreover have "bs = [] \<or> base \<le> h_base (hole m (hd bs))"
    using s(1,4) new by (cases bs) (auto simp: link_defs)
  ultimately show ?thesis by blast
qed

lemma merge_result:
  assumes "merge x m = Inr m'" and "mm_rep m (xs @ x # ys) fs" and "\<forall>i\<in>set (x # ys). fits (blk (hole m) i)"
    and "canon 0 (map (blk (hole m)) xs @ merge_blocks (map (blk (hole m)) (x # ys)))"
  shows "mm_ok m' \<and> mm_free m' = spans (map (blk (hole m)) xs) \<union> spans (merge_blocks (map (blk (hole m)) (x # ys)))"
proof -
  from merge_ok[OF assms(2,3)] assms(1) obtain zs fs' where "mm_rep m' (xs @ zs) fs'"
    "map (blk (hole m')) zs = merge_blocks (map (blk (hole m)) (x # ys))"
    "map (blk (hole m')) xs = map (blk (hole m)) xs" by auto
  moreover from this have "map (blk (hole m')) (xs @ zs) = map (blk (hole m)) xs @ merge_blocks (map (blk (hole m)) (x # ys))"
    by simp
  ultimately show ?thesis
    using mm_okI[of m' "xs @ zs" fs'] holes_rep[of m' "xs @ zs" fs'] assms(4) unfolding mm_free_def
    by (metis spans_simps(3))
qed

lemma free_head_result:
  assumes "mm_rep m hs (new # fs)" and "canon 0 (map (blk (hole m)) hs)" and "clicks \<noteq> 0" and "base \<noteq> 0"
    and "unat base + unat clicks \<le> 2 ^ 32" and "span (unat base, unat clicks) \<inter> spans (map (blk (hole m)) hs) = {}"
    and "hs = [] \<or> base \<le> h_base (hole m (hd hs))"
  shows "\<exists>m'. free_mem base clicks m = Inr m' \<and> mm_ok m'
     \<and> mm_free m' = spans (map (blk (hole m)) hs) \<union> span (unat base, unat clicks)"
proof -
  let ?m = "link_head new (fill_slot new base clicks m)" and ?B = "(unat base, unat clicks)"
  note lk = link_head_ok[OF assms(1), of base clicks]
  have pos: "0 < unat clicks" "0 < unat base" using assms(3,4) by (simp_all add: unat_gt_0)
  have "\<forall>i\<in>set (new # hs). fits (blk (hole ?m) i)"
    using lk(2,3) pos assms(5) canon_fits[OF assms(2)] by (auto simp: map_eq_conv fits_def)
  note fit = this
  have gap: "map (blk (hole m)) hs = [] \<or> fst ?B + snd ?B \<le> fst (hd (map (blk (hole m)) hs))"
    using block_gap[OF assms(2,6) pos(1)] assms(7) by (cases hs) (auto simp: blk_def word_le_nat_alt)
  have mb: "canon 0 (merge_blocks (?B # map (blk (hole m)) hs))"
      "spans (merge_blocks (?B # map (blk (hole m)) hs)) = span ?B \<union> spans (map (blk (hole m)) hs)"
    using merge_blocks_front[OF assms(2) pos(2,1) assms(5)] gap by auto
  from merge_ok[OF lk(1) fit] obtain m' where m': "merge new ?m = Inr m'" by auto
  have eq: "map (blk (hole ?m)) (new # hs) = ?B # map (blk (hole m)) hs" using lk(2,3) by simp
  have "mm_ok m' \<and> mm_free m' = span ?B \<union> spans (map (blk (hole m)) hs)"
    using merge_result[OF m' lk(1) fit] mb unfolding eq by simp
  with m' free_mem_head[OF assms(1,3,7)] show ?thesis by auto
qed

lemma free_after_result:
  assumes "mm_rep m (xs @ p # ys) (new # fs)" and "canon 0 (map (blk (hole m)) (xs @ p # ys))" and "clicks \<noteq> 0"
    and "unat base + unat clicks \<le> 2 ^ 32"
    and "span (unat base, unat clicks) \<inter> spans (map (blk (hole m)) (xs @ p # ys)) = {}"
    and "h_base (hole m p) < base" and "ys = [] \<or> base \<le> h_base (hole m (hd ys))"
  shows "\<exists>m'. merge p (link_after p new (fill_slot new base clicks m)) = Inr m' \<and> mm_ok m'
     \<and> mm_free m' = spans (map (blk (hole m)) (xs @ p # ys)) \<union> span (unat base, unat clicks)"
proof -
  let ?m = "link_after p new (fill_slot new base clicks m)" and ?B = "(unat base, unat clicks)"
  note lk = link_after_ok[OF assms(1), of base clicks]
  have pos: "0 < unat clicks" using assms(3) by (simp add: unat_gt_0)
  have base: "0 < unat base" using assms(6) by (simp add: word_less_nat_alt)
  have "\<forall>i\<in>set (xs @ p # ys). fits (blk (hole m) i)" using canon_fits[OF assms(2)] by blast
  then have fit: "\<forall>i\<in>set (p # new # ys). fits (blk (hole ?m) i)"
    using lk(2,3) pos base assms(4) by (auto simp: map_eq_conv fits_def)
  let ?lo = "last_end 0 (map (blk (hole m)) xs)"
  have c: "canon ?lo (blk (hole m) p # map (blk (hole m)) ys)" "canon 0 (map (blk (hole m)) xs)"
    using assms(2) by (simp_all add: canon_append)
  then obtain lo2 where c2: "canon lo2 (map (blk (hole m)) ys)" by (cases "blk (hole m) p") auto
  have "fst (blk (hole m) p) + snd (blk (hole m) p) \<le> unat base"
    by (rule block_after[of _ "unat clicks"]) (use assms(5,6) pos in \<open>auto simp: blk_def word_less_nat_alt\<close>)
  moreover have "map (blk (hole m)) ys = [] \<or> unat base + unat clicks \<le> fst (hd (map (blk (hole m)) ys))"
    using block_gap[OF c2, of "unat base" "unat clicks"] assms(5,7) pos
    by (cases ys) (auto simp: blk_def word_le_nat_alt)
  ultimately have mb: "canon ?lo (merge_blocks (blk (hole m) p # ?B # map (blk (hole m)) ys))"
      "spans (merge_blocks (blk (hole m) p # ?B # map (blk (hole m)) ys))
       = span (blk (hole m) p) \<union> span ?B \<union> spans (map (blk (hole m)) ys)"
    using merge_blocks_middle[OF c(1) _ pos assms(4)] by auto
  from merge_ok[OF lk(1) fit] obtain m' where m': "merge p ?m = Inr m'" by auto
  have eq: "map (blk (hole ?m)) xs = map (blk (hole m)) xs"
      "map (blk (hole ?m)) (p # new # ys) = blk (hole m) p # ?B # map (blk (hole m)) ys" using lk(2,3) by simp_all
  have "canon 0 (map (blk (hole ?m)) xs @ merge_blocks (map (blk (hole ?m)) (p # new # ys)))"
    unfolding eq canon_append using c(2) mb(1) by simp
  from merge_result[OF m' lk(1) fit this] m' mb(2) show ?thesis unfolding eq by auto
qed

lemma free_mem_ok:
  assumes "mm_ok m" and "clicks \<noteq> 0" and "base \<noteq> 0" and "unat base + unat clicks \<le> 2 ^ 32"
    and "span (unat base, unat clicks) \<inter> mm_free m = {}" and "length (holes m) < NR_HOLES"
  shows "\<exists>m'. free_mem base clicks m = Inr m' \<and> mm_ok m'
     \<and> mm_free m' = mm_free m \<union> span (unat base, unat clicks)"
proof -
  from assms(1) obtain hs fs where rep: "mm_rep m hs fs" "holes m = map (blk (hole m)) hs" "canon 0 (map (blk (hole m)) hs)"
    by (rule mm_okE)
  then obtain new fs' where fs: "fs = new # fs'"
    using mm_rep_length[OF rep(1)] assms(6) by (cases fs) auto
  note rep1 = rep(1)[unfolded fs]
  have free: "mm_free m = spans (map (blk (hole m)) hs)" by (simp add: mm_free_def rep(2))
  show ?thesis
  proof (cases "hs = [] \<or> base \<le> h_base (hole m (hd hs))")
    case True
    from free_head_result[OF rep1 rep(3) assms(2-4) _ True] assms(5) free show ?thesis by simp
  next
    case False
    then obtain h hs' where hs: "hs = h # hs'" "\<not> base \<le> h_base (hole m h)" by (cases hs) auto
    from free_mem_after[OF rep1[unfolded hs(1)] assms(2) hs(2)] obtain xs p ys where
      s: "hs = xs @ p # ys" "h_base (hole m p) < base" "ys = [] \<or> base \<le> h_base (hole m (hd ys))"
        "free_mem base clicks m = merge p (link_after p new (fill_slot new base clicks m))" using hs(1) by auto
    from free_after_result[OF rep1[unfolded s(1)] rep(3)[unfolded s(1)] assms(2,4) _ s(2,3)] assms(5) free s(1,4)
    show ?thesis by simp
  qed
qed

lemma free_mem_full:
  assumes "mm_ok m" and "clicks \<noteq> 0" and "length (holes m) = NR_HOLES"
  shows "free_mem base clicks m = Inl (Panic ''Hole table full'')"
proof -
  from assms(1) obtain hs fs where rep: "mm_rep m hs fs" "holes m = map (blk (hole m)) hs" by (rule mm_okE)
  then have "fs = []" using mm_rep_length[OF rep(1)] assms(3) by simp
  then show ?thesis using rep(1) assms(2) by (simp add: free_mem_def mm_rep_def)
qed

lemma holes_length: "mm_ok m \<Longrightarrow> length (holes m) \<le> NR_HOLES"
  by (erule mm_okE, drule mm_rep_length) simp

subsection \<open>The largest hole\<close>

lemma max_loop_ok:
  assumes "hchain (hole m) hp xs" and "length xs < n"
  shows "\<exists>r. max_loop n mx hp m = Inr r \<and> unat r = Max (insert (unat mx) (snd ` set (map (blk (hole m)) xs)))"
  using assms
proof (induction xs arbitrary: hp n mx)
  case Nil
  then show ?case by (cases n) auto
next
  case (Cons i xs)
  then obtain k where n: "n = Suc k" and hp: "hp = Some i" by (cases n) auto
  let ?mx = "if h_len (hole m i) > mx then h_len (hole m i) else mx" and ?S = "snd ` set (map (blk (hole m)) xs)"
  have mx: "unat ?mx = max (unat mx) (unat (h_len (hole m i)))" by (auto simp: max_def word_less_nat_alt)
  have "Max (insert (unat mx) (insert (unat (h_len (hole m i))) ?S)) = Max (insert (unat ?mx) ?S)"
    unfolding mx by (cases "?S = {}") (auto simp: ac_simps)
  then show ?case using Cons.IH[of "h_next (hole m i)" k ?mx] Cons.prems n hp by (simp add: blk_def)
qed

subsection \<open>How many holes a set of addresses needs\<close>

definition starts :: "nat set \<Rightarrow> nat set" where
  "starts S = {x \<in> S. x = 0 \<or> x - 1 \<notin> S}"

lemma starts_canon: "canon lo xs \<Longrightarrow> starts (spans xs) = set (map fst xs)"
proof (induction lo xs rule: canon.induct)
  case (2 lo b l xs)
  note up = canon_above[of "b + l" xs]
  have c: "canon (b + l) xs" "0 < b" "0 < l" using 2(2) by auto
  have "x \<in> starts (spans ((b, l) # xs)) \<longleftrightarrow> x = b \<or> x \<in> starts (spans xs)" for x
  proof (cases "x \<in> spans xs")
    case True
    then have "b + l < x" using up c by blast
    then show ?thesis using True by (auto simp: starts_def span_def)
  next
    case False
    have "b - 1 \<notin> spans xs" using up[of "b - 1"] c by auto
    then show ?thesis using False c by (auto simp: starts_def span_def)
  qed
  then show ?case using 2(1)[OF c(1)] by auto
qed (simp add: starts_def)

lemma canon_distinct: "canon lo xs \<Longrightarrow> distinct (map fst xs)"
proof (induction lo xs rule: canon.induct)
  case (2 lo b l xs)
  then have "fst x \<noteq> b" if "x \<in> set xs" for x
    using canon_member[of "b + l" xs "fst x" "snd x"] that by auto
  with 2 show ?case by auto
qed simp

lemma canon_length: "canon lo xs \<Longrightarrow> length xs = card (starts (spans xs))"
  by (metis canon_distinct distinct_card length_map starts_canon)

lemma holes_card: "mm_ok m \<Longrightarrow> length (holes m) = card (starts (mm_free m))"
  by (auto simp: mm_ok_def mm_free_def canon_length)

lemma starts_span: "starts (S \<union> span (b, l)) \<subseteq> insert b (starts S)"
proof
  fix x
  assume "x \<in> starts (S \<union> span (b, l))"
  then have x: "x \<in> S \<or> x \<in> span (b, l)" "x = 0 \<or> x - 1 \<notin> S \<and> x - 1 \<notin> span (b, l)" by (auto simp: starts_def)
  then show "x \<in> insert b (starts S)"
    by (cases "x \<in> S") (auto simp: starts_def span_def)
qed

lemma free_mem_count:
  assumes "mm_ok m" and "mm_ok m'" and "mm_free m' = mm_free m \<union> span (b, l)"
  shows "length (holes m') \<le> Suc (length (holes m))"
proof -
  have fin: "finite (starts (mm_free m))"
    using assms(1) starts_canon[of 0 "holes m"] by (simp add: mm_ok_def mm_free_def)
  have "card (starts (mm_free m')) \<le> card (insert b (starts (mm_free m)))"
    using starts_span[of "mm_free m" b l] assms(3) fin by (intro card_mono) auto
  also have "\<dots> \<le> Suc (card (starts (mm_free m)))" by (rule card_insert_le_m1) auto
  finally show ?thesis using holes_card assms(1,2) by simp
qed

subsection \<open>The interface of the allocator\<close>

text \<open>
  What the callers of \<open>alloc_mem\<close> and \<open>free_mem\<close> rely on: a block that is handed out lies in the
  free memory and leaves it, a block that is given back joins it, and each block given back costs
  at most one slot of the table.
\<close>

locale click_allocator =
  fixes ok :: "'m \<Rightarrow> bool" and avail :: "'m \<Rightarrow> nat set" and used :: "'m \<Rightarrow> nat"
    and alloc :: "u32 \<Rightarrow> 'm \<Rightarrow> (u32 \<times> 'm) res" and release :: "u32 \<Rightarrow> u32 \<Rightarrow> 'm \<Rightarrow> 'm res" and slots :: nat
  assumes alloc_law: "ok m \<Longrightarrow> c \<noteq> 0 \<Longrightarrow> alloc c m = Inr (NO_MEM, m)
      \<or> (\<exists>r m'. alloc c m = Inr (r, m') \<and> ok m' \<and> r \<noteq> 0 \<and> unat r + unat c \<le> 2 ^ 32
           \<and> span (unat r, unat c) \<subseteq> avail m \<and> avail m' = avail m - span (unat r, unat c))"
    and release_law: "ok m \<Longrightarrow> c \<noteq> 0 \<Longrightarrow> b \<noteq> 0 \<Longrightarrow> unat b + unat c \<le> 2 ^ 32 \<Longrightarrow>
      span (unat b, unat c) \<inter> avail m = {} \<Longrightarrow> used m < slots \<Longrightarrow>
      \<exists>m'. release b c m = Inr m' \<and> ok m' \<and> avail m' = avail m \<union> span (unat b, unat c) \<and> used m' \<le> Suc (used m)"
begin

lemma alloc_Some:
  assumes "ok m" and "c \<noteq> 0" and "alloc c m = Inr (r, m')" and "r \<noteq> 0"
  shows "ok m' \<and> unat r + unat c \<le> 2 ^ 32 \<and> span (unat r, unat c) \<subseteq> avail m
     \<and> avail m' = avail m - span (unat r, unat c)"
  using alloc_law[OF assms(1,2)] assms(3,4) by auto

lemma alloc_total: "ok m \<Longrightarrow> c \<noteq> 0 \<Longrightarrow> \<exists>r m'. alloc c m = Inr (r, m') \<and> ok m'"
  using alloc_law[of m c] by auto

lemma alloc_alloc:
  assumes "ok m" and "c \<noteq> 0" and "alloc c m = Inr (r, m')" and "r \<noteq> 0"
    and "d \<noteq> 0" and "alloc d m' = Inr (q, m'')" and "q \<noteq> 0"
  shows "span (unat r, unat c) \<inter> span (unat q, unat d) = {}"
  using alloc_Some[OF assms(1-4)] alloc_Some[OF _ assms(5-7)] by auto

lemma alloc_release:
  assumes "ok m" and "c \<noteq> 0" and "alloc c m = Inr (r, m')" and "r \<noteq> 0" and "used m' < slots"
  shows "\<exists>m''. release r c m' = Inr m'' \<and> ok m'' \<and> avail m'' = avail m"
proof -
  note 1 = alloc_Some[OF assms(1-4)]
  have "span (unat r, unat c) \<inter> avail m' = {}" using 1 by auto
  from release_law[OF _ assms(2,4) _ this assms(5)] 1 show ?thesis by (auto simp: Un_absorb2)
qed

text \<open>Giving back a sequence of blocks that do not overlap.\<close>

lemma release_all:
  assumes "ok m" and "\<forall>(b, c)\<in>set xs. b \<noteq> 0 \<and> c \<noteq> 0 \<and> unat b + unat c \<le> 2 ^ 32"
    and "used m + length xs \<le> slots"
    and "\<forall>(b, c)\<in>set xs. span (unat b, unat c) \<inter> avail m = {}"
    and "sorted_wrt (\<lambda>(b, c) (b', c'). span (unat b, unat c) \<inter> span (unat b', unat c') = {}) xs"
  shows "\<exists>m'. foldM (\<lambda>(b, c). release b c) xs m = Inr m' \<and> ok m'
     \<and> avail m' = avail m \<union> (\<Union>(b, c)\<in>set xs. span (unat b, unat c))"
  using assms
proof (induction xs arbitrary: m)
  case (Cons x xs)
  obtain b c where x: "x = (b, c)" by force
  from Cons.prems x release_law[of m c b] obtain m1 where
    m1: "release b c m = Inr m1" "ok m1" "avail m1 = avail m \<union> span (unat b, unat c)" "used m1 \<le> Suc (used m)" by auto
  have "\<forall>(b', c')\<in>set xs. span (unat b', unat c') \<inter> avail m1 = {}"
    using Cons.prems(4,5) x m1(3) by fastforce
  with Cons.IH[OF m1(2)] Cons.prems m1(4) x obtain m' where
    "foldM (\<lambda>(b, c). release b c) xs m1 = Inr m'" "ok m'"
    "avail m' = avail m1 \<union> (\<Union>(b, c)\<in>set xs. span (unat b, unat c))" by auto
  then show ?case using m1 x by auto
qed auto

end

lemma fit_alloc_law:
  assumes "mm_ok m" and "clicks \<noteq> 0"
  shows "alloc_mem clicks m = Inr (NO_MEM, m)
      \<or> (\<exists>r m'. alloc_mem clicks m = Inr (r, m') \<and> mm_ok m' \<and> r \<noteq> 0 \<and> unat r + unat clicks \<le> 2 ^ 32
           \<and> span (unat r, unat clicks) \<subseteq> mm_free m \<and> mm_free m' = mm_free m - span (unat r, unat clicks))"
proof (cases "first_fit (unat clicks) (holes m)")
  case None
  then show ?thesis using alloc_mem_ok[OF assms(1), of clicks] by simp
next
  case (Some r)
  obtain b zs where r: "r = (b, zs)" by force
  with Some alloc_mem_ok[OF assms(1), of clicks] obtain m' where
    m': "alloc_mem clicks m = Inr (of_nat b, m')" "mm_ok m'" "holes m' = zs" by auto
  have can: "canon 0 (holes m)" using assms(1) by (simp add: mm_ok_def)
  note ff = first_fit_Some[OF Some[unfolded r] can]
  have b: "unat (of_nat b :: u32) = b" using ff by (simp add: unsigned_of_nat take_bit_nat_eq_self)
  have "0 < unat clicks" using assms(2) by (simp add: unat_gt_0)
  then have "b + unat clicks - 1 \<in> spans (holes m)" using ff by fastforce
  from canon_below[OF can this] have "b + unat clicks - 1 < 2 ^ 32" .
  then have "b + unat clicks \<le> 2 ^ 32" by simp
  with m' ff b show ?thesis by (auto simp: mm_free_def span_def simp flip: unat_eq_zero)
qed

interpretation mm: click_allocator mm_ok mm_free "\<lambda>m. length (holes m)" alloc_mem free_mem NR_HOLES
proof unfold_locales
  show "mm_ok m \<Longrightarrow> c \<noteq> 0 \<Longrightarrow> b \<noteq> 0 \<Longrightarrow> unat b + unat c \<le> 2 ^ 32 \<Longrightarrow>
      span (unat b, unat c) \<inter> mm_free m = {} \<Longrightarrow> length (holes m) < NR_HOLES \<Longrightarrow>
      \<exists>m'. free_mem b c m = Inr m' \<and> mm_ok m' \<and> mm_free m' = mm_free m \<union> span (unat b, unat c)
        \<and> length (holes m') \<le> Suc (length (holes m))" for m c b
    using free_mem_ok[of m c b] free_mem_count by metis
qed (rule fit_alloc_law)

subsection \<open>Initialisation\<close>

lemma hseg_upt: "i \<le> k \<Longrightarrow> (\<And>j. i \<le> j \<Longrightarrow> j < k \<Longrightarrow> h_next (h j) = Some (Suc j)) \<Longrightarrow> hseg h (Some i) [i..<k] (Some k)"
proof (induction "k - i" arbitrary: i)
  case (Suc n)
  then have "hseg h (Some (Suc i)) [Suc i..<k] (Some k)" by (intro Suc.hyps) auto
  then show ?case using Suc.hyps(2) Suc.prems by (simp add: upt_conv_Cons)
qed auto

lemma mem_init_table_ok: "mm_ok (mem_init_table m) \<and> holes (mem_init_table m) = []"
proof -
  let ?m = "mem_init_table m"
  have "hseg (hole ?m) (Some 0) [0..<127] (Some 127)" by (rule hseg_upt) (auto simp: mem_init_table_def)
  then have "hchain (hole ?m) (Some 0) ([0..<127] @ [127])"
    unfolding hseg_append by (auto simp: mem_init_table_def)
  moreover have "[0..<127] @ [127] = [0..<NR_HOLES]" by (simp add: upt_rec)
  ultimately have "mm_rep ?m [] [0..<NR_HOLES]" by (simp add: mm_rep_def mem_init_table_def atLeast0LessThan)
  then show ?thesis using mm_okI[of ?m "[]"] holes_rep[of ?m "[]"] by auto
qed

text \<open>The replies of a machine with the given chunks of memory.\<close>

definition replies_of :: "(u32 \<times> u32 \<times> u32) list \<Rightarrow> sys_mem" where
  "replies_of xs j = (if j < length xs then (0, xs ! j) else (0, 0, 0, 0))"

lemma mem_init_loop_foldM:
  assumes "\<forall>(b, c, t)\<in>set xs. c \<noteq> 0" and "length xs < n"
  shows "mem_init_loop n (length ys) (replies_of (ys @ xs)) (t, f, m) =
     bnd (foldM (\<lambda>(b, c, _). free_mem b c) xs m) (\<lambda>m.
       Inr (if xs = [] then t else snd (snd (last xs)), f + sum_list (map (\<lambda>(_, c, _). c) xs), m))"
  using assms
proof (induction xs arbitrary: ys n t f m)
  case Nil
  then obtain k where "n = Suc k" by (cases n) auto
  then show ?case by (simp add: replies_of_def)
next
  case (Cons x xs)
  obtain b c q where x: "x = (b, c, q)" by (cases x)
  obtain k where n: "n = Suc k" "length xs < k" using Cons.prems(2) by (cases n) auto
  have IH: "mem_init_loop k (Suc (length ys)) (replies_of (ys @ x # xs)) (q, f + c, m') =
     bnd (foldM (\<lambda>(b, c, _). free_mem b c) xs m') (\<lambda>m.
       Inr (if xs = [] then q else snd (snd (last xs)), f + c + sum_list (map (\<lambda>(_, c, _). c) xs), m))" for m'
    using Cons.IH[of k "ys @ [x]" q "f + c" m'] Cons.prems(1) n(2) by simp
  have r: "replies_of (ys @ x # xs) (length ys) = (0, b, c, q)" by (simp add: replies_of_def x)
  show ?case
  proof (cases "free_mem b c m")
    case (Inl e)
    then show ?thesis using r n Cons.prems(1) x by auto
  next
    case (Inr m')
    then show ?thesis using r n Cons.prems(1) x IH[of m'] by (auto simp: add.assoc)
  qed
qed

lemma foldM_map: "foldM f (map g xs) s = foldM (f \<circ> g) xs s"
  by (induction xs arbitrary: s) (auto intro: bnd_cong)

definition mem0 :: mem_t where
  "mem0 = \<lparr>hole = (\<lambda>_. \<lparr>h_base = 0, h_len = 0, h_next = None\<rparr>), hole_head = None, free_slots = None\<rparr>"

lemma mm_example: "\<exists>m. mm_ok m \<and> holes m = [(100, 50)]"
proof -
  obtain m where m: "mm_ok m" "mm_free m = span (100, 50)"
    using free_mem_ok[of "mem_init_table mem0" 50 100] mem_init_table_ok[of mem0] by (auto simp: mm_free_def)
  have "holes m = [(100, 50)]"
    by (rule canon_unique[of 0]) (use m in \<open>auto simp: mm_ok_def mm_free_def\<close>)
  with m show ?thesis by blast
qed

subsection \<open>Correctness of the allocator\<close>

text \<open>
  C20. \<open>alloc_mem\<close> is first fit: it always returns; it returns \<open>NO_MEM\<close> and changes nothing when no
  hole has the requested length, and otherwise it returns the start of the first hole that has, whose
  front it has cut off (or which it has deleted, when nothing remains), keeping the table well formed.
\<close>

theorem alloc_mem_first_fit:
  assumes "mm_ok m"
  shows "case first_fit (unat clicks) (holes m) of
       None \<Rightarrow> alloc_mem clicks m = Inr (NO_MEM, m)
     | Some (b, zs) \<Rightarrow> \<exists>m'. alloc_mem clicks m = Inr (of_nat b, m') \<and> mm_ok m' \<and> holes m' = zs"
  by (rule alloc_mem_ok[OF assms])

theorem alloc_mem_first_fit_witness:
  "\<exists>m m'. mm_ok m \<and> holes m = [(100, 50)] \<and> alloc_mem 20 m = Inr (100, m') \<and> holes m' = [(120, 30)]"
proof -
  obtain m where m: "mm_ok m" "holes m = [(100, 50)]" using mm_example by blast
  with alloc_mem_first_fit[OF m(1), of 20] show ?thesis by auto
qed

text \<open>
  C15. Giving a block back: when the block lies outside the free memory and the table has an unused
  slot, \<open>free_mem\<close> returns, the free memory grows by exactly the block, and the hole list is again
  in its canonical form, sorted and with no two adjacent holes, so it has merged the block with
  both neighbours where they touch. When the table has no unused slot it stops the system, also
  for a block that would only have extended a hole.
\<close>

theorem free_mem_coalesces:
  assumes "mm_ok m" and "clicks \<noteq> 0" and "base \<noteq> 0" and "unat base + unat clicks \<le> 2 ^ 32"
    and "span (unat base, unat clicks) \<inter> mm_free m = {}"
  shows "if length (holes m) < NR_HOLES
     then \<exists>m'. free_mem base clicks m = Inr m' \<and> mm_ok m' \<and> mm_free m' = mm_free m \<union> span (unat base, unat clicks)
     else free_mem base clicks m = Inl (Panic ''Hole table full'')"
  using free_mem_ok[OF assms] free_mem_full[OF assms(1,2)] holes_length[OF assms(1)] by auto

theorem free_mem_coalesces_witness:
  "\<exists>m m'. mm_ok m \<and> holes m = [(100, 50)] \<and> free_mem 150 10 m = Inr m' \<and> holes m' = [(100, 60)]"
proof -
  obtain m where m: "mm_ok m" "holes m = [(100, 50)]" using mm_example by blast
  then have "\<exists>m'. free_mem 150 10 m = Inr m' \<and> mm_ok m' \<and> mm_free m' = mm_free m \<union> span (150, 10)"
    using free_mem_coalesces[OF m(1), of 10 150] by (auto simp: mm_free_def span_def)
  then obtain m' where m': "free_mem 150 10 m = Inr m'" "mm_ok m'" "mm_free m' = span (100, 50) \<union> span (150, 10)"
    using m by (auto simp: mm_free_def)
  have "holes m' = [(100, 60)]"
    by (rule canon_unique[of 0]) (use m' in \<open>auto simp: mm_ok_def mm_free_def span_def\<close>)
  with m m' show ?thesis by blast
qed

text \<open>
  C19. Allocating and giving back restores the hole list: if \<open>alloc_mem\<close> succeeds and the table has
  a slot left, \<open>free_mem\<close> of the same block returns, with the same holes in the same order as at
  the start.
\<close>

theorem alloc_free_roundtrip:
  assumes "mm_ok m" and "clicks \<noteq> 0" and "alloc_mem clicks m = Inr (base, m')" and "base \<noteq> NO_MEM"
    and "length (holes m') < NR_HOLES"
  shows "\<exists>m''. free_mem base clicks m' = Inr m'' \<and> mm_ok m'' \<and> holes m'' = holes m"
proof -
  from mm.alloc_release[OF assms] obtain m'' where m'': "free_mem base clicks m' = Inr m''" "mm_ok m''" "mm_free m'' = mm_free m"
    by auto
  then have "holes m'' = holes m"
    using canon_unique[of 0 "holes m''" "holes m"] assms(1) by (simp add: mm_ok_def mm_free_def)
  with m'' show ?thesis by blast
qed

theorem alloc_free_roundtrip_witness:
  "\<exists>m m' m''. alloc_mem 20 m = Inr (100, m') \<and> free_mem 100 20 m' = Inr m'' \<and> holes m'' = [(100, 50)]"
proof -
  obtain m where m: "mm_ok m" "holes m = [(100, 50)]" using mm_example by blast
  from alloc_mem_ok[OF m(1), of 20] m(2) obtain m' where m': "alloc_mem 20 m = Inr (100, m')" "holes m' = [(120, 30)]"
    by auto
  from alloc_free_roundtrip[OF m(1) _ m'(1)] m'(2) m(2) m'(1) show ?thesis by auto
qed

text \<open>
  C18. Blocks handed out never overlap each other or the memory that is still free: after two
  successful calls of \<open>alloc_mem\<close> the two blocks are disjoint, both were free before, and neither is
  free after.
\<close>

theorem alloc_blocks_disjoint:
  assumes "mm_ok m" and "c \<noteq> 0" and "alloc_mem c m = Inr (r, m1)" and "r \<noteq> NO_MEM"
    and "d \<noteq> 0" and "alloc_mem d m1 = Inr (q, m2)" and "q \<noteq> NO_MEM"
  shows "span (unat r, unat c) \<inter> span (unat q, unat d) = {}
     \<and> span (unat r, unat c) \<union> span (unat q, unat d) \<subseteq> mm_free m
     \<and> mm_free m2 = mm_free m - (span (unat r, unat c) \<union> span (unat q, unat d))"
  using mm.alloc_Some[OF assms(1-4)] mm.alloc_Some[OF _ assms(5-7)] by auto

theorem alloc_blocks_disjoint_witness:
  "\<exists>m m1 m2. alloc_mem 20 m = Inr (100, m1) \<and> alloc_mem 30 m1 = Inr (120, m2) \<and> mm_free m2 = {}"
proof -
  obtain m where m: "mm_ok m" "holes m = [(100, 50)]" using mm_example by blast
  from alloc_mem_ok[OF m(1), of 20] m(2) obtain m1 where
    m1: "alloc_mem 20 m = Inr (100, m1)" "mm_ok m1" "holes m1 = [(120, 30)]" by auto
  from alloc_mem_ok[OF m1(2), of 30] m1(3) obtain m2 where m2: "alloc_mem 30 m1 = Inr (120, m2)" by auto
  from alloc_blocks_disjoint[OF m(1) _ m1(1) _ _ m2] have
    "mm_free m2 = mm_free m - (span (100, 20) \<union> span (120, 30))" by simp
  also have "\<dots> = {}" using m(2) by (auto simp: mm_free_def span_def)
  finally show ?thesis using m1(1) m2 by blast
qed

text \<open>
  \<open>max_hole\<close> always returns, and decides whether a request can be served: \<open>alloc_mem\<close> fails for
  a request exactly when the request is larger than the value of \<open>max_hole\<close>.
\<close>

lemma max_hole_decides:
  assumes "mm_ok m" and "clicks \<noteq> 0"
  shows "\<exists>mx. max_hole m = Inr mx \<and> (alloc_mem clicks m = Inr (NO_MEM, m) \<longleftrightarrow> mx < clicks)"
proof -
  from assms(1) obtain hs fs where rep: "mm_rep m hs fs" "holes m = map (blk (hole m)) hs" "canon 0 (map (blk (hole m)) hs)"
    by (rule mm_okE)
  then obtain mx where mx: "max_hole m = Inr mx" "unat mx = Max (insert 0 (snd ` set (holes m)))"
    using max_loop_ok[of m "hole_head m" hs hole_fuel 0] mm_rep_length[OF rep(1)] by (auto simp: max_hole_def mm_rep_def)
  have "mx < clicks \<longleftrightarrow> first_fit (unat clicks) (holes m) = None"
    using mx(2) assms(2) by (auto simp: word_less_nat_alt first_fit_None unat_gt_0)
  moreover have "alloc_mem clicks m = Inr (NO_MEM, m) \<longleftrightarrow> first_fit (unat clicks) (holes m) = None"
  proof
    assume *: "alloc_mem clicks m = Inr (NO_MEM, m)"
    show "first_fit (unat clicks) (holes m) = None"
    proof (rule ccontr)
      assume "first_fit (unat clicks) (holes m) \<noteq> None"
      then obtain b zs where s: "first_fit (unat clicks) (holes m) = Some (b, zs)" by auto
      have "0 < b \<and> b < 2 ^ 32" using first_fit_Some[OF s, of 0] rep(2,3) by simp
      moreover have "(of_nat b :: u32) = 0" using alloc_mem_ok[OF assms(1), of clicks] s * by auto
      ultimately show False by (simp add: unsigned_of_nat take_bit_nat_eq_self flip: unat_eq_zero)
    qed
  qed (use alloc_mem_ok[OF assms(1), of clicks] in simp)
  ultimately show ?thesis using mx(1) by auto
qed

text \<open>
  C22. \<open>mem_init\<close> turns the chunks of memory that the kernel reports into the hole list: for at most
  128 chunks that do not overlap it returns, in one more step than there are chunks, with a well
  formed table whose free memory is exactly the union of the chunks, and with the sum of their sizes.
\<close>

theorem mem_init_collects:
  assumes "\<forall>(b, c, t)\<in>set xs. b \<noteq> 0 \<and> c \<noteq> 0 \<and> unat b + unat c \<le> 2 ^ 32" and "length xs \<le> NR_HOLES"
    and "sorted_wrt (\<lambda>x y. span (unat (fst x), unat (fst (snd x))) \<inter> span (unat (fst y), unat (fst (snd y))) = {}) xs"
    and "length xs < n"
  shows "\<exists>tot m'. mem_init n (replies_of xs) t m = Inr (tot, sum_list (map (\<lambda>(_, c, _). c) xs), m')
     \<and> mm_ok m' \<and> mm_free m' = (\<Union>(b, c, _)\<in>set xs. span (unat b, unat c))"
proof -
  let ?g = "\<lambda>(b, c, _). (b, c)" and ?m = "mem_init_table m"
  have "\<exists>m'. foldM (\<lambda>(b, c). free_mem b c) (map ?g xs) ?m = Inr m' \<and> mm_ok m'
     \<and> mm_free m' = mm_free ?m \<union> (\<Union>(b, c)\<in>set (map ?g xs). span (unat b, unat c))"
    using assms mem_init_table_ok[of m]
    by (intro mm.release_all) (auto simp: mm_free_def sorted_wrt_map split_beta)
  then obtain m' where m': "foldM (\<lambda>(b, c). free_mem b c) (map ?g xs) ?m = Inr m'" "mm_ok m'"
    "mm_free m' = (\<Union>(b, c, _)\<in>set xs. span (unat b, unat c))"
    using mem_init_table_ok[of m] by (auto simp: mm_free_def split_beta)
  have g: "(\<lambda>(b, c). free_mem b c) \<circ> ?g = (\<lambda>(b, c, _). free_mem b c)" by (auto simp: fun_eq_iff)
  have nz: "\<forall>(b, c, t)\<in>set xs. c \<noteq> 0" using assms(1) by auto
  from m'(1)[unfolded foldM_map g] show ?thesis
    using mem_init_loop_foldM[OF nz assms(4), of "[]" t 0 ?m] m'(2,3) by (auto simp: mem_init_def)
qed

theorem mem_init_collects_witness:
  "\<exists>tot m'. mem_init 3 (replies_of [(512, 100, 1024), (256, 128, 1024)]) 0 mem0 = Inr (tot, 228, m')
     \<and> mm_free m' = {512..<612} \<union> {256..<384}"
  using mem_init_collects[of "[(512, 100, 1024), (256, 128, 1024)]" 3 0 mem0] by (auto simp: span_def)

end
