(* ===== verification/Fs_State.thy ===== *)
theory Fs_State
  imports Prelude
begin

text \<open>
  The state of the file system server, \<^verbatim>\<open>src/src/fs\<close>: the block buffers
  (\<open>buf.h\<close>, \<open>cache2.c\<close>), the super blocks (\<open>super.h\<close>), the inodes (\<open>inode.h\<close>),
  the open files (\<open>file.h\<close>), the processes (\<open>fproc.h\<close>) and the global variables (\<open>glo.h\<close>) that
  the modelled operations use, as one record \<open>fs\<close>. A table is a function of the index, a pointer
  into a table the index or \<open>None\<close>.

  The block devices are an environment. \<open>disk\<close> holds their contents by device and byte position;
  the \<open>n\<close>-th transfer asked of a driver is answered with \<open>io_reply n\<close>, an arbitrary function, and
  moves the block exactly when the answer is the size of a block. So a driver may fail at any
  transfer, for good or for a while, and may skip the reads that are marked as optional.
\<close>

type_synonym u16 = "16 word"

text \<open>The data of a block, by byte; the union of \<open>struct buf\<close> reads it in units of two and four bytes.\<close>

type_synonym block = "nat \<Rightarrow> u8"

subsection \<open>Constants\<close>

abbreviation (input) BLOCK_SIZE :: nat where "BLOCK_SIZE \<equiv> 1024"
abbreviation (input) NR_BUFS :: nat where "NR_BUFS \<equiv> 80"
abbreviation (input) NR_IOREQS :: nat where "NR_IOREQS \<equiv> 64"
abbreviation (input) MAX_BUF2 :: nat where "MAX_BUF2 \<equiv> 1024"
abbreviation (input) NR_SUPERS :: nat where "NR_SUPERS \<equiv> 8"
abbreviation (input) NR_INODES :: nat where "NR_INODES \<equiv> 64"
abbreviation (input) NR_FILPS :: nat where "NR_FILPS \<equiv> 128"

abbreviation (input) NO_DEV :: u16 where "NO_DEV \<equiv> 0"
abbreviation (input) DEV_RAM :: u16 where "DEV_RAM \<equiv> 0x100"
abbreviation (input) NO_BLOCK :: u32 where "NO_BLOCK \<equiv> 0"
abbreviation (input) NO_ZONE :: u32 where "NO_ZONE \<equiv> 0"
abbreviation (input) NO_BIT :: u32 where "NO_BIT \<equiv> 0"
abbreviation (input) SUPER_BLOCK :: u32 where "SUPER_BLOCK \<equiv> 1"

abbreviation (input) CLEAN :: bool where "CLEAN \<equiv> False"
abbreviation (input) DIRTY :: bool where "DIRTY \<equiv> True"

text \<open>\<open>only_search\<close> of \<open>get_block\<close> and the direction of a transfer.\<close>

datatype search = NORMAL | NO_READ | PREFETCH
datatype direction = READING | WRITING

text \<open>The requests a driver is sent; \<open>DEV_READ_OPT\<close> is \<open>DEV_READ | OPTIONAL_IO\<close>.\<close>

datatype dev_op = DEV_READ | DEV_WRITE | DEV_READ_OPT

text \<open>The types of block with which \<open>put_block\<close> is called, for \<open>ROBUST\<close> = 0.\<close>

abbreviation (input) WRITE_IMMED :: u32 where "WRITE_IMMED \<equiv> 0x40"
abbreviation (input) ONE_SHOT :: u32 where "ONE_SHOT \<equiv> 0x80"
abbreviation (input) INODE_BLOCK :: u32 where "INODE_BLOCK \<equiv> 0"
abbreviation (input) DIRECTORY_BLOCK :: u32 where "DIRECTORY_BLOCK \<equiv> 1"
abbreviation (input) INDIRECT_BLOCK :: u32 where "INDIRECT_BLOCK \<equiv> 2"
abbreviation (input) MAP_BLOCK :: u32 where "MAP_BLOCK \<equiv> 3"
abbreviation (input) ZUPER_BLOCK :: u32 where "ZUPER_BLOCK \<equiv> 0xC4"
abbreviation (input) FULL_DATA_BLOCK :: u32 where "FULL_DATA_BLOCK \<equiv> 5"
abbreviation (input) PARTIAL_DATA_BLOCK :: u32 where "PARTIAL_DATA_BLOCK \<equiv> 6"

abbreviation (input) FS_OK :: int where "FS_OK \<equiv> 0"
abbreviation (input) END_OF_FILE :: int where "END_OF_FILE \<equiv> - 104"

subsection \<open>Tables\<close>

record buf_t =
  b_data :: block
  b_next :: "nat option"
  b_prev :: "nat option"
  b_hash :: "nat option"
  b_blocknr :: u32
  b_dev :: u16
  b_dirt :: bool
  b_count :: u8

record buf2_t =
  b2_blocknr :: u32
  b2_dev :: u16
  b2_count :: u16

record super_block_t =
  s_ninodes :: u16
  s_nzones :: u16
  s_imap_blocks :: u16
  s_zmap_blocks :: u16
  s_firstdatazone :: u16
  s_log_zone_size :: u16
  s_max_size :: u32
  s_magic :: u16
  s_zones :: u32
  s_isup :: "nat option"
  s_imount :: "nat option"
  s_inodes_per_block :: u32
  s_dev :: u16
  s_rd_only :: bool
  s_native :: bool
  s_version :: int
  s_ndzones :: int
  s_nindirs :: int
  s_isearch :: u32
  s_zsearch :: u32

record inode_t =
  i_mode :: u16
  i_nlinks :: u8
  i_uid :: u16
  i_gid :: u8
  i_size :: u32
  i_atime :: u32
  i_mtime :: u32
  i_ctime :: u32
  i_zone :: "nat \<Rightarrow> u32"
  i_dev :: u16
  i_num :: u16
  i_count :: int
  i_ndzones :: int
  i_nindirs :: int
  i_sp :: "nat option"
  i_dirt :: bool
  i_pipe :: bool
  i_mount :: bool
  i_seek :: bool
  i_update :: u8

text \<open>One entry of the vector that \<open>rw_scattered\<close> hands to a driver.\<close>

record iorequest_s =
  io_position :: u32
  io_buf :: nat
  io_nbytes :: nat
  io_request :: dev_op

record fs =
  buf :: "nat \<Rightarrow> buf_t"
  buf_hash :: "nat \<Rightarrow> nat option"
  front :: "nat option"
  rear :: "nat option"
  bufs_in_use :: int
  buf2 :: "nat \<Rightarrow> buf2_t"
  nr_buf2 :: u32
  buf2_idx :: u32
  super_block :: "nat \<Rightarrow> super_block_t"
  inode :: "nat \<Rightarrow> inode_t"
  fp_effuid :: u16
  fp_effgid :: u8
  err_code :: int
  rdwt_err :: int
  bp_rootdev :: u16
  disk :: "u16 \<Rightarrow> u32 \<Rightarrow> block"
  io_reply :: "nat \<Rightarrow> dev_op \<Rightarrow> u16 \<Rightarrow> u32 \<Rightarrow> int"
  io_count :: nat
  clock_now :: "u32 option"

abbreviation upd_buf :: "nat \<Rightarrow> (buf_t \<Rightarrow> buf_t) \<Rightarrow> fs \<Rightarrow> fs" where
  "upd_buf i f s \<equiv> s\<lparr>buf := (buf s)(i := f (buf s i))\<rparr>"

abbreviation upd_buf2 :: "nat \<Rightarrow> (buf2_t \<Rightarrow> buf2_t) \<Rightarrow> fs \<Rightarrow> fs" where
  "upd_buf2 i f s \<equiv> s\<lparr>buf2 := (buf2 s)(i := f (buf2 s i))\<rparr>"

abbreviation upd_super :: "nat \<Rightarrow> (super_block_t \<Rightarrow> super_block_t) \<Rightarrow> fs \<Rightarrow> fs" where
  "upd_super i f s \<equiv> s\<lparr>super_block := (super_block s)(i := f (super_block s i))\<rparr>"

abbreviation upd_inode :: "nat \<Rightarrow> (inode_t \<Rightarrow> inode_t) \<Rightarrow> fs \<Rightarrow> fs" where
  "upd_inode i f s \<equiv> s\<lparr>inode := (inode s)(i := f (inode s i))\<rparr>"

subsection \<open>Transfers\<close>

text \<open>
  What a driver does with a request for one block: it answers, and when the answer is the size of a
  block it has copied the block between the device and the buffer.
\<close>

definition transfer :: "dev_op \<Rightarrow> u16 \<Rightarrow> u32 \<Rightarrow> nat \<Rightarrow> fs \<Rightarrow> fs" where
  "transfer op dev pos i s =
     (if op = DEV_WRITE
      then s\<lparr>disk := (disk s)(dev := (disk s dev)(pos := b_data (buf s i)))\<rparr>
      else upd_buf i (b_data_update (\<lambda>_. disk s dev pos)) s)"

definition dev_block :: "dev_op \<Rightarrow> u16 \<Rightarrow> u32 \<Rightarrow> nat \<Rightarrow> fs \<Rightarrow> int \<times> fs" where
  "dev_block op dev pos i s =
     (let r = io_reply s (io_count s) op dev pos;
          s = s\<lparr>io_count := Suc (io_count s)\<rparr>
      in (r, if r = int BLOCK_SIZE then transfer op dev pos i s else s))"

text \<open>A driver that is given a vector serves its entries in order and clears the count of each one it moved.\<close>

fun dev_vector :: "u16 \<Rightarrow> iorequest_s list \<Rightarrow> fs \<Rightarrow> iorequest_s list \<times> fs" where
  "dev_vector dev [] s = ([], s)"
| "dev_vector dev (q # qs) s =
     (let (r, s) = dev_block (io_request q) dev (io_position q) (io_buf q) s;
          q = (if r = int BLOCK_SIZE then q\<lparr>io_nbytes := 0\<rparr> else q);
          (qs, s) = dev_vector dev qs s
      in (q # qs, s))"

end
