(* ===== verification/Fs_Cache.thy ===== *)
theory Fs_Cache
  imports Fs_State
begin

text \<open>
  The block cache of the file system, \<^verbatim>\<open>src/src/fs/cache.c\<close>, and its second level on the RAM
  disk, \<^verbatim>\<open>src/src/fs/cache2.c\<close>. Every buffer is on one hash chain (\<open>buf_hash\<close>, \<open>b_hash\<close>); the
  buffers that nobody uses are also on the LRU chain (\<open>front\<close>, \<open>rear\<close>, \<open>b_next\<close>, \<open>b_prev\<close>).

  The loops over a hash chain carry \<open>chain_fuel\<close>, one step more than there are buffers, the search of
  the second level \<open>cache2_fuel\<close>, one more than it has entries, and the Shell sort \<open>sort_fuel\<close>; the
  lemmas of theory \<open>Fs_Coherence\<close> show that none of them runs out.
\<close>

abbreviation (input) chain_fuel :: nat where "chain_fuel \<equiv> 81"
abbreviation (input) cache2_fuel :: nat where "cache2_fuel \<equiv> 1025"
abbreviation (input) sort_fuel :: nat where "sort_fuel \<equiv> 8"

definition hash_of :: "u32 \<Rightarrow> nat" where
  "hash_of block = unat (block AND 127)"

definition hash2 :: "u32 \<Rightarrow> nat" where
  "hash2 block = unat (block AND 1023)"

subsection \<open>The LRU chain\<close>

definition rm_lru :: "nat \<Rightarrow> fs \<Rightarrow> fs" where
  "rm_lru bp s =
     (let s = s\<lparr>bufs_in_use := bufs_in_use s + 1\<rparr>;
          next_ptr = b_next (buf s bp);
          prev_ptr = b_prev (buf s bp);
          s = (case prev_ptr of
                 Some p \<Rightarrow> upd_buf p (b_next_update (\<lambda>_. next_ptr)) s
               | None \<Rightarrow> s\<lparr>front := next_ptr\<rparr>)
      in case next_ptr of
           Some n \<Rightarrow> upd_buf n (b_prev_update (\<lambda>_. prev_ptr)) s
         | None \<Rightarrow> s\<lparr>rear := prev_ptr\<rparr>)"

definition lru_front :: "nat \<Rightarrow> fs \<Rightarrow> fs" where
  "lru_front bp s =
     (let s = upd_buf bp (b_prev_update (\<lambda>_. None)) s;
          s = upd_buf bp (b_next_update (\<lambda>_. front s)) s;
          s = (case front s of
                 None \<Rightarrow> s\<lparr>rear := Some bp\<rparr>
               | Some f \<Rightarrow> upd_buf f (b_prev_update (\<lambda>_. Some bp)) s)
      in s\<lparr>front := Some bp\<rparr>)"

definition lru_rear :: "nat \<Rightarrow> fs \<Rightarrow> fs" where
  "lru_rear bp s =
     (let s = upd_buf bp (b_prev_update (\<lambda>_. rear s)) s;
          s = upd_buf bp (b_next_update (\<lambda>_. None)) s;
          s = (case rear s of
                 None \<Rightarrow> s\<lparr>front := Some bp\<rparr>
               | Some r \<Rightarrow> upd_buf r (b_next_update (\<lambda>_. Some bp)) s)
      in s\<lparr>rear := Some bp\<rparr>)"

subsection \<open>Reading and writing a block\<close>

definition rw_block :: "nat \<Rightarrow> direction \<Rightarrow> fs \<Rightarrow> fs" where
  "rw_block bp rw_flag s =
     (let dev = b_dev (buf s bp);
          s = (if dev \<noteq> NO_DEV
               then
                 let pos = b_blocknr (buf s bp) * of_nat BLOCK_SIZE;
                     op = (if rw_flag = READING then DEV_READ else DEV_WRITE);
                     (r, s) = dev_block op dev pos bp s
                 in if r \<noteq> int BLOCK_SIZE
                    then
                      let r = (if r \<ge> 0 then END_OF_FILE else r);
                          s = upd_buf bp (b_dev_update (\<lambda>_. NO_DEV)) s
                      in if rw_flag = READING then s\<lparr>rdwt_err := r\<rparr> else s
                    else s
               else s)
      in upd_buf bp (b_dirt_update (\<lambda>_. CLEAN)) s)"

definition put_block :: "nat option \<Rightarrow> u32 \<Rightarrow> fs \<Rightarrow> fs" where
  "put_block bp block_type s =
     (case bp of
        None \<Rightarrow> s
      | Some bp \<Rightarrow>
          let s = upd_buf bp (b_count_update (\<lambda>n. n - 1)) s
          in if b_count (buf s bp) \<noteq> 0 then s
             else
               let s = s\<lparr>bufs_in_use := bufs_in_use s - 1\<rparr>;
                   s = (if TEST_BIT block_type ONE_SHOT then lru_front bp s else lru_rear bp s)
               in if TEST_BIT block_type WRITE_IMMED \<and> b_dirt (buf s bp) = DIRTY \<and> b_dev (buf s bp) \<noteq> NO_DEV
                  then rw_block bp WRITING s else s)"

subsection \<open>Scattered transfers\<close>

text \<open>The first gap of the Shell sort: \<open>do gap = 3 * gap + 1; while (gap <= bufqsize)\<close>.\<close>

function first_gap :: "nat \<Rightarrow> nat \<Rightarrow> nat" where
  "first_gap gap n = (let gap = 3 * gap + 1 in if gap \<le> n then first_gap gap n else gap)"
  by auto
termination by (relation "measure (\<lambda>(gap, n). n - gap)") auto

declare first_gap.simps [simp del]

text \<open>The innermost loop, by \<open>k\<close> = \<open>i + gap\<close>: the entry at \<open>k\<close> moves down in steps of \<open>gap\<close>.\<close>

function sift :: "nat \<Rightarrow> (nat \<Rightarrow> u32) \<Rightarrow> nat \<Rightarrow> nat list \<Rightarrow> nat list" where
  "sift gap blocknr k q =
     (if gap \<le> k \<and> blocknr (q ! (k - gap)) > blocknr (q ! k)
      then sift gap blocknr (k - gap) (q[k - gap := q ! k, k := q ! (k - gap)])
      else q)"
  by auto
termination
proof (relation "measure (\<lambda>(gap, blocknr, k, q). k)")
  fix gap blocknr k and q :: "nat list"
  assume "gap \<le> k \<and> blocknr (q ! k) < (blocknr (q ! (k - gap)) :: u32)"
  then show "((gap, blocknr, k - gap, q[k - gap := q ! k, k := q ! (k - gap)]), gap, blocknr, k, q)
      \<in> measure (\<lambda>(gap, blocknr, k, q). k)"
    by (cases "gap = 0") auto
qed simp

declare sift.simps [simp del]

fun shell_sort :: "nat \<Rightarrow> nat \<Rightarrow> (nat \<Rightarrow> u32) \<Rightarrow> nat list \<Rightarrow> nat list res" where
  "shell_sort 0 gap blocknr q = Inl Diverge"
| "shell_sort (Suc n) gap blocknr q =
     (if gap = 1 then Inr q
      else
        let gap = gap div 3
        in shell_sort n gap blocknr (fold (sift gap blocknr) [gap..<length q] q))"

definition io_entry :: "direction \<Rightarrow> fs \<Rightarrow> nat \<Rightarrow> iorequest_s" where
  "io_entry rw_flag s bp =
     \<lparr>io_position = b_blocknr (buf s bp) * of_nat BLOCK_SIZE, io_buf = bp, io_nbytes = BLOCK_SIZE,
      io_request = (if rw_flag = WRITING then DEV_WRITE else DEV_READ_OPT)\<rparr>"

definition harvest :: "u16 \<Rightarrow> direction \<Rightarrow> nat \<times> iorequest_s \<Rightarrow> fs \<Rightarrow> fs" where
  "harvest dev rw_flag e s =
     (let (bp, iop) = e
      in if rw_flag = READING
         then
           let s = (if io_nbytes iop = 0 then upd_buf bp (b_dev_update (\<lambda>_. dev)) s else s)
           in put_block (Some bp) PARTIAL_DATA_BLOCK s
         else
           let s = (if io_nbytes iop \<noteq> 0 then upd_buf bp (b_dev_update (\<lambda>_. NO_DEV)) s else s)
           in upd_buf bp (b_dirt_update (\<lambda>_. CLEAN)) s)"

function scattered_io :: "u16 \<Rightarrow> direction \<Rightarrow> nat list \<Rightarrow> fs \<Rightarrow> fs" where
  "scattered_io dev rw_flag bufq s =
     (if bufq = [] then s
      else
        let now = take NR_IOREQS bufq;
            (iovec, s) = dev_vector dev (map (io_entry rw_flag s) now) s;
            s = fold (harvest dev rw_flag) (zip now iovec) s
        in scattered_io dev rw_flag (drop NR_IOREQS bufq) s)"
  by auto
termination by (relation "measure (\<lambda>(dev, rw_flag, bufq, s). length bufq)") auto

declare scattered_io.simps [simp del]

definition rw_scattered :: "u16 \<Rightarrow> nat list \<Rightarrow> direction \<Rightarrow> fs \<Rightarrow> fs res" where
  "rw_scattered dev bufq rw_flag s =
     bnd (shell_sort sort_fuel (first_gap 1 (length bufq)) (\<lambda>i. b_blocknr (buf s i)) bufq) (\<lambda>bufq.
     Inr (scattered_io dev rw_flag bufq s))"

definition flushall :: "u16 \<Rightarrow> fs \<Rightarrow> fs res" where
  "flushall dev s =
     rw_scattered dev (filter (\<lambda>i. b_dirt (buf s i) = DIRTY \<and> b_dev (buf s i) = dev) [0..<NR_BUFS]) WRITING s"

subsection \<open>The second level cache\<close>

definition init_cache2 :: "u32 \<Rightarrow> fs \<Rightarrow> fs" where
  "init_cache2 size0 s = s\<lparr>nr_buf2 := (if size0 > of_nat MAX_BUF2 then of_nat MAX_BUF2 else size0)\<rparr>"

text \<open>The search for the newest copy of a block, backwards from \<open>buf2_idx\<close>.\<close>

fun search2 :: "nat \<Rightarrow> u32 \<Rightarrow> u32 \<Rightarrow> u16 \<Rightarrow> fs \<Rightarrow> u32 option res" where
  "search2 0 b blocknr dev s = Inl Diverge"
| "search2 (Suc n) b blocknr dev s =
     (let b = (if b = 0 then nr_buf2 s else b) - 1
      in chk (unat b < MAX_BUF2) OutOfBounds
           (if b2_blocknr (buf2 s (unat b)) = blocknr \<and> b2_dev (buf2 s (unat b)) = dev then Inr (Some b)
            else if b = buf2_idx s then Inr None
            else search2 n b blocknr dev s))"

definition get_block2 :: "nat \<Rightarrow> search \<Rightarrow> fs \<Rightarrow> (bool \<times> fs) res" where
  "get_block2 bp only_search s =
     (let s = (if b_dev (buf s bp) = DEV_RAM then s\<lparr>nr_buf2 := 0\<rparr> else s)
      in if nr_buf2 s = 0 \<or> only_search = NO_READ \<or> b2_count (buf2 s (hash2 (b_blocknr (buf s bp)))) = 0
         then Inr (False, s)
         else
           bnd (search2 cache2_fuel (buf2_idx s) (b_blocknr (buf s bp)) (b_dev (buf s bp)) s) (\<lambda>b.
           case b of
             None \<Rightarrow> Inr (False, s)
           | Some b \<Rightarrow>
               let (r, s) = dev_block DEV_READ DEV_RAM (b * of_nat BLOCK_SIZE) bp s
               in Inr (r = int BLOCK_SIZE, s)))"

definition put_block2 :: "nat \<Rightarrow> fs \<Rightarrow> fs res" where
  "put_block2 bp s =
     (if nr_buf2 s = 0 then Inr s
      else
        let b = buf2_idx s;
            s = s\<lparr>buf2_idx := buf2_idx s + 1\<rparr>;
            s = (if buf2_idx s = nr_buf2 s then s\<lparr>buf2_idx := 0\<rparr> else s);
            bp2 = unat b
        in chk (bp2 < MAX_BUF2) OutOfBounds
             (let (r, s) = dev_block DEV_WRITE DEV_RAM (b * of_nat BLOCK_SIZE) bp s
              in Inr (if r = int BLOCK_SIZE
                      then
                        let s = (if b2_dev (buf2 s bp2) \<noteq> NO_DEV
                                 then upd_buf2 (hash2 (b2_blocknr (buf2 s bp2))) (b2_count_update (\<lambda>n. n - 1)) s
                                 else s);
                            s = upd_buf2 bp2 (b2_dev_update (\<lambda>_. b_dev (buf s bp))) s;
                            s = upd_buf2 bp2 (b2_blocknr_update (\<lambda>_. b_blocknr (buf s bp))) s
                        in upd_buf2 (hash2 (b2_blocknr (buf2 s bp2))) (b2_count_update (\<lambda>n. n + 1)) s
                      else s)))"

definition invalidate2_step :: "u16 \<Rightarrow> nat \<Rightarrow> fs \<Rightarrow> fs" where
  "invalidate2_step device b s =
     (if b2_dev (buf2 s b) = device
      then
        let s = upd_buf2 b (b2_dev_update (\<lambda>_. NO_DEV)) s
        in upd_buf2 (hash2 (b2_blocknr (buf2 s b))) (b2_count_update (\<lambda>n. n - 1)) s
      else s)"

definition invalidate2 :: "u16 \<Rightarrow> fs \<Rightarrow> fs" where
  "invalidate2 device s = fold (invalidate2_step device) [0..<unat (nr_buf2 s)] s"

subsection \<open>Getting a block\<close>

text \<open>The search of the hash chain.\<close>

fun find_buf :: "nat \<Rightarrow> nat option \<Rightarrow> u16 \<Rightarrow> u32 \<Rightarrow> fs \<Rightarrow> nat option res" where
  "find_buf n None dev block s = Inr None"
| "find_buf 0 (Some bp) dev block s = Inl Diverge"
| "find_buf (Suc n) (Some bp) dev block s =
     (if b_blocknr (buf s bp) = block \<and> b_dev (buf s bp) = dev then Inr (Some bp)
      else find_buf n (b_hash (buf s bp)) dev block s)"

text \<open>Removing a buffer from its hash chain.\<close>

fun unlink_after :: "nat \<Rightarrow> nat \<Rightarrow> nat \<Rightarrow> fs \<Rightarrow> fs res" where
  "unlink_after 0 prev_ptr bp s = Inl Diverge"
| "unlink_after (Suc n) prev_ptr bp s =
     (case b_hash (buf s prev_ptr) of
        None \<Rightarrow> Inr s
      | Some h \<Rightarrow>
          if h = bp then Inr (upd_buf prev_ptr (b_hash_update (\<lambda>_. b_hash (buf s bp))) s)
          else unlink_after n h bp s)"

definition unlink_hash :: "nat \<Rightarrow> fs \<Rightarrow> fs res" where
  "unlink_hash bp s =
     (let b = hash_of (b_blocknr (buf s bp))
      in if buf_hash s b = Some bp
         then Inr (s\<lparr>buf_hash := (buf_hash s)(b := b_hash (buf s bp))\<rparr>)
         else bnd (deref (buf_hash s b)) (\<lambda>prev_ptr. unlink_after chain_fuel prev_ptr bp s))"

definition evict :: "nat \<Rightarrow> fs \<Rightarrow> fs res" where
  "evict bp s =
     (if b_dev (buf s bp) \<noteq> NO_DEV
      then
        bnd (if b_dirt (buf s bp) = DIRTY then flushall (b_dev (buf s bp)) s else Inr s) (\<lambda>s.
        put_block2 bp s)
      else Inr s)"

definition enter_hash :: "nat \<Rightarrow> u16 \<Rightarrow> u32 \<Rightarrow> fs \<Rightarrow> fs" where
  "enter_hash bp dev block s =
     (let s = upd_buf bp (\<lambda>x. x\<lparr>b_dev := dev, b_blocknr := block, b_count := b_count x + 1\<rparr>) s;
          b = hash_of (b_blocknr (buf s bp));
          s = upd_buf bp (b_hash_update (\<lambda>_. buf_hash s b)) s
      in s\<lparr>buf_hash := (buf_hash s)(b := Some bp)\<rparr>)"

definition fetch :: "nat \<Rightarrow> search \<Rightarrow> fs \<Rightarrow> fs res" where
  "fetch bp only_search s =
     bnd (get_block2 bp only_search s) (\<lambda>(found, s).
     Inr (if found then s
          else case only_search of
                 PREFETCH \<Rightarrow> upd_buf bp (b_dev_update (\<lambda>_. NO_DEV)) s
               | NORMAL \<Rightarrow> rw_block bp READING s
               | NO_READ \<Rightarrow> s))"

definition get_block :: "u16 \<Rightarrow> u32 \<Rightarrow> search \<Rightarrow> fs \<Rightarrow> (nat \<times> fs) res" where
  "get_block dev block only_search s =
     bnd (if dev \<noteq> NO_DEV then find_buf chain_fuel (buf_hash s (hash_of block)) dev block s else Inr None) (\<lambda>found.
     case found of
       Some bp \<Rightarrow>
         let s = (if b_count (buf s bp) = 0 then rm_lru bp s else s)
         in Inr (bp, upd_buf bp (b_count_update (\<lambda>n. n + 1)) s)
     | None \<Rightarrow>
         (case front s of
            None \<Rightarrow> Inl (Panic ''all buffers in use'')
          | Some bp \<Rightarrow>
              bnd (unlink_hash bp (rm_lru bp s)) (\<lambda>s.
              bnd (evict bp s) (\<lambda>s.
              let s = enter_hash bp dev block s
              in bnd (if dev \<noteq> NO_DEV then fetch bp only_search s else Inr s) (\<lambda>s.
                 Inr (bp, s))))))"

definition invalidate :: "u16 \<Rightarrow> fs \<Rightarrow> fs" where
  "invalidate device s =
     invalidate2 device
       (s\<lparr>buf := (\<lambda>i. if i < NR_BUFS \<and> b_dev (buf s i) = device then (buf s i)\<lparr>b_dev := NO_DEV\<rparr> else buf s i)\<rparr>)"

text \<open>The start of the server; the counts and the dirty marks are zero from the start.\<close>

definition buf_pool :: "fs \<Rightarrow> fs" where
  "buf_pool s =
     (let s = s\<lparr>bufs_in_use := 0, front := Some 0, rear := Some (NR_BUFS - 1)\<rparr>;
          s = s\<lparr>buf := (\<lambda>i. if i < NR_BUFS
                           then (buf s i)\<lparr>b_blocknr := NO_BLOCK, b_dev := NO_DEV, b_next := Some (i + 1),
                                          b_prev := (if i = 0 then None else Some (i - 1))\<rparr>
                           else buf s i)\<rparr>;
          s = upd_buf 0 (b_prev_update (\<lambda>_. None)) s;
          s = upd_buf (NR_BUFS - 1) (b_next_update (\<lambda>_. None)) s;
          s = s\<lparr>buf := (\<lambda>i. if i < NR_BUFS then (buf s i)\<lparr>b_hash := b_next (buf s i)\<rparr> else buf s i)\<rparr>
      in s\<lparr>buf_hash := (buf_hash s)(0 := front s)\<rparr>)"

end
