(* ===== verification/Fs_Chains.thy ===== *)
theory Fs_Chains
  imports Fs_Cache "HOL-Library.Multiset"
begin

text \<open>
  The chains of the block cache as lists, and the Shell sort of \<open>rw_scattered\<close>. \<open>lru\<close> relates
  \<open>front\<close>, \<open>rear\<close>, \<open>b_next\<close> and \<open>b_prev\<close> to the list of the unused buffers, \<open>hashed\<close> relates
  \<open>buf_hash\<close> and \<open>b_hash\<close> to one list for each hash value. Each operation on a chain is shown to be its
  operation on the list, to end within its fuel, and to change links only.
\<close>

subsection \<open>The LRU chain as a list\<close>

fun lru_seg :: "(nat \<Rightarrow> buf_t) \<Rightarrow> nat option \<Rightarrow> nat list \<Rightarrow> nat option \<Rightarrow> bool" where
  "lru_seg f p [] n \<longleftrightarrow> True"
| "lru_seg f p (x # xs) n \<longleftrightarrow>
     b_prev (f x) = p \<and> b_next (f x) = (if xs = [] then n else opt_hd xs) \<and> lru_seg f (Some x) xs n"

definition lru :: "fs \<Rightarrow> nat list \<Rightarrow> bool" where
  "lru s xs \<longleftrightarrow>
     front s = opt_hd xs \<and> rear s = opt_last xs \<and> distinct xs \<and> lru_seg (buf s) None xs None"

lemma lru_seg_cong:
  "(\<And>x. x \<in> set xs \<Longrightarrow> b_prev (g x) = b_prev (f x) \<and> b_next (g x) = b_next (f x)) \<Longrightarrow>
   lru_seg g p xs n = lru_seg f p xs n"
  by (induction xs arbitrary: p) auto

lemma lru_seg_upd_other [simp]: "k \<notin> set xs \<Longrightarrow> lru_seg (f(k := v)) p xs n = lru_seg f p xs n"
  by (rule lru_seg_cong) auto

lemma lru_seg_append:
  "lru_seg f p (xs @ ys) n \<longleftrightarrow>
     lru_seg f p xs (if ys = [] then n else opt_hd ys)
     \<and> lru_seg f (if xs = [] then p else opt_last xs) ys n"
  by (induction xs arbitrary: p) (auto simp: opt_hd_append opt_last_def)

text \<open>A step that changes the LRU links and nothing else.\<close>

definition lru_step :: "fs \<Rightarrow> fs \<Rightarrow> bool" where
  "lru_step s s' \<longleftrightarrow>
     (\<exists>nx pv f r u. s' = s\<lparr>buf := (\<lambda>i. (buf s i)\<lparr>b_next := nx i, b_prev := pv i\<rparr>),
                          front := f, rear := r, bufs_in_use := u\<rparr>)"

lemma lru_stepI:
  assumes "s' = s\<lparr>buf := b, front := f, rear := r, bufs_in_use := u\<rparr>"
    and "\<And>i. b i = (buf s i)\<lparr>b_next := b_next (b i), b_prev := b_prev (b i)\<rparr>"
  shows "lru_step s s'"
proof -
  have "b = (\<lambda>i. (buf s i)\<lparr>b_next := b_next (b i), b_prev := b_prev (b i)\<rparr>)"
    using assms(2) by blast
  then show ?thesis unfolding lru_step_def assms(1)
    by (intro exI) (rule arg_cong[of _ _ "\<lambda>b. s\<lparr>buf := b, front := f, rear := r, bufs_in_use := u\<rparr>"])
qed

lemma rm_lru_step: "lru_step s (rm_lru k s)"
  by (rule lru_stepI[where b = "buf (rm_lru k s)" and f = "front (rm_lru k s)" and r = "rear (rm_lru k s)"
        and u = "bufs_in_use (rm_lru k s)"])
    (simp_all add: rm_lru_def Let_def split: option.split)

lemma lru_front_step: "lru_step s (lru_front k s)"
  by (rule lru_stepI[where b = "buf (lru_front k s)" and f = "front (lru_front k s)" and r = "rear (lru_front k s)"
        and u = "bufs_in_use (lru_front k s)"])
    (simp_all add: lru_front_def Let_def split: option.split)

lemma lru_rear_step: "lru_step s (lru_rear k s)"
  by (rule lru_stepI[where b = "buf (lru_rear k s)" and f = "front (lru_rear k s)" and r = "rear (lru_rear k s)"
        and u = "bufs_in_use (lru_rear k s)"])
    (simp_all add: lru_rear_def Let_def split: option.split)

lemma rm_lru_split:
  assumes "lru s (xs @ k # ys)"
  shows "lru (rm_lru k s) (xs @ ys)"
proof -
  consider "xs = []" "ys = []" | y ys' where "xs = []" "ys = y # ys'"
    | x xs' where "xs = xs' @ [x]" "ys = []" | x xs' y ys' where "xs = xs' @ [x]" "ys = y # ys'"
    by (cases xs rule: rev_cases; cases ys) auto
  then show ?thesis
    using assms
    by cases (auto simp: rm_lru_def lru_def Let_def lru_seg_append opt_hd_append opt_last_def)
qed

lemma rm_lru_lru:
  assumes "lru s xs" and "k \<in> set xs"
  shows "lru (rm_lru k s) (remove1 k xs)"
proof -
  obtain as bs where xs: "xs = as @ k # bs" "k \<notin> set as"
    using split_list_first[OF assms(2)] by blast
  then have "remove1 k xs = as @ bs" by (simp add: remove1_append)
  with rm_lru_split[of s as k bs] assms(1) xs show ?thesis by simp
qed

lemma lru_front_lru: "lru s xs \<Longrightarrow> k \<notin> set xs \<Longrightarrow> lru (lru_front k s) (k # xs)"
  by (cases xs) (auto simp: lru_front_def lru_def Let_def opt_last_def)

lemma lru_rear_lru: "lru s xs \<Longrightarrow> k \<notin> set xs \<Longrightarrow> lru (lru_rear k s) (xs @ [k])"
  by (cases xs rule: rev_cases) (auto simp: lru_rear_def lru_def Let_def lru_seg_append opt_hd_append opt_last_def)

subsection \<open>The hash chains as lists\<close>

fun chain :: "(nat \<Rightarrow> buf_t) \<Rightarrow> nat option \<Rightarrow> nat list \<Rightarrow> bool" where
  "chain f p [] \<longleftrightarrow> p = None"
| "chain f p (x # xs) \<longleftrightarrow> p = Some x \<and> chain f (b_hash (f x)) xs"

lemma chain_cong:
  "(\<And>x. x \<in> set xs \<Longrightarrow> b_hash (g x) = b_hash (f x)) \<Longrightarrow> chain g p xs = chain f p xs"
  by (induction xs arbitrary: p) auto

lemma chain_upd_other [simp]: "k \<notin> set xs \<Longrightarrow> chain (f(k := v)) p xs = chain f p xs"
  by (rule chain_cong) auto

lemma find_buf_chain:
  assumes "chain (buf s) p xs" and "length xs \<le> n"
  shows "find_buf n p dev block s =
    Inr (List.find (\<lambda>i. b_blocknr (buf s i) = block \<and> b_dev (buf s i) = dev) xs)"
  using assms
proof (induction xs arbitrary: p n)
  case (Cons x xs)
  then show ?case by (cases n) auto
qed simp

abbreviation cut_hash :: "nat \<Rightarrow> nat \<Rightarrow> fs \<Rightarrow> fs" where
  "cut_hash v k s \<equiv> upd_buf v (b_hash_update (\<lambda>_. b_hash (buf s k))) s"

lemma unlink_after_chain:
  assumes "chain (buf s) (Some p) (p # xs @ k # ys)" and "distinct (p # xs @ k # ys)" and "length xs < n"
  obtains v where "unlink_after n p k s = Inr (cut_hash v k s)"
    and "chain (buf (cut_hash v k s)) (Some p) (p # xs @ ys)" and "v \<in> set (p # xs)"
  using assms
proof (induction xs arbitrary: p n thesis)
  case Nil
  then obtain m where "n = Suc m" by (cases n) auto
  then have "unlink_after n p k s = Inr (cut_hash p k s)"
    and "chain (buf (cut_hash p k s)) (Some p) (p # [] @ ys)" using Nil.prems(2,3) by simp_all
  then show ?case by (rule Nil.prems(1)) simp
next
  case (Cons x xs)
  obtain m where n: "n = Suc m" "length xs < m" using Cons.prems(4) by (cases n) auto
  have "chain (buf s) (Some x) (x # xs @ k # ys)" "distinct (x # xs @ k # ys)"
    using Cons.prems(2,3) by auto
  from Cons.IH[OF _ this n(2)] obtain v where v: "unlink_after m x k s = Inr (cut_hash v k s)"
    "chain (buf (cut_hash v k s)) (Some x) (x # xs @ ys)" "v \<in> set (x # xs)"
    by blast
  moreover have "v \<noteq> p" "x \<noteq> k" using v(3) Cons.prems(3) by auto
  ultimately have "unlink_after n p k s = Inr (cut_hash v k s)"
    and "chain (buf (cut_hash v k s)) (Some p) (p # (x # xs) @ ys)" using Cons.prems(2) n(1) by simp_all
  then show ?case by (rule Cons.prems(1)) (use v(3) in simp)
qed

text \<open>A step that changes the hash links and nothing else.\<close>

definition hash_step :: "fs \<Rightarrow> fs \<Rightarrow> bool" where
  "hash_step s s' \<longleftrightarrow>
     (\<exists>nx h. s' = s\<lparr>buf := (\<lambda>i. (buf s i)\<lparr>b_hash := nx i\<rparr>), buf_hash := h\<rparr>)"

lemma hash_stepI:
  assumes "s' = s\<lparr>buf := b, buf_hash := h\<rparr>" and "\<And>i. b i = (buf s i)\<lparr>b_hash := b_hash (b i)\<rparr>"
  shows "hash_step s s'"
proof -
  have "b = (\<lambda>i. (buf s i)\<lparr>b_hash := b_hash (b i)\<rparr>)" using assms(2) by blast
  then show ?thesis unfolding hash_step_def assms(1)
    by (intro exI) (rule arg_cong[of _ _ "\<lambda>b. s\<lparr>buf := b, buf_hash := h\<rparr>"])
qed

lemma hash_of_less [simp]: "hash_of b < 128"
proof -
  have "b AND 127 = take_bit 7 b" by (simp add: take_bit_eq_mask mask_eq_exp_minus_1)
  then have "unat (b AND 127) = take_bit 7 (unat b)" by (simp add: unsigned_take_bit_eq)
  then show ?thesis using take_bit_nat_less_exp[of 7 "unat b"] by (simp add: hash_of_def)
qed

text \<open>The chains \<open>C\<close> hold every buffer outside \<open>K\<close> at the place of its block number.\<close>

definition hashed :: "nat set \<Rightarrow> fs \<Rightarrow> (nat \<Rightarrow> nat list) \<Rightarrow> bool" where
  "hashed K s C \<longleftrightarrow>
     (\<forall>h<128. chain (buf s) (buf_hash s h) (C h) \<and> distinct (C h)
        \<and> set (C h) = {i. i < NR_BUFS \<and> i \<notin> K \<and> hash_of (b_blocknr (buf s i)) = h})"

lemma hashedI:
  assumes "\<And>h. h < 128 \<Longrightarrow> chain (buf s) (buf_hash s h) (C h)" and "\<And>h. h < 128 \<Longrightarrow> distinct (C h)"
    and "\<And>h. h < 128 \<Longrightarrow> set (C h) = {i. i < NR_BUFS \<and> i \<notin> K \<and> hash_of (b_blocknr (buf s i)) = h}"
  shows "hashed K s C"
  using assms by (simp add: hashed_def)

lemma hashedD:
  assumes "hashed K s C" and "h < 128"
  shows "chain (buf s) (buf_hash s h) (C h)" and "distinct (C h)"
    and "set (C h) = {i. i < NR_BUFS \<and> i \<notin> K \<and> hash_of (b_blocknr (buf s i)) = h}"
    and "length (C h) \<le> NR_BUFS"
proof -
  show 1: "chain (buf s) (buf_hash s h) (C h)" "distinct (C h)"
    and 2: "set (C h) = {i. i < NR_BUFS \<and> i \<notin> K \<and> hash_of (b_blocknr (buf s i)) = h}"
    using assms by (auto simp: hashed_def)
  have "set (C h) \<subseteq> {..<80}" using 2 by auto
  from card_mono[OF _ this] show "length (C h) \<le> NR_BUFS" by (simp add: distinct_card[OF 1(2)])
qed

lemma hashed_cong:
  assumes "hashed K s C" and "buf_hash s' = buf_hash s"
    and "\<And>i. b_hash (buf s' i) = b_hash (buf s i) \<and> b_blocknr (buf s' i) = b_blocknr (buf s i)"
  shows "hashed K s' C"
proof -
  have "chain (buf s') p xs = chain (buf s) p xs" for p xs by (rule chain_cong) (simp add: assms(3))
  with assms show ?thesis by (simp add: hashed_def)
qed

lemma hashed_find:
  assumes "hashed {} s C"
  shows "find_buf chain_fuel (buf_hash s (hash_of block)) dev block s =
    Inr (List.find (\<lambda>i. b_blocknr (buf s i) = block \<and> b_dev (buf s i) = dev) (C (hash_of block)))"
  by (rule find_buf_chain) (use hashedD[OF assms, of "hash_of block"] in simp_all)

lemma unlink_hash_ok:
  assumes "hashed {} s C" and "k < NR_BUFS" and h: "h = hash_of (b_blocknr (buf s k))"
  shows "\<exists>s'. unlink_hash k s = Inr s' \<and> hash_step s s' \<and> hashed {k} s' (C(h := remove1 k (C h)))"
proof -
  let ?C = "C(h := remove1 k (C h))"
  note C = hashedD[OF assms(1)]
  have h128: "h < 128" by (simp add: h)
  have "k \<in> set (C h)" using C(3)[OF h128] assms(2) h by simp
  then obtain as bs where Ch: "C h = as @ k # bs" by (auto dest: split_list)
  with C(2)[OF h128] have rm: "remove1 k (C h) = as @ bs" "k \<notin> set as"
    by (auto simp: remove1_append)
  have others: "v \<notin> set (C g)" if "v \<in> set (C h)" "g \<noteq> h" "g < 128" for v g
    using that C(3)[OF h128] C(3)[of g] by auto
  have dist: "distinct (?C g)" if "g < 128" for g using C(2)[OF that] C(2)[OF h128] by simp
  have setC: "set (?C g) = {i. i < 80 \<and> i \<notin> {k} \<and> hash_of (b_blocknr (buf s i)) = g}" if "g < 128" for g
  proof (cases "g = h")
    case True
    then show ?thesis using C(2,3)[OF h128] by (simp add: set_remove1_eq) blast
  next
    case False
    then have "k \<notin> set (C g)" using C(3)[OF that] h by simp
    then show ?thesis using C(3)[OF that] False by (simp add: set_eq_iff) blast
  qed
  show ?thesis
  proof (cases as)
    case Nil
    let ?s = "s\<lparr>buf_hash := (buf_hash s)(h := b_hash (buf s k))\<rparr>"
    have ch: "buf_hash s h = Some k" "chain (buf s) (b_hash (buf s k)) bs"
      using C(1)[OF h128] Ch Nil by simp_all
    then have "unlink_hash k s = Inr ?s" by (simp add: unlink_hash_def h)
    moreover have "hash_step s ?s" by (rule hash_stepI[where b = "buf s"]) simp_all
    moreover have "hashed {k} ?s ?C"
    proof (rule hashedI)
      show "chain (buf ?s) (buf_hash ?s g) (?C g)" if "g < 128" for g
        using C(1)[OF that] ch(2) Nil rm(1) by simp
    qed (use dist setC in simp_all)
    ultimately show ?thesis by blast
  next
    case (Cons p ps)
    have ch: "chain (buf s) (Some p) (p # ps @ k # bs)" "buf_hash s h = Some p" "distinct (p # ps @ k # bs)"
      using C(1,2)[OF h128] Ch Cons by simp_all
    have "length ps < 81" using C(4)[OF h128] Ch Cons by simp
    from unlink_after_chain[OF ch(1,3) this] obtain v where
      v: "unlink_after 81 p k s = Inr (cut_hash v k s)"
         "chain (buf (cut_hash v k s)) (Some p) (p # ps @ bs)" "v \<in> set (p # ps)"
      by blast
    have vC: "v \<in> set (C h)" and "p \<noteq> k" using v(3) Ch Cons rm(2) by auto
    then have "unlink_hash k s = Inr (cut_hash v k s)" using ch(2) v(1) by (simp add: unlink_hash_def h)
    moreover have "hash_step s (cut_hash v k s)"
      by (rule hash_stepI[where h = "buf_hash s" and b = "buf (cut_hash v k s)"]) simp_all
    moreover have "hashed {k} (cut_hash v k s) ?C"
    proof (rule hashedI)
      show "chain (buf (cut_hash v k s)) (buf_hash (cut_hash v k s) g) (?C g)" if "g < 128" for g
      proof (cases "g = h")
        case True
        then show ?thesis using v(2) ch(2) Cons rm(1) by simp
      next
        case False
        then show ?thesis using C(1)[OF that] others[OF vC False that] by simp
      qed
      show "set (?C g) = {i. i < 80 \<and> i \<notin> {k} \<and> hash_of (b_blocknr (buf (cut_hash v k s) i)) = g}"
        if "g < 128" for g
        unfolding setC[OF that] by auto
    qed (use dist in simp_all)
    ultimately show ?thesis by blast
  qed
qed

lemma enter_hash_eq:
  "enter_hash k dev block s =
     s\<lparr>buf := (buf s)(k := (buf s k)\<lparr>b_dev := dev, b_blocknr := block, b_count := b_count (buf s k) + 1,
                                    b_hash := buf_hash s (hash_of block)\<rparr>),
       buf_hash := (buf_hash s)(hash_of block := Some k)\<rparr>"
  by (simp add: enter_hash_def Let_def)

lemma enter_hash_ok:
  assumes "hashed {k} s C" and "k < NR_BUFS"
  shows "hashed {} (enter_hash k dev block s) (C(hash_of block := k # C (hash_of block)))"
    (is "hashed {} ?s ?C")
proof (rule hashedI)
  note C = hashedD[OF assms(1)]
  have k: "k \<notin> set (C g)" if "g < 128" for g using C(3)[OF that] by simp
  show "chain (buf ?s) (buf_hash ?s g) (?C g)" if "g < 128" for g
    using C(1)[OF that] k[OF that] by (cases "g = hash_of block") (simp_all add: enter_hash_eq)
  show "distinct (?C g)" if "g < 128" for g
    using C(2)[OF that] k[OF that] by (cases "g = hash_of block") simp_all
  show "set (?C g) = {i. i < 80 \<and> i \<notin> {} \<and> hash_of (b_blocknr (buf ?s i)) = g}" if "g < 128" for g
    using C(3)[OF that] assms(2) by (simp add: enter_hash_eq set_eq_iff) blast
qed

subsection \<open>The Shell sort\<close>

lemma sift_swap:
  assumes "gap \<le> k" and "blocknr (q ! k) < blocknr (q ! (k - gap))"
  shows "sift gap blocknr k q = sift gap blocknr (k - gap) (q[k - gap := q ! k, k := q ! (k - gap)])"
  using assms by (subst sift.simps) simp

lemma sift_stop:
  assumes "\<not> (gap \<le> k \<and> blocknr (q ! k) < blocknr (q ! (k - gap)))"
  shows "sift gap blocknr k q = q"
  using assms by (subst sift.simps) auto

lemma sift_mset: "k < length q \<Longrightarrow> mset (sift gap blocknr k q) = mset q"
proof (induction gap blocknr k q rule: sift.induct)
  case (1 gap blocknr k q)
  show ?case
  proof (cases "gap \<le> k \<and> blocknr (q ! k) < blocknr (q ! (k - gap))")
    case True
    moreover have "mset (q[k - gap := q ! k, k := q ! (k - gap)]) = mset q"
      by (rule mset_swap) (use "1.prems" in simp_all)
    ultimately show ?thesis using 1 by (simp add: sift_swap)
  qed (simp add: sift_stop)
qed

lemma sift_length [simp]: "length (sift gap blocknr k q) = length q"
proof (induction gap blocknr k q rule: sift.induct)
  case (1 gap blocknr k q)
  then show ?case
    by (cases "gap \<le> k \<and> blocknr (q ! k) < blocknr (q ! (k - gap))") (simp_all add: sift_swap sift_stop)
qed

lemma pass_mset:
  "(\<And>k. k \<in> set ks \<Longrightarrow> k < length q) \<Longrightarrow>
   mset (fold (sift gap blocknr) ks q) = mset q \<and> length (fold (sift gap blocknr) ks q) = length q"
  by (induction ks arbitrary: q) (simp_all add: sift_mset)

text \<open>With gap one the pass is an insertion sort.\<close>

lemma sift_above: "k < b \<Longrightarrow> sift gap blocknr k q ! b = q ! b"
proof (induction gap blocknr k q rule: sift.induct)
  case (1 gap blocknr k q)
  then show ?case
    by (cases "gap \<le> k \<and> blocknr (q ! k) < blocknr (q ! (k - gap))") (simp_all add: sift_swap sift_stop)
qed

lemma sift_inserts:
  assumes "j < length q" and "k \<le> j"
    and "\<And>a b. a < b \<Longrightarrow> b \<le> j \<Longrightarrow> a \<noteq> k \<Longrightarrow> b \<noteq> k \<Longrightarrow> blocknr (q ! a) \<le> blocknr (q ! b)"
    and "\<And>b. k < b \<Longrightarrow> b \<le> j \<Longrightarrow> blocknr (q ! k) \<le> blocknr (q ! b)"
    and "a < b" and "b \<le> j"
  shows "blocknr (sift 1 blocknr k q ! a) \<le> blocknr (sift 1 blocknr k q ! b)"
  using assms
proof (induction k arbitrary: q a b)
  case 0
  then show ?case by (simp add: sift_stop) (metis neq0_conv)
next
  case (Suc k)
  show ?case
  proof (cases "blocknr (q ! Suc k) < blocknr (q ! k)")
    case True
    let ?q = "q[k := q ! Suc k, Suc k := q ! k]"
    have nth: "?q ! i = (if i = Suc k then q ! k else if i = k then q ! Suc k else q ! i)" if "i < length q" for i
      using that by (simp add: nth_list_update)
    have "blocknr (sift 1 blocknr k ?q ! a) \<le> blocknr (sift 1 blocknr k ?q ! b)"
    proof (rule Suc.IH)
      show "blocknr (?q ! a) \<le> blocknr (?q ! b)" if "a < b" "b \<le> j" "a \<noteq> k" "b \<noteq> k" for a b
        using that Suc.prems(1,2) Suc.prems(3)[of a b] Suc.prems(3)[of a k] Suc.prems(3)[of k b] nth[of a] nth[of b]
        by (auto split: if_splits)
      show "blocknr (?q ! k) \<le> blocknr (?q ! b)" if "k < b" "b \<le> j" for b
        using that Suc.prems(1,2) Suc.prems(4)[of b] True nth[of k] nth[of b] by (auto split: if_splits)
    qed (use Suc.prems in simp_all)
    then show ?thesis using True by (simp add: sift_swap)
  next
    case False
    have "blocknr (q ! a) \<le> blocknr (q ! b)"
    proof (cases "b = Suc k")
      case True
      then show ?thesis using False Suc.prems(2,5) Suc.prems(3)[of a k]
        by (cases "a = k") (auto simp: not_less intro: order_trans)
    next
      case b: False
      then show ?thesis using Suc.prems(5,6) Suc.prems(3)[of a b] Suc.prems(4)[of b] by (cases "a = Suc k") auto
    qed
    then show ?thesis using False by (simp add: sift_stop)
  qed
qed

lemma pass_one_sorts:
  assumes "m \<le> length q" and "1 \<le> m"
  shows "\<forall>a b. a < b \<longrightarrow> b < m \<longrightarrow>
    blocknr (fold (sift 1 blocknr) [1..<m] q ! a) \<le> blocknr (fold (sift 1 blocknr) [1..<m] q ! b)"
  using assms
proof (induction m)
  case (Suc m)
  show ?case
  proof (cases "m = 0")
    case False
    let ?q = "fold (sift 1 blocknr) [1..<m] q"
    have len: "length ?q = length q" using pass_mset[of "[1..<m]" q 1 blocknr] Suc.prems by simp
    have IH: "\<forall>a b. a < b \<longrightarrow> b < m \<longrightarrow> blocknr (?q ! a) \<le> blocknr (?q ! b)" using Suc False by simp
    have eq: "fold (sift 1 blocknr) [1..<Suc m] q = sift 1 blocknr m ?q" using False by simp
    have "blocknr (sift 1 blocknr m ?q ! a) \<le> blocknr (sift 1 blocknr m ?q ! b)" if "a < b" "b < Suc m" for a b
      by (rule sift_inserts[of m]) (use that IH len Suc.prems in auto)
    then show ?thesis unfolding eq by blast
  qed auto
qed simp

lemma pass_one_sorted: "sorted (map blocknr (fold (sift 1 blocknr) [1..<length q] q))" if "q \<noteq> []"
  using pass_one_sorts[of "length q" q blocknr] that pass_mset[of "[1..<length q]" q 1 blocknr]
  by (auto simp: sorted_iff_nth_mono_less Suc_le_eq)

lemma first_gap_cases: "n \<le> 80 \<Longrightarrow> first_gap 1 n \<in> {4, 13, 40, 121}"
  by (auto simp: first_gap.simps[of "Suc 0"] first_gap.simps[of 4] first_gap.simps[of 13] first_gap.simps[of 40] Let_def)

lemma shell_sort_4:
  "\<exists>q'. shell_sort (Suc (Suc n)) 4 blocknr q = Inr q' \<and> mset q' = mset q \<and> sorted (map blocknr q')"
  using pass_mset[of "[1..<length q]" q 1 blocknr] pass_one_sorted[of q blocknr]
  by (cases "q = []") (auto simp: Let_def)

lemma shell_sort_step:
  assumes "gap \<noteq> 1" and "\<And>q. \<exists>q'. shell_sort n (gap div 3) blocknr q = Inr q' \<and> mset q' = mset q \<and> sorted (map blocknr q')"
  shows "\<exists>q'. shell_sort (Suc n) gap blocknr q = Inr q' \<and> mset q' = mset q \<and> sorted (map blocknr q')"
  using assms(1) assms(2)[of "fold (sift (gap div 3) blocknr) [gap div 3..<length q] q"]
    pass_mset[of "[gap div 3..<length q]" q "gap div 3" blocknr] by (auto simp: Let_def)

lemma shell_sort_ok:
  assumes "length q \<le> 80"
  shows "\<exists>q'. shell_sort sort_fuel (first_gap 1 (length q)) blocknr q = Inr q'
    \<and> mset q' = mset q \<and> sorted (map blocknr q')"
proof -
  have 4: "\<exists>q'. shell_sort (Suc (Suc n)) 4 blocknr q = Inr q' \<and> mset q' = mset q \<and> sorted (map blocknr q')" for n q
    by (rule shell_sort_4)
  have 13: "\<exists>q'. shell_sort (Suc (Suc (Suc n))) 13 blocknr q = Inr q' \<and> mset q' = mset q \<and> sorted (map blocknr q')" for n q
    by (rule shell_sort_step) (use 4 in simp_all)
  have 40: "\<exists>q'. shell_sort (Suc (Suc (Suc (Suc n)))) 40 blocknr q = Inr q' \<and> mset q' = mset q \<and> sorted (map blocknr q')" for n q
    by (rule shell_sort_step) (use 13 in simp_all)
  have 121: "\<exists>q'. shell_sort (Suc (Suc (Suc (Suc (Suc n))))) 121 blocknr q = Inr q' \<and> mset q' = mset q \<and> sorted (map blocknr q')" for n q
    by (rule shell_sort_step) (use 40 in simp_all)
  have "sort_fuel = Suc (Suc (Suc (Suc (Suc (Suc (Suc (Suc 0)))))))" by simp
  then show ?thesis using first_gap_cases[OF assms] 4 13 40 121 by (simp only:) auto
qed

end
