(* ===== verification/Fs_Content.thy ===== *)
theory Fs_Content
  imports Fs_Chains
begin

text \<open>
  What the block cache stands for. \<open>content\<close> gives the data of a block: those of the buffer that bears
  its name, else those on its device. \<open>fs_core\<close> collects the invariants on names and data: a block
  has one buffer, a clean buffer agrees with its device, and the newest copy in the second level of a
  block that has no buffer agrees with its device. The lemmas show that flushing, storing a copy in the
  second level, recycling a buffer and naming it anew keep the invariants and the contents.
\<close>

subsection \<open>Transfers of reliable drivers\<close>

text \<open>Every read and write succeeds; a read that is marked as optional may be skipped.\<close>

definition reliable :: "fs \<Rightarrow> bool" where
  "reliable s \<longleftrightarrow>
     (\<forall>n dev pos. io_reply s n DEV_READ dev pos = int BLOCK_SIZE \<and> io_reply s n DEV_WRITE dev pos = int BLOCK_SIZE)"

abbreviation pos_of :: "u32 \<Rightarrow> u32" where
  "pos_of block \<equiv> block * 1024"

abbreviation max_block :: u32 where
  "max_block \<equiv> 0x400000"

lemma pos_inj:
  assumes "a < max_block" and "b < max_block" and "pos_of a = pos_of b"
  shows "a = b"
proof -
  have "unat (pos_of x) = unat x * 1024" if "x < max_block" for x
    using that by (simp add: word_less_nat_alt unat_word_ariths)
  with assms show ?thesis by (metis mult_right_cancel word_unat_eq_iff zero_neq_numeral)
qed

lemma dev_write:
  "reliable s \<Longrightarrow> dev_block DEV_WRITE dev pos i s =
     (int BLOCK_SIZE, s\<lparr>io_count := Suc (io_count s), disk := (disk s)(dev := (disk s dev)(pos := b_data (buf s i)))\<rparr>)"
  by (simp add: dev_block_def transfer_def reliable_def Let_def)

lemma dev_read:
  "reliable s \<Longrightarrow> dev_block DEV_READ dev pos i s =
     (int BLOCK_SIZE, upd_buf i (b_data_update (\<lambda>_. disk s dev pos)) (s\<lparr>io_count := Suc (io_count s)\<rparr>))"
  by (simp add: dev_block_def transfer_def reliable_def Let_def)

text \<open>What writing the buffers of a list does to the devices.\<close>

definition put_data :: "u16 \<Rightarrow> (nat \<Rightarrow> buf_t) \<Rightarrow> nat \<Rightarrow> (u16 \<Rightarrow> u32 \<Rightarrow> block) \<Rightarrow> u16 \<Rightarrow> u32 \<Rightarrow> block" where
  "put_data dev f i D = D(dev := (D dev)(pos_of (b_blocknr (f i)) := b_data (f i)))"

definition clean_bufs :: "nat set \<Rightarrow> (nat \<Rightarrow> buf_t) \<Rightarrow> nat \<Rightarrow> buf_t" where
  "clean_bufs A f = (\<lambda>i. if i \<in> A then (f i)\<lparr>b_dirt := CLEAN\<rparr> else f i)"

lemma put_data_clean [simp]: "put_data dev (clean_bufs A f) = put_data dev f"
  by (intro ext) (simp add: put_data_def clean_bufs_def)

lemma clean_bufs_clean: "clean_bufs A (clean_bufs B f) = clean_bufs (A \<union> B) f"
  by (rule ext) (simp add: clean_bufs_def)

lemma dev_vector_write:
  assumes "reliable s" and "buf s = buf t"
  shows "dev_vector dev (map (io_entry WRITING t) q) s =
    (map (\<lambda>i. (io_entry WRITING t i)\<lparr>io_nbytes := 0\<rparr>) q,
     s\<lparr>io_count := io_count s + length q, disk := fold (put_data dev (buf s)) q (disk s)\<rparr>)"
  using assms
proof (induction q arbitrary: s)
  case (Cons i q)
  let ?s = "s\<lparr>io_count := Suc (io_count s), disk := put_data dev (buf s) i (disk s)\<rparr>"
  have "dev_block DEV_WRITE dev (pos_of (b_blocknr (buf t i))) i s = (int BLOCK_SIZE, ?s)"
    using Cons.prems by (simp add: dev_write put_data_def)
  moreover have "reliable ?s" "buf ?s = buf t" using Cons.prems by (simp_all add: reliable_def)
  ultimately show ?case using Cons.IH[of ?s] by (simp add: io_entry_def Let_def)
qed simp

lemma harvest_write:
  "fold (harvest dev WRITING) (zip q (map (\<lambda>i. (io_entry WRITING t i)\<lparr>io_nbytes := 0\<rparr>) q)) s =
     s\<lparr>buf := clean_bufs (set q) (buf s)\<rparr>"
proof (induction q arbitrary: s)
  case (Cons i q)
  have "harvest dev WRITING (i, (io_entry WRITING t i)\<lparr>io_nbytes := 0\<rparr>) s = s\<lparr>buf := clean_bufs {i} (buf s)\<rparr>"
    by (simp add: harvest_def Let_def clean_bufs_def fun_upd_def) (rule arg_cong[of _ _ "\<lambda>b. s\<lparr>buf := b\<rparr>"], auto)
  then show ?case using Cons.IH[of "s\<lparr>buf := clean_bufs {i} (buf s)\<rparr>"] by (simp add: clean_bufs_clean Un_commute)
qed (simp add: clean_bufs_def)

lemma scattered_write:
  assumes "reliable s"
  shows "scattered_io dev WRITING q s =
    s\<lparr>buf := clean_bufs (set q) (buf s), disk := fold (put_data dev (buf s)) q (disk s), io_count := io_count s + length q\<rparr>"
  using assms
proof (induction "length q" arbitrary: q s rule: less_induct)
  case less
  show ?case
  proof (cases "q = []")
    case True
    then show ?thesis by (subst scattered_io.simps) (simp add: clean_bufs_def)
  next
    case False
    let ?q = "take 64 q" and ?r = "drop 64 q"
    let ?s = "s\<lparr>io_count := io_count s + length ?q, disk := fold (put_data dev (buf s)) ?q (disk s),
      buf := clean_bufs (set ?q) (buf s)\<rparr>"
    have "scattered_io dev WRITING q s = scattered_io dev WRITING ?r ?s"
      using False dev_vector_write[OF less.prems refl, of dev ?q]
      by (subst scattered_io.simps) (simp add: harvest_write Let_def)
    also have "\<dots> = ?s\<lparr>buf := clean_bufs (set ?r) (buf ?s), disk := fold (put_data dev (buf ?s)) ?r (disk ?s),
        io_count := io_count ?s + length ?r\<rparr>"
      by (rule less.hyps) (use False less.prems in \<open>simp_all add: reliable_def\<close>)
    also have "\<dots> = s\<lparr>buf := clean_bufs (set ?r \<union> set ?q) (buf s), disk := fold (put_data dev (buf s)) (?q @ ?r) (disk s),
        io_count := io_count s + length q\<rparr>"
      by (simp add: clean_bufs_clean del: append_take_drop_id)
    also have "set ?r \<union> set ?q = set q" by (metis Un_commute append_take_drop_id set_append)
    finally show ?thesis by (simp only: append_take_drop_id)
  qed
qed

lemma fold_put_other:
  "d \<noteq> dev \<or> p \<notin> (\<lambda>i. pos_of (b_blocknr (f i))) ` set q \<Longrightarrow> fold (put_data dev f) q D d p = D d p"
  by (induction q arbitrary: D) (auto simp: put_data_def)

lemma fold_put_same:
  assumes "i \<in> set q" and "\<And>j. j \<in> set q \<Longrightarrow> pos_of (b_blocknr (f j)) = pos_of (b_blocknr (f i)) \<Longrightarrow> j = i"
  shows "fold (put_data dev f) q D dev (pos_of (b_blocknr (f i))) = b_data (f i)"
  using assms
proof (induction q arbitrary: D)
  case (Cons j q)
  show ?case
  proof (cases "i \<in> set q")
    case True
    then show ?thesis using Cons by simp
  next
    case False
    then have "j = i" using Cons.prems(1) by simp
    moreover have "pos_of (b_blocknr (f i)) \<notin> (\<lambda>i. pos_of (b_blocknr (f i))) ` set q"
      using False Cons.prems(2) by fastforce
    ultimately show ?thesis by (simp add: fold_put_other) (simp add: put_data_def)
  qed
qed simp

subsection \<open>The contents of the file system\<close>

text \<open>
  A block is found in the buffer that bears its name, else on its device. Buffers of \<open>K\<close> are being
  recycled and do not count.
\<close>

abbreviation named :: "fs \<Rightarrow> nat \<Rightarrow> u16 \<Rightarrow> u32 \<Rightarrow> bool" where
  "named s i d b \<equiv> b_dev (buf s i) = d \<and> b_blocknr (buf s i) = b"

definition holder :: "nat set \<Rightarrow> fs \<Rightarrow> u16 \<Rightarrow> u32 \<Rightarrow> nat option" where
  "holder K s d b = List.find (\<lambda>i. i \<notin> K \<and> named s i d b) [0..<NR_BUFS]"

definition content :: "nat set \<Rightarrow> fs \<Rightarrow> u16 \<Rightarrow> u32 \<Rightarrow> block" where
  "content K s d b = (case holder K s d b of Some i \<Rightarrow> b_data (buf s i) | None \<Rightarrow> disk s d (pos_of b))"

definition unique_names :: "nat set \<Rightarrow> fs \<Rightarrow> bool" where
  "unique_names K s \<longleftrightarrow>
     (\<forall>i j. i < NR_BUFS \<and> j < NR_BUFS \<and> i \<notin> K \<and> j \<notin> K \<and> b_dev (buf s i) \<noteq> NO_DEV
        \<and> named s j (b_dev (buf s i)) (b_blocknr (buf s i)) \<longrightarrow> i = j)"

lemma unique_namesD:
  assumes "unique_names K s" and "d \<noteq> NO_DEV" and "i < NR_BUFS" "j < NR_BUFS" "i \<notin> K" "j \<notin> K"
    and "named s i d b" "named s j d b"
  shows "i = j"
  using assms unfolding unique_names_def by simp

definition small_blocks :: "nat set \<Rightarrow> fs \<Rightarrow> bool" where
  "small_blocks K s \<longleftrightarrow> (\<forall>i<NR_BUFS. i \<notin> K \<longrightarrow> b_blocknr (buf s i) < max_block)"

text \<open>A clean buffer holds what is on its device, unless it was acquired to be overwritten (\<open>X\<close>).\<close>

definition synced :: "nat set \<Rightarrow> nat set \<Rightarrow> fs \<Rightarrow> bool" where
  "synced K X s \<longleftrightarrow>
     (\<forall>i<NR_BUFS. i \<notin> K \<and> i \<notin> X \<and> b_dev (buf s i) \<noteq> NO_DEV \<and> b_dirt (buf s i) = CLEAN \<longrightarrow>
        b_data (buf s i) = disk s (b_dev (buf s i)) (pos_of (b_blocknr (buf s i))))"

lemma find_upt_None: "List.find P [0..<n] = None \<longleftrightarrow> (\<forall>i<n. \<not> P i)"
  by (auto simp: find_None_iff)

lemma holder_None: "holder K s d b = None \<longleftrightarrow> (\<forall>i<NR_BUFS. i \<notin> K \<longrightarrow> \<not> named s i d b)"
  unfolding holder_def find_upt_None by blast

lemma holder_SomeD: "holder K s d b = Some i \<Longrightarrow> i < NR_BUFS \<and> i \<notin> K \<and> named s i d b"
  by (auto simp: holder_def find_Some_iff simp del: upt_Suc)

lemma holder_SomeI:
  assumes "unique_names K s" and "d \<noteq> NO_DEV" and "i < NR_BUFS" and "i \<notin> K" and "named s i d b"
  shows "holder K s d b = Some i"
proof (cases "holder K s d b")
  case None
  then show ?thesis using assms by (auto simp: holder_None)
next
  case (Some j)
  then show ?thesis using holder_SomeD[OF Some] unique_namesD[OF assms(1,2), of j i] assms(3-5) by blast
qed

lemma holder_cong:
  "(\<And>i. i < NR_BUFS \<Longrightarrow> (i \<notin> K \<and> named s i d b) = (i \<notin> K' \<and> named s' i d b)) \<Longrightarrow> holder K s d b = holder K' s' d b"
  unfolding holder_def by (rule find_cong) auto

subsection \<open>The second level as a queue, newest copy first\<close>

definition order2 :: "fs \<Rightarrow> nat list" where
  "order2 s = rev [0..<unat (buf2_idx s)] @ rev [unat (buf2_idx s)..<unat (nr_buf2 s)]"

definition newest :: "fs \<Rightarrow> u16 \<Rightarrow> u32 \<Rightarrow> nat option" where
  "newest s d b = List.find (\<lambda>j. b2_blocknr (buf2 s j) = b \<and> b2_dev (buf2 s j) = d) (order2 s)"

text \<open>The copies whose hash is \<open>h\<close>.\<close>

definition copies :: "(nat \<Rightarrow> buf2_t) \<Rightarrow> nat \<Rightarrow> nat \<Rightarrow> nat set" where
  "copies f n h = {j. j < n \<and> b2_dev (f j) \<noteq> NO_DEV \<and> hash2 (b2_blocknr (f j)) = h}"

definition cache2_shape :: "fs \<Rightarrow> bool" where
  "cache2_shape s \<longleftrightarrow>
     nr_buf2 s \<le> of_nat MAX_BUF2 \<and> buf2_idx s < nr_buf2 s
     \<and> (\<forall>h<MAX_BUF2. b2_count (buf2 s h) = of_nat (card (copies (buf2 s) (unat (nr_buf2 s)) h)))"

definition cache2_ok :: "nat set \<Rightarrow> fs \<Rightarrow> bool" where
  "cache2_ok K s \<longleftrightarrow>
     nr_buf2 s = 0
     \<or> (cache2_shape s \<and> (\<forall>i<NR_BUFS. i \<notin> K \<longrightarrow> b_dev (buf s i) \<noteq> DEV_RAM)
        \<and> (\<forall>d b j. d \<noteq> NO_DEV \<and> b < max_block \<and> newest s d b = Some j \<and> holder K s d b = None \<longrightarrow>
             d \<noteq> DEV_RAM \<and> disk s DEV_RAM (pos_of (of_nat j)) = disk s d (pos_of b)))"

text \<open>Everything about names and data.\<close>

definition fs_core :: "nat set \<Rightarrow> nat set \<Rightarrow> fs \<Rightarrow> bool" where
  "fs_core K X s \<longleftrightarrow> unique_names K s \<and> small_blocks K s \<and> synced K X s \<and> cache2_ok K s"

definition same_view :: "nat set \<Rightarrow> fs \<Rightarrow> fs \<Rightarrow> bool" where
  "same_view K s s' \<longleftrightarrow>
     disk s' = disk s \<and> buf2 s' = buf2 s \<and> nr_buf2 s' = nr_buf2 s \<and> buf2_idx s' = buf2_idx s
     \<and> io_reply s' = io_reply s
     \<and> (\<forall>i. i \<notin> K \<longrightarrow> b_dev (buf s' i) = b_dev (buf s i) \<and> b_blocknr (buf s' i) = b_blocknr (buf s i)
          \<and> b_data (buf s' i) = b_data (buf s i) \<and> b_dirt (buf s' i) = b_dirt (buf s i))"

lemma same_view_holder: "same_view K s s' \<Longrightarrow> holder K s' d b = holder K s d b"
  by (rule holder_cong) (auto simp: same_view_def)

lemma same_view_content:
  assumes "same_view K s s'"
  shows "content K s' d b = content K s d b"
proof (cases "holder K s d b")
  case (Some i)
  then have "i \<notin> K" by (auto dest: holder_SomeD)
  then show ?thesis using assms Some same_view_holder[OF assms, of d b] by (simp add: content_def same_view_def)
qed (use assms same_view_holder[OF assms, of d b] in \<open>simp add: content_def same_view_def\<close>)

lemma same_view_core:
  assumes "same_view K s s'"
  shows "fs_core K X s' = fs_core K X s"
proof -
  note v = assms[unfolded same_view_def]
  have "unique_names K s' = unique_names K s" using v unfolding unique_names_def by (simp cong: conj_cong)
  moreover have "small_blocks K s' = small_blocks K s" using v unfolding small_blocks_def by metis
  moreover have "synced K X s' = synced K X s" using v unfolding synced_def by metis
  moreover have "cache2_shape s' = cache2_shape s" using v by (simp add: cache2_shape_def)
  then have "cache2_ok K s' = cache2_ok K s"
    using v same_view_holder[OF assms] unfolding cache2_ok_def newest_def order2_def by auto
  ultimately show ?thesis by (simp add: fs_core_def)
qed

lemma same_view_mono: "same_view K s s' \<Longrightarrow> K \<subseteq> K' \<Longrightarrow> same_view K' s s'"
  by (auto simp: same_view_def)

lemma same_view_trans: "same_view K s s' \<Longrightarrow> same_view K s' s'' \<Longrightarrow> same_view K s s''"
  by (auto simp: same_view_def)

lemma lru_step_view: "lru_step s s' \<Longrightarrow> same_view K s s'"
  by (auto simp: lru_step_def same_view_def)

lemma hash_step_view: "hash_step s s' \<Longrightarrow> same_view K s s'"
  by (auto simp: hash_step_def same_view_def)

lemma enter_hash_view: "same_view {k} s (enter_hash k dev block s)"
  by (simp add: enter_hash_eq same_view_def)

lemma same_view_reliable: "same_view K s s' \<Longrightarrow> reliable s \<Longrightarrow> reliable s'"
  by (simp add: same_view_def reliable_def)

subsection \<open>The second level: search and store\<close>

lemma search2_high:
  assumes "unat (buf2_idx s) < b" and "b \<le> 1024" and "b - unat (buf2_idx s) \<le> n"
  shows "search2 n (of_nat b) blocknr dev s = Inr (map_option of_nat
    (List.find (\<lambda>j. b2_blocknr (buf2 s j) = blocknr \<and> b2_dev (buf2 s j) = dev) (rev [unat (buf2_idx s)..<b])))"
  using assms
proof (induction b arbitrary: n)
  case (Suc b)
  let ?i = "unat (buf2_idx s)"
  obtain m where m: "n = Suc m" using Suc.prems by (cases n) auto
  have b: "unat (of_nat b :: u32) = b" "of_nat (Suc b) \<noteq> (0 :: u32)" "(of_nat (Suc b) :: u32) - 1 = of_nat b"
    using Suc.prems(2) by (simp_all add: unat_of_nat word_unat_eq_iff unat_word_ariths)
  have eq: "of_nat b = buf2_idx s \<longleftrightarrow> b = ?i" using b(1) by (metis word_unat_eq_iff)
  have rev: "rev [?i..<Suc b] = b # rev [?i..<b]" using Suc.prems(1) by simp
  show ?case
  proof (cases "b = ?i")
    case True
    then show ?thesis using Suc.prems(2) b eq unfolding m rev by (simp add: Let_def)
  next
    case False
    then have "search2 m (of_nat b) blocknr dev s = Inr (map_option of_nat
      (List.find (\<lambda>j. b2_blocknr (buf2 s j) = blocknr \<and> b2_dev (buf2 s j) = dev) (rev [?i..<b])))"
      using Suc.prems m by (intro Suc.IH) simp_all
    then show ?thesis using Suc.prems(2) b eq False unfolding m rev by (simp add: Let_def)
  qed
qed simp

lemma search2_low:
  assumes "b \<le> unat (buf2_idx s)" and "cache2_shape s" and "b + (unat (nr_buf2 s) - unat (buf2_idx s)) \<le> n"
  shows "search2 n (of_nat b) blocknr dev s = Inr (map_option of_nat
    (List.find (\<lambda>j. b2_blocknr (buf2 s j) = blocknr \<and> b2_dev (buf2 s j) = dev)
       (rev [0..<b] @ rev [unat (buf2_idx s)..<unat (nr_buf2 s)])))"
  using assms
proof (induction b arbitrary: n)
  case 0
  let ?i = "unat (buf2_idx s)" and ?n = "unat (nr_buf2 s)"
  have lt: "?i < ?n" "?n \<le> 1024" using 0(2) by (simp_all add: cache2_shape_def word_less_nat_alt word_le_nat_alt)
  obtain m where "n = Suc m" using 0(3) lt by (cases n) auto
  then have "search2 n 0 blocknr dev s = search2 n (of_nat ?n) blocknr dev s" using lt by (auto simp: Let_def)
  then show ?case using search2_high[OF lt, of n] 0(3) by simp
next
  case (Suc b)
  let ?i = "unat (buf2_idx s)"
  obtain m where m: "n = Suc m" using Suc.prems(3) by (cases n) auto
  have lt: "?i < unat (nr_buf2 s)" "unat (nr_buf2 s) \<le> 1024"
    using Suc.prems(2) by (simp_all add: cache2_shape_def word_less_nat_alt word_le_nat_alt)
  have b: "unat (of_nat b :: u32) = b" "of_nat (Suc b) \<noteq> (0 :: u32)" "(of_nat (Suc b) :: u32) - 1 = of_nat b"
    using Suc.prems(1) lt by (simp_all add: unat_of_nat word_unat_eq_iff unat_word_ariths)
  have neq: "of_nat b \<noteq> buf2_idx s" using b(1) Suc.prems(1) by auto
  have "search2 m (of_nat b) blocknr dev s = Inr (map_option of_nat
    (List.find (\<lambda>j. b2_blocknr (buf2 s j) = blocknr \<and> b2_dev (buf2 s j) = dev)
       (rev [0..<b] @ rev [?i..<unat (nr_buf2 s)])))"
    using Suc.prems m by (intro Suc.IH) simp_all
  then show ?case using Suc.prems(1) b neq lt unfolding m by (simp add: Let_def)
qed

lemma search2_newest:
  assumes "cache2_shape s"
  shows "search2 cache2_fuel (buf2_idx s) blocknr dev s = Inr (map_option of_nat (newest s dev blocknr))"
proof -
  have "unat (nr_buf2 s) \<le> 1024" "unat (buf2_idx s) < unat (nr_buf2 s)"
    using assms by (simp_all add: cache2_shape_def word_le_nat_alt word_less_nat_alt)
  then show ?thesis using search2_low[OF order_refl assms, of 1025 blocknr dev] by (simp add: newest_def order2_def)
qed

lemma newest_SomeD:
  assumes "cache2_shape s" and "newest s d b = Some j"
  shows "j < unat (nr_buf2 s)" and "j < 1024" and "(of_nat j :: u32) < max_block"
    and "b2_blocknr (buf2 s j) = b \<and> b2_dev (buf2 s j) = d"
proof -
  have n: "unat (nr_buf2 s) \<le> 1024" "unat (buf2_idx s) < unat (nr_buf2 s)"
    using assms(1) by (simp_all add: cache2_shape_def word_le_nat_alt word_less_nat_alt)
  have "j \<in> set (order2 s) \<and> b2_blocknr (buf2 s j) = b \<and> b2_dev (buf2 s j) = d"
    using assms(2) unfolding newest_def by (auto simp: find_Some_iff)
  then show "j < unat (nr_buf2 s)" "b2_blocknr (buf2 s j) = b \<and> b2_dev (buf2 s j) = d"
    using n by (auto simp: order2_def)
  then show "j < 1024" using n by simp
  then show "(of_nat j :: u32) < max_block" by (simp add: word_less_nat_alt unat_of_nat)
qed

lemma hash2_less [simp]: "hash2 b < 1024"
proof -
  have "b AND 1023 = take_bit 10 b" by (simp add: take_bit_eq_mask mask_eq_exp_minus_1)
  then have "unat (b AND 1023) = take_bit 10 (unat b)" by (simp add: unsigned_take_bit_eq)
  then show ?thesis using take_bit_nat_less_exp[of 10 "unat b"] by (simp add: hash2_def)
qed

lemma copies_finite [simp]: "finite (copies f n h)"
  by (simp add: copies_def)

lemma no_copies:
  assumes "cache2_shape s" and "b2_count (buf2 s (hash2 b)) = 0" and "d \<noteq> NO_DEV"
  shows "newest s d b = None"
proof -
  let ?n = "unat (nr_buf2 s)"
  have n: "?n \<le> 1024" "unat (buf2_idx s) < ?n"
    using assms(1) by (simp_all add: cache2_shape_def word_le_nat_alt word_less_nat_alt)
  let ?c = "card (copies (buf2 s) ?n (hash2 b))"
  have "?c \<le> card {..<?n}" by (rule card_mono) (auto simp: copies_def)
  then have "unat (of_nat ?c :: u16) = ?c" using n by (simp add: unat_of_nat)
  then have "?c = 0" using assms(1,2) by (simp add: cache2_shape_def)
  then have "copies (buf2 s) ?n (hash2 b) = {}" by simp
  then show ?thesis using assms(3) n unfolding newest_def order2_def copies_def
    by (auto simp: find_None_iff dest: less_trans)
qed

text \<open>Storing a copy: the entry \<open>i\<close> becomes the newest and all others keep their order.\<close>

definition store2 :: "nat \<Rightarrow> u16 \<Rightarrow> u32 \<Rightarrow> (nat \<Rightarrow> buf2_t) \<Rightarrow> nat \<Rightarrow> buf2_t" where
  "store2 i d b f =
     (let f = (if b2_dev (f i) \<noteq> NO_DEV
               then f(hash2 (b2_blocknr (f i)) := b2_count_update (\<lambda>n. n - 1) (f (hash2 (b2_blocknr (f i)))))
               else f);
          f = f(i := (f i)\<lparr>b2_dev := d, b2_blocknr := b\<rparr>)
      in f(hash2 b := b2_count_update (\<lambda>n. n + 1) (f (hash2 b))))"

lemma store2_name:
  "b2_dev (store2 i d b f j) = (if j = i then d else b2_dev (f j))"
  "b2_blocknr (store2 i d b f j) = (if j = i then b else b2_blocknr (f j))"
  by (simp_all add: store2_def Let_def)

lemma store2_count:
  "b2_count (store2 i d b f h) = b2_count (f h)
     - (if b2_dev (f i) \<noteq> NO_DEV \<and> hash2 (b2_blocknr (f i)) = h then 1 else 0) + (if hash2 b = h then 1 else 0)"
  by (simp add: store2_def Let_def)

lemma card_copies_split:
  assumes "i < n"
  shows "card (copies f n h) = card (copies f n h - {i})
    + (if b2_dev (f i) \<noteq> NO_DEV \<and> hash2 (b2_blocknr (f i)) = h then 1 else 0)"
proof (cases "i \<in> copies f n h")
  case True
  then have "card (copies f n h) = Suc (card (copies f n h - {i}))" by (intro card.remove) simp_all
  then show ?thesis using True by (simp add: copies_def)
qed (use assms in \<open>auto simp: copies_def\<close>)

lemma store2_counts:
  assumes "\<forall>h<1024. b2_count (f h) = of_nat (card (copies f n h))" and "i < n" and "d \<noteq> NO_DEV" and "h < 1024"
  shows "b2_count (store2 i d b f h) = of_nat (card (copies (store2 i d b f) n h))"
proof -
  have "copies (store2 i d b f) n h - {i} = copies f n h - {i}" by (auto simp: copies_def store2_name)
  then show ?thesis
    using assms(1,4) card_copies_split[OF assms(2), of "store2 i d b f" h] card_copies_split[OF assms(2), of f h] assms(3)
    by (simp add: store2_count store2_name)
qed

lemma put_block2_eq:
  assumes "reliable s" and "cache2_shape s"
  shows "put_block2 k s = Inr (s\<lparr>buf2_idx := (if buf2_idx s + 1 = nr_buf2 s then 0 else buf2_idx s + 1),
     io_count := Suc (io_count s),
     disk := (disk s)(DEV_RAM := (disk s DEV_RAM)(pos_of (buf2_idx s) := b_data (buf s k))),
     buf2 := store2 (unat (buf2_idx s)) (b_dev (buf s k)) (b_blocknr (buf s k)) (buf2 s)\<rparr>)"
proof -
  have "nr_buf2 s \<noteq> 0" "unat (buf2_idx s) < 1024"
    using assms(2) by (auto simp: cache2_shape_def word_le_nat_alt word_less_nat_alt)
  define t where "t = s\<lparr>buf2_idx := (if buf2_idx s + 1 = nr_buf2 s then 0 else buf2_idx s + 1)\<rparr>"
  have t: "reliable t" "buf2 t = buf2 s" "buf t = buf s" "disk t = disk s" "io_count t = io_count s"
    using assms(1) by (simp_all add: t_def reliable_def)
  have "put_block2 k s = Inr (t\<lparr>io_count := Suc (io_count t),
      disk := (disk t)(DEV_RAM := (disk t DEV_RAM)(pos_of (buf2_idx s) := b_data (buf t k))),
      buf2 := store2 (unat (buf2_idx s)) (b_dev (buf t k)) (b_blocknr (buf t k)) (buf2 t)\<rparr>)"
  proof -
    have "(let s = s\<lparr>buf2_idx := buf2_idx s + 1\<rparr> in if buf2_idx s = nr_buf2 s then s\<lparr>buf2_idx := 0\<rparr> else s) = t"
      by (simp add: t_def)
    then show ?thesis using \<open>nr_buf2 s \<noteq> 0\<close> \<open>unat (buf2_idx s) < 1024\<close> dev_write[OF t(1)]
      by (cases "b2_dev (buf2 s (unat (buf2_idx s))) = 0") (simp_all add: put_block2_def Let_def store2_def t(2))
  qed
  then show ?thesis unfolding t by (simp add: t_def)
qed

subsection \<open>Flushing\<close>

text \<open>A step that moves data to the devices and marks buffers as clean.\<close>

definition io_step :: "fs \<Rightarrow> fs \<Rightarrow> bool" where
  "io_step s s' \<longleftrightarrow>
     (\<exists>A D n f x. s' = s\<lparr>buf := clean_bufs A (buf s), disk := D, io_count := n, buf2 := f, buf2_idx := x\<rparr>)"

lemma clean_bufs_empty [simp]: "clean_bufs {} f = f"
  by (simp add: clean_bufs_def)

lemma clean_bufs_sel [simp]:
  "b_dev (clean_bufs A f i) = b_dev (f i)" "b_blocknr (clean_bufs A f i) = b_blocknr (f i)"
  "b_data (clean_bufs A f i) = b_data (f i)" "b_count (clean_bufs A f i) = b_count (f i)"
  "b_hash (clean_bufs A f i) = b_hash (f i)" "b_next (clean_bufs A f i) = b_next (f i)"
  "b_prev (clean_bufs A f i) = b_prev (f i)" "b_dirt (clean_bufs A f i) \<longleftrightarrow> b_dirt (f i) \<and> i \<notin> A"
  by (simp_all add: clean_bufs_def)

lemma io_step_refl [simp]: "io_step s s"
  unfolding io_step_def by (intro exI[of _ "{}"] exI[of _ "disk s"] exI[of _ "io_count s"] exI[of _ "buf2 s"]
      exI[of _ "buf2_idx s"]) simp

lemma io_step_trans: "io_step s s' \<Longrightarrow> io_step s' s'' \<Longrightarrow> io_step s s''"
  unfolding io_step_def by (force simp: clean_bufs_clean)

lemma io_step_frame:
  assumes "io_step s s'"
  shows "reliable s' = reliable s" "nr_buf2 s' = nr_buf2 s" "front s' = front s" "rear s' = rear s"
    "buf_hash s' = buf_hash s" "b_dev (buf s' i) = b_dev (buf s i)" "b_blocknr (buf s' i) = b_blocknr (buf s i)"
    "b_data (buf s' i) = b_data (buf s i)" "b_count (buf s' i) = b_count (buf s i)"
    "b_hash (buf s' i) = b_hash (buf s i)" "b_next (buf s' i) = b_next (buf s i)" "b_prev (buf s' i) = b_prev (buf s i)"
  using assms by (auto simp: io_step_def reliable_def)

lemma io_step_holder: "io_step s s' \<Longrightarrow> holder K s' d b = holder K s d b"
  by (rule holder_cong) (simp add: io_step_frame)

lemma flushall_eq:
  assumes "reliable s" and "unique_names {} s" and "small_blocks {} s" and "dev \<noteq> NO_DEV"
    and A: "A = {i. i < NR_BUFS \<and> b_dirt (buf s i) \<and> b_dev (buf s i) = dev}"
  shows "\<exists>D n. flushall dev s = Inr (s\<lparr>buf := clean_bufs A (buf s), disk := D, io_count := n\<rparr>)
     \<and> (\<forall>i\<in>A. D dev (pos_of (b_blocknr (buf s i))) = b_data (buf s i))
     \<and> (\<forall>d b. b < max_block \<longrightarrow> d \<noteq> dev \<or> b \<notin> (\<lambda>i. b_blocknr (buf s i)) ` A \<longrightarrow> D d (pos_of b) = disk s d (pos_of b))"
proof -
  let ?q = "filter (\<lambda>i. b_dirt (buf s i) = DIRTY \<and> b_dev (buf s i) = dev) [0..<80]"
  have setq: "set ?q = A" by (auto simp: A)
  have "length ?q \<le> 80" using length_filter_le[of _ "[0..<80]"] by simp
  from shell_sort_ok[OF this, of "\<lambda>i. b_blocknr (buf s i)"] obtain r where
    r: "shell_sort sort_fuel (first_gap 1 (length ?q)) (\<lambda>i. b_blocknr (buf s i)) ?q = Inr r" "mset r = mset ?q"
    by blast
  have setr: "set r = A" using r(2) setq by (metis mset_eq_setD)
  let ?D = "fold (put_data dev (buf s)) r (disk s)"
  have "flushall dev s = Inr (s\<lparr>buf := clean_bufs A (buf s), disk := ?D, io_count := io_count s + length r\<rparr>)"
    using r(1) scattered_write[OF assms(1), of dev r] by (simp add: flushall_def rw_scattered_def setr del: upt_Suc)
  moreover have "?D dev (pos_of (b_blocknr (buf s i))) = b_data (buf s i)" if "i \<in> A" for i
  proof (rule fold_put_same)
    show "j = i" if "j \<in> set r" "pos_of (b_blocknr (buf s j)) = pos_of (b_blocknr (buf s i))" for j
    proof -
      have "j \<in> A" using that setr by simp
      then have "b_blocknr (buf s j) = b_blocknr (buf s i)"
        using pos_inj[OF _ _ that(2)] \<open>i \<in> A\<close> assms(3) by (auto simp: small_blocks_def A)
      then show ?thesis using \<open>i \<in> A\<close> \<open>j \<in> A\<close> assms(2,4) by (auto simp: unique_names_def A)
    qed
  qed (use that setr in simp)
  moreover have "?D d (pos_of b) = disk s d (pos_of b)"
    if "b < max_block" "d \<noteq> dev \<or> b \<notin> (\<lambda>i. b_blocknr (buf s i)) ` A" for d b
  proof (rule fold_put_other, rule disj_forward[OF that(2)])
    show "pos_of b \<notin> (\<lambda>i. pos_of (b_blocknr (buf s i))) ` set r" if "b \<notin> (\<lambda>i. b_blocknr (buf s i)) ` A"
    proof
      assume "pos_of b \<in> (\<lambda>i. pos_of (b_blocknr (buf s i))) ` set r"
      then obtain i where i: "i \<in> A" "pos_of b = pos_of (b_blocknr (buf s i))" using setr by auto
      then have "b = b_blocknr (buf s i)"
        using pos_inj[OF \<open>b < max_block\<close> _ i(2)] assms(3) by (auto simp: small_blocks_def A)
      then show False using that i(1) by blast
    qed
  qed
  ultimately show ?thesis by blast
qed

text \<open>Writing any buffers of a device and marking them as clean keeps all contents.\<close>

lemma write_core:
  assumes core: "fs_core {} X s" and "dev \<noteq> NO_DEV" and A: "A \<subseteq> {i. i < NR_BUFS \<and> b_dev (buf s i) = dev}"
    and DA: "\<forall>i\<in>A. D dev (pos_of (b_blocknr (buf s i))) = b_data (buf s i)"
      "\<forall>d b. b < max_block \<longrightarrow> d \<noteq> dev \<or> b \<notin> (\<lambda>i. b_blocknr (buf s i)) ` A \<longrightarrow> D d (pos_of b) = disk s d (pos_of b)"
    and s': "s' = s\<lparr>buf := clean_bufs A (buf s), disk := D, io_count := n\<rparr>"
  shows "io_step s s'" and "fs_core {} X s'"
    and "d \<noteq> NO_DEV \<Longrightarrow> b < max_block \<Longrightarrow> content {} s' d b = content {} s d b"
proof -
  note c = core[unfolded fs_core_def]
  note D = DA[rule_format]
  show st: "io_step s s'"
    unfolding io_step_def by (intro exI[of _ A] exI[of _ D] exI[of _ n] exI[of _ "buf2 s"] exI[of _ "buf2_idx s"]) (simp add: s')
  have un: "unique_names {} s'" "small_blocks {} s'"
    using c by (auto simp: unique_names_def small_blocks_def s')
  have free: "D d (pos_of b) = disk s d (pos_of b)" if "b < max_block" "holder {} s d b = None" for d b
    by (rule D(2)[OF that(1)]) (use that(2) A in \<open>auto simp: holder_None\<close>)
  have sy: "synced {} X s'"
    unfolding synced_def
  proof (intro allI impI)
    fix i assume i: "i < 80" "i \<notin> {} \<and> i \<notin> X \<and> b_dev (buf s' i) \<noteq> 0 \<and> b_dirt (buf s' i) = CLEAN"
    show "b_data (buf s' i) = disk s' (b_dev (buf s' i)) (pos_of (b_blocknr (buf s' i)))"
    proof (cases "i \<in> A")
      case True
      then show ?thesis using D(1)[OF True] A by (auto simp: s')
    next
      case False
      then have "b_data (buf s i) = disk s (b_dev (buf s i)) (pos_of (b_blocknr (buf s i)))"
        using i c by (auto simp: synced_def s')
      moreover have "D (b_dev (buf s i)) (pos_of (b_blocknr (buf s i))) = disk s (b_dev (buf s i)) (pos_of (b_blocknr (buf s i)))"
      proof (rule D(2))
        show "b_blocknr (buf s i) < max_block" using c i(1) by (simp add: small_blocks_def)
        show "b_dev (buf s i) \<noteq> dev \<or> b_blocknr (buf s i) \<notin> (\<lambda>i. b_blocknr (buf s i)) ` A"
          using unique_namesD[of "{}" s dev i _ "b_blocknr (buf s i)"] c i(1) False assms(2) A by fastforce
      qed
      ultimately show ?thesis by (simp add: s')
    qed
  qed
  have "cache2_ok {} s'"
  proof (cases "nr_buf2 s = 0")
    case False
    then have k: "cache2_shape s" "\<forall>i<80. b_dev (buf s i) \<noteq> DEV_RAM"
      "\<And>d b j. d \<noteq> 0 \<Longrightarrow> b < max_block \<Longrightarrow> newest s d b = Some j \<Longrightarrow> holder {} s d b = None \<Longrightarrow>
         d \<noteq> DEV_RAM \<and> disk s DEV_RAM (pos_of (of_nat j)) = disk s d (pos_of b)"
      using c by (auto simp: cache2_ok_def)
    have ram: "D DEV_RAM (pos_of b) = disk s DEV_RAM (pos_of b)" if "b < max_block" for b
      by (rule D(2)[OF that]) (use k(2) A in auto)
    have "cache2_shape s'" "\<And>d b. newest s' d b = newest s d b" "\<And>d b. holder {} s' d b = holder {} s d b"
      using k(1) io_step_holder[OF st] by (simp_all add: cache2_shape_def newest_def order2_def s')
    then show ?thesis using k ram newest_SomeD(3)[OF k(1)] free by (simp add: cache2_ok_def s') metis
  qed (simp add: cache2_ok_def s')
  then show "fs_core {} X s'" using un sy by (simp add: fs_core_def)
  show "content {} s' d b = content {} s d b" if "d \<noteq> 0" "b < max_block"
    using free[OF that(2), of d] by (simp add: content_def io_step_holder[OF st] split: option.split) (simp add: s')
qed

lemma flushall_core:
  assumes "reliable s" and core: "fs_core {} X s" and "dev \<noteq> NO_DEV"
  shows "\<exists>s'. flushall dev s = Inr s' \<and> io_step s s' \<and> fs_core {} X s'
     \<and> (\<forall>i<NR_BUFS. b_dev (buf s i) = dev \<longrightarrow> b_dirt (buf s' i) = CLEAN)
     \<and> (\<forall>d b. d \<noteq> NO_DEV \<longrightarrow> b < max_block \<longrightarrow> content {} s' d b = content {} s d b)"
proof -
  define A where "A = {i. i < NR_BUFS \<and> b_dirt (buf s i) \<and> b_dev (buf s i) = dev}"
  obtain D n where D: "flushall dev s = Inr (s\<lparr>buf := clean_bufs A (buf s), disk := D, io_count := n\<rparr>)"
    "\<forall>i\<in>A. D dev (pos_of (b_blocknr (buf s i))) = b_data (buf s i)"
    "\<forall>d b. b < max_block \<longrightarrow> d \<noteq> dev \<or> b \<notin> (\<lambda>i. b_blocknr (buf s i)) ` A \<longrightarrow> D d (pos_of b) = disk s d (pos_of b)"
    using flushall_eq[OF assms(1) _ _ assms(3) A_def] core unfolding fs_core_def by auto
  have "A \<subseteq> {i. i < NR_BUFS \<and> b_dev (buf s i) = dev}" by (auto simp: A_def)
  note w = write_core[OF core assms(3) this D(2,3) refl, where n = n]
  show ?thesis using D(1) w by (intro exI[of _ "s\<lparr>buf := clean_bufs A (buf s), disk := D, io_count := n\<rparr>"]) (auto simp: A_def)
qed

subsection \<open>Taking a buffer away from its block\<close>

lemma core_mono:
  assumes "fs_core {} X s" and "nr_buf2 s = 0 \<or> (\<forall>d b. d \<noteq> NO_DEV \<longrightarrow> holder {k} s d b = holder {} s d b)"
  shows "fs_core {k} X s"
proof -
  have "cache2_ok {k} s"
  proof (cases "nr_buf2 s = 0")
    case False
    then have h: "holder {k} s d b = holder {} s d b" if "d \<noteq> 0" for d b using assms(2) that by blast
    have "cache2_ok {} s" using assms(1) by (simp add: fs_core_def)
    then show ?thesis unfolding cache2_ok_def using h by (metis empty_iff)
  qed (simp add: cache2_ok_def)
  then show ?thesis using assms(1) by (auto simp: fs_core_def unique_names_def small_blocks_def synced_def)
qed

lemma content_mono:
  assumes "fs_core {} X s" and "d \<noteq> NO_DEV"
    and "named s k d b \<Longrightarrow> b_data (buf s k) = disk s d (pos_of b)" and "k < NR_BUFS"
  shows "content {k} s d b = content {} s d b"
proof (cases "named s k d b")
  case True
  have u: "unique_names {} s" using assms(1) by (simp add: fs_core_def)
  have "holder {} s d b = Some k" using True assms(2,4) by (intro holder_SomeI[OF u]) simp_all
  moreover have "holder {k} s d b = None"
    using unique_namesD[OF u assms(2) _ assms(4)] True unfolding holder_None by blast
  ultimately show ?thesis using assms(3)[OF True] by (simp add: content_def)
next
  case False
  then have "holder {k} s d b = holder {} s d b" by (intro holder_cong) auto
  then show ?thesis by (simp add: content_def)
qed

lemma order2_store:
  assumes "cache2_shape s"
    and "s' = s\<lparr>buf2_idx := (if buf2_idx s + 1 = nr_buf2 s then 0 else buf2_idx s + 1),
       io_count := n, disk := D, buf2 := f\<rparr>"
  shows "\<exists>A. order2 s = A @ [unat (buf2_idx s)] \<and> order2 s' = unat (buf2_idx s) # A
     \<and> unat (buf2_idx s) \<notin> set A" and "buf2_idx s' < nr_buf2 s'"
proof -
  let ?i = "unat (buf2_idx s)" and ?n = "unat (nr_buf2 s)"
  have lt: "?i < ?n" "?n \<le> 1024"
    using assms(1) by (simp_all add: cache2_shape_def word_le_nat_alt word_less_nat_alt)
  have suc: "unat (buf2_idx s + 1) = Suc ?i" using lt by (simp add: unat_word_ariths)
  have last: "buf2_idx s + 1 = nr_buf2 s \<longleftrightarrow> Suc ?i = ?n" using suc by (metis word_unat_eq_iff)
  let ?A = "rev [0..<?i] @ rev [Suc ?i..<?n]"
  have "order2 s = ?A @ [?i]" using lt(1) by (simp add: order2_def upt_rec[of ?i ?n])
  moreover have "order2 s' = ?i # ?A"
  proof (cases "Suc ?i = ?n")
    case True
    then have "[0..<?n] = [0..<?i] @ [?i]" by (metis upt_Suc zero_le)
    then show ?thesis using True last by (simp add: order2_def assms(2))
  next
    case False
    then show ?thesis using suc last by (simp add: order2_def assms(2))
  qed
  moreover have "?i \<notin> set ?A" by simp
  ultimately show "\<exists>A. order2 s = A @ [?i] \<and> order2 s' = ?i # A \<and> ?i \<notin> set A" by blast
  show "buf2_idx s' < nr_buf2 s'"
  proof (cases "Suc ?i = ?n")
    case True
    then show ?thesis using last lt by (simp add: assms(2) word_less_nat_alt)
  next
    case False
    then show ?thesis using last lt suc by (simp add: assms(2) word_less_nat_alt)
  qed
qed

text \<open>After a copy of buffer \<open>k\<close> went to the second level, the buffer can be recycled.\<close>

lemma put_block2_core:
  assumes "reliable s" and core: "fs_core {} X s" and k: "k < NR_BUFS" "b_dev (buf s k) \<noteq> NO_DEV"
    and sy: "b_data (buf s k) = disk s (b_dev (buf s k)) (pos_of (b_blocknr (buf s k)))"
  shows "\<exists>s'. put_block2 k s = Inr s' \<and> io_step s s' \<and> fs_core {k} X s'
     \<and> (\<forall>d b. d \<noteq> NO_DEV \<longrightarrow> nr_buf2 s = 0 \<or> d \<noteq> DEV_RAM \<longrightarrow> content {k} s' d b = content {} s d b)"
proof (cases "nr_buf2 s = 0")
  case True
  then have "put_block2 k s = Inr s" by (simp add: put_block2_def)
  moreover have "content {k} s d b = content {} s d b" if "d \<noteq> 0" for d b
    by (rule content_mono[OF core that]) (use sy k in auto)
  ultimately show ?thesis using core_mono[OF core, of k] True by auto
next
  case False
  note c = core[unfolded fs_core_def]
  have o: "cache2_shape s" "\<And>i. i < 80 \<Longrightarrow> b_dev (buf s i) \<noteq> DEV_RAM"
    "\<And>d b j. d \<noteq> 0 \<Longrightarrow> b < max_block \<Longrightarrow> newest s d b = Some j \<Longrightarrow> holder {} s d b = None \<Longrightarrow>
       d \<noteq> DEV_RAM \<and> disk s DEV_RAM (pos_of (of_nat j)) = disk s d (pos_of b)"
    using c False by (auto simp: cache2_ok_def)
  let ?i = "unat (buf2_idx s)"
  let ?d = "b_dev (buf s k)" and ?b = "b_blocknr (buf s k)"
  define s' where "s' = s\<lparr>buf2_idx := (if buf2_idx s + 1 = nr_buf2 s then 0 else buf2_idx s + 1),
     io_count := Suc (io_count s),
     disk := (disk s)(DEV_RAM := (disk s DEV_RAM)(pos_of (buf2_idx s) := b_data (buf s k))),
     buf2 := store2 ?i ?d ?b (buf2 s)\<rparr>"
  have put: "put_block2 k s = Inr s'" unfolding s'_def by (rule put_block2_eq[OF assms(1) o(1)])
  have st: "io_step s s'" unfolding io_step_def
    by (intro exI[of _ "{}"] exI[of _ "disk s'"] exI[of _ "io_count s'"] exI[of _ "buf2 s'"] exI[of _ "buf2_idx s'"])
      (simp add: s'_def)
  from order2_store[OF o(1) s'_def] obtain A where
    A: "order2 s = A @ [?i]" "order2 s' = ?i # A" "?i \<notin> set A" and idx: "buf2_idx s' < nr_buf2 s'"
    by blast
  have lt: "?i < unat (nr_buf2 s)" using o(1) by (simp add: cache2_shape_def word_less_nat_alt)
  have small: "buf2_idx s < max_block" "(of_nat ?i :: u32) = buf2_idx s"
    using o(1) by (auto simp: cache2_shape_def word_less_nat_alt word_le_nat_alt)
  have shape: "cache2_shape s'"
    using o(1) idx store2_counts[of "buf2 s" "unat (nr_buf2 s)" ?i ?d _ ?b] lt k(2)
    by (simp add: cache2_shape_def s'_def)
  have new: "newest s' d b = Some j \<longleftrightarrow> (if d = ?d \<and> b = ?b then j = ?i else
      List.find (\<lambda>j. b2_blocknr (buf2 s j) = b \<and> b2_dev (buf2 s j) = d) A = Some j)" for d b j
  proof -
    have "List.find (\<lambda>j. b2_blocknr (buf2 s' j) = b \<and> b2_dev (buf2 s' j) = d) A =
      List.find (\<lambda>j. b2_blocknr (buf2 s j) = b \<and> b2_dev (buf2 s j) = d) A"
      by (rule find_cong) (use A(3) in \<open>auto simp: s'_def store2_name\<close>)
    then show ?thesis unfolding newest_def A(2) by (auto simp: s'_def store2_name)
  qed
  have old: "newest s d b = Some j \<and> j \<noteq> ?i"
    if "List.find (\<lambda>j. b2_blocknr (buf2 s j) = b \<and> b2_dev (buf2 s j) = d) A = Some j" for d b j
  proof -
    have "j \<in> set A" using that by (auto simp: find_Some_iff)
    then show ?thesis using that A(3) unfolding newest_def A(1) by (auto simp: find_append)
  qed
  have ram: "disk s' DEV_RAM (pos_of (of_nat j)) = disk s DEV_RAM (pos_of (of_nat j))"
    if "newest s d b = Some j" "j \<noteq> ?i" for d b j
  proof -
    have "unat (of_nat j :: u32) = j" using newest_SomeD(2)[OF o(1) that(1)] by (simp add: unat_of_nat)
    then have "pos_of (of_nat j) \<noteq> pos_of (buf2_idx s)"
      using pos_inj[OF newest_SomeD(3)[OF o(1) that(1)] small(1)] that(2) by metis
    then show ?thesis by (simp add: s'_def)
  qed
  have other: "disk s' d p = disk s d p" if "d \<noteq> DEV_RAM" for d p using that by (simp add: s'_def)
  have hold: "holder {k} s' d b = holder {k} s d b" for d b by (rule io_step_holder[OF st])
  have "cache2_ok {k} s'"
    unfolding cache2_ok_def
  proof (intro disjI2 conjI allI impI, goal_cases)
    case 1
    show ?case by (rule shape)
  next
    case (2 i)
    then show ?case using o(2) by (simp add: s'_def)
  next
    case (3 d b j)
    show ?case
    proof (cases "d = ?d \<and> b = ?b")
      case True
      then show ?thesis using o(2) k by simp
    next
      case False
      then have h: "holder {} s d b = None" using 3 hold by (simp add: holder_None) blast
      have "newest s d b = Some j" using 3 new[of d b j] old[of b d j] False by (simp split: if_splits)
      then show ?thesis using o(3) h 3 by blast
    qed
  next
    case (4 d b j)
    show ?case
    proof (cases "d = ?d \<and> b = ?b")
      case True
      then have "j = ?i" using 4 new[of d b j] by simp
      then have "disk s' DEV_RAM (pos_of (of_nat j)) = b_data (buf s k)" by (simp add: s'_def small(2))
      then show ?thesis using True sy other[of d] o(2)[OF k(1)] by simp
    next
      case False
      then have h: "holder {} s d b = None" using 4 hold by (simp add: holder_None) blast
      have n: "newest s d b = Some j" "j \<noteq> ?i" using 4 new[of d b j] old[of b d j] False by (simp_all split: if_splits)
      then have "d \<noteq> DEV_RAM \<and> disk s DEV_RAM (pos_of (of_nat j)) = disk s d (pos_of b)" using o(3) h 4 by blast
      then show ?thesis using ram[OF n] other[of d] by simp
    qed
  qed
  moreover have "unique_names {k} s'" "small_blocks {k} s'"
    using c by (auto simp: unique_names_def small_blocks_def s'_def)
  moreover have "synced {k} X s'" using c o(2) by (auto simp: synced_def s'_def)
  moreover have "content {k} s' d b = content {} s d b" if "d \<noteq> 0" "d \<noteq> DEV_RAM" for d b
  proof -
    have "content {k} s' d b = content {k} s d b"
      using other[OF that(2)] by (simp add: content_def hold io_step_frame[OF st] split: option.split)
    also have "\<dots> = content {} s d b" by (rule content_mono[OF core that(1)]) (use sy k in auto)
    finally show ?thesis .
  qed
  ultimately show ?thesis using put st False by (intro exI[of _ s']) (simp add: fs_core_def)
qed

lemma core_synced:
  assumes "fs_core K X s" and "i < NR_BUFS" "i \<notin> K" "i \<notin> X" "b_dev (buf s i) \<noteq> NO_DEV" "b_dirt (buf s i) = CLEAN"
  shows "b_data (buf s i) = disk s (b_dev (buf s i)) (pos_of (b_blocknr (buf s i)))"
  using assms by (simp add: fs_core_def synced_def)

lemma evict_core:
  assumes "reliable s" and core: "fs_core {} X s" and k: "k < NR_BUFS" "k \<notin> X"
  shows "\<exists>s'. evict k s = Inr s' \<and> io_step s s' \<and> fs_core {k} X s'
     \<and> (\<forall>d b. d \<noteq> NO_DEV \<longrightarrow> b < max_block \<longrightarrow> nr_buf2 s = 0 \<or> d \<noteq> DEV_RAM \<longrightarrow> content {k} s' d b = content {} s d b)"
proof (cases "b_dev (buf s k) = NO_DEV")
  case True
  have "holder {k} s d b = holder {} s d b" if "d \<noteq> 0" for d b
    by (rule holder_cong) (use True that in auto)
  then have "fs_core {k} X s" and "\<And>d b. d \<noteq> 0 \<Longrightarrow> content {k} s d b = content {} s d b"
    using core_mono[OF core, of k] by (auto simp: content_def)
  then show ?thesis using True by (auto simp: evict_def)
next
  case False
  have "\<exists>t. (if b_dirt (buf s k) = DIRTY then flushall (b_dev (buf s k)) s else Inr s) = Inr t \<and> io_step s t
     \<and> fs_core {} X t \<and> b_dirt (buf t k) = CLEAN
     \<and> (\<forall>d b. d \<noteq> NO_DEV \<longrightarrow> b < max_block \<longrightarrow> content {} t d b = content {} s d b)"
  proof (cases "b_dirt (buf s k)")
    case True
    then show ?thesis using flushall_core[OF assms(1) core False] k(1) by (simp, metis)
  next
    case clean: False
    then show ?thesis using core by (intro exI[of _ s]) simp
  qed
  then obtain t where
    t: "(if b_dirt (buf s k) = DIRTY then flushall (b_dev (buf s k)) s else Inr s) = Inr t" "io_step s t"
       "fs_core {} X t" "b_dirt (buf t k) = CLEAN"
       "\<And>d b. d \<noteq> NO_DEV \<Longrightarrow> b < max_block \<Longrightarrow> content {} t d b = content {} s d b"
    by blast
  have dev: "b_dev (buf t k) \<noteq> 0" using False by (simp add: io_step_frame[OF t(2)])
  have "b_data (buf t k) = disk t (b_dev (buf t k)) (pos_of (b_blocknr (buf t k)))"
    by (rule core_synced[OF t(3) k(1) _ k(2) dev t(4)]) simp
  from put_block2_core[OF _ t(3) k(1) dev this] assms(1) obtain u where
    u: "put_block2 k t = Inr u" "io_step t u" "fs_core {k} X u"
       "\<And>d b. d \<noteq> NO_DEV \<Longrightarrow> nr_buf2 t = 0 \<or> d \<noteq> DEV_RAM \<Longrightarrow> content {k} u d b = content {} t d b"
    by (auto simp: io_step_frame[OF t(2)])
  have "evict k s = Inr u" unfolding evict_def t(1) using False u(1) by simp
  then show ?thesis using io_step_trans[OF t(2) u(2)] u(3,4) t(5) by (auto simp: io_step_frame[OF t(2)])
qed

subsection \<open>Giving a buffer to a block\<close>

lemma adopt:
  assumes core: "fs_core {k} X s" and k: "k < NR_BUFS" and nm: "named s k dev block" "block < max_block"
    and free: "dev \<noteq> NO_DEV \<Longrightarrow> holder {k} s dev block = None" and ram: "nr_buf2 s = 0 \<or> dev \<noteq> DEV_RAM"
    and sy: "dev \<noteq> NO_DEV \<Longrightarrow> k \<notin> X \<Longrightarrow> b_data (buf s k) = disk s dev (pos_of block)"
  shows "fs_core {} X s"
    and "d \<noteq> NO_DEV \<Longrightarrow> k \<notin> X \<or> \<not> (d = dev \<and> b = block) \<Longrightarrow> content {} s d b = content {k} s d b"
proof -
  note c = core[unfolded fs_core_def]
  have fr: "\<not> named s i dev block" if "i < 80" "i \<noteq> k" "dev \<noteq> 0" for i using free that by (simp add: holder_None)
  have hold: "holder {} s d b = holder {k} s d b" if "\<not> (d = dev \<and> b = block)" for d b
    by (rule holder_cong) (use nm that in auto)
  have "unique_names {} s"
    unfolding unique_names_def
  proof (intro allI impI)
    fix i j assume a: "i < 80 \<and> j < 80 \<and> i \<notin> {} \<and> j \<notin> {} \<and> b_dev (buf s i) \<noteq> 0
      \<and> named s j (b_dev (buf s i)) (b_blocknr (buf s i))"
    show "i = j"
    proof (cases "i = k \<or> j = k")
      case True
      then show ?thesis using a nm fr by metis
    next
      case False
      then show ?thesis using a unique_namesD[of "{k}" s "b_dev (buf s i)" i j "b_blocknr (buf s i)"] c by simp
    qed
  qed
  moreover have "small_blocks {} s" using c nm by (auto simp: small_blocks_def)
  moreover have "synced {} X s" using c nm sy unfolding synced_def by (metis empty_iff singletonD)
  moreover have "cache2_ok {} s"
  proof (cases "nr_buf2 s = 0")
    case False
    then have "cache2_ok {k} s" "dev \<noteq> DEV_RAM" using c ram by auto
    then show ?thesis
      unfolding cache2_ok_def using False hold nm k by (smt (verit) empty_iff holder_None singletonD)
  qed (simp add: cache2_ok_def)
  ultimately show "fs_core {} X s" by (simp add: fs_core_def)
  assume d: "d \<noteq> 0" "k \<notin> X \<or> \<not> (d = dev \<and> b = block)"
  show "content {} s d b = content {k} s d b"
  proof (cases "d = dev \<and> b = block")
    case True
    have "holder {} s d b = Some k"
      using True nm k d(1) by (intro holder_SomeI[OF \<open>unique_names {} s\<close>]) simp_all
    then show ?thesis using True d free sy by (simp add: content_def)
  next
    case False
    then show ?thesis by (simp add: content_def hold)
  qed
qed

lemma get_block2_core:
  assumes "reliable s" and core: "fs_core {k} X s" and nm: "named s k dev block" "block < max_block" "dev \<noteq> NO_DEV"
    and free: "holder {k} s dev block = None" and ram: "nr_buf2 s = 0 \<or> dev \<noteq> DEV_RAM"
  shows "\<exists>found v n. get_block2 k only_search s = Inr (found, upd_buf k (b_data_update (\<lambda>_. v)) (s\<lparr>io_count := n\<rparr>))
     \<and> (found \<longrightarrow> v = disk s dev (pos_of block) \<and> only_search \<noteq> NO_READ)"
proof -
  have s: "(if b_dev (buf s k) = DEV_RAM then s\<lparr>nr_buf2 := 0\<rparr> else s) = s" using nm ram by auto
  have id: "upd_buf k (b_data_update (\<lambda>_. b_data (buf s k))) (s\<lparr>io_count := io_count s\<rparr>) = s" by simp
  show ?thesis
  proof (cases "nr_buf2 s = 0 \<or> only_search = NO_READ \<or> newest s dev block = None")
    case True
    have "get_block2 k only_search s = Inr (False, s)"
    proof (cases "nr_buf2 s = 0 \<or> only_search = NO_READ")
      case False
      then have "cache2_shape s" "newest s dev block = None"
        using True core by (auto simp: fs_core_def cache2_ok_def)
      then show ?thesis using search2_newest[of s block dev] nm unfolding get_block2_def s by (simp add: Let_def)
    qed (auto simp: get_block2_def s Let_def)
    then show ?thesis using id by (metis (no_types))
  next
    case False
    then obtain j where j: "newest s dev block = Some j" and nr: "nr_buf2 s \<noteq> 0" "only_search \<noteq> NO_READ" by auto
    then have o: "cache2_shape s" "disk s DEV_RAM (pos_of (of_nat j)) = disk s dev (pos_of block)"
      using core nm free by (auto simp: fs_core_def cache2_ok_def)
    have "b2_count (buf2 s (hash2 block)) \<noteq> 0" using no_copies[OF o(1) _ nm(3), of block] j by auto
    then have "get_block2 k only_search s =
        Inr (True, upd_buf k (b_data_update (\<lambda>_. disk s dev (pos_of block))) (s\<lparr>io_count := Suc (io_count s)\<rparr>))"
      using nr search2_newest[OF o(1), of block dev] j nm dev_read[OF assms(1), of DEV_RAM "pos_of (of_nat j)" k] o(2)
      unfolding get_block2_def s by (simp add: Let_def)
    then show ?thesis using nr by blast
  qed
qed

end
