(* ===== verification/Fs_Coherence.thy ===== *)
theory Fs_Coherence
  imports Fs_Content
begin

text \<open>
  The coherence of the block cache: \<open>get_block\<close>, \<open>put_block\<close>, \<open>flushall\<close>, \<open>invalidate\<close>,
  \<open>buf_pool\<close> and \<open>init_cache2\<close> keep the well-formedness \<open>fs_ok\<close> and change contents only where
  they should. The locale \<open>block_store\<close> states the contract of a store that is read and written block by
  block; the cache is an instance, so every history of requests answers like a plain memory.
\<close>

subsection \<open>The state of a well-formed cache\<close>

definition cache_struct :: "fs \<Rightarrow> bool" where
  "cache_struct s \<longleftrightarrow>
     (\<exists>L C. lru s L \<and> set L = {i. i < NR_BUFS \<and> b_count (buf s i) = 0} \<and> hashed {} s C)"

text \<open>The buffers of \<open>X\<close> are in use and were acquired without being read.\<close>

definition fs_ok :: "nat set \<Rightarrow> fs \<Rightarrow> bool" where
  "fs_ok X s \<longleftrightarrow>
     cache_struct s \<and> fs_core {} X s \<and> reliable s \<and> (\<forall>i\<in>X. i < NR_BUFS \<and> b_count (buf s i) \<noteq> 0)"

text \<open>What the cache does not touch.\<close>

definition rest :: "fs \<Rightarrow> fs" where
  "rest s = s\<lparr>buf := undefined, buf_hash := undefined, front := undefined, rear := undefined, bufs_in_use := undefined,
     buf2 := undefined, nr_buf2 := undefined, buf2_idx := undefined, disk := undefined, io_count := undefined\<rparr>"

lemma rest_frame:
  assumes "rest s' = rest s"
  shows "super_block s' = super_block s" "inode s' = inode s" "err_code s' = err_code s" "rdwt_err s' = rdwt_err s"
    "bp_rootdev s' = bp_rootdev s" "io_reply s' = io_reply s"
  using arg_cong[OF assms, of super_block] arg_cong[OF assms, of inode] arg_cong[OF assms, of err_code]
    arg_cong[OF assms, of rdwt_err] arg_cong[OF assms, of bp_rootdev] arg_cong[OF assms, of io_reply]
  by (simp_all add: rest_def)

lemma rest_steps:
  "lru_step s s' \<Longrightarrow> rest s' = rest s" "hash_step s s' \<Longrightarrow> rest s' = rest s" "io_step s s' \<Longrightarrow> rest s' = rest s"
  by (auto simp: rest_def lru_step_def hash_step_def io_step_def)

text \<open>A later state in which every block has the same contents.\<close>

definition view_eq :: "fs \<Rightarrow> fs \<Rightarrow> bool" where
  "view_eq s s' \<longleftrightarrow>
     rest s' = rest s \<and> nr_buf2 s' = nr_buf2 s
     \<and> (\<forall>d b. d \<noteq> NO_DEV \<and> b < max_block \<and> (nr_buf2 s = 0 \<or> d \<noteq> DEV_RAM) \<longrightarrow> content {} s' d b = content {} s d b)"

lemma view_eq_refl [simp]: "view_eq s s"
  by (simp add: view_eq_def)

lemma view_eq_trans: "view_eq s s' \<Longrightarrow> view_eq s' s'' \<Longrightarrow> view_eq s s''"
  by (simp add: view_eq_def)

lemma lru_step_frame:
  assumes "lru_step s s'"
  shows "buf_hash s' = buf_hash s" "b_count (buf s' i) = b_count (buf s i)" "b_hash (buf s' i) = b_hash (buf s i)"
    "b_blocknr (buf s' i) = b_blocknr (buf s i)" "b_dev (buf s' i) = b_dev (buf s i)" "b_data (buf s' i) = b_data (buf s i)"
    "nr_buf2 s' = nr_buf2 s" "b_dirt (buf s' i) = b_dirt (buf s i)"
  using assms by (auto simp: lru_step_def)

lemma hash_step_frame:
  assumes "hash_step s s'"
  shows "front s' = front s" "rear s' = rear s" "b_count (buf s' i) = b_count (buf s i)"
    "b_next (buf s' i) = b_next (buf s i)" "b_prev (buf s' i) = b_prev (buf s i)" "b_data (buf s' i) = b_data (buf s i)"
    "b_blocknr (buf s' i) = b_blocknr (buf s i)" "b_dev (buf s' i) = b_dev (buf s i)"
    "nr_buf2 s' = nr_buf2 s"
  using assms by (auto simp: hash_step_def)

lemma lru_cong:
  assumes "lru s L" and "front s' = front s" "rear s' = rear s"
    and "\<And>i. b_next (buf s' i) = b_next (buf s i) \<and> b_prev (buf s' i) = b_prev (buf s i)"
  shows "lru s' L"
proof -
  have "lru_seg (buf s') None L None = lru_seg (buf s) None L None" by (rule lru_seg_cong) (simp add: assms(4))
  with assms show ?thesis by (simp add: lru_def)
qed

lemma hashed_lru_step: "hashed K s C \<Longrightarrow> lru_step s s' \<Longrightarrow> hashed K s' C"
  by (rule hashed_cong) (simp_all add: lru_step_frame)

lemma hashed_io_step: "hashed K s C \<Longrightarrow> io_step s s' \<Longrightarrow> hashed K s' C"
  by (rule hashed_cong) (simp_all add: io_step_frame)

lemma lru_hash_step: "lru s L \<Longrightarrow> hash_step s s' \<Longrightarrow> lru s' L"
  by (rule lru_cong) (simp_all add: hash_step_frame)

lemma lru_io_step: "lru s L \<Longrightarrow> io_step s s' \<Longrightarrow> lru s' L"
  by (rule lru_cong) (simp_all add: io_step_frame)

lemma struct_front:
  assumes "cache_struct s"
  shows "front s = None \<longleftrightarrow> (\<forall>i<NR_BUFS. b_count (buf s i) \<noteq> 0)"
    and "front s = Some k \<Longrightarrow> k < NR_BUFS \<and> b_count (buf s k) = 0"
proof -
  from assms obtain L where "lru s L" and L: "set L = {i. i < 80 \<and> b_count (buf s i) = 0}"
    by (auto simp: cache_struct_def)
  then have f: "front s = opt_hd L" by (simp add: lru_def)
  show "front s = None \<longleftrightarrow> (\<forall>i<NR_BUFS. b_count (buf s i) \<noteq> 0)"
    unfolding f opt_hd_None set_empty[symmetric] L by auto
  show "k < NR_BUFS \<and> b_count (buf s k) = 0" if "front s = Some k"
  proof -
    have "k \<in> set L" using that f by (auto simp: opt_hd_Some)
    then show ?thesis using L by simp
  qed
qed

lemma struct_find:
  assumes "cache_struct s" and "unique_names {} s" and "dev \<noteq> NO_DEV"
  shows "find_buf chain_fuel (buf_hash s (hash_of block)) dev block s = Inr (holder {} s dev block)"
proof -
  from assms(1) obtain C where C: "hashed {} s C" by (auto simp: cache_struct_def)
  let ?P = "\<lambda>i. b_blocknr (buf s i) = block \<and> b_dev (buf s i) = dev"
  have set: "set (C (hash_of block)) = {i. i < 80 \<and> hash_of (b_blocknr (buf s i)) = hash_of block}"
    using hashedD(3)[OF C, of "hash_of block"] by simp
  have "List.find ?P (C (hash_of block)) = holder {} s dev block"
  proof (cases "List.find ?P (C (hash_of block))")
    case None
    then have "holder {} s dev block = None" using set by (auto simp: find_None_iff holder_None)
    then show ?thesis using None by simp
  next
    case (Some i)
    then have "i \<in> set (C (hash_of block))" "?P i" by (auto simp: find_Some_iff)
    then show ?thesis using Some holder_SomeI[OF assms(2,3), of i block] set by simp
  qed
  then show ?thesis by (simp add: hashed_find[OF C])
qed

text \<open>A change of the count of one buffer, with the LRU chain following it.\<close>

lemma struct_take:
  assumes "cache_struct s" and "k < NR_BUFS" and "b_count (buf s k) \<noteq> - 1"
    and s': "s' = upd_buf k (b_count_update (\<lambda>n. n + 1)) (if b_count (buf s k) = 0 then rm_lru k s else s)"
  shows "cache_struct s'" and "same_view K s s'" and "rest s' = rest s"
    and "b_count (buf s' i) = b_count (buf s i) + (if i = k then 1 else 0)"
proof -
  let ?t = "if b_count (buf s k) = 0 then rm_lru k s else s"
  have st: "lru_step s ?t"
    using rm_lru_step[of s k] lru_stepI[of s "bufs_in_use s" "rear s" "front s" "buf s" s] by simp
  show "same_view K s s'"
    using lru_step_view[OF st, of K] unfolding s' by (auto simp: same_view_def)
  show "rest s' = rest s" using rest_steps(1)[OF st] unfolding s' by (simp add: rest_def)
  show cnt: "b_count (buf s' i) = b_count (buf s i) + (if i = k then 1 else 0)" for i
    unfolding s' by (simp add: lru_step_frame[OF st])
  from assms(1) obtain L C where L: "lru s L" "set L = {i. i < 80 \<and> b_count (buf s i) = 0}" and C: "hashed {} s C"
    by (auto simp: cache_struct_def)
  let ?L = "if b_count (buf s k) = 0 then remove1 k L else L"
  have "lru ?t ?L" using rm_lru_lru[OF L(1), of k] L assms(2) by simp
  then have l: "lru s' ?L" by (rule lru_cong) (simp_all add: s')
  have nz: "b_count (buf s k) + 1 \<noteq> 0" using assms(3) by (metis add.inverse_unique add.commute)
  have "distinct L" using L(1) by (simp add: lru_def)
  then have "set ?L = {i. i < 80 \<and> b_count (buf s' i) = 0}"
    using L(2) nz by (auto simp: cnt)
  moreover have "hashed {} s' C"
    by (rule hashed_cong[OF hashed_lru_step[OF C st]]) (simp_all add: s')
  ultimately show "cache_struct s'" using l unfolding cache_struct_def by blast
qed

lemma get_block_hit:
  assumes ok: "fs_ok X s" and "dev \<noteq> NO_DEV" and h: "holder {} s dev block = Some k" and "b_count (buf s k) \<noteq> - 1"
  shows "\<exists>s'. get_block dev block only_search s = Inr (k, s') \<and> fs_ok X s' \<and> same_view {} s s' \<and> rest s' = rest s
     \<and> (\<forall>i. b_count (buf s' i) = b_count (buf s i) + (if i = k then 1 else 0))"
proof -
  have str: "cache_struct s" and core: "fs_core {} X s" and rel: "reliable s" using ok by (auto simp: fs_ok_def)
  have u: "unique_names {} s" using core by (simp add: fs_core_def)
  have k: "k < 80" using holder_SomeD[OF h] by simp
  define s' where "s' = upd_buf k (b_count_update (\<lambda>n. n + 1)) (if b_count (buf s k) = 0 then rm_lru k s else s)"
  note t = struct_take[OF str k assms(4) s'_def]
  have "get_block dev block only_search s = Inr (k, s')"
    using struct_find[OF str u assms(2), of block] h assms(2) by (simp add: get_block_def s'_def Let_def)
  moreover have "b_count (buf s i) \<noteq> 0 \<Longrightarrow> b_count (buf s' i) \<noteq> 0" for i
    using t(4)[of i] assms(4) by (auto simp: add_eq_0_iff2)
  then have "fs_ok X s'"
    using t(1,2) ok same_view_core[OF t(2), of "{}" X] same_view_reliable[OF t(2) rel] by (auto simp: fs_ok_def)
  ultimately show ?thesis using t by blast
qed

lemma rw_block_read:
  assumes "reliable s" and "b_dev (buf s k) \<noteq> NO_DEV"
  shows "rw_block k READING s = s\<lparr>io_count := Suc (io_count s), buf := (buf s)(k := (buf s k)\<lparr>
    b_data := disk s (b_dev (buf s k)) (pos_of (b_blocknr (buf s k))), b_dirt := CLEAN\<rparr>)\<rparr>"
  using assms by (simp add: rw_block_def dev_read Let_def)

text \<open>How a missing block is brought into buffer \<open>k\<close>, which bears its name already.\<close>

lemma fetch_core:
  assumes "reliable s" and core: "fs_core {k} X s" and nm: "named s k dev block" "block < max_block" "dev \<noteq> NO_DEV"
    and free: "holder {k} s dev block = None" and ram: "nr_buf2 s = 0 \<or> dev \<noteq> DEV_RAM"
  shows "\<exists>s' x. fetch k only_search s = Inr s'
     \<and> (\<exists>n. s' = s\<lparr>io_count := n, buf := (buf s)(k := x)\<rparr>) \<and> b_blocknr x = block
     \<and> b_count x = b_count (buf s k) \<and> b_hash x = b_hash (buf s k) \<and> b_next x = b_next (buf s k) \<and> b_prev x = b_prev (buf s k)
     \<and> (b_dev x = dev \<and> b_data x = disk s dev (pos_of block)
        \<or> only_search = NO_READ \<and> b_dev x = dev \<or> only_search = PREFETCH \<and> b_dev x = NO_DEV)"
proof -
  obtain found v n where g: "get_block2 k only_search s = Inr (found, upd_buf k (b_data_update (\<lambda>_. v)) (s\<lparr>io_count := n\<rparr>))"
    "found \<Longrightarrow> v = disk s dev (pos_of block) \<and> only_search \<noteq> NO_READ"
    using get_block2_core[OF assms, of only_search] by blast
  let ?t = "upd_buf k (b_data_update (\<lambda>_. v)) (s\<lparr>io_count := n\<rparr>)"
  have rel: "reliable ?t" using assms(1) by (simp add: reliable_def)
  show ?thesis
  proof (cases "found \<or> only_search = NO_READ")
    case True
    then have "fetch k only_search s = Inr ?t" using g(1) by (auto simp: fetch_def)
    then show ?thesis using True g(2) nm(1)
      by (intro exI[of _ ?t] exI[of _ "(buf s k)\<lparr>b_data := v\<rparr>"]) auto
  next
    case False
    then consider "only_search = NORMAL" | "only_search = PREFETCH" by (cases only_search) auto
    then show ?thesis
    proof cases
      case 1
      let ?x = "(buf s k)\<lparr>b_data := disk s dev (pos_of block), b_dirt := CLEAN\<rparr>"
      have "fetch k only_search s = Inr (s\<lparr>io_count := Suc n, buf := (buf s)(k := ?x)\<rparr>)"
        using g(1) False 1 rw_block_read[OF rel, of k] nm by (simp add: fetch_def)
      then show ?thesis using nm(1) by (intro exI[of _ "s\<lparr>io_count := Suc n, buf := (buf s)(k := ?x)\<rparr>"] exI[of _ ?x]) auto
    next
      case 2
      let ?x = "(buf s k)\<lparr>b_data := v, b_dev := NO_DEV\<rparr>"
      have "fetch k only_search s = Inr (s\<lparr>io_count := n, buf := (buf s)(k := ?x)\<rparr>)"
        using g(1) False 2 by (simp add: fetch_def)
      then show ?thesis using nm(1) 2 by (intro exI[of _ "s\<lparr>io_count := n, buf := (buf s)(k := ?x)\<rparr>"] exI[of _ ?x]) auto
    qed
  qed
qed

text \<open>The oldest unused buffer is emptied and takes the name of the block.\<close>

lemma get_block_recycle:
  assumes ok: "fs_ok X s" and "block < max_block" and fr: "front s = Some k"
  obtains s' where "bnd (unlink_hash k (rm_lru k s)) (\<lambda>s. bnd (evict k s) (\<lambda>s. Inr (enter_hash k dev block s))) = Inr s'"
    and "k < NR_BUFS" and "k \<notin> X" and "cache_struct s'" and "fs_core {k} X s'" and "reliable s'" and "named s' k dev block"
    and "rest s' = rest s" and "nr_buf2 s' = nr_buf2 s"
    and "\<And>d b. d \<noteq> NO_DEV \<Longrightarrow> b < max_block \<Longrightarrow> nr_buf2 s = 0 \<or> d \<noteq> DEV_RAM \<Longrightarrow> content {k} s' d b = content {} s d b"
    and "\<And>i. b_count (buf s' i) = b_count (buf s i) + (if i = k then 1 else 0)"
    and "\<And>i. i \<noteq> k \<Longrightarrow> b_dev (buf s' i) = b_dev (buf s i) \<and> b_blocknr (buf s' i) = b_blocknr (buf s i)
      \<and> b_data (buf s' i) = b_data (buf s i)"
proof -
  have str: "cache_struct s" and core: "fs_core {} X s" and rel: "reliable s" using ok by (auto simp: fs_ok_def)
  have k: "k < 80" "b_count (buf s k) = 0" using struct_front(2)[OF str fr] by auto
  have kX: "k \<notin> X" using ok k(2) by (auto simp: fs_ok_def)
  from str obtain L C where L: "lru s L" "set L = {i. i < 80 \<and> b_count (buf s i) = 0}" and C: "hashed {} s C"
    by (auto simp: cache_struct_def)
  let ?r = "rm_lru k s"
  note r = rm_lru_step[of s k]
  have Lr: "lru ?r (remove1 k L)" using rm_lru_lru[OF L(1), of k] L(2) k by simp
  obtain u where u: "unlink_hash k ?r = Inr u" "hash_step ?r u"
    "hashed {k} u (C(hash_of (b_blocknr (buf ?r k)) := remove1 k (C (hash_of (b_blocknr (buf ?r k))))))"
    using unlink_hash_ok[OF hashed_lru_step[OF C r] k(1) refl] by blast
  have vu: "same_view {} s u" by (rule same_view_trans[OF lru_step_view[OF r] hash_step_view[OF u(2)]])
  have relu: "reliable u" and coreu: "fs_core {} X u"
    using same_view_reliable[OF vu rel] same_view_core[OF vu, of X] core by auto
  have nru: "nr_buf2 u = nr_buf2 s" using vu by (simp add: same_view_def)
  obtain e where e: "evict k u = Inr e" "io_step u e" "fs_core {k} X e"
    "\<And>d b. d \<noteq> 0 \<Longrightarrow> b < max_block \<Longrightarrow> nr_buf2 u = 0 \<or> d \<noteq> DEV_RAM \<Longrightarrow> content {k} e d b = content {} u d b"
    using evict_core[OF relu coreu k(1) kX] by blast
  let ?s = "enter_hash k dev block e"
  have ve: "same_view {k} e ?s" by (rule enter_hash_view)
  have "lru ?s (remove1 k L)"
    by (rule lru_cong[OF lru_io_step[OF lru_hash_step[OF Lr u(2)] e(2)]]) (simp_all add: enter_hash_eq)
  moreover have "\<exists>C'. hashed {} ?s C'" using enter_hash_ok[OF hashed_io_step[OF u(3) e(2)] k(1)] by blast
  moreover have cnt: "b_count (buf ?s i) = b_count (buf s i) + (if i = k then 1 else 0)" for i
    by (simp add: enter_hash_eq io_step_frame[OF e(2)] hash_step_frame[OF u(2)] lru_step_frame[OF r])
  have "set (remove1 k L) = {i. i < 80 \<and> b_count (buf ?s i) = 0}"
    using L k(2) by (auto simp: cnt lru_def)
  ultimately have "cache_struct ?s" unfolding cache_struct_def by blast
  moreover have "rest ?s = rest s"
    using rest_steps(1)[OF r] rest_steps(2)[OF u(2)] rest_steps(3)[OF e(2)] by (simp add: enter_hash_eq rest_def)
  moreover have "content {k} ?s d b = content {} s d b"
    if "d \<noteq> 0" "b < max_block" "nr_buf2 s = 0 \<or> d \<noteq> DEV_RAM" for d b
    using e(4)[OF that(1,2)] that(3) same_view_content[OF ve] same_view_content[OF vu] nru by simp
  moreover have "b_dev (buf ?s i) = b_dev (buf s i) \<and> b_blocknr (buf ?s i) = b_blocknr (buf s i)
      \<and> b_data (buf ?s i) = b_data (buf s i)" if "i \<noteq> k" for i
    using that by (simp add: enter_hash_eq io_step_frame[OF e(2)] hash_step_frame[OF u(2)] lru_step_frame[OF r])
  moreover have "reliable ?s" using same_view_reliable[OF ve] relu by (simp add: io_step_frame(1)[OF e(2)])
  moreover have "fs_core {k} X ?s" using same_view_core[OF ve, of X] e(3) by simp
  moreover have "nr_buf2 ?s = nr_buf2 s" "named ?s k dev block"
    by (simp_all add: enter_hash_eq io_step_frame[OF e(2)] nru)
  ultimately show thesis using u(1) e(1) k(1) kX cnt by (intro that[of ?s]) simp_all
qed

lemma struct_upd:
  assumes "cache_struct s" and "b_blocknr x = b_blocknr (buf s k)" "b_count x = b_count (buf s k)"
    "b_hash x = b_hash (buf s k)" "b_next x = b_next (buf s k)" "b_prev x = b_prev (buf s k)"
    and s': "s' = s\<lparr>io_count := n, disk := D, buf := (buf s)(k := x)\<rparr>"
  shows "cache_struct s'"
proof -
  from assms(1) obtain L C where L: "lru s L" "set L = {i. i < 80 \<and> b_count (buf s i) = 0}" and C: "hashed {} s C"
    by (auto simp: cache_struct_def)
  have "lru s' L" by (rule lru_cong[OF L(1)]) (simp_all add: s' assms)
  moreover have "hashed {} s' C" by (rule hashed_cong[OF C]) (simp_all add: s' assms)
  moreover have "b_count (buf s' i) = b_count (buf s i)" for i by (simp add: s' assms)
  ultimately show ?thesis using L(2) unfolding cache_struct_def by auto
qed

text \<open>There is a buffer for the block: one that holds it already, or one that nobody uses.\<close>

definition can_get :: "fs \<Rightarrow> u16 \<Rightarrow> u32 \<Rightarrow> bool" where
  "can_get s dev block \<longleftrightarrow>
     (case if dev = NO_DEV then None else holder {} s dev block of
        Some k \<Rightarrow> b_count (buf s k) \<noteq> - 1
      | None \<Rightarrow> \<exists>i<NR_BUFS. b_count (buf s i) = 0)"

definition counted :: "nat \<Rightarrow> fs \<Rightarrow> fs \<Rightarrow> bool" where
  "counted k s s' \<longleftrightarrow> (\<forall>i. b_count (buf s' i) = b_count (buf s i) + (if i = k then 1 else 0))"

text \<open>What all uses of \<open>get_block\<close> that miss have in common.\<close>

lemma get_block_miss:
  assumes ok: "fs_ok X s" and "dev \<noteq> NO_DEV" and "block < max_block" and ram: "nr_buf2 s = 0 \<or> dev \<noteq> DEV_RAM"
    and cg: "can_get s dev block" and miss: "holder {} s dev block = None"
  shows "\<exists>k s' Y. get_block dev block only_search s = Inr (k, s') \<and> k < NR_BUFS \<and> counted k s s' \<and> rest s' = rest s
     \<and> nr_buf2 s' = nr_buf2 s \<and> fs_ok (X \<union> Y) s' \<and> b_blocknr (buf s' k) = block \<and> k \<notin> X
     \<and> b_count (buf s k) = 0 \<and> holder {k} s' dev block = None
     \<and> (\<forall>i. i \<noteq> k \<longrightarrow> b_dev (buf s' i) = b_dev (buf s i) \<and> b_blocknr (buf s' i) = b_blocknr (buf s i)
          \<and> b_data (buf s' i) = b_data (buf s i))
     \<and> (\<forall>d b. d \<noteq> NO_DEV \<and> b < max_block \<and> (nr_buf2 s = 0 \<or> d \<noteq> DEV_RAM) \<and> (Y = {} \<or> \<not> (d = dev \<and> b = block)) \<longrightarrow>
          content {} s' d b = content {} s d b)
     \<and> (b_dev (buf s' k) = dev \<and> b_data (buf s' k) = content {} s dev block \<and> Y = {}
        \<or> only_search = NO_READ \<and> b_dev (buf s' k) = dev \<and> Y = {k}
        \<or> only_search = PREFETCH \<and> b_dev (buf s' k) = NO_DEV \<and> Y = {})"
proof -
  have str: "cache_struct s" and u: "unique_names {} s" using ok by (auto simp: fs_ok_def fs_core_def)
  have "front s \<noteq> None" using cg miss struct_front(1)[OF str] assms(2) by (auto simp: can_get_def)
  then obtain k where fr: "front s = Some k" by blast
  from get_block_recycle[OF ok assms(3) fr, of dev] obtain t where
    t: "bnd (unlink_hash k (rm_lru k s)) (\<lambda>s. bnd (evict k s) (\<lambda>s. Inr (enter_hash k dev block s))) = Inr t"
    and k: "k < 80" "k \<notin> X" and T: "cache_struct t" "fs_core {k} X t" "reliable t" "named t k dev block"
      "rest t = rest s" "nr_buf2 t = nr_buf2 s"
    and ct: "\<And>d b. d \<noteq> 0 \<Longrightarrow> b < max_block \<Longrightarrow> nr_buf2 s = 0 \<or> d \<noteq> DEV_RAM \<Longrightarrow> content {k} t d b = content {} s d b"
    and cn: "\<And>i. b_count (buf t i) = b_count (buf s i) + (if i = k then 1 else 0)"
    and nm: "\<And>i. i \<noteq> k \<Longrightarrow> b_dev (buf t i) = b_dev (buf s i) \<and> b_blocknr (buf t i) = b_blocknr (buf s i)
      \<and> b_data (buf t i) = b_data (buf s i)"
    by blast
  have free: "holder {k} t dev block = None" using miss nm by (simp add: holder_None)
  have dsk: "disk t dev (pos_of block) = content {} s dev block"
    using ct[OF assms(2,3) ram] free by (simp add: content_def)
  from fetch_core[OF T(3,2,4) assms(3,2) free, of only_search] ram T(6) obtain s' x n where
    f: "fetch k only_search t = Inr s'" "s' = t\<lparr>io_count := n, buf := (buf t)(k := x)\<rparr>" and
    x: "b_blocknr x = block" "b_count x = b_count (buf t k)" "b_hash x = b_hash (buf t k)" "b_next x = b_next (buf t k)"
      "b_prev x = b_prev (buf t k)"
      "b_dev x = dev \<and> b_data x = disk t dev (pos_of block)
        \<or> only_search = NO_READ \<and> b_dev x = dev \<or> only_search = PREFETCH \<and> b_dev x = NO_DEV"
    by auto
  have get: "get_block dev block only_search s = Inr (k, s')"
    using t f(1) assms(2) fr struct_find[OF str u assms(2), of block] miss
    by (auto simp: get_block_def bnd_eq_Inr Let_def)
  define Y where "Y = (if b_dev x = NO_DEV \<or> b_data x = disk t dev (pos_of block) then {} else {k})"
  have v: "same_view {k} t s'" by (simp add: f(2) same_view_def)
  have "fs_core {k} X s'" using same_view_core[OF v, of X] T(2) by simp
  then have core: "fs_core {k} (X \<union> Y) s'" by (auto simp: fs_core_def synced_def)
  have free': "holder {k} s' dev block = None" using same_view_holder[OF v] free by simp
  have sy: "b_dev (buf s' k) \<noteq> 0 \<Longrightarrow> k \<notin> X \<union> Y \<Longrightarrow> b_data (buf s' k) = disk s' (b_dev (buf s' k)) (pos_of block)"
    using x(6) by (auto simp: f(2) Y_def split: if_splits)
  have ad: "fs_core {} (X \<union> Y) s'"
    "\<And>d b. d \<noteq> 0 \<Longrightarrow> k \<notin> X \<union> Y \<or> \<not> (d = b_dev (buf s' k) \<and> b = block) \<Longrightarrow> content {} s' d b = content {k} s' d b"
    using adopt[OF core k(1), of "b_dev (buf s' k)" block] x(1,6) free' ram sy assms(3) T(6) by (auto simp: f(2))
  have str': "cache_struct s'"
    by (rule struct_upd[OF T(1), where x = x and k = k and n = n and D = "disk t"]) (use x T(4) in \<open>simp_all add: f(2)\<close>)
  have cnt: "counted k s s'" using cn x(2) by (simp add: counted_def f(2))
  have k0: "b_count (buf s k) = 0" using struct_front(2)[OF str fr] by simp
  have "fs_ok (X \<union> Y) s'"
    using ad(1) str' same_view_reliable[OF v T(3)] ok cnt k k0 by (auto simp: fs_ok_def counted_def Y_def split: if_splits)
  moreover have "content {} s' d b = content {} s d b"
    if "d \<noteq> 0" "b < max_block" "nr_buf2 s = 0 \<or> d \<noteq> DEV_RAM" "Y = {} \<or> \<not> (d = dev \<and> b = block)" for d b
    using ad(2)[OF that(1), of b] that k(2) x(6) same_view_content[OF v] ct[OF that(1-3)]
    by (auto simp: f(2) Y_def split: if_splits)
  moreover have "rest s' = rest s" "nr_buf2 s' = nr_buf2 s" "b_blocknr (buf s' k) = block"
    using T(5,6) x(1) by (simp_all add: f(2) rest_def)
  moreover have "b_dev (buf s' k) = dev \<and> b_data (buf s' k) = content {} s dev block \<and> Y = {}
        \<or> only_search = NO_READ \<and> b_dev (buf s' k) = dev \<and> Y = {k}
        \<or> only_search = PREFETCH \<and> b_dev (buf s' k) = NO_DEV \<and> Y = {}"
    using x(6) dsk assms(2) by (auto simp: f(2) Y_def)
  moreover have "\<forall>i. i \<noteq> k \<longrightarrow> b_dev (buf s' i) = b_dev (buf s i) \<and> b_blocknr (buf s' i) = b_blocknr (buf s i)
          \<and> b_data (buf s' i) = b_data (buf s i)" using nm by (simp add: f(2))
  ultimately show ?thesis using get k cnt k0 free' by blast
qed

lemma get_block_hit_ok:
  assumes ok: "fs_ok X s" and "dev \<noteq> NO_DEV" and cg: "can_get s dev block" and h: "holder {} s dev block = Some k"
  shows "\<exists>s'. get_block dev block only_search s = Inr (k, s') \<and> k < NR_BUFS \<and> counted k s s' \<and> fs_ok X s' \<and> view_eq s s'
     \<and> named s' k dev block \<and> b_data (buf s' k) = content {} s dev block"
proof -
  have "b_count (buf s k) \<noteq> - 1" using cg h assms(2) by (simp add: can_get_def)
  from get_block_hit[OF ok assms(2) h this, of only_search] obtain s' where
    s': "get_block dev block only_search s = Inr (k, s')" "fs_ok X s'" "same_view {} s s'" "rest s' = rest s"
      "\<forall>i. b_count (buf s' i) = b_count (buf s i) + (if i = k then 1 else 0)"
    by blast
  have "view_eq s s'" using s'(3,4) same_view_content[OF s'(3)] by (simp add: view_eq_def same_view_def)
  moreover have "named s' k dev block" "b_data (buf s' k) = content {} s dev block" "k < 80"
    using holder_SomeD[OF h] s'(3) h by (simp_all add: same_view_def content_def)
  ultimately show ?thesis using s' by (simp add: counted_def)
qed

text \<open>A buffer that is in use keeps its name and its data while other blocks come and go.\<close>

definition pins :: "fs \<Rightarrow> fs \<Rightarrow> bool" where
  "pins s s' \<longleftrightarrow>
     (\<forall>i. b_count (buf s i) \<noteq> 0 \<longrightarrow>
        b_dev (buf s' i) = b_dev (buf s i) \<and> b_blocknr (buf s' i) = b_blocknr (buf s i) \<and> b_data (buf s' i) = b_data (buf s i))"

lemma get_block_pins:
  assumes ok: "fs_ok X s" and "dev \<noteq> NO_DEV" and "block < max_block" and ram: "nr_buf2 s = 0 \<or> dev \<noteq> DEV_RAM"
    and cg: "can_get s dev block" and g: "get_block dev block only_search s = Inr (k, s')"
  shows "pins s s'"
proof (cases "holder {} s dev block")
  case None
  from get_block_miss[OF ok assms(2-3) ram cg None, of only_search] g show ?thesis by (auto simp: pins_def)
next
  case (Some j)
  then have "b_count (buf s j) \<noteq> - 1" using cg assms(2) by (simp add: can_get_def)
  from get_block_hit[OF ok assms(2) Some this, of only_search] g show ?thesis by (auto simp: pins_def same_view_def)
qed

text \<open>Reading a block gives its contents and changes the contents of no block.\<close>

lemma get_block_normal:
  assumes ok: "fs_ok X s" and "dev \<noteq> NO_DEV" and "block < max_block" and ram: "nr_buf2 s = 0 \<or> dev \<noteq> DEV_RAM"
    and cg: "can_get s dev block"
  shows "\<exists>k s'. get_block dev block NORMAL s = Inr (k, s') \<and> k < NR_BUFS \<and> counted k s s' \<and> fs_ok X s' \<and> view_eq s s'
     \<and> named s' k dev block \<and> b_data (buf s' k) = content {} s dev block"
proof (cases "holder {} s dev block")
  case None
  from get_block_miss[OF ok assms(2-3) ram cg None, of NORMAL] obtain k s' where
    "get_block dev block NORMAL s = Inr (k, s')" "k < 80" "counted k s s'" "rest s' = rest s" "nr_buf2 s' = nr_buf2 s"
    "fs_ok X s'" "named s' k dev block" "b_data (buf s' k) = content {} s dev block"
    "\<forall>d b. d \<noteq> NO_DEV \<and> b < max_block \<and> (nr_buf2 s = 0 \<or> d \<noteq> DEV_RAM) \<longrightarrow> content {} s' d b = content {} s d b"
    by auto
  then show ?thesis by (auto simp: view_eq_def)
next
  case (Some k)
  then show ?thesis using get_block_hit_ok[OF ok assms(2) cg Some] by blast
qed

text \<open>A block that will be overwritten is not read; its contents are those of the buffer from now on.\<close>

definition view_but :: "u16 \<Rightarrow> u32 \<Rightarrow> fs \<Rightarrow> fs \<Rightarrow> bool" where
  "view_but dev block s s' \<longleftrightarrow>
     rest s' = rest s \<and> nr_buf2 s' = nr_buf2 s
     \<and> (\<forall>d b. d \<noteq> NO_DEV \<and> b < max_block \<and> (nr_buf2 s = 0 \<or> d \<noteq> DEV_RAM) \<and> \<not> (d = dev \<and> b = block) \<longrightarrow>
          content {} s' d b = content {} s d b)"

lemma fs_ok_mono: "fs_ok X s \<Longrightarrow> k < NR_BUFS \<Longrightarrow> b_count (buf s k) \<noteq> 0 \<Longrightarrow> fs_ok (insert k X) s"
  by (auto simp: fs_ok_def fs_core_def synced_def)

lemma counted_pos: "counted k s s' \<Longrightarrow> b_count (buf s k) \<noteq> - 1 \<Longrightarrow> b_count (buf s' k) \<noteq> 0"
  by (auto simp: counted_def add_eq_0_iff2)

lemma get_block_no_read:
  assumes ok: "fs_ok X s" and "dev \<noteq> NO_DEV" and "block < max_block" and ram: "nr_buf2 s = 0 \<or> dev \<noteq> DEV_RAM"
    and cg: "can_get s dev block"
  shows "\<exists>k s'. get_block dev block NO_READ s = Inr (k, s') \<and> k < NR_BUFS \<and> counted k s s' \<and> fs_ok (insert k X) s'
     \<and> view_but dev block s s' \<and> named s' k dev block"
proof (cases "holder {} s dev block")
  case None
  obtain k s' Y where g: "get_block dev block NO_READ s = Inr (k, s')" "k < 80" "counted k s s'" "rest s' = rest s"
    "nr_buf2 s' = nr_buf2 s" "fs_ok (X \<union> Y) s'" "named s' k dev block" "Y = {} \<or> Y = {k}" "b_count (buf s k) = 0"
    and c: "\<forall>d b. d \<noteq> NO_DEV \<and> b < max_block \<and> (nr_buf2 s = 0 \<or> d \<noteq> DEV_RAM) \<and> (Y = {} \<or> \<not> (d = dev \<and> b = block)) \<longrightarrow>
       content {} s' d b = content {} s d b"
    using get_block_miss[OF ok assms(2-3) ram cg None, of NO_READ] by auto
  have "b_count (buf s' k) \<noteq> 0" using counted_pos[OF g(3)] g(9) by simp
  then have "fs_ok (insert k X) s'" using g(8) g(6) fs_ok_mono[of X s' k] g(2) by auto
  then show ?thesis using g c by (auto simp: view_but_def)
next
  case (Some k)
  from get_block_hit_ok[OF ok assms(2) cg Some, of NO_READ] obtain s' where
    g: "get_block dev block NO_READ s = Inr (k, s')" "k < 80" "counted k s s'" "fs_ok X s'" "view_eq s s'" "named s' k dev block"
    by blast
  have "b_count (buf s' k) \<noteq> 0" using counted_pos[OF g(3)] cg Some assms(2) by (simp add: can_get_def)
  from fs_ok_mono[OF g(4,2) this] show ?thesis using g by (auto simp: view_eq_def view_but_def)
qed

lemma get_block_prefetch:
  assumes ok: "fs_ok X s" and "dev \<noteq> NO_DEV" and "block < max_block" and ram: "nr_buf2 s = 0 \<or> dev \<noteq> DEV_RAM"
    and cg: "can_get s dev block"
  shows "\<exists>k s'. get_block dev block PREFETCH s = Inr (k, s') \<and> k < NR_BUFS \<and> counted k s s' \<and> fs_ok X s' \<and> view_eq s s'
     \<and> b_blocknr (buf s' k) = block
     \<and> (b_dev (buf s' k) = dev \<and> b_data (buf s' k) = content {} s dev block
        \<or> b_dev (buf s' k) = NO_DEV \<and> holder {} s' dev block = None)"
proof (cases "holder {} s dev block")
  case None
  obtain k s' where g: "get_block dev block PREFETCH s = Inr (k, s')" "k < 80" "counted k s s'" "rest s' = rest s"
    "nr_buf2 s' = nr_buf2 s" "fs_ok X s'" "b_blocknr (buf s' k) = block" "holder {k} s' dev block = None"
    and d: "b_dev (buf s' k) = dev \<and> b_data (buf s' k) = content {} s dev block \<or> b_dev (buf s' k) = NO_DEV"
    and c: "\<forall>d b. d \<noteq> NO_DEV \<and> b < max_block \<and> (nr_buf2 s = 0 \<or> d \<noteq> DEV_RAM) \<longrightarrow> content {} s' d b = content {} s d b"
    using get_block_miss[OF ok assms(2-3) ram cg None, of PREFETCH] by auto
  have "holder {} s' dev block = None" if "b_dev (buf s' k) = NO_DEV"
    using g(8) that assms(2) unfolding holder_None by auto
  then show ?thesis using g d c by (auto simp: view_eq_def)
next
  case (Some k)
  then show ?thesis using get_block_hit_ok[OF ok assms(2) cg Some, of PREFETCH] by blast
qed

text \<open>The caller fills the buffer: the block has these contents and the buffer is no longer exempt.\<close>

lemma fill_buf:
  assumes ok: "fs_ok X s" and k: "k < NR_BUFS" and nm: "named s k dev block" "dev \<noteq> NO_DEV"
    and s': "s' = s\<lparr>buf := (buf s)(k := (buf s k)\<lparr>b_data := v, b_dirt := DIRTY\<rparr>)\<rparr>"
  shows "fs_ok (X - {k}) s'" and "view_but dev block s s'" and "content {} s' dev block = v"
    and "b_count (buf s' i) = b_count (buf s i)" and "named s' k dev block"
proof -
  have hold: "holder {} s' d b = holder {} s d b" for d b by (rule holder_cong) (simp add: s')
  have u: "unique_names {} s" and core: "fs_core {} X s" using ok by (auto simp: fs_ok_def fs_core_def)
  have hk: "holder {} s dev block = Some k" by (rule holder_SomeI[OF u nm(2) k _ nm(1)]) simp
  have "cache_struct s'"
    by (rule struct_upd[where s = s and n = "io_count s" and D = "disk s" and k = k
          and x = "(buf s k)\<lparr>b_data := v, b_dirt := DIRTY\<rparr>"]) (use ok in \<open>simp_all add: s' fs_ok_def\<close>)
  moreover have "fs_core {} (X - {k}) s'"
    using core hold unfolding fs_core_def
    by (auto simp: unique_names_def small_blocks_def synced_def cache2_ok_def cache2_shape_def newest_def order2_def s')
  ultimately show "fs_ok (X - {k}) s'" using ok by (auto simp: fs_ok_def reliable_def s')
  show "content {} s' dev block = v" using hk by (simp add: content_def hold) (simp add: s')
  have "content {} s' d b = content {} s d b" if "\<not> (d = dev \<and> b = block)" for d b
  proof (cases "holder {} s d b")
    case (Some i)
    then have "i \<noteq> k" using holder_SomeD[OF Some] nm that by auto
    then show ?thesis using Some by (simp add: content_def hold) (simp add: s')
  qed (simp add: content_def hold, simp add: s')
  then show "view_but dev block s s'" by (simp add: view_but_def s' rest_def)
qed (use nm in \<open>simp_all add: s'\<close>)

subsection \<open>Releasing a block\<close>

lemma rw_block_write:
  assumes "reliable s" and "b_dev (buf s k) \<noteq> NO_DEV"
  shows "rw_block k WRITING s = s\<lparr>buf := clean_bufs {k} (buf s),
    disk := put_data (b_dev (buf s k)) (buf s) k (disk s), io_count := Suc (io_count s)\<rparr>"
proof -
  have "(buf s)(k := (buf s k)\<lparr>b_dirt := CLEAN\<rparr>) = clean_bufs {k} (buf s)" by (auto simp: clean_bufs_def)
  then show ?thesis using assms by (simp add: rw_block_def dev_write Let_def put_data_def)
qed

lemma rw_block_write_core:
  assumes "reliable s" and core: "fs_core {} X s" and k: "k < NR_BUFS" "b_dev (buf s k) \<noteq> NO_DEV"
  shows "io_step s (rw_block k WRITING s)" and "fs_core {} X (rw_block k WRITING s)"
    and "d \<noteq> NO_DEV \<Longrightarrow> b < max_block \<Longrightarrow> content {} (rw_block k WRITING s) d b = content {} s d b"
proof -
  let ?dev = "b_dev (buf s k)"
  have 1: "{k} \<subseteq> {i. i < NR_BUFS \<and> b_dev (buf s i) = ?dev}" using k by simp
  have 2: "\<forall>i\<in>{k}. put_data ?dev (buf s) k (disk s) ?dev (pos_of (b_blocknr (buf s i))) = b_data (buf s i)"
    by (simp add: put_data_def)
  have small: "b_blocknr (buf s k) < max_block" using core k(1) by (simp add: fs_core_def small_blocks_def)
  have 3: "\<forall>d b. b < max_block \<longrightarrow> d \<noteq> ?dev \<or> b \<notin> (\<lambda>i. b_blocknr (buf s i)) ` {k} \<longrightarrow>
      put_data ?dev (buf s) k (disk s) d (pos_of b) = disk s d (pos_of b)"
    using pos_inj[OF _ small] by (auto simp: put_data_def)
  note w = write_core[OF core k(2) 1 2 3 rw_block_write[OF assms(1) k(2)]]
  show "io_step s (rw_block k WRITING s)" "fs_core {} X (rw_block k WRITING s)" by (fact w)+
  show "content {} (rw_block k WRITING s) d b = content {} s d b" if "d \<noteq> 0" "b < max_block" using that by (rule w(3))
qed

lemma struct_io_step:
  assumes "cache_struct s" and "io_step s s'"
  shows "cache_struct s'"
proof -
  from assms(1) obtain L C where "lru s L" "set L = {i. i < 80 \<and> b_count (buf s i) = 0}" "hashed {} s C"
    by (auto simp: cache_struct_def)
  then have "lru s' L" "set L = {i. i < 80 \<and> b_count (buf s' i) = 0}" "hashed {} s' C"
    using lru_io_step[OF _ assms(2)] hashed_io_step[OF _ assms(2)] by (simp_all add: io_step_frame[OF assms(2)])
  then show ?thesis unfolding cache_struct_def by blast
qed

definition uncounted :: "nat \<Rightarrow> fs \<Rightarrow> fs \<Rightarrow> bool" where
  "uncounted k s s' \<longleftrightarrow> (\<forall>i. b_count (buf s' i) = b_count (buf s i) - (if i = k then 1 else 0))"

text \<open>The first half of \<open>put_block\<close>: the count and the LRU chain.\<close>

lemma struct_release:
  assumes str: "cache_struct s" and k: "k < NR_BUFS" "b_count (buf s k) = 1"
    and t: "t = (upd_buf k (b_count_update (\<lambda>n. n - 1)) s)\<lparr>bufs_in_use := n\<rparr>"
    and s': "s' = lru_front k t \<or> s' = lru_rear k t"
  shows "cache_struct s'" and "same_view K s s'" and "rest s' = rest s" and "uncounted k s s'"
proof -
  from str obtain L C where L: "lru s L" "set L = {i. i < 80 \<and> b_count (buf s i) = 0}" and C: "hashed {} s C"
    by (auto simp: cache_struct_def)
  have st: "lru_step t s'" using s' lru_front_step lru_rear_step by blast
  have "lru t L" by (rule lru_cong[OF L(1)]) (simp_all add: t)
  moreover have "k \<notin> set L" using L(2) k by simp
  ultimately obtain L' where L': "lru s' L'" "set L' = insert k (set L)"
    using s' lru_front_lru[of t L k] lru_rear_lru[of t L k] by (metis list.simps(15) set_append Un_insert_right Un_empty_right empty_set)
  have cnt: "b_count (buf s' i) = (if i = k then 0 else b_count (buf s i))" for i
    using k(2) by (simp add: lru_step_frame[OF st]) (simp add: t)
  have "set L' = {i. i < 80 \<and> b_count (buf s' i) = 0}" using L'(2) L(2) k(1) by (auto simp: cnt)
  moreover have "hashed {} t C" by (rule hashed_cong[OF C]) (simp_all add: t)
  then have "hashed {} s' C" by (rule hashed_lru_step[OF _ st])
  ultimately show "cache_struct s'" using L'(1) unfolding cache_struct_def by blast
  show "same_view K s s'" using lru_step_view[OF st, of K] by (auto simp: same_view_def t)
  show "rest s' = rest s" using rest_steps(1)[OF st] by (simp add: t rest_def)
  show "uncounted k s s'" using k(2) by (simp add: uncounted_def cnt)
qed

lemma put_block_ok:
  assumes ok: "fs_ok X s" and k: "k < NR_BUFS" "b_count (buf s k) \<noteq> 0" and X: "b_count (buf s k) = 1 \<Longrightarrow> k \<notin> X"
  shows "fs_ok X (put_block (Some k) ty s)" and "view_eq s (put_block (Some k) ty s)"
    and "uncounted k s (put_block (Some k) ty s)"
    and "b_dev (buf (put_block (Some k) ty s) i) = b_dev (buf s i)"
    and "b_blocknr (buf (put_block (Some k) ty s) i) = b_blocknr (buf s i)"
    and "b_data (buf (put_block (Some k) ty s) i) = b_data (buf s i)"
proof -
  have str: "cache_struct s" and core: "fs_core {} X s" and rel: "reliable s"
    and cX: "\<And>i. i \<in> X \<Longrightarrow> i < 80 \<and> b_count (buf s i) \<noteq> 0" using ok by (auto simp: fs_ok_def)
  have "fs_ok X (put_block (Some k) ty s) \<and> view_eq s (put_block (Some k) ty s) \<and> uncounted k s (put_block (Some k) ty s)
    \<and> (\<forall>i. b_dev (buf (put_block (Some k) ty s) i) = b_dev (buf s i) \<and> b_blocknr (buf (put_block (Some k) ty s) i) = b_blocknr (buf s i)
         \<and> b_data (buf (put_block (Some k) ty s) i) = b_data (buf s i))"
  proof (cases "b_count (buf s k) = 1")
    case False
    let ?s = "upd_buf k (b_count_update (\<lambda>n. n - 1)) s"
    have eq: "put_block (Some k) ty s = ?s" using False by (simp add: put_block_def Let_def)
    have v: "same_view K s ?s" for K by (simp add: same_view_def)
    from str obtain L C where L: "lru s L" "set L = {i. i < 80 \<and> b_count (buf s i) = 0}" and C: "hashed {} s C"
      by (auto simp: cache_struct_def)
    have "lru ?s L" by (rule lru_cong[OF L(1)]) simp_all
    moreover have "hashed {} ?s C" by (rule hashed_cong[OF C]) simp_all
    moreover have "set L = {i. i < 80 \<and> b_count (buf ?s i) = 0}" using L(2) False k(2) by auto
    ultimately have "cache_struct ?s" unfolding cache_struct_def by blast
    then have "fs_ok X ?s"
      using same_view_core[OF v, of "{}" X] core same_view_reliable[OF v rel] cX False by (auto simp: fs_ok_def)
    then show ?thesis unfolding eq using same_view_content[OF v] by (simp add: view_eq_def uncounted_def rest_def)
  next
    case True
    define t where "t = (upd_buf k (b_count_update (\<lambda>n. n - 1)) s)\<lparr>bufs_in_use := bufs_in_use s - 1\<rparr>"
    define u where "u = (if TEST_BIT ty ONE_SHOT then lru_front k t else lru_rear k t)"
    have "u = lru_front k t \<or> u = lru_rear k t" by (simp add: u_def)
    note r = struct_release[OF str k(1) True t_def this]
    let ?w = "TEST_BIT ty WRITE_IMMED \<and> b_dirt (buf u k) = DIRTY \<and> b_dev (buf u k) \<noteq> NO_DEV"
    have eq: "put_block (Some k) ty s = (if ?w then rw_block k WRITING u else u)"
      using True by (simp add: put_block_def Let_def t_def u_def)
    have coreu: "fs_core {} X u" and relu: "reliable u"
      using same_view_core[OF r(2), of "{}" X] core same_view_reliable[OF r(2) rel] by auto
    have iu: "io_step u (put_block (Some k) ty s)" "fs_core {} X (put_block (Some k) ty s)"
      "\<And>d b. d \<noteq> 0 \<Longrightarrow> b < max_block \<Longrightarrow> content {} (put_block (Some k) ty s) d b = content {} u d b"
      using rw_block_write_core[OF relu coreu k(1)] coreu by (auto simp: eq)
    have "fs_ok X (put_block (Some k) ty s)"
      using struct_io_step[OF r(1) iu(1)] iu(2) relu cX X[OF True] r(4)
      by (auto simp: fs_ok_def io_step_frame[OF iu(1)] uncounted_def)
    moreover have "view_eq s (put_block (Some k) ty s)"
      using iu(3) same_view_content[OF r(2)] r(3) rest_steps(3)[OF iu(1)] r(2)[of "{}"]
      by (simp add: view_eq_def io_step_frame[OF iu(1)] same_view_def)
    ultimately show ?thesis using r(4) r(2)[of "{}"] by (simp add: uncounted_def io_step_frame[OF iu(1)] same_view_def)
  qed
  then show "fs_ok X (put_block (Some k) ty s)" "view_eq s (put_block (Some k) ty s)" "uncounted k s (put_block (Some k) ty s)"
    "b_dev (buf (put_block (Some k) ty s) i) = b_dev (buf s i)"
    "b_blocknr (buf (put_block (Some k) ty s) i) = b_blocknr (buf s i)"
    "b_data (buf (put_block (Some k) ty s) i) = b_data (buf s i)" by blast+
qed

subsection \<open>Flushing and invalidating a device\<close>

lemma flushall_writes:
  assumes ok: "fs_ok X s" and "dev \<noteq> NO_DEV" and X: "\<And>i. i \<in> X \<Longrightarrow> b_dev (buf s i) \<noteq> dev"
  shows "\<exists>s'. flushall dev s = Inr s' \<and> fs_ok X s' \<and> view_eq s s'
     \<and> (\<forall>b<max_block. disk s' dev (pos_of b) = content {} s dev b)"
proof -
  have str: "cache_struct s" and core: "fs_core {} X s" and rel: "reliable s"
    and cX: "\<And>i. i \<in> X \<Longrightarrow> i < 80 \<and> b_count (buf s i) \<noteq> 0" using ok by (auto simp: fs_ok_def)
  obtain s' where s': "flushall dev s = Inr s'" "io_step s s'" "fs_core {} X s'"
    "\<And>i. i < 80 \<Longrightarrow> b_dev (buf s i) = dev \<Longrightarrow> b_dirt (buf s' i) = CLEAN"
    "\<And>d b. d \<noteq> 0 \<Longrightarrow> b < max_block \<Longrightarrow> content {} s' d b = content {} s d b"
    using flushall_core[OF rel core assms(2)] by blast
  have "fs_ok X s'"
    using struct_io_step[OF str s'(2)] s'(3) rel cX by (simp add: fs_ok_def io_step_frame[OF s'(2)])
  moreover have "view_eq s s'" using s'(5) rest_steps(3)[OF s'(2)] by (simp add: view_eq_def io_step_frame[OF s'(2)])
  moreover have "disk s' dev (pos_of b) = content {} s dev b" if "b < max_block" for b
  proof (cases "holder {} s' dev b")
    case None
    then show ?thesis using s'(5)[OF assms(2) that] by (simp add: content_def)
  next
    case (Some i)
    have i: "i < 80" "named s' i dev b" using holder_SomeD[OF Some] by auto
    then have "i \<notin> X" using X by (auto simp: io_step_frame[OF s'(2)])
    then have "b_data (buf s' i) = disk s' dev (pos_of b)"
      using core_synced[OF s'(3) i(1)] i s'(4)[OF i(1)] assms(2) by (simp add: io_step_frame[OF s'(2)])
    then show ?thesis using s'(5)[OF assms(2) that] Some by (simp add: content_def)
  qed
  ultimately show ?thesis using s'(1) by blast
qed

lemma invalidate2_step_eq:
  "invalidate2_step device b s = s\<lparr>buf2 := buf2 (invalidate2_step device b s)\<rparr>"
  by (simp add: invalidate2_step_def Let_def)

lemma invalidate2_step_name:
  "b2_dev (buf2 (invalidate2_step device b s) j) = (if j = b \<and> b2_dev (buf2 s b) = device then NO_DEV else b2_dev (buf2 s j))"
  "b2_blocknr (buf2 (invalidate2_step device b s) j) = b2_blocknr (buf2 s j)"
  by (simp_all add: invalidate2_step_def Let_def)

lemma invalidate2_step_counts:
  assumes "\<forall>h<1024. b2_count (buf2 s h) = of_nat (card (copies (buf2 s) n h))" and "b < n" and "device \<noteq> NO_DEV" and "h < 1024"
  shows "b2_count (buf2 (invalidate2_step device b s) h) = of_nat (card (copies (buf2 (invalidate2_step device b s)) n h))"
proof -
  let ?f = "buf2 (invalidate2_step device b s)"
  have "copies ?f n h - {b} = copies (buf2 s) n h - {b}" by (auto simp: copies_def invalidate2_step_name)
  moreover have "b2_count (?f h) = b2_count (buf2 s h)
      - (if b2_dev (buf2 s b) = device \<and> hash2 (b2_blocknr (buf2 s b)) = h then 1 else 0)"
    by (simp add: invalidate2_step_def Let_def)
  ultimately show ?thesis
    using assms card_copies_split[OF assms(2), of ?f h] card_copies_split[OF assms(2), of "buf2 s" h]
    by (simp add: invalidate2_step_name)
qed

lemma invalidate2_ok:
  assumes "\<forall>h<1024. b2_count (buf2 s h) = of_nat (card (copies (buf2 s) n h))" and "device \<noteq> NO_DEV" and "m \<le> n"
  shows "\<exists>f. fold (invalidate2_step device) [0..<m] s = s\<lparr>buf2 := f\<rparr>
     \<and> (\<forall>h<1024. b2_count (f h) = of_nat (card (copies f n h)))
     \<and> (\<forall>j. b2_blocknr (f j) = b2_blocknr (buf2 s j)
          \<and> b2_dev (f j) = (if j < m \<and> b2_dev (buf2 s j) = device then NO_DEV else b2_dev (buf2 s j)))"
  using assms(3)
proof (induction m)
  case 0
  then show ?case using assms(1) by (intro exI[of _ "buf2 s"]) simp
next
  case (Suc m)
  then obtain f where f: "fold (invalidate2_step device) [0..<m] s = s\<lparr>buf2 := f\<rparr>"
    "\<forall>h<1024. b2_count (f h) = of_nat (card (copies f n h))"
    "\<forall>j. b2_blocknr (f j) = b2_blocknr (buf2 s j)
       \<and> b2_dev (f j) = (if j < m \<and> b2_dev (buf2 s j) = device then NO_DEV else b2_dev (buf2 s j))"
    by auto
  let ?t = "s\<lparr>buf2 := f\<rparr>"
  let ?g = "buf2 (invalidate2_step device m ?t)"
  have "fold (invalidate2_step device) [0..<Suc m] s = s\<lparr>buf2 := ?g\<rparr>"
    using f(1) invalidate2_step_eq[of device m ?t] by simp
  moreover have "\<forall>h<1024. b2_count (?g h) = of_nat (card (copies ?g n h))"
    using invalidate2_step_counts[of ?t n m device] f(2) Suc.prems assms(2) by simp
  moreover have "\<forall>j. b2_blocknr (?g j) = b2_blocknr (buf2 s j)
      \<and> b2_dev (?g j) = (if j < Suc m \<and> b2_dev (buf2 s j) = device then NO_DEV else b2_dev (buf2 s j))"
    using f(3) by (auto simp: invalidate2_step_name less_Suc_eq)
  ultimately show ?case by blast
qed

text \<open>Invalidating a device: its blocks are read from the device again, whatever the buffers held.\<close>

lemma invalidate_ok:
  assumes ok: "fs_ok X s" and "device \<noteq> NO_DEV"
  shows "fs_ok X (invalidate device s)" and "content {} (invalidate device s) device b = disk s device (pos_of b)"
    and "d \<noteq> device \<Longrightarrow> d \<noteq> NO_DEV \<Longrightarrow> content {} (invalidate device s) d b = content {} s d b"
    and "rest (invalidate device s) = rest s"
proof -
  have str: "cache_struct s" and core: "fs_core {} X s" and rel: "reliable s"
    and cX: "\<And>i. i \<in> X \<Longrightarrow> i < 80 \<and> b_count (buf s i) \<noteq> 0" using ok by (auto simp: fs_ok_def)
  define g where "g = (\<lambda>i. if i < NR_BUFS \<and> b_dev (buf s i) = device then (buf s i)\<lparr>b_dev := NO_DEV\<rparr> else buf s i)"
  have g: "b_count (g i) = b_count (buf s i)" "b_hash (g i) = b_hash (buf s i)" "b_next (g i) = b_next (buf s i)"
    "b_prev (g i) = b_prev (buf s i)" "b_blocknr (g i) = b_blocknr (buf s i)" "b_data (g i) = b_data (buf s i)"
    "b_dirt (g i) = b_dirt (buf s i)" "b_dev (g i) = (if i < 80 \<and> b_dev (buf s i) = device then NO_DEV else b_dev (buf s i))" for i
    by (simp_all add: g_def)
  have "\<exists>f. invalidate device s = s\<lparr>buf := g, buf2 := f\<rparr>
     \<and> (nr_buf2 s = 0 \<or> (\<forall>h<1024. b2_count (f h) = of_nat (card (copies f (unat (nr_buf2 s)) h))))
     \<and> (\<forall>j. b2_blocknr (f j) = b2_blocknr (buf2 s j)
          \<and> b2_dev (f j) = (if j < unat (nr_buf2 s) \<and> b2_dev (buf2 s j) = device then NO_DEV else b2_dev (buf2 s j)))"
  proof (cases "nr_buf2 s = 0")
    case True
    then have "invalidate device s = s\<lparr>buf := g, buf2 := buf2 s\<rparr>"
      unfolding invalidate_def invalidate2_def g_def by simp
    then show ?thesis using True by (intro exI[of _ "buf2 s"]) simp
  next
    case False
    then have "\<forall>h<1024. b2_count (buf2 (s\<lparr>buf := g\<rparr>) h) = of_nat (card (copies (buf2 (s\<lparr>buf := g\<rparr>)) (unat (nr_buf2 s)) h))"
      using core by (auto simp: fs_core_def cache2_ok_def cache2_shape_def)
    from invalidate2_ok[OF this assms(2) order_refl] obtain f where
      f: "fold (invalidate2_step device) [0..<unat (nr_buf2 s)] (s\<lparr>buf := g\<rparr>) = (s\<lparr>buf := g\<rparr>)\<lparr>buf2 := f\<rparr>"
        "\<forall>h<1024. b2_count (f h) = of_nat (card (copies f (unat (nr_buf2 s)) h))"
        "\<forall>j. b2_blocknr (f j) = b2_blocknr (buf2 (s\<lparr>buf := g\<rparr>) j) \<and> b2_dev (f j) =
           (if j < unat (nr_buf2 s) \<and> b2_dev (buf2 (s\<lparr>buf := g\<rparr>) j) = device then NO_DEV else b2_dev (buf2 (s\<lparr>buf := g\<rparr>) j))"
      by blast
    have "invalidate device s = s\<lparr>buf := g, buf2 := f\<rparr>"
      using f(1) unfolding invalidate_def invalidate2_def g_def[symmetric] by simp
    then show ?thesis using f(2,3) by (intro exI[of _ f]) simp
  qed
  then obtain f where f: "invalidate device s = s\<lparr>buf := g, buf2 := f\<rparr>"
    "nr_buf2 s = 0 \<or> (\<forall>h<1024. b2_count (f h) = of_nat (card (copies f (unat (nr_buf2 s)) h)))"
    "\<And>j. b2_blocknr (f j) = b2_blocknr (buf2 s j)"
    "\<And>j. b2_dev (f j) = (if j < unat (nr_buf2 s) \<and> b2_dev (buf2 s j) = device then NO_DEV else b2_dev (buf2 s j))"
    by blast
  let ?s = "s\<lparr>buf := g, buf2 := f\<rparr>"
  have h1: "holder {} ?s device b = None" for b by (auto simp: holder_None g assms(2))
  have h2: "holder {} ?s d b = holder {} s d b" if "d \<noteq> device" "d \<noteq> 0" for d b
    by (rule holder_cong) (use that in \<open>auto simp: g\<close>)
  show "content {} (invalidate device s) device b = disk s device (pos_of b)"
    unfolding f(1) by (simp add: content_def h1)
  show "content {} (invalidate device s) d b = content {} s d b" if "d \<noteq> device" "d \<noteq> NO_DEV" for d b
    unfolding f(1) by (simp add: content_def h2[OF that] g split: option.split)
  show "rest (invalidate device s) = rest s" unfolding f(1) by (simp add: rest_def)
  note c = core[unfolded fs_core_def]
  have "unique_names {} ?s" using c unfolding unique_names_def by (auto simp: g)
  moreover have "small_blocks {} ?s" "synced {} X ?s" using c by (auto simp: small_blocks_def synced_def g)
  moreover have "cache2_ok {} ?s"
  proof (cases "nr_buf2 s = 0")
    case False
    then have o: "cache2_shape s" "\<And>i. i < 80 \<Longrightarrow> b_dev (buf s i) \<noteq> DEV_RAM"
      "\<And>d b j. d \<noteq> 0 \<Longrightarrow> b < max_block \<Longrightarrow> newest s d b = Some j \<Longrightarrow> holder {} s d b = None \<Longrightarrow>
         d \<noteq> DEV_RAM \<and> disk s DEV_RAM (pos_of (of_nat j)) = disk s d (pos_of b)"
      using c by (auto simp: cache2_ok_def)
    have sh: "cache2_shape ?s" using o(1) f(2) False by (simp add: cache2_shape_def)
    have n1: "newest ?s device b = None" for b
    proof (rule ccontr)
      assume "newest ?s device b \<noteq> None"
      then obtain j where "newest ?s device b = Some j" by blast
      from newest_SomeD[OF sh this] show False using f(4)[of j] assms(2) by (auto split: if_splits)
    qed
    have n2: "newest ?s d b = newest s d b" if "d \<noteq> device" "d \<noteq> 0" for d b
      unfolding newest_def order2_def by (rule find_cong) (use that in \<open>auto simp: f(3,4)\<close>)
    have "d \<noteq> DEV_RAM \<and> disk s DEV_RAM (pos_of (of_nat j)) = disk s d (pos_of b)"
      if "d \<noteq> 0" "b < max_block" "newest ?s d b = Some j" "holder {} ?s d b = None" for d b j
    proof (cases "d = device")
      case True
      then show ?thesis using that(3) n1 by simp
    next
      case False
      then show ?thesis using o(3) that h2[OF False that(1)] n2[OF False that(1)] by simp
    qed
    moreover have "b_dev (g i) \<noteq> DEV_RAM" if "i < 80" for i using o(2)[OF that] by (simp add: g)
    ultimately show ?thesis unfolding cache2_ok_def using sh by simp blast
  qed (simp add: cache2_ok_def)
  ultimately have "fs_core {} X ?s" by (simp add: fs_core_def)
  moreover from str obtain L C where L: "lru s L" "set L = {i. i < 80 \<and> b_count (buf s i) = 0}" and C: "hashed {} s C"
    by (auto simp: cache_struct_def)
  have "lru ?s L" by (rule lru_cong[OF L(1)]) (simp_all add: g)
  moreover have "hashed {} ?s C" by (rule hashed_cong[OF C]) (simp_all add: g)
  ultimately show "fs_ok X (invalidate device s)"
    unfolding f(1) using L(2) rel cX by (auto simp: fs_ok_def cache_struct_def reliable_def g)
qed

subsection \<open>The start of the server\<close>

lemma upt_seg:
  assumes "\<And>i. i < n \<Longrightarrow> b_prev (f i) = (if i = 0 then None else Some (i - 1)) \<and> b_next (f i) = (if Suc i = n then None else Some (Suc i))"
    and "a \<le> n"
  shows "lru_seg f (if a = 0 then None else Some (a - 1)) [a..<n] None"
  using assms(2)
proof (induction "n - a" arbitrary: a)
  case (Suc m)
  then have a: "a < n" "[a..<n] = a # [Suc a..<n]" by (simp_all add: upt_rec)
  have "lru_seg f (if Suc a = 0 then None else Some (Suc a - 1)) [Suc a..<n] None" using Suc a by (intro Suc.hyps(1)) auto
  then show ?case using assms(1)[OF a(1)] a by (auto simp: upt_rec[of "Suc a" n])
qed simp

lemma upt_chain:
  assumes "\<And>i. i < n \<Longrightarrow> b_hash (f i) = (if Suc i = n then None else Some (Suc i))" and "a \<le> n"
  shows "chain f (if a = n then None else Some a) [a..<n]"
  using assms(2)
proof (induction "n - a" arbitrary: a)
  case (Suc m)
  then have a: "a < n" "[a..<n] = a # [Suc a..<n]" by (simp_all add: upt_rec)
  have "chain f (if Suc a = n then None else Some (Suc a)) [Suc a..<n]" using Suc a by (intro Suc.hyps(1)) auto
  then show ?case using assms(1)[OF a(1)] a by simp
qed simp

text \<open>The empty pool is well formed: every block is read from its device.\<close>

lemma buf_pool_ok:
  assumes "\<forall>i<NR_BUFS. b_count (buf s i) = 0" and "\<forall>h. h \<noteq> 0 \<longrightarrow> buf_hash s h = None" and "nr_buf2 s = 0" and "reliable s"
  shows "fs_ok {} (buf_pool s)" and "d \<noteq> NO_DEV \<Longrightarrow> content {} (buf_pool s) d b = disk s d (pos_of b)"
proof -
  let ?s = "buf_pool s"
  have b: "b_prev (buf ?s i) = (if i = 0 then None else Some (i - 1)) \<and> b_next (buf ?s i) = (if Suc i = 80 then None else Some (Suc i))
      \<and> b_hash (buf ?s i) = (if Suc i = 80 then None else Some (Suc i)) \<and> b_dev (buf ?s i) = NO_DEV \<and> b_blocknr (buf ?s i) = 0
      \<and> b_count (buf ?s i) = 0" if "i < 80" for i
    using that assms(1) by (auto simp: buf_pool_def Let_def)
  have fr: "front ?s = Some 0" "rear ?s = Some 79" "buf_hash ?s = (buf_hash s)(0 := Some 0)" "nr_buf2 ?s = 0"
    "disk ?s = disk s" "reliable ?s" using assms(3,4) by (simp_all add: buf_pool_def Let_def reliable_def)
  have "lru_seg (buf ?s) None [0..<80] None" using upt_seg[of 80 "buf ?s" 0] b by simp
  then have lru: "lru ?s [0..<80]" using fr by (simp add: lru_def opt_hd_def opt_last_def upt_rec[of 0 80])
  have ch: "chain (buf ?s) (Some 0) [0..<80]" using upt_chain[of 80 "buf ?s" 0] b by simp
  have "hashed {} ?s (\<lambda>h. if h = 0 then [0..<80] else [])"
    by (rule hashedI) (use ch b assms(2) in \<open>auto simp: fr hash_of_def\<close>)
  then have "cache_struct ?s" unfolding cache_struct_def using lru b by (intro exI[of _ "[0..<80]"] exI conjI) auto
  moreover have "fs_core {} {} ?s"
    using b fr(4) by (auto simp: fs_core_def unique_names_def small_blocks_def synced_def cache2_ok_def)
  ultimately show "fs_ok {} ?s" using fr(6) by (simp add: fs_ok_def)
  show "content {} ?s d b = disk s d (pos_of b)" if "d \<noteq> 0" for d b
  proof -
    have "holder {} ?s d b = None" using that b[THEN conjunct2] by (auto simp: holder_None)
    then show ?thesis by (simp add: content_def fr)
  qed
qed

text \<open>Opening an empty second level changes nothing that can be seen.\<close>

lemma init_cache2_ok:
  assumes ok: "fs_ok X s" and "size0 \<noteq> 0" and "buf2_idx s = 0" and "\<forall>j. b2_dev (buf2 s j) = NO_DEV \<and> b2_count (buf2 s j) = 0"
    and "\<forall>i<NR_BUFS. b_dev (buf s i) \<noteq> DEV_RAM"
  shows "fs_ok X (init_cache2 size0 s)" and "content {} (init_cache2 size0 s) d b = content {} s d b"
    and "nr_buf2 (init_cache2 size0 s) \<noteq> 0"
proof -
  let ?s = "init_cache2 size0 s"
  have nz: "nr_buf2 ?s \<noteq> 0" "nr_buf2 ?s \<le> 1024"
    using assms(2) by (auto simp: init_cache2_def not_less)
  have hold: "holder {} ?s d b = holder {} s d b" for d b by (rule holder_cong) (simp add: init_cache2_def)
  have f: "buf ?s = buf s" "buf2 ?s = buf2 s" "buf2_idx ?s = 0" "disk ?s = disk s" "io_reply ?s = io_reply s"
    "front ?s = front s" "rear ?s = rear s" "buf_hash ?s = buf_hash s"
    using assms(3) by (simp_all add: init_cache2_def)
  show "nr_buf2 ?s \<noteq> 0" by (rule nz)
  show "content {} ?s d b = content {} s d b" by (simp add: content_def hold f split: option.split)
  have e: "copies (buf2 s) n h = {}" for n h using assms(4) by (simp add: copies_def)
  have "cache2_shape ?s" using nz assms(4) by (auto simp: cache2_shape_def f e word_neq_0_conv)
  moreover have "newest ?s d b = None" if "d \<noteq> 0" for d b using that assms(4) by (auto simp: newest_def find_None_iff f)
  ultimately have "cache2_ok {} ?s" using assms(5) by (auto simp: cache2_ok_def f)
  then have "fs_core {} X ?s" using ok by (auto simp: fs_ok_def fs_core_def unique_names_def small_blocks_def synced_def f)
  moreover from ok obtain L C where L: "lru s L" "set L = {i. i < 80 \<and> b_count (buf s i) = 0}" and C: "hashed {} s C"
    by (auto simp: fs_ok_def cache_struct_def)
  have "lru ?s L" by (rule lru_cong[OF L(1)]) (simp_all add: f)
  moreover have "hashed {} ?s C" by (rule hashed_cong[OF C]) (simp_all add: f)
  ultimately show "fs_ok X ?s" using ok L(2) by (auto simp: fs_ok_def cache_struct_def reliable_def f)
qed

subsection \<open>A store of blocks\<close>

text \<open>
  The contract of a store that is read and written block by block: \<open>mem\<close> is the memory a state
  stands for, and \<open>valid\<close> says which addresses may be used in it. A history of requests then
  answers like a plain memory.
\<close>

datatype ('a, 'v) request = Read 'a | Write 'a 'v

locale block_store =
  fixes rd :: "'a \<Rightarrow> 's \<Rightarrow> ('v \<times> 's) res"
    and wr :: "'a \<Rightarrow> 'v \<Rightarrow> 's \<Rightarrow> 's res"
    and inv :: "'s \<Rightarrow> bool" and valid :: "'s \<Rightarrow> 'a \<Rightarrow> bool" and mem :: "'s \<Rightarrow> 'a \<Rightarrow> 'v"
  assumes rd_ok: "inv s \<Longrightarrow> valid s a \<Longrightarrow> \<exists>s'. rd a s = Inr (mem s a, s') \<and> inv s' \<and> valid s' = valid s
       \<and> (\<forall>b. valid s b \<longrightarrow> mem s' b = mem s b)"
    and wr_ok: "inv s \<Longrightarrow> valid s a \<Longrightarrow> \<exists>s'. wr a v s = Inr s' \<and> inv s' \<and> valid s' = valid s
       \<and> (\<forall>b. valid s b \<longrightarrow> mem s' b = ((mem s)(a := v)) b)"

fun run_requests :: "('a \<Rightarrow> 's \<Rightarrow> ('v \<times> 's) res) \<Rightarrow> ('a \<Rightarrow> 'v \<Rightarrow> 's \<Rightarrow> 's res) \<Rightarrow> ('a, 'v) request list \<Rightarrow> 's \<Rightarrow> ('v list \<times> 's) res" where
  "run_requests rd wr [] s = Inr ([], s)"
| "run_requests rd wr (Read a # rs) s =
     bnd (rd a s) (\<lambda>(v, s). bnd (run_requests rd wr rs s) (\<lambda>(vs, s). Inr (v # vs, s)))"
| "run_requests rd wr (Write a v # rs) s = bnd (wr a v s) (run_requests rd wr rs)"

fun request_addr :: "('a, 'v) request \<Rightarrow> 'a" where
  "request_addr (Read a) = a"
| "request_addr (Write a v) = a"

fun replay :: "('a, 'v) request list \<Rightarrow> ('a \<Rightarrow> 'v) \<Rightarrow> 'v list \<times> ('a \<Rightarrow> 'v)" where
  "replay [] m = ([], m)"
| "replay (Read a # rs) m = (let (vs, m') = replay rs m in (m a # vs, m'))"
| "replay (Write a v # rs) m = replay rs (m(a := v))"

lemma replay_cong:
  assumes "\<And>a. a \<in> V \<Longrightarrow> m a = m' a" and "\<forall>r\<in>set rs. request_addr r \<in> V"
  shows "fst (replay rs m) = fst (replay rs m') \<and> (\<forall>a\<in>V. snd (replay rs m) a = snd (replay rs m') a)"
  using assms
proof (induction rs m arbitrary: m' rule: replay.induct)
  case (2 a rs m)
  have "fst (replay rs m) = fst (replay rs m') \<and> (\<forall>a\<in>V. snd (replay rs m) a = snd (replay rs m') a)"
    by (rule "2.IH") (use "2.prems" in simp_all)
  moreover have "m a = m' a" using "2.prems" by simp
  ultimately show ?case by (simp add: case_prod_unfold Let_def)
next
  case (3 a v rs m)
  have "fst (replay rs (m(a := v))) = fst (replay rs (m'(a := v)))
      \<and> (\<forall>b\<in>V. snd (replay rs (m(a := v))) b = snd (replay rs (m'(a := v))) b)"
    by (rule "3.IH") (use "3.prems" in simp_all)
  then show ?case by simp
qed simp

context block_store
begin

lemma run_replay:
  assumes "inv s" and "\<forall>r\<in>set rs. valid s (request_addr r)"
  shows "\<exists>s'. run_requests rd wr rs s = Inr (fst (replay rs (mem s)), s') \<and> inv s' \<and> valid s' = valid s
     \<and> (\<forall>a. valid s a \<longrightarrow> mem s' a = snd (replay rs (mem s)) a)"
  using assms
proof (induction rs arbitrary: s)
  case (Cons r rs)
  show ?case
  proof (cases r)
    case (Read a)
    obtain t where t: "rd a s = Inr (mem s a, t)" "inv t" "valid t = valid s" "\<forall>b. valid s b \<longrightarrow> mem t b = mem s b"
      using rd_ok[OF Cons.prems(1), of a] Cons.prems(2) Read by auto
    obtain s' where s': "run_requests rd wr rs t = Inr (fst (replay rs (mem t)), s')" "inv s'" "valid s' = valid t"
      "\<forall>a. valid t a \<longrightarrow> mem s' a = snd (replay rs (mem t)) a"
      using Cons.IH[OF t(2)] Cons.prems(2) t(3) by auto
    have "fst (replay rs (mem t)) = fst (replay rs (mem s)) \<and>
        (\<forall>a\<in>{a. valid s a}. snd (replay rs (mem t)) a = snd (replay rs (mem s)) a)"
      by (rule replay_cong) (use t(4) Cons.prems(2) in auto)
    then show ?thesis using t s' Read by (auto simp: Let_def split: prod.split)
  next
    case (Write a v)
    obtain t where t: "wr a v s = Inr t" "inv t" "valid t = valid s" "\<forall>b. valid s b \<longrightarrow> mem t b = ((mem s)(a := v)) b"
      using wr_ok[OF Cons.prems(1), of a v] Cons.prems(2) Write by auto
    obtain s' where s': "run_requests rd wr rs t = Inr (fst (replay rs (mem t)), s')" "inv s'" "valid s' = valid t"
      "\<forall>a. valid t a \<longrightarrow> mem s' a = snd (replay rs (mem t)) a"
      using Cons.IH[OF t(2)] Cons.prems(2) t(3) by auto
    have "fst (replay rs (mem t)) = fst (replay rs ((mem s)(a := v))) \<and>
        (\<forall>b\<in>{b. valid s b}. snd (replay rs (mem t)) b = snd (replay rs ((mem s)(a := v))) b)"
      by (rule replay_cong) (use t(4) Cons.prems(2) in auto)
    then show ?thesis using t s' Write by auto
  qed
qed simp

end

text \<open>How the file system reads and overwrites a block through the cache.\<close>

definition read_block :: "u32 \<Rightarrow> u16 \<times> u32 \<Rightarrow> fs \<Rightarrow> (block \<times> fs) res" where
  "read_block ty a s = bnd (get_block (fst a) (snd a) NORMAL s) (\<lambda>(k, s). Inr (b_data (buf s k), put_block (Some k) ty s))"

definition write_block :: "u32 \<Rightarrow> u16 \<times> u32 \<Rightarrow> block \<Rightarrow> fs \<Rightarrow> fs res" where
  "write_block ty a v s =
     bnd (get_block (fst a) (snd a) NO_READ s) (\<lambda>(k, s).
     Inr (put_block (Some k) ty (upd_buf k (\<lambda>x. x\<lparr>b_data := v, b_dirt := DIRTY\<rparr>) s)))"

definition idle :: "fs \<Rightarrow> bool" where
  "idle s \<longleftrightarrow> fs_ok {} s \<and> (\<forall>i<NR_BUFS. b_count (buf s i) = 0)"

definition visible :: "fs \<Rightarrow> u16 \<times> u32 \<Rightarrow> bool" where
  "visible s a \<longleftrightarrow> fst a \<noteq> NO_DEV \<and> snd a < max_block \<and> (nr_buf2 s = 0 \<or> fst a \<noteq> DEV_RAM)"

abbreviation block_mem :: "fs \<Rightarrow> u16 \<times> u32 \<Rightarrow> block" where
  "block_mem s a \<equiv> content {} s (fst a) (snd a)"

lemma idle_can_get:
  assumes "idle s"
  shows "can_get s d b"
proof -
  have "holder {} s d b = Some k \<Longrightarrow> b_count (buf s k) \<noteq> - 1" for k
    using assms holder_SomeD[of "{}" s d b k] by (simp add: idle_def)
  then show ?thesis using assms by (auto simp: can_get_def idle_def split: option.split intro: exI[of _ 0])
qed

lemma idle_again:
  assumes "idle s" and "counted k s t" and "uncounted k t u" and "fs_ok {} u"
  shows "idle u"
  using assms by (auto simp: idle_def counted_def uncounted_def)

lemma read_block_ok:
  assumes i: "idle s" and v: "visible s a"
  shows "\<exists>s'. read_block ty a s = Inr (block_mem s a, s') \<and> idle s' \<and> visible s' = visible s
     \<and> (\<forall>b. visible s b \<longrightarrow> block_mem s' b = block_mem s b)"
proof -
  from v have a: "fst a \<noteq> 0" "snd a < max_block" "nr_buf2 s = 0 \<or> fst a \<noteq> DEV_RAM" by (auto simp: visible_def)
  have ok: "fs_ok {} s" using i by (simp add: idle_def)
  obtain k t where t: "get_block (fst a) (snd a) NORMAL s = Inr (k, t)" "k < 80" "counted k s t" "fs_ok {} t" "view_eq s t"
    "b_data (buf t k) = block_mem s a"
    using get_block_normal[OF ok a idle_can_get[OF i]] by blast
  have "b_count (buf t k) \<noteq> 0" using i t(2,3) by (simp add: counted_def idle_def)
  note p = put_block_ok[OF t(4,2) this, of ty]
  have "view_eq s (put_block (Some k) ty t)" using view_eq_trans[OF t(5) p(2)] by simp
  then have "visible (put_block (Some k) ty t) = visible s"
    "\<forall>b. visible s b \<longrightarrow> block_mem (put_block (Some k) ty t) b = block_mem s b"
    by (auto simp: view_eq_def visible_def fun_eq_iff)
  then show ?thesis using t(1,6) idle_again[OF i t(3) p(3,1)] by (simp add: read_block_def)
qed

lemma write_block_ok:
  assumes i: "idle s" and v: "visible s a"
  shows "\<exists>s'. write_block ty a x s = Inr s' \<and> idle s' \<and> visible s' = visible s
     \<and> (\<forall>b. visible s b \<longrightarrow> block_mem s' b = ((block_mem s)(a := x)) b)"
proof -
  from v have a: "fst a \<noteq> 0" "snd a < max_block" "nr_buf2 s = 0 \<or> fst a \<noteq> DEV_RAM" by (auto simp: visible_def)
  have ok: "fs_ok {} s" using i by (simp add: idle_def)
  obtain k t where t: "get_block (fst a) (snd a) NO_READ s = Inr (k, t)" "k < 80" "counted k s t" "fs_ok {k} t"
    "view_but (fst a) (snd a) s t" "named t k (fst a) (snd a)"
    using get_block_no_read[OF ok a idle_can_get[OF i]] by blast
  define u where "u = t\<lparr>buf := (buf t)(k := (buf t k)\<lparr>b_data := x, b_dirt := DIRTY\<rparr>)\<rparr>"
  note f = fill_buf[OF t(4,2,6) a(1) u_def]
  have oku: "fs_ok {} u" using f(1) by simp
  have cu: "counted k s u" using t(3) f(4) by (simp add: counted_def)
  have "b_count (buf u k) \<noteq> 0" using i t(2) cu by (simp add: counted_def idle_def)
  note p = put_block_ok[OF oku t(2) this, of ty]
  have nr: "nr_buf2 t = nr_buf2 s" "nr_buf2 u = nr_buf2 s" "nr_buf2 (put_block (Some k) ty u) = nr_buf2 s"
    using t(5) f(2) p(2) by (simp_all add: view_but_def view_eq_def)
  have "block_mem (put_block (Some k) ty u) b = ((block_mem s)(a := x)) b" if "visible s b" for b
  proof -
    have "block_mem (put_block (Some k) ty u) b = block_mem u b" using p(2) that nr by (auto simp: view_eq_def visible_def)
    also have "\<dots> = ((block_mem s)(a := x)) b"
    proof (cases "b = a")
      case True
      then show ?thesis using f(3) by simp
    next
      case False
      then have "\<not> (fst b = fst a \<and> snd b = snd a)" by (simp add: prod_eq_iff)
      then show ?thesis using f(2) t(5) that False nr unfolding view_but_def visible_def by auto
    qed
    finally show ?thesis .
  qed
  moreover have "write_block ty a x s = Inr (put_block (Some k) ty u)" using t(1) by (simp add: write_block_def u_def)
  moreover have "visible (put_block (Some k) ty u) = visible s" using nr by (simp add: visible_def fun_eq_iff)
  ultimately show ?thesis using idle_again[OF i cu p(3,1)] by blast
qed

interpretation bs: block_store "read_block ty" "write_block ty" idle visible block_mem
  by unfold_locales (use read_block_ok write_block_ok in blast)+

text \<open>C21. Any sequence of block reads and block writes through the cache answers like a plain memory of blocks: each
  read returns the last contents written to the block, or what its device held at the start, no buffer runs out, and at the end the
  memory of blocks is that of the sequence. The two levels of the cache, evictions, flushes and the hash and LRU chains are not
  observable. The conditions: the state has the invariant of the cache, with no buffer in use and devices that do not fail
  (\<open>idle\<close>), and the requests name a device, a block below the limit of 4 GB, and not the RAM disk while the second level of the cache is in
  use (\<open>visible\<close>). A read is \<open>get_block\<close> and \<open>put_block\<close>; a write gets the block without reading it, fills it and marks it dirty.\<close>

theorem cache_refines_memory:
  assumes "idle s" and "\<forall>r\<in>set rs. visible s (request_addr r)"
  shows "\<exists>s'. run_requests (read_block ty) (write_block ty) rs s = Inr (fst (replay rs (block_mem s)), s') \<and> idle s'
     \<and> (\<forall>a. visible s a \<longrightarrow> block_mem s' a = snd (replay rs (block_mem s)) a)"
  using bs.run_replay[OF assms] by blast

text \<open>The zeroed memory in which the server starts, with devices that never fail.\<close>

definition fs_start :: fs where
  "fs_start =
     \<lparr>buf = (\<lambda>_. \<lparr>b_data = (\<lambda>_. 0), b_next = None, b_prev = None, b_hash = None, b_blocknr = 0, b_dev = 0,
        b_dirt = False, b_count = 0\<rparr>),
      buf_hash = (\<lambda>_. None), front = None, rear = None, bufs_in_use = 0,
      buf2 = (\<lambda>_. \<lparr>b2_blocknr = 0, b2_dev = 0, b2_count = 0\<rparr>), nr_buf2 = 0, buf2_idx = 0,
      super_block = (\<lambda>_. \<lparr>s_ninodes = 0, s_nzones = 0, s_imap_blocks = 0, s_zmap_blocks = 0, s_firstdatazone = 0,
        s_log_zone_size = 0, s_max_size = 0, s_magic = 0, s_zones = 0, s_isup = None, s_imount = None,
        s_inodes_per_block = 0, s_dev = 0, s_rd_only = False, s_native = False, s_version = 0, s_ndzones = 0,
        s_nindirs = 0, s_isearch = 0, s_zsearch = 0\<rparr>),
      inode = (\<lambda>_. \<lparr>i_mode = 0, i_nlinks = 0, i_uid = 0, i_gid = 0, i_size = 0, i_atime = 0, i_mtime = 0, i_ctime = 0,
        i_zone = (\<lambda>_. 0), i_dev = 0, i_num = 0, i_count = 0, i_ndzones = 0, i_nindirs = 0, i_sp = None, i_dirt = False,
        i_pipe = False, i_mount = False, i_seek = False, i_update = 0\<rparr>),
      fp_effuid = 0, fp_effgid = 0, err_code = 0, rdwt_err = 0, bp_rootdev = 0x300,
      disk = (\<lambda>_ _ _. 0), io_reply = (\<lambda>_ _ _ _. 1024), io_count = 0, clock_now = Some 0\<rparr>"

lemma idle_start: "idle (buf_pool fs_start)"
proof -
  have "b_count (buf (buf_pool fs_start) i) = 0" for i by (simp add: buf_pool_def fs_start_def Let_def)
  moreover have "fs_ok {} (buf_pool fs_start)" by (rule buf_pool_ok) (simp_all add: fs_start_def reliable_def)
  ultimately show ?thesis by (simp add: idle_def)
qed

lemma visible_start: "visible (buf_pool fs_start) (0x301, 5)"
  by (simp add: visible_def word_less_nat_alt buf_pool_def fs_start_def Let_def)

theorem cache_refines_memory_witness:
  "\<exists>s'. run_requests (read_block 6) (write_block 6)
     [Read (0x301, 5), Write (0x301, 5) (\<lambda>_. 7), Read (0x301, 5)] (buf_pool fs_start) = Inr ([\<lambda>_. 0, \<lambda>_. 7], s')"
proof -
  let ?rs = "[Read (0x301, 5), Write (0x301, 5) (\<lambda>_. 7), Read (0x301, 5)] :: (u16 \<times> u32, block) request list"
  have "content {} (buf_pool fs_start) 0x301 5 = (\<lambda>_. 0)"
    by (subst buf_pool_ok(2)) (simp_all add: fs_start_def reliable_def)
  then show ?thesis using cache_refines_memory[OF idle_start, of ?rs 6] visible_start by auto
qed

lemma dev_block_disk: "snd (dev_block op dev pos i s) = s' \<Longrightarrow> d \<noteq> dev \<Longrightarrow> disk s' d = disk s d"
  by (auto simp: dev_block_def transfer_def Let_def)

lemma dev_vector_disk: "d \<noteq> dev \<Longrightarrow> disk (snd (dev_vector dev qs s)) d = disk s d"
proof (induction qs arbitrary: s)
  case (Cons q qs)
  show ?case
    using Cons.IH[OF Cons.prems] dev_block_disk[OF refl Cons.prems] by (simp add: Let_def split: prod.splits) (metis snd_conv)
qed simp

lemma harvest_disk: "disk (fold (harvest dev WRITING) es s) = disk s"
  by (induction es arbitrary: s) (auto simp: harvest_def Let_def split: prod.splits)

lemma scattered_io_disk: "d \<noteq> dev \<Longrightarrow> disk (scattered_io dev WRITING q s) d = disk s d"
proof (induction dev WRITING q s rule: scattered_io.induct)
  case (1 dev q s)
  then show ?case
    using dev_vector_disk[OF 1(2), of "map (io_entry WRITING s) (take NR_IOREQS q)" s]
    by (subst scattered_io.simps) (auto simp: Let_def harvest_disk split: prod.splits)
qed

lemma flushall_disk: "flushall dev s = Inr s' \<Longrightarrow> d \<noteq> dev \<Longrightarrow> disk s' d = disk s d"
  by (auto simp: flushall_def rw_scattered_def bnd_eq_Inr scattered_io_disk)

text \<open>C40. Flushing a device ends and makes it durable. In a state with the invariant of the cache, with devices that do not fail and
  no buffer of the device waiting to be filled, \<open>flushall\<close> leaves on the device, for every block below the limit of 4 GB, the
  contents the block has for the server. It writes to no other device, changes the contents of no block, and keeps the invariant.\<close>

theorem flushall_durable:
  assumes "fs_ok X s" and "dev \<noteq> NO_DEV" and "\<forall>i\<in>X. b_dev (buf s i) \<noteq> dev"
  shows "\<exists>s'. flushall dev s = Inr s' \<and> fs_ok X s' \<and> view_eq s s' \<and> (\<forall>d. d \<noteq> dev \<longrightarrow> disk s' d = disk s d)
     \<and> (\<forall>b<max_block. disk s' dev (pos_of b) = content {} s dev b)"
  using flushall_writes[OF assms(1,2)] assms(3) flushall_disk by blast

theorem flushall_durable_witness:
  "\<exists>s s'. write_block 6 (0x301, 5) (\<lambda>_. 7) (buf_pool fs_start) = Inr s \<and> flushall 0x301 s = Inr s'
     \<and> disk s' 0x301 (pos_of 5) = (\<lambda>_. 7)"
proof -
  obtain s where s: "write_block 6 (0x301, 5) (\<lambda>_. 7) (buf_pool fs_start) = Inr s" "idle s" "block_mem s (0x301, 5) = (\<lambda>_. 7)"
    using write_block_ok[OF idle_start visible_start, of 6 "\<lambda>_. 7"] visible_start by auto
  have "fs_ok {} s" using s(2) by (simp add: idle_def)
  from flushall_durable[OF this, where dev = "0x301"] obtain s' where
    "flushall 0x301 s = Inr s'" "\<forall>b<max_block. disk s' 0x301 (pos_of b) = content {} s 0x301 b" by auto
  moreover from this(2) have "disk s' 0x301 (pos_of 5) = content {} s 0x301 5"
    by (rule allE[of _ 5]) (simp add: word_less_nat_alt)
  ultimately show ?thesis using s(1,3) by auto
qed

text \<open>The Shell sort of \<open>rw_scattered\<close> ends within its bound for any queue of buffers and puts the buffers in
  ascending order of their block numbers.\<close>

lemma shell_sort_sorts:
  assumes "length q \<le> NR_BUFS"
  shows "\<exists>q'. shell_sort sort_fuel (first_gap 1 (length q)) blocknr q = Inr q'
     \<and> mset q' = mset q \<and> sorted (map blocknr q')"
  by (rule shell_sort_ok[OF assms])

end
