(* ===== verification/Fs_Super.thy ===== *)
theory Fs_Super
  imports Fs_Cache
begin

text \<open>
  The super blocks and the bit maps of a file system, \<^verbatim>\<open>src/src/fs/super.c\<close>, the allocation of
  zones of \<^verbatim>\<open>src/src/fs/cache.c\<close>, and the byte order conversions of
  \<^verbatim>\<open>src/src/fs/utility.c\<close>. The members of the union of \<open>struct buf\<close> and of the structures on disk
  are read from the bytes of a block, low byte first. A \<open>short\<close> is a 16-bit word that is extended with
  its sign where the code uses its value.
\<close>

subsection \<open>Bytes\<close>

definition get16 :: "block \<Rightarrow> nat \<Rightarrow> u16" where
  "get16 d i = ucast (d i) OR push_bit 8 (ucast (d (i + 1)))"

definition put16 :: "block \<Rightarrow> nat \<Rightarrow> u16 \<Rightarrow> block" where
  "put16 d i w = d(i := ucast w, i + 1 := ucast (drop_bit 8 w))"

definition get32 :: "block \<Rightarrow> nat \<Rightarrow> u32" where
  "get32 d i = ucast (get16 d i) OR push_bit 16 (ucast (get16 d (i + 2)))"

definition put32 :: "block \<Rightarrow> nat \<Rightarrow> u32 \<Rightarrow> block" where
  "put32 d i w = put16 (put16 d i (ucast w)) (i + 2) (ucast (drop_bit 16 w))"

definition conv2 :: "bool \<Rightarrow> u32 \<Rightarrow> u32" where
  "conv2 norm w =
     (if norm then w AND 0xFFFF else push_bit 8 (w AND 0xFF) OR (drop_bit 8 w AND 0xFF))"

definition conv4 :: "bool \<Rightarrow> u32 \<Rightarrow> u32" where
  "conv4 norm x =
     (if norm then x
      else let lo = conv2 False (x AND 0xFFFF);
               hi = conv2 False (drop_bit 16 x AND 0xFFFF)
           in push_bit 16 lo OR hi)"

subsection \<open>Super blocks\<close>

abbreviation (input) SUPER_MAGIC :: u32 where "SUPER_MAGIC \<equiv> 0x137F"
abbreviation (input) SUPER_V2 :: u32 where "SUPER_V2 \<equiv> 0x2468"
abbreviation (input) V1 :: int where "V1 \<equiv> 1"
abbreviation (input) V2 :: int where "V2 \<equiv> 2"
abbreviation (input) V1_INODES_PER_BLOCK :: u32 where "V1_INODES_PER_BLOCK \<equiv> 32"
abbreviation (input) V2_INODES_PER_BLOCK :: u32 where "V2_INODES_PER_BLOCK \<equiv> 16"
abbreviation (input) V1_NR_DZONES :: int where "V1_NR_DZONES \<equiv> 7"
abbreviation (input) V2_NR_DZONES :: int where "V2_NR_DZONES \<equiv> 7"
abbreviation (input) V1_INDIRECTS :: int where "V1_INDIRECTS \<equiv> 512"
abbreviation (input) V2_INDIRECTS :: int where "V2_INDIRECTS \<equiv> 256"
abbreviation (input) FS_EINVAL :: int where "FS_EINVAL \<equiv> - 22"
abbreviation (input) ENOSPC :: int where "ENOSPC \<equiv> - 28"

abbreviation SB :: "fs \<Rightarrow> nat \<Rightarrow> super_block_t" where
  "SB s sp \<equiv> super_block s sp"

definition get_super :: "u16 \<Rightarrow> fs \<Rightarrow> nat res" where
  "get_super dev s =
     (case List.find (\<lambda>sp. s_dev (SB s sp) = dev) [0..<NR_SUPERS] of
        Some sp \<Rightarrow> Inr sp
      | None \<Rightarrow> Inl (Panic ''can't find superblock for device (in decimal)''))"

definition mounted :: "nat \<Rightarrow> fs \<Rightarrow> bool" where
  "mounted rip s =
     (let dev = ucast (i_zone (inode s rip) 0)
      in if dev = bp_rootdev s then True
         else List.find (\<lambda>sp. s_dev (SB s sp) = dev) [0..<NR_SUPERS] \<noteq> None)"

text \<open>
  The copy of a whole \<open>struct super_block\<close>. The members that are used in memory only get whatever the
  block holds at their place; a pointer that is not null is some address.
\<close>

definition ptr_of :: "u32 \<Rightarrow> nat option" where
  "ptr_of w = (if w = 0 then None else Some (unat w))"

definition super_of_block :: "block \<Rightarrow> super_block_t" where
  "super_of_block d =
     \<lparr>s_ninodes = get16 d 0, s_nzones = get16 d 2, s_imap_blocks = get16 d 4, s_zmap_blocks = get16 d 6,
      s_firstdatazone = get16 d 8, s_log_zone_size = get16 d 10, s_max_size = get32 d 12, s_magic = get16 d 16,
      s_zones = get32 d 20, s_isup = ptr_of (get32 d 24), s_imount = ptr_of (get32 d 28),
      s_inodes_per_block = get32 d 32, s_dev = get16 d 36, s_rd_only = (get32 d 40 \<noteq> 0),
      s_native = (get32 d 44 \<noteq> 0), s_version = sint (get32 d 48), s_ndzones = sint (get32 d 52),
      s_nindirs = sint (get32 d 56), s_isearch = get32 d 60, s_zsearch = get32 d 64\<rparr>"

definition super_swap :: "bool \<Rightarrow> super_block_t \<Rightarrow> super_block_t" where
  "super_swap native sb =
     sb\<lparr>s_ninodes := ucast (conv2 native (ucast (s_ninodes sb))),
        s_nzones := ucast (conv2 native (ucast (s_nzones sb))),
        s_imap_blocks := ucast (conv2 native (scast (s_imap_blocks sb))),
        s_zmap_blocks := ucast (conv2 native (scast (s_zmap_blocks sb))),
        s_firstdatazone := ucast (conv2 native (ucast (s_firstdatazone sb))),
        s_log_zone_size := ucast (conv2 native (scast (s_log_zone_size sb))),
        s_max_size := conv4 native (s_max_size sb),
        s_zones := conv4 native (s_zones sb)\<rparr>"

definition super_version :: "int \<Rightarrow> bool \<Rightarrow> super_block_t \<Rightarrow> super_block_t" where
  "super_version version native sb =
     (let sb = (if version = V1
                then sb\<lparr>s_zones := ucast (s_nzones sb), s_inodes_per_block := V1_INODES_PER_BLOCK,
                        s_ndzones := V1_NR_DZONES, s_nindirs := V1_INDIRECTS\<rparr>
                else sb\<lparr>s_inodes_per_block := V2_INODES_PER_BLOCK,
                        s_ndzones := V2_NR_DZONES, s_nindirs := V2_INDIRECTS\<rparr>)
      in sb\<lparr>s_isearch := 0, s_zsearch := 0, s_version := version, s_native := native\<rparr>)"

definition super_reasonable :: "super_block_t \<Rightarrow> bool" where
  "super_reasonable sb \<longleftrightarrow>
     \<not> (sint (s_imap_blocks sb) < 1 \<or> sint (s_zmap_blocks sb) < 1 \<or> s_ninodes sb < 1 \<or> s_zones sb < 1
        \<or> (scast (s_log_zone_size sb) :: u32) > 4)"

definition read_super :: "nat \<Rightarrow> fs \<Rightarrow> (int \<times> fs) res" where
  "read_super sp s =
     (let dev = s_dev (SB s sp)
      in bnd (get_block (s_dev (SB s sp)) SUPER_BLOCK NORMAL s) (\<lambda>(bp, s).
         let s = upd_super sp (\<lambda>_. super_of_block (b_data (buf s bp))) s;
             s = put_block (Some bp) ZUPER_BLOCK s;
             s = upd_super sp (s_dev_update (\<lambda>_. NO_DEV)) s;
             magic = scast (s_magic (SB s sp)) :: u32
         in case (if magic = SUPER_MAGIC \<or> magic = conv2 False SUPER_MAGIC then Some (V1, magic = SUPER_MAGIC)
                  else if magic = SUPER_V2 \<or> magic = conv2 False SUPER_V2 then Some (V2, magic = SUPER_V2)
                  else None) of
              None \<Rightarrow> Inr (FS_EINVAL, s)
            | Some (version, native) \<Rightarrow>
                let s = upd_super sp (super_swap native) s;
                    s = upd_super sp (super_version version native) s
                in if \<not> super_reasonable (SB s sp) then Inr (FS_EINVAL, s)
                   else Inr (FS_OK, upd_super sp (s_dev_update (\<lambda>_. dev)) s)))"

subsection \<open>Bit maps\<close>

datatype bitmap = IMAP | ZMAP

abbreviation (input) BITCHUNK_BITS :: u32 where "BITCHUNK_BITS \<equiv> 16"
abbreviation (input) BITS_PER_BLOCK :: u32 where "BITS_PER_BLOCK \<equiv> 8192"
abbreviation (input) BITMAP_CHUNKS :: nat where "BITMAP_CHUNKS \<equiv> 512"

definition start_block :: "bitmap \<Rightarrow> super_block_t \<Rightarrow> u32" where
  "start_block m sb = (if m = IMAP then SUPER_BLOCK + 1 else SUPER_BLOCK + 1 + scast (s_imap_blocks sb))"

definition map_bits :: "bitmap \<Rightarrow> super_block_t \<Rightarrow> u32" where
  "map_bits m sb = (if m = IMAP then ucast (s_ninodes sb) + 1 else s_zones sb - (ucast (s_firstdatazone sb) - 1))"

definition bit_blocks :: "bitmap \<Rightarrow> super_block_t \<Rightarrow> u32" where
  "bit_blocks m sb = (if m = IMAP then scast (s_imap_blocks sb) else scast (s_zmap_blocks sb))"

text \<open>The number of the lowest zero bit, \<open>for (i = 0; (k & (1 << i)) != 0; ++i)\<close>.\<close>

definition lowest_zero :: "u16 \<Rightarrow> nat" where
  "lowest_zero k = (case List.find (\<lambda>i. \<not> bit k i) [0..<16] of Some i \<Rightarrow> i | None \<Rightarrow> 16)"

text \<open>The loop over the words of a block; a hit is the word, its new value and the bit number.\<close>

fun scan_words :: "bool \<Rightarrow> u32 \<Rightarrow> u32 \<Rightarrow> block \<Rightarrow> nat list \<Rightarrow> (nat \<times> u16 \<times> u32) option" where
  "scan_words native bits block d [] = None"
| "scan_words native bits block d (w # ws) =
     (if get16 d (2 * w) = 0xFFFF then scan_words native bits block d ws
      else
        let k = ucast (conv2 native (ucast (get16 d (2 * w)))) :: u16;
            i = lowest_zero k;
            b = block * BITS_PER_BLOCK + of_nat w * BITCHUNK_BITS + of_nat i
        in if b \<ge> bits then None
           else Some (w, ucast (conv2 native (ucast (k OR push_bit i 1))), b))"

fun scan_blocks :: "nat \<Rightarrow> nat \<Rightarrow> bitmap \<Rightarrow> u32 \<Rightarrow> nat \<Rightarrow> fs \<Rightarrow> (u32 \<times> fs) res" where
  "scan_blocks 0 sp m block word s = Inr (NO_BIT, s)"
| "scan_blocks (Suc n) sp m block word s =
     bnd (get_block (s_dev (SB s sp)) (start_block m (SB s sp) + block) NORMAL s) (\<lambda>(bp, s).
     case scan_words (s_native (SB s sp)) (map_bits m (SB s sp)) block (b_data (buf s bp)) [word..<BITMAP_CHUNKS] of
       Some (w, k, b) \<Rightarrow>
         let s = upd_buf bp (\<lambda>x. x\<lparr>b_data := put16 (b_data x) (2 * w) k, b_dirt := DIRTY\<rparr>) s
         in Inr (b, put_block (Some bp) MAP_BLOCK s)
     | None \<Rightarrow>
         let s = put_block (Some bp) MAP_BLOCK s;
             block = (if block + 1 \<ge> bit_blocks m (SB s sp) then 0 else block + 1)
         in scan_blocks n sp m block 0 s)"

definition alloc_bit :: "nat \<Rightarrow> bitmap \<Rightarrow> u32 \<Rightarrow> fs \<Rightarrow> (u32 \<times> fs) res" where
  "alloc_bit sp m origin s =
     (if s_rd_only (SB s sp) then Inl (Panic ''can't allocate bit on read-only filesys.'')
      else
        let origin = (if origin \<ge> map_bits m (SB s sp) then 0 else origin);
            block = origin div BITS_PER_BLOCK;
            word = unat ((origin mod BITS_PER_BLOCK) div BITCHUNK_BITS);
            bcount = bit_blocks m (SB s sp) + 1
        in scan_blocks (if bcount = 0 then 2 ^ 32 else unat bcount) sp m block word s)"

definition free_bit :: "nat \<Rightarrow> bitmap \<Rightarrow> u32 \<Rightarrow> fs \<Rightarrow> fs res" where
  "free_bit sp m bit_returned s =
     (if s_rd_only (SB s sp) then Inl (Panic ''can't free bit on read-only filesys.'')
      else
        let block = bit_returned div BITS_PER_BLOCK;
            word = unat ((bit_returned mod BITS_PER_BLOCK) div BITCHUNK_BITS);
            i = unat (bit_returned mod BITCHUNK_BITS);
            mask0 = push_bit i 1 :: u16
        in bnd (get_block (s_dev (SB s sp)) (start_block m (SB s sp) + block) NORMAL s) (\<lambda>(bp, s).
           let k = ucast (conv2 (s_native (SB s sp)) (ucast (get16 (b_data (buf s bp)) (2 * word)))) :: u16
           in if k AND mask0 = 0
              then Inl (Panic (if m = IMAP then ''tried to free unused inode'' else ''tried to free unused block''))
              else
                let k = k AND NOT mask0;
                    s = upd_buf bp (\<lambda>x. x\<lparr>b_data := put16 (b_data x) (2 * word)
                          (ucast (conv2 (s_native (SB s sp)) (ucast k))), b_dirt := DIRTY\<rparr>) s
                in Inr (put_block (Some bp) MAP_BLOCK s)))"

subsection \<open>Zones\<close>

definition alloc_zone :: "u16 \<Rightarrow> u32 \<Rightarrow> fs \<Rightarrow> (u32 \<times> fs) res" where
  "alloc_zone dev z s =
     bnd (get_super dev s) (\<lambda>sp.
     let first = ucast (s_firstdatazone (SB s sp));
         start = (if z = first then s_zsearch (SB s sp) else z - (first - 1))
     in bnd (alloc_bit sp ZMAP start s) (\<lambda>(b, s).
        if b = NO_BIT then Inr (NO_ZONE, s\<lparr>err_code := ENOSPC\<rparr>)
        else
          let s = (if z = first then upd_super sp (s_zsearch_update (\<lambda>_. b)) s else s)
          in Inr (first - 1 + b, s)))"

definition free_zone :: "u16 \<Rightarrow> u32 \<Rightarrow> fs \<Rightarrow> fs res" where
  "free_zone dev numb s =
     bnd (get_super dev s) (\<lambda>sp.
     let first = ucast (s_firstdatazone (SB s sp))
     in if numb < first \<or> numb \<ge> s_zones (SB s sp) then Inr s
        else
          let b = numb - (first - 1)
          in bnd (free_bit sp ZMAP b s) (\<lambda>s.
             Inr (if b < s_zsearch (SB s sp) then upd_super sp (s_zsearch_update (\<lambda>_. b)) s else s)))"

end
