(* ===== verification/Fs_Bitmap.thy ===== *)
theory Fs_Bitmap
  imports Fs_Coherence Fs_Super
begin

text \<open>
  The bit maps at work. The first part gives the two ways in which the code uses a block: it looks at
  it, or it changes it in place. The second part shows that the conversions of byte order undo
  themselves. The third part describes a map as a set of bit numbers (\<open>map_bit\<close>) and shows that
  \<open>alloc_bit\<close> finds a free bit from any origin unless the map is full, and that \<open>free_bit\<close> clears
  exactly one bit; on this rests the allocation of zones (\<open>alloc_zone_ok\<close>, \<open>free_zone_ok\<close>).
\<close>

subsection \<open>Reading and changing a block in place\<close>

text \<open>There is a buffer for any block.\<close>

definition roomy :: "fs \<Rightarrow> bool" where
  "roomy s \<longleftrightarrow> (\<exists>i<NR_BUFS. b_count (buf s i) = 0) \<and> (\<forall>i<NR_BUFS. b_count (buf s i) \<noteq> - 1)"

text \<open>A later state with the same users of the buffers; a buffer in use is not given to another block.\<close>

definition same_counts :: "fs \<Rightarrow> fs \<Rightarrow> bool" where
  "same_counts s s' \<longleftrightarrow>
     (\<forall>i. b_count (buf s' i) = b_count (buf s i)
        \<and> (b_count (buf s i) \<noteq> 0 \<longrightarrow> b_dev (buf s' i) = b_dev (buf s i) \<and> b_blocknr (buf s' i) = b_blocknr (buf s i)))"

text \<open>A state in which the server can work on the blocks of device \<open>dev\<close>.\<close>

definition ready_on :: "u16 \<Rightarrow> fs \<Rightarrow> bool" where
  "ready_on dev s \<longleftrightarrow> fs_ok {} s \<and> roomy s \<and> dev \<noteq> NO_DEV \<and> (nr_buf2 s = 0 \<or> dev \<noteq> DEV_RAM)"

lemma roomy_can_get: "roomy s \<Longrightarrow> can_get s d b"
  by (auto simp: can_get_def roomy_def split: option.split dest: holder_SomeD)

lemma roomy_counts: "roomy s \<Longrightarrow> same_counts s s' \<Longrightarrow> roomy s'"
  by (simp add: roomy_def same_counts_def)

lemma same_counts_refl [simp]: "same_counts s s"
  by (simp add: same_counts_def)

lemma same_counts_trans: "same_counts s s' \<Longrightarrow> same_counts s' s'' \<Longrightarrow> same_counts s s''"
  by (simp add: same_counts_def)

lemma ready_onD: "ready_on dev s \<Longrightarrow> fs_ok {} s" "ready_on dev s \<Longrightarrow> dev \<noteq> NO_DEV"
  "ready_on dev s \<Longrightarrow> nr_buf2 s = 0 \<or> dev \<noteq> DEV_RAM" "ready_on dev s \<Longrightarrow> roomy s"
  by (simp_all add: ready_on_def)

lemma counted_released:
  assumes "roomy s" and "k < NR_BUFS" and "counted k s t" and "pins s t" and "same_counts t u" and "uncounted k u v"
    and "\<And>i. b_dev (buf v i) = b_dev (buf u i) \<and> b_blocknr (buf v i) = b_blocknr (buf u i)"
  shows "same_counts s v"
proof -
  have "b_count (buf s i) \<noteq> 0 \<Longrightarrow> b_count (buf t i) \<noteq> 0" for i
    using assms(1-3) by (cases "i = k") (auto simp: roomy_def counted_def add_eq_0_iff2)
  moreover have "b_count (buf v i) = b_count (buf s i)" for i
    using assms(3,5,6) by (simp add: counted_def same_counts_def uncounted_def)
  ultimately show ?thesis using assms(4,5,7) by (simp add: pins_def same_counts_def)
qed

lemma roomy_counted: "roomy s \<Longrightarrow> counted k s t \<Longrightarrow> k < NR_BUFS \<Longrightarrow> b_count (buf t k) \<noteq> 0"
  by (auto simp: roomy_def counted_def add_eq_0_iff2)

text \<open>Looking at a block.\<close>

lemma peek_block:
  assumes r: "ready_on dev s" and b: "block < max_block"
  obtains k t where "get_block dev block NORMAL s = Inr (k, t)" and "b_data (buf t k) = content {} s dev block"
    and "rest t = rest s" and "ready_on dev (put_block (Some k) ty t)" and "view_eq s (put_block (Some k) ty t)"
    and "same_counts s (put_block (Some k) ty t)" and "k < NR_BUFS" and "named t k dev block"
proof -
  note d = ready_onD[OF r]
  obtain k t where t: "get_block dev block NORMAL s = Inr (k, t)" "k < 80" "counted k s t" "fs_ok {} t" "view_eq s t"
    "named t k dev block" "b_data (buf t k) = content {} s dev block"
    using get_block_normal[OF d(1,2) b d(3) roomy_can_get[OF d(4)]] by blast
  note p = put_block_ok[OF t(4,2) roomy_counted[OF d(4) t(3,2)], of ty]
  have pin: "pins s t" by (rule get_block_pins[OF d(1,2) b d(3) roomy_can_get[OF d(4)] t(1)])
  have v: "view_eq s (put_block (Some k) ty t)" using view_eq_trans[OF t(5) p(2)] by simp
  have c: "same_counts s (put_block (Some k) ty t)" using counted_released[OF d(4) t(2,3) pin same_counts_refl p(3)] p(4,5) by simp
  have "ready_on dev (put_block (Some k) ty t)"
    using p(1) roomy_counts[OF d(4) c] d(2,3) v by (simp add: ready_on_def view_eq_def)
  moreover have "rest t = rest s" using t(5) by (simp add: view_eq_def)
  ultimately show thesis using that t v c by blast
qed

text \<open>A later state in which one block has other contents.\<close>

definition block_upd :: "u16 \<Rightarrow> u32 \<Rightarrow> block \<Rightarrow> fs \<Rightarrow> fs \<Rightarrow> bool" where
  "block_upd dev block v s s' \<longleftrightarrow> view_but dev block s s' \<and> content {} s' dev block = v \<and> same_counts s s'"

lemma change_block:
  assumes r: "ready_on dev s" and b: "block < max_block" and g: "get_block dev block NORMAL s = Inr (k, t)"
    and u: "u = upd_buf k (\<lambda>x. x\<lparr>b_data := v, b_dirt := DIRTY\<rparr>) t"
  shows "ready_on dev (put_block (Some k) ty u)" and "block_upd dev block v s (put_block (Some k) ty u)"
proof -
  note d = ready_onD[OF r]
  have t: "k < 80" "counted k s t" "fs_ok {} t" "view_eq s t" "named t k dev block"
    using get_block_normal[OF d(1,2) b d(3) roomy_can_get[OF d(4)]] g by auto
  have u': "u = t\<lparr>buf := (buf t)(k := (buf t k)\<lparr>b_data := v, b_dirt := DIRTY\<rparr>)\<rparr>" by (simp add: u)
  note f = fill_buf[OF t(3,1,5) d(2) u']
  have oku: "fs_ok {} u" using f(1) by simp
  have pin: "pins s t" by (rule get_block_pins[OF d(1,2) b d(3) roomy_can_get[OF d(4)] g])
  have cu: "same_counts t u" "b_count (buf u k) \<noteq> 0"
    using f(4) roomy_counted[OF d(4) t(2,1)] by (simp_all add: same_counts_def u')
  note p = put_block_ok[OF oku t(1) cu(2), of ty]
  have c: "same_counts s (put_block (Some k) ty u)" using counted_released[OF d(4) t(1,2) pin cu(1) p(3)] p(4,5) by simp
  have p2: "view_eq u (put_block (Some k) ty u)" using p(2) by simp
  have vb: "view_but dev block s (put_block (Some k) ty u)"
    using t(4) f(2) p2 by (simp add: view_but_def view_eq_def)
  moreover have "content {} (put_block (Some k) ty u) dev block = v"
    using p2 f(2,3) b d(2,3) t(4) by (simp add: view_eq_def view_but_def)
  ultimately show "block_upd dev block v s (put_block (Some k) ty u)" using c by (simp add: block_upd_def)
  show "ready_on dev (put_block (Some k) ty u)"
    using p(1) roomy_counts[OF d(4) c] d(2,3) vb by (simp add: ready_on_def view_but_def)
qed

subsection \<open>Bytes and byte order\<close>

lemma bit_get16: "bit (get16 d i) n \<longleftrightarrow> (if n < 8 then bit (d i) n else n < 16 \<and> bit (d (i + 1)) (n - 8))"
  unfolding get16_def
  by (auto simp: bit_simps not_less dest: bit_imp_le_length)

lemma get_put16 [simp]: "get16 (put16 d i w) i = w"
  by (rule bit_word_eqI) (auto simp: bit_get16 put16_def bit_simps)

lemma get_put16_other: "j + 1 < i \<or> i + 1 < j \<Longrightarrow> get16 (put16 d i w) j = get16 d j"
  by (auto simp: get16_def put16_def)

lemma bit_conv2:
  "bit (conv2 norm w) n \<longleftrightarrow> n < 16 \<and> bit w (if norm then n else if n < 8 then n + 8 else n - 8)"
proof -
  have m: "(0xFFFF :: u32) = mask 16" "(0xFF :: u32) = mask 8" by (simp_all add: mask_eq_exp_minus_1)
  show ?thesis unfolding conv2_def m by (auto simp: bit_simps not_less add.commute)
qed

text \<open>Both conversions undo themselves.\<close>

lemma conv2_conv2: "conv2 norm (conv2 norm w) = w AND 0xFFFF"
proof -
  have m: "(0xFFFF :: u32) = mask 16" by (simp add: mask_eq_exp_minus_1)
  show ?thesis unfolding m by (rule bit_word_eqI) (auto simp: bit_conv2 bit_simps)
qed

definition swap16 :: "bool \<Rightarrow> u16 \<Rightarrow> u16" where
  "swap16 norm w = ucast (conv2 norm (ucast w))"

lemma bit_swap16: "bit (swap16 norm w) n \<longleftrightarrow> n < 16 \<and> bit w (if norm then n else if n < 8 then n + 8 else n - 8)"
  unfolding swap16_def by (auto simp: bit_simps bit_conv2)

lemma swap16_swap16 [simp]: "swap16 norm (swap16 norm w) = w"
  by (rule bit_word_eqI) (auto simp: bit_swap16)

lemma swap16_ones: "swap16 norm w = - 1 \<longleftrightarrow> w = - 1"
proof -
  have "swap16 norm (- 1) = - 1" by (rule bit_word_eqI) (auto simp: bit_swap16)
  then show ?thesis by (metis swap16_swap16)
qed

lemma bit_conv4:
  "bit (conv4 False x) n \<longleftrightarrow>
     n < 32 \<and> bit x (if n < 8 then n + 24 else if n < 16 then n + 8 else if n < 24 then n - 8 else n - 24)"
proof -
  have m: "(0xFFFF :: u32) = mask 16" by (simp add: mask_eq_exp_minus_1)
  show ?thesis unfolding conv4_def m by (auto simp: bit_conv2 bit_simps Let_def not_less add.commute)
qed

lemma conv4_conv4 [simp]: "conv4 norm (conv4 norm x) = x"
proof (cases norm)
  case False
  have "conv4 False (conv4 False x) = x" by (rule bit_word_eqI) (auto simp: bit_conv4)
  with False show ?thesis by simp
qed (simp add: conv4_def)

subsection \<open>The bits of a map\<close>

definition bit_of :: "bool \<Rightarrow> block \<Rightarrow> nat \<Rightarrow> bool" where
  "bit_of native d j = bit (swap16 native (get16 d (2 * (j div 16)))) (j mod 16)"

lemma bit_of_put16:
  assumes "j < 8192" and "w < 512"
  shows "bit_of native (put16 d (2 * w) (swap16 native k)) j = (if j div 16 = w then bit k (j mod 16) else bit_of native d j)"
proof (cases "j div 16 = w")
  case False
  then have "2 * (j div 16) + 1 < 2 * w \<or> 2 * w + 1 < 2 * (j div 16)" by linarith
  then show ?thesis using False by (simp add: bit_of_def get_put16_other)
qed (simp add: bit_of_def)

lemma lowest_zero_ok:
  assumes "k \<noteq> - 1"
  shows "lowest_zero k < 16" "\<not> bit k (lowest_zero k)" "i < lowest_zero k \<Longrightarrow> bit k i"
proof -
  have "\<exists>i<16. \<not> bit k i"
  proof (rule ccontr)
    assume "\<not> ?thesis"
    then have "k = - 1" by (intro bit_word_eqI) auto
    with assms show False ..
  qed
  then obtain z where z: "List.find (\<lambda>i. \<not> bit k i) [0..<16] = Some z"
    by (cases "List.find (\<lambda>i. \<not> bit k i) [0..<16]") (auto simp: find_None_iff)
  then have lz: "lowest_zero k = z" by (simp add: lowest_zero_def)
  from z obtain p where "p < 16" "\<not> bit k z" "z = p" "\<forall>j<p. bit k j"
    by (auto simp: find_Some_iff nth_upt simp del: upt_Suc)
  then show "lowest_zero k < 16" "\<not> bit k (lowest_zero k)" "i < lowest_zero k \<Longrightarrow> bit k i" by (auto simp: lz)
qed

text \<open>A scan of the words of block number \<open>block\<close> of a map of \<open>bits\<close> bits.\<close>

lemma scan_words_ok:
  assumes "unat block * 8192 + 8192 < 2 ^ 32" and "v \<le> 512"
  shows "case scan_words native bits block d [v..<512] of
      Some (w, k, b) \<Rightarrow> v \<le> w \<and> w < 512 \<and> b < bits \<and>
        (\<exists>j<8192. j div 16 = w \<and> unat b = unat block * 8192 + j \<and> \<not> bit_of native d j
           \<and> (\<forall>i<8192. bit_of native (put16 d (2 * w) k) i = (i = j \<or> bit_of native d i)))
    | None \<Rightarrow> \<forall>j<8192. v \<le> j div 16 \<and> unat block * 8192 + j < unat bits \<longrightarrow> bit_of native d j"
  using assms(2)
proof (induction "512 - v" arbitrary: v)
  case 0
  then have "v = 512" by simp
  moreover have "j div 16 < 512" if "j < 8192" for j :: nat using that by (simp add: div_less_iff_less_mult)
  ultimately show ?case by auto
next
  case (Suc m)
  then have v: "v < 512" "[v..<512] = v # [Suc v..<512]" by (simp_all add: upt_rec)
  let ?g = "get16 d (2 * v)"
  have ones: "(0xFFFF :: u16) = - 1" by simp
  show ?case
  proof (cases "?g = 0xFFFF")
    case True
    then have "scan_words native bits block d [v..<512] = scan_words native bits block d [Suc v..<512]" using v by simp
    moreover have "bit_of native d j" if "j div 16 = v" for j
      using that True swap16_ones[of native "- 1"] unfolding ones by (simp add: bit_of_def)
    moreover have "v \<le> l \<longleftrightarrow> l = v \<or> Suc v \<le> l" for l by auto
    moreover have "m = 512 - Suc v" "Suc v \<le> 512" using Suc.hyps(2) v(1) by simp_all
    note Suc.hyps(1)[OF this]
    ultimately show ?thesis by (cases "scan_words native bits block d [Suc v..<512]") (auto simp del: upt_Suc)
  next
    case False
    define k where "k = swap16 native ?g"
    define i where "i = lowest_zero k"
    have "k \<noteq> - 1" using False swap16_ones unfolding ones by (simp add: k_def)
    note z = lowest_zero_ok[OF this, folded i_def]
    define j where "j = v * 16 + i"
    have j: "j < 8192" "j div 16 = v" "j mod 16 = i" using v(1) z(1) by (simp_all add: j_def)
    let ?b = "block * 8192 + of_nat v * 16 + of_nat i :: u32"
    have ub: "unat ?b = unat block * 8192 + j"
      using assms(1) v(1) z(1) by (simp add: unat_word_ariths unat_of_nat j_def)
    have eq: "scan_words native bits block d [v..<512] =
        (if ?b \<ge> bits then None else Some (v, swap16 native (k OR push_bit i 1), ?b))"
      using v(2) False by (simp add: k_def i_def swap16_def Let_def)
    have notj: "\<not> bit_of native d j" using z(2) j by (simp add: bit_of_def k_def)
    show ?thesis
    proof (cases "?b \<ge> bits")
      case True
      have "bit_of native d l" if "l < 8192" "v \<le> l div 16" "unat block * 8192 + l < unat bits" for l
      proof -
        have "l < j" using that(3) True ub by (simp add: word_le_nat_alt)
        then have "l div 16 = v" "l mod 16 < i" using that(2) j z(1) unfolding j_def by (simp_all add: modulo_nat_def)
        then show ?thesis using z(3) by (simp add: bit_of_def k_def)
      qed
      then show ?thesis using True eq by simp
    next
      case False
      have "bit_of native (put16 d (2 * v) (swap16 native (k OR push_bit i 1))) l = (l = j \<or> bit_of native d l)" if "l < 8192" for l
      proof -
        have "bit (k OR push_bit i 1) (l mod 16) \<longleftrightarrow> l mod 16 = i \<or> bit k (l mod 16)"
          using z(1) by (auto simp: bit_simps)
        moreover have "l = j \<longleftrightarrow> l div 16 = v \<and> l mod 16 = i" using j by (metis div_mult_mod_eq)
        ultimately show ?thesis using bit_of_put16[OF that v(1), of native d "k OR push_bit i 1"]
          by (auto simp: bit_of_def k_def)
      qed
      then show ?thesis using False eq j ub notj v(1) by (auto simp: not_le)
    qed
  qed
qed

subsection \<open>The maps of a file system\<close>

abbreviation map_block :: "bitmap \<Rightarrow> super_block_t \<Rightarrow> nat \<Rightarrow> u32" where
  "map_block m sb B \<equiv> start_block m sb + of_nat B"

text \<open>Bit \<open>j\<close> of a map, in the contents of its block.\<close>

definition map_bit :: "fs \<Rightarrow> nat \<Rightarrow> bitmap \<Rightarrow> nat \<Rightarrow> bool" where
  "map_bit s sp m j =
     bit_of (s_native (SB s sp)) (content {} s (s_dev (SB s sp)) (map_block m (SB s sp) (j div 8192))) (j mod 8192)"

text \<open>The map fits its blocks and the blocks fit the device.\<close>

definition map_fits :: "bitmap \<Rightarrow> super_block_t \<Rightarrow> bool" where
  "map_fits m sb \<longleftrightarrow>
     0 < unat (map_bits m sb) \<and> unat (map_bits m sb) \<le> unat (bit_blocks m sb) * 8192
     \<and> unat (bit_blocks m sb) \<le> 2 ^ 18 \<and> unat (start_block m sb) + unat (bit_blocks m sb) \<le> 2 ^ 22"

lemma map_block_ok:
  assumes "map_fits m sb" and "B < unat (bit_blocks m sb)"
  shows "map_block m sb B < max_block" and "unat (map_block m sb B) = unat (start_block m sb) + B"
proof -
  have "unat (start_block m sb) + B < 2 ^ 22" using assms by (simp add: map_fits_def)
  then show "unat (map_block m sb B) = unat (start_block m sb) + B"
    by (simp add: unat_word_ariths unat_of_nat)
  with \<open>_ < 2 ^ 22\<close> show "map_block m sb B < max_block" by (simp add: word_less_nat_alt)
qed

lemma map_block_inj:
  assumes "map_fits m sb" and "B < unat (bit_blocks m sb)" "C < unat (bit_blocks m sb)"
    and "map_block m sb B = map_block m sb C"
  shows "B = C"
  using map_block_ok(2)[OF assms(1,2)] map_block_ok(2)[OF assms(1,3)] unfolding assms(4) by linarith

lemma map_bit_view_eq:
  assumes "view_eq s s'" and "ready_on (s_dev (SB s sp)) s" and "map_fits m (SB s sp)" and "j < unat (bit_blocks m (SB s sp)) * 8192"
  shows "map_bit s' sp m j = map_bit s sp m j"
proof -
  have "j div 8192 < unat (bit_blocks m (SB s sp))" using assms(4) by (simp add: div_less_iff_less_mult)
  from map_block_ok(1)[OF assms(3) this] show ?thesis
    using assms(1,2) rest_frame[of s' s] by (simp add: map_bit_def view_eq_def ready_on_def)
qed

text \<open>The blocks that \<open>n\<close> rounds of the search visit, from word \<open>w\<close> of block \<open>B\<close> of \<open>N\<close> on.\<close>

fun covers :: "nat \<Rightarrow> nat \<Rightarrow> nat \<Rightarrow> nat \<Rightarrow> nat \<Rightarrow> bool" where
  "covers N 0 B w j = False"
| "covers N (Suc n) B w j =
     (j div 8192 = B \<and> w \<le> j mod 8192 div 16 \<or> covers N n (if Suc B \<ge> N then 0 else Suc B) 0 j)"

lemma covers_from:
  assumes "B < N" and "t < n" and "(B + t) mod N = j div 8192"
  shows "covers N n B 0 j"
  using assms
proof (induction n arbitrary: B t)
  case (Suc n)
  show ?case
  proof (cases t)
    case 0
    then show ?thesis using Suc.prems by simp
  next
    case (Suc u)
    let ?B = "if Suc B \<ge> N then 0 else Suc B"
    have "?B < N" using Suc.prems(1) by auto
    moreover have "(?B + u) mod N = j div 8192"
    proof (cases "Suc B \<ge> N")
      case True
      then have "Suc B = N" using Suc.prems(1) by simp
      then have "B + t = N + u" using Suc by simp
      then show ?thesis using Suc.prems(3) True by simp
    next
      case False
      then show ?thesis using Suc.prems(3) Suc by simp
    qed
    ultimately have "covers N n ?B 0 j" using Suc.IH[of ?B u] Suc.prems(2) Suc by simp
    then show ?thesis by simp
  qed
qed simp

lemma covers_all:
  assumes "B < N" and "j < N * 8192"
  shows "covers N (Suc N) B w j"
proof -
  let ?B = "if Suc B \<ge> N then 0 else Suc B"
  have J: "j div 8192 < N" using assms(2) by (simp add: div_less_iff_less_mult)
  have B: "?B < N" using assms(1) by auto
  define t where "t = (j div 8192 + N - ?B) mod N"
  have "t < N" using B by (simp add: t_def)
  moreover have "(?B + t) mod N = j div 8192"
  proof -
    have "(?B + t) mod N = (?B + (j div 8192 + N - ?B)) mod N" unfolding t_def by (rule mod_add_right_eq)
    also have "?B + (j div 8192 + N - ?B) = j div 8192 + N" using B by simp
    finally show ?thesis using J by simp
  qed
  ultimately have "covers N N ?B 0 j" by (rule covers_from[OF B])
  then show ?thesis by simp
qed

text \<open>What a successful search leaves: exactly one bit more.\<close>

definition bit_taken :: "nat \<Rightarrow> bitmap \<Rightarrow> nat \<Rightarrow> fs \<Rightarrow> fs \<Rightarrow> bool" where
  "bit_taken sp m b s s' \<longleftrightarrow>
     b < unat (map_bits m (SB s sp)) \<and> \<not> map_bit s sp m b
     \<and> (\<forall>j < unat (bit_blocks m (SB s sp)) * 8192. map_bit s' sp m j = (j = b \<or> map_bit s sp m j))
     \<and> view_but (s_dev (SB s sp)) (map_block m (SB s sp) (b div 8192)) s s'"

lemma block_upd_map_bit:
  assumes u: "block_upd (s_dev (SB s sp)) (map_block m (SB s sp) B) v s s'" and r: "ready_on (s_dev (SB s sp)) s"
    and fit: "map_fits m (SB s sp)" and B: "B < unat (bit_blocks m (SB s sp))" and j: "j < unat (bit_blocks m (SB s sp)) * 8192"
  shows "map_bit s' sp m j = (if j div 8192 = B then bit_of (s_native (SB s sp)) v (j mod 8192) else map_bit s sp m j)"
proof -
  have J: "j div 8192 < unat (bit_blocks m (SB s sp))" using j by (simp add: div_less_iff_less_mult)
  have sb: "SB s' sp = SB s sp" using u rest_frame(1)[of s' s] by (simp add: block_upd_def view_but_def)
  show ?thesis
  proof (cases "j div 8192 = B")
    case True
    then show ?thesis using u by (simp add: map_bit_def sb block_upd_def)
  next
    case False
    then have "map_block m (SB s sp) (j div 8192) \<noteq> map_block m (SB s sp) B"
      using map_block_inj[OF fit J B] by blast
    then show ?thesis using u r map_block_ok(1)[OF fit J] False
      by (simp add: map_bit_def sb block_upd_def view_but_def ready_on_def)
  qed
qed

lemma scan_blocks_ok:
  assumes "ready_on (s_dev (SB s sp)) s" and "map_fits m (SB s sp)"
    and "unat block < unat (bit_blocks m (SB s sp))" and "word \<le> 512"
  shows "\<exists>b s'. scan_blocks n sp m block word s = Inr (b, s') \<and> ready_on (s_dev (SB s sp)) s' \<and> same_counts s s'
     \<and> (bit_taken sp m (unat b) s s'
        \<or> b = NO_BIT \<and> view_eq s s' \<and> (\<forall>j < unat (map_bits m (SB s sp)).
             covers (unat (bit_blocks m (SB s sp))) n (unat block) word j \<longrightarrow> map_bit s sp m j))"
  using assms
proof (induction n arbitrary: s block word)
  case (Suc n)
  note fit = Suc.prems(2) and B = Suc.prems(3)
  let ?sb = "SB s sp" and ?dev = "s_dev (SB s sp)" and ?N = "unat (bit_blocks m (SB s sp))"
  let ?b = "map_block m ?sb (unat block)"
  have small: "unat block * 8192 + 8192 < 2 ^ 32" using B fit by (simp add: map_fits_def)
  from peek_block[OF Suc.prems(1) map_block_ok(1)[OF fit B], of MAP_BLOCK] obtain k t where
    t: "get_block ?dev ?b NORMAL s = Inr (k, t)" "b_data (buf t k) = content {} s ?dev ?b" "rest t = rest s"
      "ready_on ?dev (put_block (Some k) MAP_BLOCK t)" "view_eq s (put_block (Some k) MAP_BLOCK t)"
      "same_counts s (put_block (Some k) MAP_BLOCK t)" by blast
  have t1: "get_block ?dev (start_block m ?sb + block) NORMAL s = Inr (k, t)" using t(1) by simp
  have sbt: "SB t sp = ?sb" using rest_frame(1)[OF t(3)] by simp
  let ?d = "content {} s ?dev ?b"
  have bits: "map_bit s sp m (unat block * 8192 + j) = bit_of (s_native ?sb) ?d j" if "j < 8192" for j
    using that by (simp add: map_bit_def)
  note sc = scan_words_ok[OF small Suc.prems(4), where native = "s_native ?sb" and bits = "map_bits m ?sb" and d = ?d]
  show ?case
  proof (cases "scan_words (s_native ?sb) (map_bits m ?sb) block ?d [word..<512]")
    case (Some p)
    obtain w kk b where p: "p = (w, kk, b)" by (cases p)
    obtain j where w: "w < 512" "b < map_bits m ?sb" and j: "j < 8192" "unat b = unat block * 8192 + j"
      "\<not> bit_of (s_native ?sb) ?d j"
      "\<forall>i<8192. bit_of (s_native ?sb) (put16 ?d (2 * w) kk) i = (i = j \<or> bit_of (s_native ?sb) ?d i)"
      using sc Some p by auto
    define u where "u = upd_buf k (\<lambda>x. x\<lparr>b_data := put16 ?d (2 * w) kk, b_dirt := DIRTY\<rparr>) t"
    have eq: "scan_blocks (Suc n) sp m block word s = Inr (b, put_block (Some k) MAP_BLOCK u)"
      using t1 t(2) Some p sbt by (simp add: u_def Let_def)
    note ch = change_block[OF Suc.prems(1) map_block_ok(1)[OF fit B] t(1) u_def, of MAP_BLOCK]
    note mb = block_upd_map_bit[OF ch(2) Suc.prems(1) fit B]
    have bd: "unat b div 8192 = unat block" using j by simp
    have "bit_taken sp m (unat b) s (put_block (Some k) MAP_BLOCK u)"
      unfolding bit_taken_def
    proof (intro conjI allI impI)
      show "unat b < unat (map_bits m ?sb)" using w(2) by (simp add: word_less_nat_alt)
      show "\<not> map_bit s sp m (unat b)" using bits[OF j(1)] j(2,3) by simp
      show "map_bit (put_block (Some k) MAP_BLOCK u) sp m i = (i = unat b \<or> map_bit s sp m i)" if "i < ?N * 8192" for i
      proof (cases "i div 8192 = unat block")
        case True
        then have i: "i = unat block * 8192 + i mod 8192" by (metis div_mult_mod_eq)
        have "map_bit s sp m i = bit_of (s_native ?sb) ?d (i mod 8192)" using bits[of "i mod 8192"] i by simp
        moreover have "i = unat b \<longleftrightarrow> i mod 8192 = j" using i j(2) by linarith
        ultimately show ?thesis using mb[OF that] True j(4) by simp
      next
        case False
        then have "i \<noteq> unat b" using bd by auto
        then show ?thesis using mb[OF that] False by simp
      qed
      show "view_but ?dev (map_block m ?sb (unat b div 8192)) s (put_block (Some k) MAP_BLOCK u)"
        using ch(2) bd by (simp add: block_upd_def)
    qed
    then show ?thesis using eq ch by (auto simp: block_upd_def)
  next
    case None
    let ?s = "put_block (Some k) MAP_BLOCK t"
    let ?next = "if block + 1 \<ge> bit_blocks m ?sb then 0 else block + 1"
    have sb: "SB ?s sp = ?sb" using rest_frame(1)[of ?s s] t(5) by (simp add: view_eq_def)
    have eq: "scan_blocks (Suc n) sp m block word s = scan_blocks n sp m ?next 0 ?s"
      using t1 t(2) None sbt sb by (simp add: Let_def)
    have u1: "unat (block + 1) = Suc (unat block)" using B fit by (simp add: unat_word_ariths map_fits_def)
    have nx: "unat ?next = (if Suc (unat block) \<ge> ?N then 0 else Suc (unat block))" "unat ?next < ?N"
      using u1 B by (auto simp: word_le_nat_alt)
    have here: "map_bit s sp m j" if "j < unat (map_bits m ?sb)" "j div 8192 = unat block" "word \<le> j mod 8192 div 16" for j
    proof -
      have "j = unat block * 8192 + j mod 8192" using that(2) by (metis div_mult_mod_eq)
      then show ?thesis using sc None that(1,3) bits[of "j mod 8192"] by simp
    qed
    obtain b s' where s': "scan_blocks n sp m ?next 0 ?s = Inr (b, s')" "ready_on ?dev s'" "same_counts ?s s'"
      "bit_taken sp m (unat b) ?s s' \<or> b = NO_BIT \<and> view_eq ?s s' \<and> (\<forall>j < unat (map_bits m ?sb).
             covers ?N n (unat ?next) 0 j \<longrightarrow> map_bit ?s sp m j)"
      using Suc.IH[of ?s ?next 0] t(4) fit nx(2) by (auto simp: sb)
    have res: "scan_blocks (Suc n) sp m block word s = Inr (b, s')" using eq s'(1) by simp
    have same: "map_bit ?s sp m j = map_bit s sp m j" if "j < ?N * 8192" for j
      by (rule map_bit_view_eq[OF t(5) Suc.prems(1) fit that])
    have le: "unat (map_bits m ?sb) \<le> ?N * 8192" using fit by (simp add: map_fits_def)
    show ?thesis
      using s'(4)
    proof
      assume b: "bit_taken sp m (unat b) ?s s'"
      then have "unat b < ?N * 8192" using le by (auto simp: bit_taken_def sb)
      then have "bit_taken sp m (unat b) s s'"
        using b same t(5) by (simp add: bit_taken_def sb view_but_def view_eq_def)
      then show ?thesis using res s'(2) same_counts_trans[OF t(6) s'(3)] by blast
    next
      assume b: "b = NO_BIT \<and> view_eq ?s s' \<and> (\<forall>j < unat (map_bits m ?sb).
             covers ?N n (unat ?next) 0 j \<longrightarrow> map_bit ?s sp m j)"
      have "\<forall>j < unat (map_bits m ?sb). covers ?N (Suc n) (unat block) word j \<longrightarrow> map_bit s sp m j"
        using b here same le nx(1) by (auto simp del: unat_plus_simple)
      then show ?thesis using res s'(2) same_counts_trans[OF t(6) s'(3)] view_eq_trans[OF t(5), of s'] b by blast
    qed
  qed
qed auto

text \<open>The search from any origin sees the whole map: it fails only when the map is full.\<close>

lemma alloc_bit_ok:
  assumes r: "ready_on (s_dev (SB s sp)) s" and fit: "map_fits m (SB s sp)" and rw: "\<not> s_rd_only (SB s sp)"
    and z: "map_bit s sp m 0"
  obtains b s' where "alloc_bit sp m origin s = Inr (b, s')" and "ready_on (s_dev (SB s sp)) s'" and "same_counts s s'"
    and "if \<forall>j < unat (map_bits m (SB s sp)). map_bit s sp m j then b = NO_BIT \<and> view_eq s s'
         else b \<noteq> NO_BIT \<and> bit_taken sp m (unat b) s s'"
proof -
  let ?N = "unat (bit_blocks m (SB s sp))" and ?bits = "map_bits m (SB s sp)"
  define o' where "o' = (if origin \<ge> ?bits then 0 else origin)"
  have N: "?N \<le> 2 ^ 18" "unat ?bits \<le> ?N * 8192" "0 < unat ?bits" using fit by (simp_all add: map_fits_def)
  have o': "unat o' < unat ?bits" using N(3) by (auto simp: o'_def word_le_nat_alt)
  have blk: "unat (o' div 8192) < ?N" using o' N(2) by (simp add: unat_div div_less_iff_less_mult)
  have wrd: "unat ((o' mod 8192) div 16) \<le> 512" by (simp add: unat_div unat_mod)
  have bc: "unat (bit_blocks m (SB s sp) + 1) = Suc ?N" using N(1) by (simp add: unat_word_ariths)
  then have "bit_blocks m (SB s sp) + 1 \<noteq> 0" by (metis unat_0 nat.distinct(1))
  then have eq: "alloc_bit sp m origin s = scan_blocks (Suc ?N) sp m (o' div 8192) (unat ((o' mod 8192) div 16)) s"
    using rw bc by (simp add: alloc_bit_def o'_def Let_def del: scan_blocks.simps)
  obtain b s' where s': "alloc_bit sp m origin s = Inr (b, s')" "ready_on (s_dev (SB s sp)) s'" "same_counts s s'"
    "bit_taken sp m (unat b) s s' \<or> b = NO_BIT \<and> view_eq s s' \<and> (\<forall>j < unat ?bits.
        covers ?N (Suc ?N) (unat (o' div 8192)) (unat ((o' mod 8192) div 16)) j \<longrightarrow> map_bit s sp m j)"
    using scan_blocks_ok[OF r fit blk wrd] eq by metis
  have cov: "covers ?N (Suc ?N) (unat (o' div 8192)) w j" if "j < unat ?bits" for w j
    using covers_all[OF blk] that N(2) by simp
  have "bit_taken sp m (unat b) s s' \<longrightarrow> b \<noteq> NO_BIT \<and> \<not> (\<forall>j < unat ?bits. map_bit s sp m j)"
    using z by (auto simp: bit_taken_def)
  with s'(4) cov have "if \<forall>j < unat ?bits. map_bit s sp m j then b = NO_BIT \<and> view_eq s s'
      else b \<noteq> NO_BIT \<and> bit_taken sp m (unat b) s s'"
    by (simp del: covers.simps) blast
  then show thesis by (rule that[OF s'(1-3)])
qed

definition bit_freed :: "nat \<Rightarrow> bitmap \<Rightarrow> nat \<Rightarrow> fs \<Rightarrow> fs \<Rightarrow> bool" where
  "bit_freed sp m b s s' \<longleftrightarrow>
     map_bit s sp m b
     \<and> (\<forall>j < unat (bit_blocks m (SB s sp)) * 8192. map_bit s' sp m j = (j \<noteq> b \<and> map_bit s sp m j))
     \<and> view_but (s_dev (SB s sp)) (map_block m (SB s sp) (b div 8192)) s s'"

lemma free_bit_ok:
  assumes r: "ready_on (s_dev (SB s sp)) s" and fit: "map_fits m (SB s sp)" and rw: "\<not> s_rd_only (SB s sp)"
    and b: "unat b < unat (bit_blocks m (SB s sp)) * 8192"
  shows "if map_bit s sp m (unat b)
      then \<exists>s'. free_bit sp m b s = Inr s' \<and> ready_on (s_dev (SB s sp)) s' \<and> same_counts s s' \<and> bit_freed sp m (unat b) s s'
      else \<exists>e. free_bit sp m b s = Inl (Panic e)"
proof -
  let ?sb = "SB s sp" and ?dev = "s_dev (SB s sp)"
  define B where "B = unat b div 8192"
  define w where "w = unat b mod 8192 div 16"
  define i where "i = unat b mod 16"
  let ?b = "map_block m ?sb B"
  have B: "B < unat (bit_blocks m ?sb)" using b by (simp add: B_def div_less_iff_less_mult)
  have w: "w < 512" by (simp add: w_def div_less_iff_less_mult)
  have i: "i < 16" "unat b mod 8192 mod 16 = i" by (simp_all add: i_def mod_mod_cancel)
  have args: "start_block m ?sb + b div 8192 = ?b" "unat ((b mod 8192) div 16) = w" "unat (b mod 16) = i"
    by (simp_all add: B_def w_def i_def unat_div unat_mod word_arith_nat_div[of b])
  from peek_block[OF r map_block_ok(1)[OF fit B], of MAP_BLOCK] obtain k t where
    t: "get_block ?dev ?b NORMAL s = Inr (k, t)" "b_data (buf t k) = content {} s ?dev ?b" "rest t = rest s" by blast
  have sbt: "SB t sp = ?sb" using rest_frame(1)[OF t(3)] by simp
  let ?d = "content {} s ?dev ?b"
  define v where "v = swap16 (s_native ?sb) (get16 ?d (2 * w))"
  have mb: "map_bit s sp m (unat b) = bit v i" by (simp add: map_bit_def bit_of_def v_def B_def w_def i(2))
  have tst: "v AND push_bit i 1 = 0 \<longleftrightarrow> \<not> bit v i"
  proof
    assume "v AND push_bit i 1 = 0"
    then have "\<not> bit (v AND push_bit i 1) i" by simp
    then show "\<not> bit v i" using i(1) by (simp add: bit_simps)
  qed (rule bit_word_eqI, auto simp: bit_simps)
  show ?thesis
  proof (cases "bit v i")
    case False
    then show ?thesis using rw t sbt args mb tst by (simp add: free_bit_def v_def swap16_def Let_def)
  next
    case True
    define x where "x = put16 ?d (2 * w) (swap16 (s_native ?sb) (v AND NOT (push_bit i 1)))"
    define u where "u = upd_buf k (\<lambda>y. y\<lparr>b_data := x, b_dirt := DIRTY\<rparr>) t"
    have eq: "free_bit sp m b s = Inr (put_block (Some k) MAP_BLOCK u)"
      using rw t sbt args True tst by (simp add: free_bit_def v_def swap16_def Let_def u_def x_def)
    note ch = change_block[OF r map_block_ok(1)[OF fit B] t(1) u_def, of MAP_BLOCK]
    have "map_bit (put_block (Some k) MAP_BLOCK u) sp m j = (j \<noteq> unat b \<and> map_bit s sp m j)"
      if "j < unat (bit_blocks m ?sb) * 8192" for j
    proof -
      have "j = unat b \<longleftrightarrow> j div 8192 = B \<and> j mod 8192 div 16 = w \<and> j mod 8192 mod 16 = i"
        unfolding B_def w_def i(2)[symmetric] by (metis div_mult_mod_eq)
      moreover have "bit (v AND NOT (push_bit i 1)) l \<longleftrightarrow> l \<noteq> i \<and> bit v l" for l
        using i(1) by (auto simp: bit_simps dest: bit_imp_le_length)
      moreover have "j mod 8192 div 16 = w \<Longrightarrow> bit v (j mod 8192 mod 16) = bit_of (s_native ?sb) ?d (j mod 8192)"
        by (simp add: bit_of_def v_def)
      ultimately show ?thesis
        using block_upd_map_bit[OF ch(2) r fit B that] bit_of_put16[OF _ w, of "j mod 8192" "s_native ?sb" ?d]
        by (auto simp: x_def map_bit_def)
    qed
    then have "bit_freed sp m (unat b) s (put_block (Some k) MAP_BLOCK u)"
      using True mb ch(2) by (simp add: bit_freed_def block_upd_def B_def)
    then show ?thesis using True mb eq ch by (auto simp: block_upd_def)
  qed
qed

subsection \<open>Changes outside the cache\<close>

definition off_cache :: "fs \<Rightarrow> fs \<Rightarrow> bool" where
  "off_cache s s' \<longleftrightarrow>
     buf s' = buf s \<and> buf_hash s' = buf_hash s \<and> front s' = front s \<and> rear s' = rear s \<and> bufs_in_use s' = bufs_in_use s
     \<and> buf2 s' = buf2 s \<and> nr_buf2 s' = nr_buf2 s \<and> buf2_idx s' = buf2_idx s \<and> disk s' = disk s \<and> io_reply s' = io_reply s"

lemma off_cache_fs_ok: "off_cache s s' \<Longrightarrow> fs_ok X s' = fs_ok X s"
proof -
  assume a: "off_cache s s'"
  then have "same_view {} s s'" by (simp add: off_cache_def same_view_def)
  then have "fs_core {} X s' = fs_core {} X s" by (rule same_view_core)
  then show ?thesis using a
    by (simp add: fs_ok_def cache_struct_def lru_def hashed_def reliable_def off_cache_def)
qed

lemma off_cache_content: "off_cache s s' \<Longrightarrow> content {} s' d b = content {} s d b"
  by (rule same_view_content) (simp add: off_cache_def same_view_def)

lemma off_cache_ready_on: "off_cache s s' \<Longrightarrow> ready_on dev s' = ready_on dev s"
  using off_cache_fs_ok[of s s' "{}"] by (simp add: ready_on_def off_cache_def roomy_def)

lemma off_cache_counts: "off_cache s s' \<Longrightarrow> same_counts s s'"
  by (simp add: off_cache_def same_counts_def)

lemma off_cache_simps [simp]:
  "off_cache s (s\<lparr>super_block := x\<rparr>)" "off_cache s (s\<lparr>inode := y\<rparr>)" "off_cache s (s\<lparr>err_code := e\<rparr>)"
  "off_cache s (s\<lparr>rdwt_err := e\<rparr>)"
  by (simp_all add: off_cache_def)


subsection \<open>Zones in use\<close>

definition data_zone :: "super_block_t \<Rightarrow> u32 \<Rightarrow> bool" where
  "data_zone sb z \<longleftrightarrow> ucast (s_firstdatazone sb) \<le> z \<and> z < s_zones sb"

abbreviation zone_bit :: "super_block_t \<Rightarrow> u32 \<Rightarrow> u32" where
  "zone_bit sb z \<equiv> z - (ucast (s_firstdatazone sb) - 1)"

definition zone_used :: "fs \<Rightarrow> nat \<Rightarrow> u32 \<Rightarrow> bool" where
  "zone_used s sp z = map_bit s sp ZMAP (unat (zone_bit (SB s sp) z))"

text \<open>The zones of a file system that is mounted for writing; bit 0 of the map belongs to no zone and is set.\<close>

definition zones_ok :: "fs \<Rightarrow> nat \<Rightarrow> bool" where
  "zones_ok s sp \<longleftrightarrow>
     map_fits ZMAP (SB s sp) \<and> \<not> s_rd_only (SB s sp) \<and> 0 < s_firstdatazone (SB s sp)
     \<and> ucast (s_firstdatazone (SB s sp)) \<le> s_zones (SB s sp) \<and> map_bit s sp ZMAP 0"

lemma get_super_ok: "get_super dev s = Inr sp \<Longrightarrow> s_dev (SB s sp) = dev \<and> sp < NR_SUPERS"
  by (auto simp: get_super_def find_Some_iff nth_upt split: option.splits simp del: upt_Suc)

lemma unat_less32: "unat (w :: u32) < 2 ^ 32"
  using unsigned_less[of w] by simp

lemma unat_ucast16: "unat (ucast w :: u32) = unat (w :: u16)"
proof -
  have "unat w < 2 ^ 16" using unsigned_less[of w] by simp
  then show ?thesis by (simp add: unsigned_ucast_eq take_bit_eq_mod)
qed

lemma zone_bit_range:
  assumes "0 < s_firstdatazone sb" and "ucast (s_firstdatazone sb) \<le> s_zones sb"
  shows "unat (map_bits ZMAP sb) = unat (s_zones sb) - unat (s_firstdatazone sb) + 1"
    and "data_zone sb z \<Longrightarrow> unat (zone_bit sb z) = unat z - unat (s_firstdatazone sb) + 1"
    and "data_zone sb z \<Longrightarrow> 0 < unat (zone_bit sb z) \<and> unat (zone_bit sb z) < unat (map_bits ZMAP sb)"
    and "b < map_bits ZMAP sb \<Longrightarrow> b \<noteq> 0 \<Longrightarrow> data_zone sb (ucast (s_firstdatazone sb) - 1 + b)"
    and "zone_bit sb (ucast (s_firstdatazone sb) - 1 + b) = b"
proof -
  let ?f = "ucast (s_firstdatazone sb) :: u32"
  have f: "unat ?f = unat (s_firstdatazone sb)" by (rule unat_ucast16)
  have p: "0 < unat ?f" using assms(1) f by (simp add: word_less_nat_alt)
  have f1: "unat (?f - 1) = unat ?f - 1" using p by (simp add: unat_minus_one unat_gt_0)
  have up: "unat (z - (?f - 1)) = unat z - unat ?f + 1" if "?f \<le> z" for z
  proof -
    have "?f - 1 \<le> z" using that f1 by (simp add: word_le_nat_alt)
    then have "unat (z - (?f - 1)) = unat z - (unat ?f - 1)" using f1 by (simp add: unat_sub)
    then show ?thesis using p that by (simp add: word_le_nat_alt)
  qed
  show b: "unat (map_bits ZMAP sb) = unat (s_zones sb) - unat (s_firstdatazone sb) + 1"
    using up[OF assms(2)] f by (simp add: map_bits_def)
  show u: "unat (zone_bit sb z) = unat z - unat (s_firstdatazone sb) + 1" if "data_zone sb z"
    using up[of z] that f by (simp add: data_zone_def)
  show "0 < unat (zone_bit sb z) \<and> unat (zone_bit sb z) < unat (map_bits ZMAP sb)" if "data_zone sb z"
    using u[OF that] b that f unfolding data_zone_def word_less_nat_alt word_le_nat_alt by linarith
  show "data_zone sb (?f - 1 + b)" if "b < map_bits ZMAP sb" "b \<noteq> 0"
  proof -
    have le: "unat b \<le> unat (s_zones sb) - unat ?f" "0 < unat b" using that \<open>unat (map_bits ZMAP sb) = _\<close> f
      by (simp_all add: word_less_nat_alt unat_gt_0)
    have "unat (s_zones sb) < 2 ^ 32" using unsigned_less[of "s_zones sb"] by simp
    moreover have "unat ?f \<le> unat (s_zones sb)" using assms(2) by (simp add: word_le_nat_alt)
    ultimately have "unat (?f - 1 + b) = unat ?f - 1 + unat b" using le f1 p by (simp add: unat_word_ariths)
    then show ?thesis using le p \<open>unat ?f \<le> _\<close> unfolding data_zone_def word_le_nat_alt word_less_nat_alt by linarith
  qed
  show "zone_bit sb (?f - 1 + b) = b" by simp
qed

text \<open>What work on the map of the zones leaves alone: every block but those of the map, and every table but the search hint.\<close>

definition zone_frame :: "nat \<Rightarrow> fs \<Rightarrow> fs \<Rightarrow> bool" where
  "zone_frame sp s s' \<longleftrightarrow>
     inode s' = inode s \<and> nr_buf2 s' = nr_buf2 s \<and> (\<forall>i. i \<noteq> sp \<longrightarrow> SB s' i = SB s i)
     \<and> (\<exists>z. SB s' sp = (SB s sp)\<lparr>s_zsearch := z\<rparr>)
     \<and> (\<forall>d b. d \<noteq> NO_DEV \<and> b < max_block \<and> (nr_buf2 s = 0 \<or> d \<noteq> DEV_RAM)
          \<and> \<not> (d = s_dev (SB s sp) \<and> start_block ZMAP (SB s sp) \<le> b
                \<and> unat b < unat (start_block ZMAP (SB s sp)) + unat (bit_blocks ZMAP (SB s sp)))
          \<longrightarrow> content {} s' d b = content {} s d b)"

lemma zone_frame_sb:
  assumes "zone_frame sp s s'"
  shows "start_block m (SB s' sp) = start_block m (SB s sp)" "bit_blocks m (SB s' sp) = bit_blocks m (SB s sp)"
    "map_bits m (SB s' sp) = map_bits m (SB s sp)" "s_native (SB s' sp) = s_native (SB s sp)"
    "s_dev (SB s' sp) = s_dev (SB s sp)" "s_rd_only (SB s' sp) = s_rd_only (SB s sp)"
    "s_firstdatazone (SB s' sp) = s_firstdatazone (SB s sp)" "s_zones (SB s' sp) = s_zones (SB s sp)"
    "data_zone (SB s' sp) = data_zone (SB s sp)"
  using assms by (auto simp: zone_frame_def start_block_def bit_blocks_def map_bits_def data_zone_def)

lemma view_but_zone_frame:
  assumes v: "view_but (s_dev (SB s sp)) (map_block ZMAP (SB s sp) B) s t" and f: "map_fits ZMAP (SB s sp)"
    and B: "B < unat (bit_blocks ZMAP (SB s sp))"
    and u: "super_block u = (super_block t)(sp := (SB t sp)\<lparr>s_zsearch := z\<rparr>)" "inode u = inode t" "off_cache t u"
  shows "zone_frame sp s u"
proof -
  note b = map_block_ok(2)[OF f B]
  have r: "super_block t = super_block s" "inode t = inode s" "nr_buf2 t = nr_buf2 s"
    using v rest_frame[of t s] by (simp_all add: view_but_def)
  have c: "content {} u d x = content {} t d x" for d x by (rule off_cache_content[OF u(3)])
  have n: "nr_buf2 u = nr_buf2 s" using u(3) r(3) by (simp add: off_cache_def)
  have "content {} u d x = content {} s d x"
    if "d \<noteq> NO_DEV \<and> x < max_block \<and> (nr_buf2 s = 0 \<or> d \<noteq> DEV_RAM)
          \<and> \<not> (d = s_dev (SB s sp) \<and> start_block ZMAP (SB s sp) \<le> x
                \<and> unat x < unat (start_block ZMAP (SB s sp)) + unat (bit_blocks ZMAP (SB s sp)))" for d x
  proof -
    have "\<not> (d = s_dev (SB s sp) \<and> x = map_block ZMAP (SB s sp) B)" using that b B by (auto simp: word_le_nat_alt)
    then show ?thesis using v that unfolding c view_but_def by blast
  qed
  moreover have "\<exists>z. SB u sp = (SB s sp)\<lparr>s_zsearch := z\<rparr>" using u(1) r(1) by auto
  moreover have "\<forall>i. i \<noteq> sp \<longrightarrow> SB u i = SB s i" using u(1) r(1) by simp
  ultimately show ?thesis using u(2) r(2) n by (simp add: zone_frame_def)
qed

lemma zone_used_cong:
  assumes "off_cache t u" and "super_block u = (super_block t)(sp := (SB t sp)\<lparr>s_zsearch := z\<rparr>)"
  shows "map_bit u sp m j = map_bit t sp m j"
  using off_cache_content[OF assms(1)] assms(2) by (simp add: map_bit_def start_block_def)

lemma all_zones_used:
  assumes "zones_ok s sp"
  shows "(\<forall>j < unat (map_bits ZMAP (SB s sp)). map_bit s sp ZMAP j) \<longleftrightarrow> (\<forall>y. data_zone (SB s sp) y \<longrightarrow> zone_used s sp y)"
proof safe
  note zb = zone_bit_range[of "SB s sp"]
  have f: "0 < s_firstdatazone (SB s sp)" "ucast (s_firstdatazone (SB s sp)) \<le> s_zones (SB s sp)" "map_bit s sp ZMAP 0"
    using assms by (simp_all add: zones_ok_def)
  show "zone_used s sp y" if "\<forall>j < unat (map_bits ZMAP (SB s sp)). map_bit s sp ZMAP j" "data_zone (SB s sp) y" for y
    using that zb(3)[OF f(1,2)] by (simp add: zone_used_def)
  show "map_bit s sp ZMAP j" if a: "\<forall>y. data_zone (SB s sp) y \<longrightarrow> zone_used s sp y" "j < unat (map_bits ZMAP (SB s sp))" for j
  proof (cases "j = 0")
    case False
    have "j < 2 ^ 32" using a(2) unat_less32[of "map_bits ZMAP (SB s sp)"] by linarith
    then have ju: "unat (of_nat j :: u32) = j" by (simp add: unat_of_nat)
    then have "of_nat j < map_bits ZMAP (SB s sp)" "of_nat j \<noteq> (0::u32)" using a(2) False by (auto simp: word_less_nat_alt)
    from zb(4)[OF f(1,2) this] a(1) show ?thesis using ju by (auto simp: zone_used_def)
  qed (use f(3) in simp)
qed

text \<open>The zone of a bit that was taken, and the search hint stored.\<close>

lemma zone_taken:
  assumes ok: "zones_ok s sp" and b: "b \<noteq> 0" "bit_taken sp ZMAP (unat b) s t"
    and u: "super_block u = (super_block t)(sp := (SB t sp)\<lparr>s_zsearch := zs\<rparr>)" "inode u = inode t" "off_cache t u"
    and z': "z' = ucast (s_firstdatazone (SB s sp)) - 1 + b"
  shows "zone_frame sp s u" and "zones_ok u sp" and "data_zone (SB s sp) z'" and "\<not> zone_used s sp z'"
    and "\<forall>y. data_zone (SB s sp) y \<longrightarrow> zone_used u sp y = (y = z' \<or> zone_used s sp y)"
proof -
  let ?sb = "SB s sp"
  have fit: "map_fits ZMAP ?sb" and f: "0 < s_firstdatazone ?sb" "ucast (s_firstdatazone ?sb) \<le> s_zones ?sb"
    using ok by (simp_all add: zones_ok_def)
  note zb = zone_bit_range[OF f]
  have le: "unat (map_bits ZMAP ?sb) \<le> unat (bit_blocks ZMAP ?sb) * 8192" using fit by (simp add: map_fits_def)
  have vb: "view_but (s_dev ?sb) (map_block ZMAP ?sb (unat b div 8192)) s t" and bb: "b < map_bits ZMAP ?sb"
    using b(2) by (simp_all add: bit_taken_def word_less_nat_alt)
  have ub: "SB u sp = ?sb\<lparr>s_zsearch := zs\<rparr>" using vb rest_frame[of t s] u(1) by (simp add: view_but_def)
  have B: "unat b div 8192 < unat (bit_blocks ZMAP ?sb)"
    using bb le by (simp add: word_less_nat_alt div_less_iff_less_mult)
  show zf: "zone_frame sp s u" by (rule view_but_zone_frame[OF vb fit B u])
  have mb: "map_bit u sp ZMAP j = (j = unat b \<or> map_bit s sp ZMAP j)" if "j < unat (bit_blocks ZMAP ?sb) * 8192" for j
    using zone_used_cong[OF u(3,1), of ZMAP j] b(2) that by (simp add: bit_taken_def)
  show "zones_ok u sp"
    using ok mb[of 0] B zone_frame_sb[OF zf] ub by (simp add: zones_ok_def map_fits_def)
  show "data_zone ?sb z'" "\<not> zone_used s sp z'"
    using zb(4)[OF bb b(1)] b(2) by (simp_all add: z' zone_used_def bit_taken_def)
  show "\<forall>y. data_zone ?sb y \<longrightarrow> zone_used u sp y = (y = z' \<or> zone_used s sp y)"
  proof (intro allI impI)
    fix y assume y: "data_zone ?sb y"
    have "zone_bit ?sb y = b \<longleftrightarrow> y = z'" unfolding z' by (auto simp: algebra_simps)
    then show "zone_used u sp y = (y = z' \<or> zone_used s sp y)"
      using mb[of "unat (zone_bit ?sb y)"] zb(3)[OF y] le ub by (simp add: zone_used_def word_unat_eq_iff)
  qed
qed

text \<open>No zone is left: only the error code changes.\<close>

lemma zones_full:
  assumes ok: "zones_ok s sp" and r: "ready_on (s_dev (SB s sp)) s" and v: "view_eq s t" and u: "u = t\<lparr>err_code := e\<rparr>"
  shows "zone_frame sp s u" and "zones_ok u sp" and "\<forall>y. data_zone (SB s sp) y \<longrightarrow> zone_used u sp y = zone_used s sp y"
proof -
  have fit: "map_fits ZMAP (SB s sp)" and f: "0 < s_firstdatazone (SB s sp)" "ucast (s_firstdatazone (SB s sp)) \<le> s_zones (SB s sp)"
    using ok by (simp_all add: zones_ok_def)
  have oc: "off_cache t u" by (simp add: u)
  have su: "super_block u = (super_block t)(sp := (SB t sp)\<lparr>s_zsearch := s_zsearch (SB t sp)\<rparr>)" by (simp add: u)
  have sbt: "super_block u = super_block s" using v rest_frame(1)[of t s] by (simp add: view_eq_def u)
  have B: "0 < unat (bit_blocks ZMAP (SB s sp))" using fit by (auto simp: map_fits_def)
  have mb: "map_bit u sp ZMAP j = map_bit s sp ZMAP j" if "j < unat (bit_blocks ZMAP (SB s sp)) * 8192" for j
    using zone_used_cong[OF oc su, of ZMAP j] map_bit_view_eq[OF v r fit that] by simp
  have "view_but (s_dev (SB s sp)) (map_block ZMAP (SB s sp) 0) s t" using v by (simp add: view_but_def view_eq_def)
  from view_but_zone_frame[OF this fit B su _ oc] show "zone_frame sp s u" by (simp add: u)
  show "zones_ok u sp" using ok mb[of 0] B sbt by (simp add: zones_ok_def)
  show "\<forall>y. data_zone (SB s sp) y \<longrightarrow> zone_used u sp y = zone_used s sp y"
    using mb zone_bit_range(3)[OF f] fit sbt by (fastforce simp: zone_used_def map_fits_def)
qed

text \<open>Allocation of a zone near any zone.\<close>

lemma alloc_zone_ok:
  assumes g: "get_super dev s = Inr sp" and r: "ready_on dev s" and ok: "zones_ok s sp"
  obtains z' s' where "alloc_zone dev z s = Inr (z', s')" and "ready_on dev s'" and "same_counts s s'" and "zone_frame sp s s'"
    and "zones_ok s' sp"
    and "if \<forall>y. data_zone (SB s sp) y \<longrightarrow> zone_used s sp y
         then z' = NO_ZONE \<and> err_code s' = ENOSPC \<and> (\<forall>y. data_zone (SB s sp) y \<longrightarrow> zone_used s' sp y)
         else data_zone (SB s sp) z' \<and> \<not> zone_used s sp z' \<and> err_code s' = err_code s
              \<and> (\<forall>y. data_zone (SB s sp) y \<longrightarrow> zone_used s' sp y = (y = z' \<or> zone_used s sp y))"
proof -
  let ?sb = "SB s sp" and ?first = "ucast (s_firstdatazone (SB s sp)) :: u32"
  have dev: "s_dev ?sb = dev" using get_super_ok[OF g] by simp
  have fit: "map_fits ZMAP ?sb" and rw: "\<not> s_rd_only ?sb" and z0: "map_bit s sp ZMAP 0"
    using ok by (simp_all add: zones_ok_def)
  obtain b t where t: "alloc_bit sp ZMAP (if z = ?first then s_zsearch ?sb else z - (?first - 1)) s = Inr (b, t)"
    "ready_on (s_dev ?sb) t" "same_counts s t"
    "if \<forall>y. data_zone ?sb y \<longrightarrow> zone_used s sp y then b = NO_BIT \<and> view_eq s t
         else b \<noteq> NO_BIT \<and> bit_taken sp ZMAP (unat b) s t"
    using alloc_bit_ok[OF r[folded dev] fit rw z0] unfolding all_zones_used[OF ok] by blast
  show thesis
  proof (cases "\<forall>y. data_zone ?sb y \<longrightarrow> zone_used s sp y")
    case True
    then have b: "b = NO_BIT" "view_eq s t" using t(4) by auto
    define u where "u = t\<lparr>err_code := ENOSPC\<rparr>"
    have oc: "off_cache t u" by (simp add: u_def)
    note zf = zones_full[OF ok r[folded dev] b(2) u_def]
    have eq: "alloc_zone dev z s = Inr (NO_ZONE, u)" using g t(1) b(1) by (simp add: alloc_zone_def u_def)
    show thesis
      using that[OF eq _ _ zf(1,2)] zf(3) True t(2) off_cache_ready_on[OF oc] same_counts_trans[OF t(3) off_cache_counts[OF oc]] dev
      by (simp add: u_def)
  next
    case False
    then have b: "b \<noteq> 0" "bit_taken sp ZMAP (unat b) s t" using t(4) by auto
    define u where "u = (if z = ?first then upd_super sp (s_zsearch_update (\<lambda>_. b)) t else t)"
    have oc: "off_cache t u" by (simp add: u_def off_cache_def)
    have u: "super_block u = (super_block t)(sp := (SB t sp)\<lparr>s_zsearch := if z = ?first then b else s_zsearch (SB t sp)\<rparr>)"
      "inode u = inode t" "err_code u = err_code t"
      by (simp_all add: u_def)
    note zt = zone_taken[OF ok b u(1,2) oc refl]
    have st: "super_block t = super_block s" "err_code t = err_code s"
      using b(2) rest_frame[of t s] by (simp_all add: bit_taken_def view_but_def)
    have eq: "alloc_zone dev z s = Inr (?first - 1 + b, u)" using g t(1) b(1) st(1) by (simp add: alloc_zone_def u_def)
    show thesis
      using that[OF eq _ _ zt(1,2)] zt(3-5) False t(2) off_cache_ready_on[OF oc] same_counts_trans[OF t(3) off_cache_counts[OF oc]]
        dev u(3) st(2) by simp
  qed
qed

lemma zone_freed:
  assumes ok: "zones_ok s sp" and b: "unat b < unat (map_bits ZMAP (SB s sp))" "b \<noteq> 0" "bit_freed sp ZMAP (unat b) s t"
    and u: "super_block u = (super_block t)(sp := (SB t sp)\<lparr>s_zsearch := zs\<rparr>)" "inode u = inode t" "off_cache t u"
  shows "zone_frame sp s u" and "zones_ok u sp"
    and "\<forall>y. data_zone (SB s sp) y \<longrightarrow> zone_used u sp y = (zone_bit (SB s sp) y \<noteq> b \<and> zone_used s sp y)"
proof -
  let ?sb = "SB s sp"
  have fit: "map_fits ZMAP ?sb" and f: "0 < s_firstdatazone ?sb" "ucast (s_firstdatazone ?sb) \<le> s_zones ?sb"
    using ok by (simp_all add: zones_ok_def)
  note zb = zone_bit_range[OF f]
  have le: "unat (map_bits ZMAP ?sb) \<le> unat (bit_blocks ZMAP ?sb) * 8192" using fit by (simp add: map_fits_def)
  have vb: "view_but (s_dev ?sb) (map_block ZMAP ?sb (unat b div 8192)) s t" using b(3) by (simp add: bit_freed_def)
  have ub: "SB u sp = ?sb\<lparr>s_zsearch := zs\<rparr>" using vb rest_frame[of t s] u(1) by (simp add: view_but_def)
  have B: "unat b div 8192 < unat (bit_blocks ZMAP ?sb)" using b(1) le by (simp add: div_less_iff_less_mult)
  show zf: "zone_frame sp s u" by (rule view_but_zone_frame[OF vb fit B u])
  have mb: "map_bit u sp ZMAP j = (j \<noteq> unat b \<and> map_bit s sp ZMAP j)" if "j < unat (bit_blocks ZMAP ?sb) * 8192" for j
    using zone_used_cong[OF u(3,1), of ZMAP j] b(3) that by (simp add: bit_freed_def)
  show "zones_ok u sp"
    using ok mb[of 0] B b(2) zone_frame_sb[OF zf] ub by (simp add: zones_ok_def map_fits_def unat_eq_zero)
  show "\<forall>y. data_zone ?sb y \<longrightarrow> zone_used u sp y = (zone_bit ?sb y \<noteq> b \<and> zone_used s sp y)"
  proof (intro allI impI)
    fix y assume y: "data_zone ?sb y"
    then show "zone_used u sp y = (zone_bit ?sb y \<noteq> b \<and> zone_used s sp y)"
      using mb[of "unat (zone_bit ?sb y)"] zb(3)[OF y] le ub by (simp add: zone_used_def word_unat_eq_iff)
  qed
qed

lemma free_zone_ok:
  assumes g: "get_super dev s = Inr sp" and r: "ready_on dev s" and ok: "zones_ok s sp"
  shows "if \<not> data_zone (SB s sp) z then free_zone dev z s = Inr s
    else if zone_used s sp z
    then \<exists>s'. free_zone dev z s = Inr s' \<and> ready_on dev s' \<and> same_counts s s' \<and> zone_frame sp s s' \<and> zones_ok s' sp
           \<and> (\<forall>y. data_zone (SB s sp) y \<longrightarrow> zone_used s' sp y = (y \<noteq> z \<and> zone_used s sp y))
    else \<exists>e. free_zone dev z s = Inl (Panic e)"
proof (cases "data_zone (SB s sp) z")
  case False
  then have "free_zone dev z s = Inr s" using g by (auto simp: free_zone_def data_zone_def not_le not_less)
  with False show ?thesis by simp
next
  case True
  let ?sb = "SB s sp" and ?b = "zone_bit (SB s sp) z"
  have dev: "s_dev ?sb = dev" using get_super_ok[OF g] by simp
  have fit: "map_fits ZMAP ?sb" and rw: "\<not> s_rd_only ?sb"
    and f: "0 < s_firstdatazone ?sb" "ucast (s_firstdatazone ?sb) \<le> s_zones ?sb"
    using ok by (simp_all add: zones_ok_def)
  have bb: "0 < unat ?b" "unat ?b < unat (map_bits ZMAP ?sb)" using zone_bit_range(3)[OF f True] by simp_all
  then have B: "unat ?b < unat (bit_blocks ZMAP ?sb) * 8192" and b0: "?b \<noteq> 0" using fit by (auto simp: map_fits_def)
  have nlt: "\<not> (z < ucast (s_firstdatazone ?sb) \<or> z \<ge> s_zones ?sb)" using True by (auto simp: data_zone_def)
  note fb = free_bit_ok[OF r[folded dev] fit rw B]
  show ?thesis
  proof (cases "zone_used s sp z")
    case False
    then show ?thesis using True fb g nlt by (auto simp: zone_used_def free_zone_def)
  next
    case used: True
    obtain t where t: "free_bit sp ZMAP ?b s = Inr t" "ready_on (s_dev ?sb) t" "same_counts s t" "bit_freed sp ZMAP (unat ?b) s t"
      using fb used by (auto simp: zone_used_def)
    define u where "u = (if ?b < s_zsearch (SB t sp) then upd_super sp (s_zsearch_update (\<lambda>_. ?b)) t else t)"
    have oc: "off_cache t u" by (simp add: u_def off_cache_def)
    have u: "super_block u = (super_block t)(sp := (SB t sp)\<lparr>s_zsearch := if ?b < s_zsearch (SB t sp) then ?b else s_zsearch (SB t sp)\<rparr>)"
      "inode u = inode t"
      by (simp_all add: u_def)
    have eq: "free_zone dev z s = Inr u" using g t(1) nlt by (simp add: free_zone_def u_def Let_def)
    note zf = zone_freed[OF ok bb(2) b0 t(4) u oc]
    show ?thesis
      using True used eq zf t(2) dev off_cache_ready_on[OF oc] same_counts_trans[OF t(3) off_cache_counts[OF oc]] by simp
  qed
qed

lemma get_super_frame: "zone_frame sp s s' \<Longrightarrow> get_super dev s' = get_super dev s"
proof -
  assume "zone_frame sp s s'"
  then have "s_dev (SB s' i) = s_dev (SB s i)" for i
    by (cases "i = sp") (auto simp: zone_frame_def)
  then show ?thesis by (simp add: get_super_def)
qed

text \<open>C33. Zones are allocated and released exactly. The device has a super block, mounted for writing, whose zone map fits its blocks and lies
  below the limit of 4 GB, whose data area starts above zone 0 and inside the device, and whose map has bit 0 set (\<open>zones_ok\<close>); the
  cache has its invariant, a free buffer, and devices that do not fail (\<open>ready_on\<close>). Then \<open>alloc_zone\<close> returns, whatever zone it is
  asked to search from. When every zone of the data area is in use it returns \<open>NO_ZONE\<close> with the error \<open>ENOSPC\<close>. Otherwise it
  returns a zone of the data area that was free; exactly this zone becomes one in use, and the contents of no block outside the zone
  map change. Releasing the zone with \<open>free_zone\<close> succeeds and gives the former set of zones in use.\<close>

theorem alloc_free_zone:
  assumes "get_super dev s = Inr sp" and "ready_on dev s" and "zones_ok s sp"
  shows "\<exists>z' s'. alloc_zone dev z s = Inr (z', s') \<and> zone_frame sp s s'
     \<and> (if \<forall>y. data_zone (SB s sp) y \<longrightarrow> zone_used s sp y
         then z' = NO_ZONE \<and> err_code s' = ENOSPC
         else data_zone (SB s sp) z' \<and> \<not> zone_used s sp z'
              \<and> (\<forall>y. data_zone (SB s sp) y \<longrightarrow> zone_used s' sp y = (y = z' \<or> zone_used s sp y))
              \<and> (\<exists>s''. free_zone dev z' s' = Inr s''
                   \<and> (\<forall>y. data_zone (SB s sp) y \<longrightarrow> zone_used s'' sp y = zone_used s sp y)))"
proof -
  obtain z' s' where a: "alloc_zone dev z s = Inr (z', s')" "ready_on dev s'" "zone_frame sp s s'" "zones_ok s' sp"
    "if \<forall>y. data_zone (SB s sp) y \<longrightarrow> zone_used s sp y
         then z' = NO_ZONE \<and> err_code s' = ENOSPC \<and> (\<forall>y. data_zone (SB s sp) y \<longrightarrow> zone_used s' sp y)
         else data_zone (SB s sp) z' \<and> \<not> zone_used s sp z' \<and> err_code s' = err_code s
              \<and> (\<forall>y. data_zone (SB s sp) y \<longrightarrow> zone_used s' sp y = (y = z' \<or> zone_used s sp y))"
    by (rule alloc_zone_ok[OF assms])
  show ?thesis
  proof (cases "\<forall>y. data_zone (SB s sp) y \<longrightarrow> zone_used s sp y")
    case False
    then have z: "data_zone (SB s sp) z'" "\<not> zone_used s sp z'"
      "\<forall>y. data_zone (SB s sp) y \<longrightarrow> zone_used s' sp y = (y = z' \<or> zone_used s sp y)" using a(5) by auto
    have "get_super dev s' = Inr sp" using assms(1) get_super_frame[OF a(3)] by simp
    from free_zone_ok[OF this a(2,4), of z'] obtain s'' where
      "free_zone dev z' s' = Inr s''" "\<forall>y. data_zone (SB s sp) y \<longrightarrow> zone_used s'' sp y = (y \<noteq> z' \<and> zone_used s' sp y)"
      using z by (auto simp: zone_frame_sb[OF a(3)])
    moreover have "\<forall>y. data_zone (SB s sp) y \<longrightarrow> zone_used s'' sp y = zone_used s sp y" using calculation(2) z(2,3) by blast
    ultimately show ?thesis using a(1,3) False z by auto
  qed (use a in auto)
qed


text \<open>A small file system of 100 zones with an empty data area, mounted in slot 0.\<close>

definition made_super :: super_block_t where
  "made_super =
     \<lparr>s_ninodes = 64, s_nzones = 100, s_imap_blocks = 1, s_zmap_blocks = 1, s_firstdatazone = 8, s_log_zone_size = 0,
      s_max_size = 0x10000000, s_magic = 0x2468, s_zones = 100, s_isup = None, s_imount = None, s_inodes_per_block = 16,
      s_dev = 0x301, s_rd_only = False, s_native = True, s_version = 2, s_ndzones = 7, s_nindirs = 256,
      s_isearch = 0, s_zsearch = 0\<rparr>"

definition fs_made :: fs where
  "fs_made = buf_pool (fs_start\<lparr>super_block := (super_block fs_start)(0 := made_super),
     disk := (\<lambda>_ p j. if j = 0 \<and> (p = pos_of 2 \<or> p = pos_of 3) then 1 else 0)\<rparr>)"

lemma content_made: "content {} fs_made 0x301 b j = (if j = 0 \<and> (b = 2 \<or> b = 3) then 1 else 0)" if "b < max_block"
proof -
  have "content {} fs_made 0x301 b = disk (fs_start\<lparr>super_block := (super_block fs_start)(0 := made_super),
     disk := (\<lambda>_ p j. if j = 0 \<and> (p = pos_of 2 \<or> p = pos_of 3) then 1 else 0)\<rparr>) 0x301 (pos_of b)"
    unfolding fs_made_def by (rule buf_pool_ok(2)) (simp_all add: fs_start_def reliable_def that)
  moreover have "pos_of b = 2048 \<longleftrightarrow> b = 2" "pos_of b = 3072 \<longleftrightarrow> b = 3"
    using pos_inj[OF that, of 2] pos_inj[OF that, of 3] by (auto simp: word_less_nat_alt)
  ultimately show ?thesis by auto
qed

lemma ready_made: "ready_on 0x301 fs_made"
proof -
  have "fs_ok {} fs_made" unfolding fs_made_def by (rule buf_pool_ok) (simp_all add: fs_start_def reliable_def)
  moreover have "b_count (buf fs_made i) = 0" for i by (simp add: fs_made_def buf_pool_def fs_start_def Let_def)
  ultimately show ?thesis by (auto simp: ready_on_def roomy_def intro!: exI[of _ 0])
qed

lemma super_made: "SB fs_made 0 = made_super" "get_super 0x301 fs_made = Inr 0"
proof -
  show "SB fs_made 0 = made_super" by (simp add: fs_made_def buf_pool_def Let_def)
  then have "s_dev (SB fs_made 0) = 0x301" by (simp add: made_super_def)
  moreover have "[0..<NR_SUPERS] = 0 # [1..<8]" by (simp add: upt_rec)
  ultimately show "get_super 0x301 fs_made = Inr 0" by (simp add: get_super_def)
qed

lemma zones_made: "zones_ok fs_made 0" "\<not> zone_used fs_made 0 8" "data_zone (SB fs_made 0) 8"
proof -
  note d = super_made(1) made_super_def
  have "map_fits ZMAP (SB fs_made 0)" by (simp add: d map_fits_def map_bits_def bit_blocks_def start_block_def)
  moreover have "map_bit fs_made 0 ZMAP 0"
    by (simp add: d map_bit_def start_block_def bit_of_def swap16_def conv2_def bit_simps get16_def content_made word_less_nat_alt)
  ultimately show "zones_ok fs_made 0" by (simp add: zones_ok_def d)
  show "\<not> zone_used fs_made 0 8"
    by (simp add: d zone_used_def map_bit_def start_block_def bit_of_def swap16_def conv2_def bit_simps get16_def content_made word_less_nat_alt)
  show "data_zone (SB fs_made 0) 8" by (simp add: d data_zone_def)
qed

theorem alloc_free_zone_witness:
  "\<exists>z' s' s''. alloc_zone 0x301 8 fs_made = Inr (z', s') \<and> \<not> zone_used fs_made 0 z' \<and> zone_used s' 0 z'
     \<and> free_zone 0x301 z' s' = Inr s'' \<and> \<not> zone_used s'' 0 z'"
proof -
  have "\<not> (\<forall>y. data_zone (SB fs_made 0) y \<longrightarrow> zone_used fs_made 0 y)" using zones_made(2,3) by blast
  then show ?thesis
    using alloc_free_zone[OF super_made(2) ready_made zones_made(1), of 8] by (simp only: if_False) blast
qed

end
