(* ===== verification/Spec2Isabelle.thy ===== *)
theory Spec2Isabelle
  imports Rendezvous Service Mm_Alloc Fs_Bitmap
begin

text \<open>
  A verification of the kernel of MINIX4RT.
\<close>

end
